(* ===== verification/Prelude.thy ===== *)
theory Prelude
  imports Main "HOL-Library.Word"
begin

unbundle bit_operations_syntax

text \<open>
  Shared vocabulary of the development: the ways a run of the program can fail to return,
  the sequencing of fallible steps, block moves on fixed-size arrays, and the facts about
  strictly sorted key arrays and about bits that several components use.
\<close>

subsection \<open>Failures\<close>

text \<open>
  A C++ operation returns a value, or stops the process in an \<open>assert\<close>, or leaves it with
  \<open>exit(0)\<close>, or spins in a loop whose condition can no longer change,
  or takes a step without a defined result (an access outside an array or through a value that is no
  address, the conversion of a double to an integer type that cannot hold it), or divides by zero, or (in a loop
  whose length depends on random draws) is still running when the fuel of the model is used up.
\<close>

datatype failure = AssertFail | ExitCall | Spin | OutOfBounds | DivZero | OutOfFuel

type_synonym 'a res = "failure + 'a"

fun bindR :: "'a res \<Rightarrow> ('a \<Rightarrow> 'b res) \<Rightarrow> 'b res" where
  "bindR (Inl e) f = Inl e"
| "bindR (Inr x) f = f x"

definition assertR :: "bool \<Rightarrow> 'b res \<Rightarrow> 'b res" where
  "assertR b k = (if b then k else Inl AssertFail)"

lemma bindR_Inr_iff: "bindR m f = Inr y \<longleftrightarrow> (\<exists>x. m = Inr x \<and> f x = Inr y)"
  by (cases m) auto

lemma bindR_Inl_iff: "bindR m f = Inl e \<longleftrightarrow> m = Inl e \<or> (\<exists>x. m = Inr x \<and> f x = Inl e)"
  by (cases m) auto

lemma bindR_assoc: "bindR (bindR m f) g = bindR m (\<lambda>x. bindR (f x) g)"
  by (cases m) auto

lemma assertR_True [simp]: "assertR True k = k"
  and assertR_False [simp]: "assertR False k = Inl AssertFail"
  by (simp_all add: assertR_def)

lemma assertR_Inr_iff: "assertR b k = Inr y \<longleftrightarrow> b \<and> k = Inr y"
  by (simp add: assertR_def)

subsection \<open>Machine integers\<close>

type_synonym u64 = "64 word"

text \<open>A store to a \<open>uint8_t\<close> field keeps the value modulo 256.\<close>

definition u8 :: "int \<Rightarrow> nat" where
  "u8 x = nat (x mod 256)"

lemma u8_of_nat [simp]: "n < 256 \<Longrightarrow> u8 (int n) = n"
  by (simp add: u8_def)

lemma u8_Suc: "n < 255 \<Longrightarrow> u8 (int n + 1) = Suc n"
  using u8_of_nat [of "Suc n"] by (simp add: add.commute)

lemma u8_pred: "0 < n \<Longrightarrow> n < 256 \<Longrightarrow> u8 (int n - 1) = n - 1"
  using u8_of_nat [of "n - 1"] by simp

lemma u8_diff: "m \<le> n \<Longrightarrow> n < 256 \<Longrightarrow> u8 (int n - int m) = n - m"
  using u8_of_nat [of "n - m"] by simp

lemma u8_less: "u8 x < 256"
proof -
  have "x mod 256 < 256" by (rule pos_mod_bound) simp
  then show ?thesis by (simp add: u8_def nat_less_iff)
qed

lemma dvd_step: "d dvd a \<Longrightarrow> d dvd b \<Longrightarrow> a < b \<Longrightarrow> a + d \<le> (b :: nat)"
  using dvd_imp_le [of d "b - a"] by simp

subsection \<open>Block moves on arrays\<close>

text \<open>
  An array of the source is a list of fixed length. \<open>blit dst d src s n\<close> is \<open>memcpy\<close>
  (or, with \<open>src = dst\<close>, \<open>memmove\<close>) of \<open>n\<close> elements from index \<open>s\<close> of
  \<open>src\<close> to index \<open>d\<close> of \<open>dst\<close>.
\<close>

definition blit :: "'a list \<Rightarrow> nat \<Rightarrow> 'a list \<Rightarrow> nat \<Rightarrow> nat \<Rightarrow> 'a list" where
  "blit dst d src s n = take d dst @ take n (drop s src) @ drop (d + n) dst"

lemma length_blit [simp]:
  "d + n \<le> length dst \<Longrightarrow> s + n \<le> length src \<Longrightarrow> length (blit dst d src s n) = length dst"
  by (simp add: blit_def)

lemma take_blit_insert:
  assumes "p \<le> n" "n < length xs"
  shows "take (Suc n) ((blit xs (p + 1) xs p (n - p))[p := x]) = take p xs @ x # drop p (take n xs)"
proof -
  have tk: "take (p + 1) xs = take p xs @ [xs ! p]"
    using assms by (simp add: take_Suc_conv_app_nth)
  have "(blit xs (p + 1) xs p (n - p))[p := x] =
      take p xs @ x # take (n - p) (drop p xs) @ drop (p + 1 + (n - p)) xs"
    using assms by (simp only: blit_def tk) (simp add: list_update_append)
  with assms show ?thesis by (simp add: drop_take Suc_diff_le)
qed

lemma take_blit_insert1:
  assumes "p \<le> n" "n + 1 < length xs"
  shows "take (Suc n) ((blit xs (p + 1) xs p (n - p + 1))[p := x]) = take p xs @ x # drop p (take n xs)"
proof -
  have n: "n + 1 - p = n - p + 1" using assms(1) by simp
  have "take (Suc n) ((blit xs (p + 1) xs p (n - p + 1))[p := x]) =
      take (Suc n) (take (Suc (n + 1)) ((blit xs (p + 1) xs p (n - p + 1))[p := x]))"
    by simp
  also have "\<dots> = take (Suc n) (take p xs @ x # drop p (take (n + 1) xs))"
    using take_blit_insert [of p "n + 1" xs x] assms unfolding n by simp
  also have "\<dots> = take p xs @ x # drop p (take n xs)"
    using assms by (simp add: Suc_diff_le drop_take)
  finally show ?thesis .
qed

lemma swap_insert:
  assumes "p < length xs" "ys = take p xs @ x # drop p xs"
  shows "ys[p := ys ! (p + 1), p + 1 := ys ! p] = take (Suc p) xs @ x # drop (Suc p) xs"
proof -
  have "drop p xs = xs ! p # drop (Suc p) xs" using assms(1) by (simp add: Cons_nth_drop_Suc)
  then show ?thesis
    using assms by (simp add: nth_append list_update_append take_Suc_conv_app_nth)
qed

lemma nth_insert_at:
  "p \<le> length xs \<Longrightarrow> i \<le> length xs \<Longrightarrow>
   (take p xs @ x # drop p xs) ! i = (if i < p then xs ! i else if i = p then x else xs ! (i - 1))"
  by (auto simp: nth_append nth_Cons min_def not_less split: nat.splits
      intro!: arg_cong [where f = "(!) xs"])

lemma take_blit_remove:
  assumes "p < n" "n \<le> length xs"
  shows "take (n - 1) (blit xs p xs (p + 1) (n - p - 1)) = take p xs @ drop (Suc p) (take n xs)"
  using assms by (simp add: blit_def drop_take)

lemma take_blit_prefix:
  assumes "s + n \<le> length src" "n \<le> length dst"
  shows "take n (blit dst 0 src s n) = take n (drop s src)"
  using assms by (simp add: blit_def)

subsection \<open>Strictly sorted keys\<close>

abbreviation sorted_keys :: "u64 list \<Rightarrow> bool" where
  "sorted_keys \<equiv> sorted_wrt (<)"

lemma sorted_keys_distinct: "sorted_keys xs \<Longrightarrow> distinct xs"
  by (induction xs) auto

lemma sorted_wrt_take: "sorted_wrt P xs \<Longrightarrow> sorted_wrt P (take n xs)"
  and sorted_wrt_drop: "sorted_wrt P xs \<Longrightarrow> sorted_wrt P (drop n xs)"
  by (metis append_take_drop_id sorted_wrt_append)+

lemma sorted_wrt_remove_at: "sorted_wrt P xs \<Longrightarrow> sorted_wrt P (take n xs @ drop (Suc n) xs)"
proof -
  assume s: "sorted_wrt P xs"
  have "set (drop (Suc n) xs) \<subseteq> set (drop n xs)"
    by (metis drop_drop plus_1_eq_Suc set_drop_subset)
  moreover have "\<forall>x\<in>set (take n xs). \<forall>y\<in>set (drop n xs). P x y"
    using s by (metis append_take_drop_id sorted_wrt_append)
  ultimately show ?thesis
    using s by (auto simp: sorted_wrt_append sorted_wrt_take sorted_wrt_drop)
qed

subsection \<open>Association lists with distinct keys\<close>

lemma map_of_mid: "k \<notin> fst ` set xs \<Longrightarrow> map_of (xs @ (k, v) # ys) = (map_of (xs @ ys))(k \<mapsto> v)"
  by (induction xs) auto

lemma map_of_insert_at:
  "k \<notin> fst ` set es \<Longrightarrow> map_of (take p es @ (k, v) # drop p es) = (map_of es)(k \<mapsto> v)"
  by (subst map_of_mid) (auto dest: in_set_takeD)

lemma map_of_nth: "distinct (map fst es) \<Longrightarrow> i < length es \<Longrightarrow> map_of es (fst (es ! i)) = Some (snd (es ! i))"
  by (metis map_of_eq_Some_iff nth_mem prod.collapse)

lemma map_of_update_at:
  assumes "distinct (map fst es)" "i < length es" "fst (es ! i) = k"
  shows "map_of (es[i := (k, v)]) = (map_of es)(k \<mapsto> v)"
proof -
  have es: "es = take i es @ (k, snd (es ! i)) # drop (Suc i) es"
    using assms(2,3) by (metis id_take_nth_drop prod.collapse)
  then have "distinct (map fst (take i es @ (k, snd (es ! i)) # drop (Suc i) es))"
    using assms(1) by simp
  then have k: "map_of (take i es) k = None"
    by (auto simp: map_of_eq_None_iff)
  have "map_of (es[i := (k, v)]) = map_of (take i es @ (k, v) # drop (Suc i) es)"
    using assms(2) by (simp add: upd_conv_take_nth_drop)
  also have "\<dots> = (map_of (take i es @ (k, snd (es ! i)) # drop (Suc i) es))(k \<mapsto> v)"
    using k by (auto simp: fun_eq_iff map_add_def split: option.splits)
  finally show ?thesis using es by simp
qed

lemma map_of_remove_at:
  assumes "distinct (map fst es)" "i < length es" "fst (es ! i) = k"
  shows "map_of (take i es @ drop (Suc i) es) = (map_of es)(k := None)"
proof -
  have es: "es = take i es @ (k, snd (es ! i)) # drop (Suc i) es"
    using assms(2,3) by (metis id_take_nth_drop prod.collapse)
  then have "distinct (map fst (take i es @ (k, snd (es ! i)) # drop (Suc i) es))"
    using assms(1) by simp
  then have "map_of (take i es) k = None" "map_of (drop (Suc i) es) k = None"
    by (auto simp: map_of_eq_None_iff)
  then have "map_of (take i es @ drop (Suc i) es) =
      (map_of (take i es @ (k, snd (es ! i)) # drop (Suc i) es))(k := None)"
    by (auto simp: fun_eq_iff map_add_def split: option.splits)
  then show ?thesis using es by simp
qed

end
