(* ===== verification/GlobalAddr.thy ===== *)
theory GlobalAddr
  imports Prelude
begin

text \<open>
  Global addresses (\<open>include/GlobalAddress.h\<close>) and the constants of
  \<open>include/Types.h\<close>. A \<open>GlobalAddress\<close> is one 64-bit value read either as the bit
  fields \<open>nodeID\<close> (low 16 bits) and \<open>offset\<close> (high 48 bits) or as \<open>val\<close>; the cache
  overloads bit 63 of \<open>val\<close> as the swizzle tag of a pointer into its pool.
\<close>

type_synonym gaddr = u64

definition PAGE_SIZE :: u64 where "PAGE_SIZE = 1024"
definition SWIZZLE_TAG :: u64 where "SWIZZLE_TAG = push_bit 63 1"
definition SWIZZLE_HIDE :: u64 where "SWIZZLE_HIDE = push_bit 63 1 - 1"

datatype page_type = PT_None | BTreeInner | BTreeLeaf

datatype pos_state = POS_REMOTE | POS_COOL | POS_HOT | POS_LOCAL | POS_PIN

definition nodeID :: "gaddr \<Rightarrow> u64" where
  "nodeID v = v AND 0xFFFF"

definition offset :: "gaddr \<Rightarrow> u64" where
  "offset v = drop_bit 16 v"

definition mk_gaddr :: "u64 \<Rightarrow> u64 \<Rightarrow> gaddr" where
  "mk_gaddr nid off = (nid AND 0xFFFF) OR push_bit 16 off"

definition ga_Null :: gaddr where "ga_Null = 0"

definition GADD :: "gaddr \<Rightarrow> int \<Rightarrow> gaddr" where
  "GADD addr off = mk_gaddr (nodeID addr) (offset addr + word_of_int off)"

definition ga_eq :: "gaddr \<Rightarrow> gaddr \<Rightarrow> bool" where
  "ga_eq lhs rhs \<longleftrightarrow> nodeID lhs = nodeID rhs \<and> offset lhs = offset rhs"

definition ga_neq :: "gaddr \<Rightarrow> gaddr \<Rightarrow> bool" where
  "ga_neq lhs rhs \<longleftrightarrow> \<not> ga_eq lhs rhs"

definition swizzled :: "u64 \<Rightarrow> bool" where
  "swizzled v \<longleftrightarrow> v AND SWIZZLE_TAG \<noteq> 0"

definition swz :: "u64 \<Rightarrow> u64" where
  "swz p = p OR SWIZZLE_TAG"

definition hide :: "u64 \<Rightarrow> u64" where
  "hide v = v AND SWIZZLE_HIDE"

subsection \<open>Fields\<close>

lemma ffff_mask: "(0xFFFF :: u64) = mask 16"
  by (simp add: mask_eq_exp_minus_1)

lemma SWIZZLE_HIDE_mask: "SWIZZLE_HIDE = mask 63"
  by (simp add: SWIZZLE_HIDE_def mask_eq_exp_minus_1 push_bit_eq_mult)

lemma bit_SWIZZLE_TAG: "bit SWIZZLE_TAG n \<longleftrightarrow> n = 63"
  unfolding SWIZZLE_TAG_def by (simp only: bit_push_bit_iff bit_1_iff possible_bit_word) auto

lemma swizzled_iff_bit: "swizzled v \<longleftrightarrow> bit v 63"
proof
  assume "swizzled v"
  then obtain n where "bit (v AND SWIZZLE_TAG) n"
    unfolding swizzled_def by (metis bit_eqI bit_0_eq bot_apply bot_bool_def)
  then show "bit v 63" by (auto simp: bit_and_iff bit_SWIZZLE_TAG)
next
  assume "bit v 63"
  then have "bit (v AND SWIZZLE_TAG) 63" by (simp add: bit_and_iff bit_SWIZZLE_TAG)
  then show "swizzled v" unfolding swizzled_def by (metis bit_0_eq bot_apply bot_bool_def)
qed

lemma swizzled_swz [simp]: "swizzled (swz p)"
  by (simp add: swizzled_iff_bit swz_def bit_or_iff bit_SWIZZLE_TAG)

lemma word_eq_63: "(\<And>n. n < 63 \<Longrightarrow> bit a n = bit b n) \<Longrightarrow> bit a 63 = bit b 63 \<Longrightarrow> a = (b :: u64)"
proof (rule bit_word_eqI)
  fix n :: nat
  assume "\<And>n. n < 63 \<Longrightarrow> bit a n = bit b n" "bit a 63 = bit b 63" "n < LENGTH(64)"
  then show "bit a n = bit b n" by (cases "n = 63") auto
qed

lemma hide_swz [simp]: "\<not> swizzled p \<Longrightarrow> hide (swz p) = p"
  by (rule word_eq_63)
    (auto simp: hide_def swz_def SWIZZLE_HIDE_mask bit_simps bit_SWIZZLE_TAG swizzled_iff_bit)

lemma swz_hide [simp]: "swizzled v \<Longrightarrow> swz (hide v) = v"
  by (rule word_eq_63)
    (auto simp: hide_def swz_def SWIZZLE_HIDE_mask bit_simps bit_SWIZZLE_TAG swizzled_iff_bit)

lemma not_swizzled_hide [simp]: "\<not> swizzled (hide v)"
  by (simp add: swizzled_iff_bit hide_def SWIZZLE_HIDE_mask bit_simps)

lemma swz_inject: "\<not> swizzled p \<Longrightarrow> \<not> swizzled q \<Longrightarrow> swz p = swz q \<longleftrightarrow> p = q"
  by (metis hide_swz)

lemma nodeID_offset_inject: "nodeID a = nodeID b \<Longrightarrow> offset a = offset b \<Longrightarrow> a = b"
proof (rule bit_eqI)
  fix n
  assume n: "nodeID a = nodeID b" and o: "offset a = offset b"
  show "bit a n = bit b n"
  proof (cases "n < 16")
    case True
    with n have "bit (nodeID a) n = bit (nodeID b) n" by simp
    with True show ?thesis by (simp add: nodeID_def ffff_mask bit_simps)
  next
    case False
    from o have "bit (offset a) (n - 16) = bit (offset b) (n - 16)" by simp
    with False show ?thesis by (simp add: offset_def bit_simps)
  qed
qed

lemma ga_eq_iff: "ga_eq a b \<longleftrightarrow> a = b"
  by (auto simp: ga_eq_def intro: nodeID_offset_inject)

lemma ga_neq_iff: "ga_neq a b \<longleftrightarrow> a \<noteq> b"
  by (simp add: ga_neq_def ga_eq_iff)

lemma not_bit_small: "unat (w :: u64) < 2 ^ k \<Longrightarrow> k \<le> n \<Longrightarrow> \<not> bit w n"
proof -
  assume w: "unat w < 2 ^ k" and kn: "k \<le> n"
  have "(2 :: nat) ^ k \<le> 2 ^ n" using kn by simp
  with w have "unat w < 2 ^ n" by (rule less_le_trans)
  then have "unat w div 2 ^ n = 0" by (rule div_less)
  then have "\<not> bit (unat w) n" by (simp add: bit_iff_odd)
  then show "\<not> bit w n" by (auto simp: bit_unsigned_iff)
qed

lemma unat_offset_less: "unat (offset a) < 2 ^ 48"
proof -
  have "unat (offset a) = unat a div 2 ^ 16"
    by (simp add: offset_def drop_bit_eq_div unat_div)
  moreover have "unat a < 2 ^ 64" using unsigned_less [of a] by simp
  ultimately show ?thesis by (simp add: less_mult_imp_div_less)
qed

lemma offset_mk_gaddr: "offset (mk_gaddr nid off) = off AND mask 48"
  by (rule bit_word_eqI)
    (auto simp: offset_def mk_gaddr_def ffff_mask bit_simps)

lemma nodeID_mk_gaddr: "nodeID (mk_gaddr nid off) = nid AND mask 16"
  by (rule bit_word_eqI)
    (auto simp: nodeID_def mk_gaddr_def ffff_mask bit_simps)

lemma mask_small: "unat (w :: u64) < 2 ^ k \<Longrightarrow> w AND mask k = w"
proof (rule bit_word_eqI)
  fix n
  assume "unat w < 2 ^ k"
  then have "\<not> n < k \<Longrightarrow> \<not> bit w n" using not_bit_small [of w k n] by simp
  then show "bit (w AND mask k) n = bit w n" by (auto simp: bit_simps dest: bit_imp_le_length)
qed

lemma offset_mk_gaddr_small [simp]: "unat off < 2 ^ 48 \<Longrightarrow> offset (mk_gaddr nid off) = off"
  by (simp only: offset_mk_gaddr mask_small)

lemma mk_gaddr_fields: "mk_gaddr (nodeID a) (offset a) = a"
proof (rule nodeID_offset_inject)
  show "nodeID (mk_gaddr (nodeID a) (offset a)) = nodeID a"
    by (simp only: nodeID_mk_gaddr) (simp only: nodeID_def ffff_mask and.assoc and.idem)
  show "offset (mk_gaddr (nodeID a) (offset a)) = offset a"
    by (simp only: offset_mk_gaddr mask_small [OF unat_offset_less])
qed

text \<open>Addresses below \<open>2 ^ 47\<close> bytes keep bit 63 clear, so they are never mistaken for a
  swizzled pointer.\<close>

lemma mk_gaddr_not_swizzled: "unat off < 2 ^ 47 \<Longrightarrow> \<not> swizzled (mk_gaddr 0 off)"
  using not_bit_small [of off 47 47] by (auto simp: swizzled_iff_bit mk_gaddr_def bit_simps)

lemma swizzled_mk_gaddr_high: "swizzled (mk_gaddr nid (push_bit 47 1))"
  by (auto simp: swizzled_iff_bit mk_gaddr_def bit_simps ffff_mask simp del: push_bit_numeral)

text \<open>\<open>GADD\<close> moves the offset and leaves the node id alone; the 48-bit offset field wraps.\<close>

lemma GADD_fields:
  "nodeID (GADD a n) = nodeID a \<and>
   unat (offset (GADD a n)) = nat ((int (unat (offset a)) + n) mod 2 ^ 48)"
proof -
  have nid: "nodeID (GADD a n) = nodeID a"
    by (simp add: GADD_def nodeID_mk_gaddr) (simp add: nodeID_def ffff_mask and.assoc)
  have "uint (offset (GADD a n)) = uint (offset a + word_of_int n) mod 2 ^ 48"
    by (simp add: GADD_def offset_mk_gaddr take_bit_eq_mask [symmetric] take_bit_eq_mod uint_mod)
  also have "\<dots> = (uint (offset a) + n) mod 2 ^ 64 mod 2 ^ 48"
    by (simp add: uint_word_ariths uint_word_of_int mod_simps)
  also have "\<dots> = (uint (offset a) + n) mod 2 ^ 48"
    by (rule mod_mod_cancel) (rule le_imp_power_dvd, simp)
  finally have u: "uint (offset (GADD a n)) = (int (unat (offset a)) + n) mod 2 ^ 48"
    by (simp only: uint_nat)
  have "unat (offset (GADD a n)) = nat (uint (offset (GADD a n)))"
    by (rule nat_uint_eq [symmetric])
  also have "\<dots> = nat ((int (unat (offset a)) + n) mod 2 ^ 48)"
    by (simp only: u)
  finally show ?thesis using nid by blast
qed

end
