(* ===== verification/Backend.thy ===== *)
theory Backend
  imports GlobalAddr
begin

text \<open>
  The storage layer: the abstract class \<open>Backend\<close> (\<open>include/memory/Backend.h\<close>) as a
  locale, and its implementation \<open>InMemoryBackend\<close> (\<open>include/memory/InMemoryBackend.h\<close>)
  at the level of bytes. The cache talks to a backend in whole pages only; the record
  \<open>pstore\<close> is that page view, and the last part shows that the byte-level operations
  implement it on page-aligned addresses.
\<close>

subsection \<open>The byte-level implementation\<close>

type_synonym byte = "8 word"

record in_memory_backend =
  capacity_bytes :: u64
  cur_offset :: u64
  store :: "byte list"

definition InMemoryBackend :: "u64 \<Rightarrow> in_memory_backend" where
  "InMemoryBackend page_nums =
     \<lparr>capacity_bytes = page_nums * PAGE_SIZE, cur_offset = PAGE_SIZE,
      store = replicate (unat (page_nums * PAGE_SIZE)) 0\<rparr>"

definition be_read :: "in_memory_backend \<Rightarrow> gaddr \<Rightarrow> u64 \<Rightarrow> byte list option" where
  "be_read b addr sz =
     (if offset addr + sz > capacity_bytes b then None
      else Some (take (unat sz) (drop (unat (offset addr)) (store b))))"

definition be_write :: "in_memory_backend \<Rightarrow> gaddr \<Rightarrow> byte list \<Rightarrow> u64 \<Rightarrow> bool \<times> in_memory_backend" where
  "be_write b addr buf sz =
     (if offset addr + sz > capacity_bytes b then (False, b)
      else (True, b\<lparr>store := blit (store b) (unat (offset addr)) buf 0 (unat sz)\<rparr>))"

definition rounded_size :: "u64 \<Rightarrow> u64" where
  "rounded_size sz = ((sz + PAGE_SIZE - 1) div PAGE_SIZE) * PAGE_SIZE"

definition be_alloc :: "in_memory_backend \<Rightarrow> u64 \<Rightarrow> gaddr \<times> in_memory_backend" where
  "be_alloc b sz =
     (let rounded = rounded_size sz
      in if cur_offset b + rounded > capacity_bytes b then (ga_Null, b)
         else (mk_gaddr 0 (cur_offset b), b\<lparr>cur_offset := cur_offset b + rounded\<rparr>))"

subsection \<open>Page-granular view\<close>

text \<open>
  What the cache uses of a backend: it reads, writes and allocates \<open>PAGE_SIZE\<close> bytes at a
  time. A page image of any type \<open>'p\<close> is stored under its byte offset.
\<close>

record 'p pstore =
  ps_capacity :: u64
  ps_cur :: u64
  ps_page :: "u64 \<Rightarrow> 'p"

definition ps_read :: "'p pstore \<Rightarrow> gaddr \<Rightarrow> 'p option" where
  "ps_read b addr =
     (if offset addr + PAGE_SIZE > ps_capacity b then None else Some (ps_page b (offset addr)))"

definition ps_write :: "'p pstore \<Rightarrow> gaddr \<Rightarrow> 'p \<Rightarrow> 'p pstore" where
  "ps_write b addr p =
     (if offset addr + PAGE_SIZE > ps_capacity b then b
      else b\<lparr>ps_page := (ps_page b)(offset addr := p)\<rparr>)"

definition ps_alloc :: "'p pstore \<Rightarrow> gaddr \<times> 'p pstore" where
  "ps_alloc b =
     (if ps_cur b + PAGE_SIZE > ps_capacity b then (ga_Null, b)
      else (mk_gaddr 0 (ps_cur b), b\<lparr>ps_cur := ps_cur b + PAGE_SIZE\<rparr>))"

text \<open>The addresses handed out so far: node 0, page-aligned, above the reserved first page.\<close>

definition ps_allocated :: "'p pstore \<Rightarrow> gaddr set" where
  "ps_allocated b = {a. nodeID a = 0 \<and> 1024 dvd unat (offset a) \<and> 1024 \<le> unat (offset a) \<and>
      unat (offset a) + 1024 \<le> unat (ps_cur b)}"

definition ps_ok :: "'p pstore \<Rightarrow> bool" where
  "ps_ok b \<longleftrightarrow> unat (ps_capacity b) < 2 ^ 47 \<and> 1024 \<le> unat (ps_cur b) \<and>
     1024 dvd unat (ps_cur b) \<and> ps_cur b \<le> ps_capacity b"

subsection \<open>The interface\<close>

locale page_backend =
  fixes rd :: "'b \<Rightarrow> gaddr \<Rightarrow> 'p option"
    and wr :: "'b \<Rightarrow> gaddr \<Rightarrow> 'p \<Rightarrow> 'b"
    and al :: "'b \<Rightarrow> gaddr \<times> 'b"
    and allocated :: "'b \<Rightarrow> gaddr set"
    and inv :: "'b \<Rightarrow> bool"
    and page_ok :: "'p \<Rightarrow> bool"
  assumes rd_allocated: "inv b \<Longrightarrow> a \<in> allocated b \<Longrightarrow> rd b a \<noteq> None"
    and rd_wr_same: "inv b \<Longrightarrow> a \<in> allocated b \<Longrightarrow> page_ok p \<Longrightarrow> rd (wr b a p) a = Some p"
    and rd_wr_other: "inv b \<Longrightarrow> a \<in> allocated b \<Longrightarrow> a' \<in> allocated b \<Longrightarrow> a' \<noteq> a \<Longrightarrow> page_ok p \<Longrightarrow>
      rd (wr b a p) a' = rd b a'"
    and inv_wr: "inv b \<Longrightarrow> page_ok p \<Longrightarrow> inv (wr b a p)"
    and allocated_wr: "allocated (wr b a p) = allocated b"
    and al_fail: "inv b \<Longrightarrow> al b = (ga_Null, b') \<Longrightarrow> b' = b"
    and al_fresh: "inv b \<Longrightarrow> al b = (a, b') \<Longrightarrow> a \<noteq> ga_Null \<Longrightarrow>
      a \<notin> allocated b \<and> allocated b' = insert a (allocated b) \<and> \<not> swizzled a"
    and al_inv: "inv b \<Longrightarrow> al b = (a, b') \<Longrightarrow> inv b'"
    and al_rd: "inv b \<Longrightarrow> al b = (a, b') \<Longrightarrow> rd b' = rd b"
    and Null_not_allocated: "ga_Null \<notin> allocated b"
begin

text \<open>A page just allocated and written is read back, whatever is written elsewhere later.\<close>

lemma alloc_write_read:
  assumes "inv b" "al b = (a, b1)" "a \<noteq> ga_Null" "page_ok p" "page_ok q"
    "a' \<in> allocated b"
  shows "rd (wr (wr b1 a p) a' q) a = Some p"
proof -
  have fresh: "a \<notin> allocated b" "allocated b1 = insert a (allocated b)"
    using al_fresh [OF assms(1,2,3)] by simp_all
  have inv1: "inv b1" using assms(1,2) by (rule al_inv)
  have "rd (wr (wr b1 a p) a' q) a = rd (wr b1 a p) a"
    using assms fresh inv1 by (intro rd_wr_other) (auto simp: allocated_wr inv_wr)
  also have "\<dots> = Some p"
    using assms fresh inv1 by (intro rd_wr_same) auto
  finally show ?thesis .
qed

text \<open>Two successful allocations never return the same address.\<close>

lemma alloc_alloc_distinct:
  assumes "inv b" "al b = (a, b1)" "al b1 = (a', b2)" "a \<noteq> ga_Null" "a' \<noteq> ga_Null"
  shows "a' \<noteq> a \<and> {a, a'} \<subseteq> allocated b2"
proof -
  have "allocated b1 = insert a (allocated b)"
    using al_fresh [OF assms(1,2,4)] by simp
  moreover have "a' \<notin> allocated b1" "allocated b2 = insert a' (allocated b1)"
    using al_fresh [OF al_inv [OF assms(1,2)] assms(3,5)] by simp_all
  ultimately show ?thesis by auto
qed

end

subsection \<open>The page view provides the interface\<close>

lemma PAGE_SIZE_unat [simp]: "unat PAGE_SIZE = 1024"
  by (simp add: PAGE_SIZE_def)

lemma unat_add_PAGE_SIZE: "unat (a :: u64) < 2 ^ 48 \<Longrightarrow> unat (a + PAGE_SIZE) = unat a + 1024"
  by (subst unat_add_lem [THEN iffD1]) simp_all

lemma ps_in_bounds_iff:
  "(offset a + PAGE_SIZE > ps_capacity b) \<longleftrightarrow> unat (ps_capacity b) < unat (offset a) + 1024"
  using unat_add_PAGE_SIZE [OF unat_offset_less] by (simp add: word_less_nat_alt)

lemma ps_allocated_in_bounds:
  assumes "ps_ok b" "a \<in> ps_allocated b"
  shows "\<not> offset a + PAGE_SIZE > ps_capacity b"
proof -
  have "unat (ps_cur b) \<le> unat (ps_capacity b)"
    using assms(1) by (simp add: ps_ok_def word_le_nat_alt)
  with assms(2) show ?thesis by (simp add: ps_in_bounds_iff ps_allocated_def)
qed

lemma ps_allocated_eqI: "a \<in> ps_allocated b \<Longrightarrow> a' \<in> ps_allocated b \<Longrightarrow> offset a = offset a' \<Longrightarrow> a = a'"
  by (auto simp: ps_allocated_def intro: nodeID_offset_inject)

lemma ps_allocated_not_swizzled:
  assumes "ps_ok b" "a \<in> ps_allocated b"
  shows "\<not> swizzled a"
proof -
  have "unat (ps_cur b) \<le> unat (ps_capacity b)"
    using assms(1) by (simp add: ps_ok_def word_le_nat_alt)
  then have "unat (offset a) < 2 ^ 47"
    using assms by (simp add: ps_allocated_def ps_ok_def)
  moreover have "mk_gaddr 0 (offset a) = a"
    using assms(2) mk_gaddr_fields [of a] by (simp add: ps_allocated_def)
  ultimately show ?thesis by (metis mk_gaddr_not_swizzled)
qed

lemma ps_alloc_cases:
  assumes "ps_ok b"
  shows "ps_alloc b = (ga_Null, b) \<or>
    (\<exists>off. off = ps_cur b \<and> unat off + 1024 \<le> unat (ps_capacity b) \<and>
      ps_alloc b = (mk_gaddr 0 off, b\<lparr>ps_cur := off + PAGE_SIZE\<rparr>) \<and>
      unat (off + PAGE_SIZE) = unat off + 1024 \<and> unat off < 2 ^ 47)"
proof -
  have cap: "unat (ps_cur b) \<le> unat (ps_capacity b)" "unat (ps_capacity b) < 2 ^ 47"
    using assms by (simp_all add: ps_ok_def word_le_nat_alt)
  then have add: "unat (ps_cur b + PAGE_SIZE) = unat (ps_cur b) + 1024"
    by (intro unat_add_PAGE_SIZE) simp
  show ?thesis
    using cap add by (auto simp: ps_alloc_def word_less_nat_alt)
qed

lemma mk_gaddr_0_fields:
  "unat off < 2 ^ 47 \<Longrightarrow> offset (mk_gaddr 0 off) = off \<and> nodeID (mk_gaddr 0 off) = 0"
  by (simp add: nodeID_mk_gaddr)

lemma ps_alloc_fresh:
  assumes "ps_ok b" "ps_alloc b = (a, b')" "a \<noteq> ga_Null"
  shows "a \<notin> ps_allocated b \<and> ps_allocated b' = insert a (ps_allocated b) \<and> ps_ok b' \<and> a \<in> ps_allocated b'"
proof -
  from ps_alloc_cases [OF assms(1)] assms(2,3)
  have a: "a = mk_gaddr 0 (ps_cur b)" and b': "b' = b\<lparr>ps_cur := ps_cur b + PAGE_SIZE\<rparr>"
    and cap: "unat (ps_cur b) + 1024 \<le> unat (ps_capacity b)"
    and add: "unat (ps_cur b + PAGE_SIZE) = unat (ps_cur b) + 1024" and lt: "unat (ps_cur b) < 2 ^ 47"
    by auto
  have off: "offset a = ps_cur b" "nodeID a = 0"
    using mk_gaddr_0_fields [OF lt] a by simp_all
  have ok: "1024 dvd unat (ps_cur b)" "1024 \<le> unat (ps_cur b)"
    using assms(1) by (simp_all add: ps_ok_def)
  have "x \<in> ps_allocated b' \<longleftrightarrow> x = a \<or> x \<in> ps_allocated b" for x
  proof
    assume x: "x \<in> ps_allocated b'"
    show "x = a \<or> x \<in> ps_allocated b"
    proof (cases "unat (offset x) = unat (ps_cur b)")
      case True
      then have "offset x = offset a" using off by (simp add: word_unat_eq_iff)
      then show ?thesis using x off by (auto simp: ps_allocated_def intro: nodeID_offset_inject)
    next
      case False
      have "1024 dvd unat (offset x)" "unat (offset x) \<le> unat (ps_cur b)"
        using x by (simp_all add: ps_allocated_def b' add)
      with False ok(1) have "unat (offset x) + 1024 \<le> unat (ps_cur b)"
        by (intro dvd_step) simp_all
      then show ?thesis using x by (simp add: ps_allocated_def)
    qed
  qed (use off ok in \<open>auto simp: ps_allocated_def b' add\<close>)
  moreover have "a \<notin> ps_allocated b" using off by (simp add: ps_allocated_def)
  moreover have "ps_ok b'"
    using assms(1) cap ok by (simp add: ps_ok_def b' add word_le_nat_alt)
  ultimately show ?thesis by auto
qed

lemma ps_alloc_Null: "ps_ok b \<Longrightarrow> ps_alloc b = (ga_Null, b') \<Longrightarrow> b' = b"
proof (rule ccontr)
  assume ok: "ps_ok b" and al: "ps_alloc b = (ga_Null, b')" and ne: "b' \<noteq> b"
  from ps_alloc_cases [OF ok] al ne
  have "ga_Null = mk_gaddr 0 (ps_cur b)" "unat (ps_cur b) < 2 ^ 47" by auto
  then have "ps_cur b = 0" using mk_gaddr_0_fields [of "ps_cur b"] by (simp add: ga_Null_def offset_def)
  with ok show False by (simp add: ps_ok_def)
qed

interpretation ps: page_backend ps_read ps_write ps_alloc ps_allocated ps_ok "\<lambda>_. True"
proof (unfold_locales, goal_cases)
  case (1 b a) then show ?case using ps_allocated_in_bounds by (simp add: ps_read_def)
next
  case (2 b a p) then show ?case using ps_allocated_in_bounds by (simp add: ps_read_def ps_write_def)
next
  case (3 b a a' p)
  then have "offset a' \<noteq> offset a" using ps_allocated_eqI by blast
  then show ?case by (simp add: ps_read_def ps_write_def)
next
  case (4 b p a) then show ?case by (simp add: ps_ok_def ps_write_def)
next
  case (5 b a p) then show ?case by (simp add: ps_allocated_def ps_write_def)
next
  case (6 b b') then show ?case by (rule ps_alloc_Null)
next
  case (7 b a b')
  then have "ps_ok b'" "a \<in> ps_allocated b'" using ps_alloc_fresh by blast+
  then have "\<not> swizzled a" by (rule ps_allocated_not_swizzled)
  with 7 show ?case using ps_alloc_fresh by blast
next
  case (8 b a b')
  then show ?case
    using ps_alloc_fresh ps_alloc_Null by (cases "a = ga_Null") blast+
next
  case (9 b a b')
  then show ?case using ps_alloc_cases [OF 9(1)] by (auto simp: ps_read_def fun_eq_iff)
next
  case (10 b) then show ?case by (simp add: ps_allocated_def ga_Null_def offset_def)
qed

subsection \<open>The byte-level backend implements the page view\<close>

text \<open>The page view of a byte store: the kilobyte at each offset.\<close>

definition page_view :: "in_memory_backend \<Rightarrow> byte list pstore" where
  "page_view b = \<lparr>ps_capacity = capacity_bytes b, ps_cur = cur_offset b,
     ps_page = (\<lambda>off. take 1024 (drop (unat off) (store b)))\<rparr>"

definition be_ok :: "in_memory_backend \<Rightarrow> bool" where
  "be_ok b \<longleftrightarrow> length (store b) = unat (capacity_bytes b) \<and> ps_ok (page_view b)"

lemma be_read_page_view: "be_read b a PAGE_SIZE = ps_read (page_view b) a"
  by (simp add: be_read_def ps_read_def page_view_def)

lemma rounded_size_PAGE_SIZE: "rounded_size PAGE_SIZE = PAGE_SIZE"
  by (simp add: rounded_size_def PAGE_SIZE_def)

lemma be_alloc_page_view:
  "ps_alloc (page_view b) = (fst (be_alloc b PAGE_SIZE), page_view (snd (be_alloc b PAGE_SIZE)))"
  by (simp add: ps_alloc_def be_alloc_def page_view_def rounded_size_PAGE_SIZE Let_def)

lemma be_write_in_bounds:
  assumes "be_ok b" "length buf = 1024" "\<not> offset a + PAGE_SIZE > capacity_bytes b"
  shows "store (snd (be_write b a buf PAGE_SIZE)) =
      take (unat (offset a)) (store b) @ buf @ drop (unat (offset a) + 1024) (store b)"
    and "unat (offset a) + 1024 \<le> length (store b)"
proof -
  show "unat (offset a) + 1024 \<le> length (store b)"
    using assms(1,3) unat_add_PAGE_SIZE [OF unat_offset_less, of a]
    by (simp add: be_ok_def word_less_nat_alt)
  show "store (snd (be_write b a buf PAGE_SIZE)) =
      take (unat (offset a)) (store b) @ buf @ drop (unat (offset a) + 1024) (store b)"
    using assms by (simp add: be_write_def blit_def)
qed

lemma page_view_blit_same:
  "length buf = (1024 :: nat) \<Longrightarrow> n + 1024 \<le> length xs \<Longrightarrow>
   take 1024 (drop n (take n xs @ buf @ drop (n + 1024) xs)) = buf"
  by simp

lemma page_view_blit_other:
  assumes "length buf = (1024 :: nat)" "n + 1024 \<le> length xs" "1024 dvd n" "1024 dvd m" "m \<noteq> n"
  shows "take 1024 (drop m (take n xs @ buf @ drop (n + 1024) xs)) = take 1024 (drop m xs)"
proof (cases "m < n")
  case True
  with assms have "m + 1024 \<le> n" by (intro dvd_step) auto
  with assms(2) show ?thesis by (simp add: drop_take)
next
  case False
  with assms have "n + 1024 \<le> m" by (intro dvd_step) auto
  with assms(1,2) show ?thesis by simp
qed

text \<open>C26: on page-aligned addresses the byte-level read, write and alloc of
  \<open>InMemoryBackend\<close> are the page-level operations: a read returns the page last written at
  that address, a write changes no other aligned page, and an allocation moves the bump pointer.\<close>

theorem InMemoryBackend_refines_pstore:
  assumes ok: "be_ok b" and len: "length buf = 1024"
    and al: "1024 dvd unat (offset a)" "1024 dvd unat off"
  shows "be_read b a PAGE_SIZE = ps_read (page_view b) a \<and>
    ps_page (page_view (snd (be_write b a buf PAGE_SIZE))) off =
      ps_page (ps_write (page_view b) a buf) off \<and>
    be_ok (snd (be_write b a buf PAGE_SIZE)) \<and>
    ps_alloc (page_view b) = (fst (be_alloc b PAGE_SIZE), page_view (snd (be_alloc b PAGE_SIZE)))"
proof (cases "offset a + PAGE_SIZE > capacity_bytes b")
  case True
  then show ?thesis
    using ok by (simp add: be_read_page_view be_alloc_page_view be_write_def) (simp add: ps_write_def page_view_def)
next
  case False
  note st = be_write_in_bounds [OF ok len False]
  have view: "ps_page (ps_write (page_view b) a buf) off =
      (if off = offset a then buf else take 1024 (drop (unat off) (store b)))"
    using False by (simp add: ps_write_def page_view_def)
  have "take 1024 (drop (unat off) (store (snd (be_write b a buf PAGE_SIZE)))) =
      (if off = offset a then buf else take 1024 (drop (unat off) (store b)))"
  proof (cases "off = offset a")
    case True
    with page_view_blit_same [OF len st(2)] show ?thesis by (simp only: st(1) True if_True)
  next
    case False
    then have "unat off \<noteq> unat (offset a)" by (simp add: word_unat_eq_iff)
    from page_view_blit_other [OF len st(2) al this] False show ?thesis
      by (simp only: st(1) if_False)
  qed
  then have "ps_page (page_view (snd (be_write b a buf PAGE_SIZE))) off =
      ps_page (ps_write (page_view b) a buf) off"
    by (simp only: view) (simp add: page_view_def)
  moreover have "be_ok (snd (be_write b a buf PAGE_SIZE))"
  proof -
    have "capacity_bytes (snd (be_write b a buf PAGE_SIZE)) = capacity_bytes b"
      "cur_offset (snd (be_write b a buf PAGE_SIZE)) = cur_offset b"
      by (simp_all add: be_write_def)
    then show ?thesis
      using st ok len by (simp add: be_ok_def page_view_def ps_ok_def)
  qed
  ultimately show ?thesis by (simp add: be_read_page_view be_alloc_page_view)
qed

lemma example_backend_ok: "be_ok (InMemoryBackend 4)"
  by (simp add: be_ok_def InMemoryBackend_def ps_ok_def page_view_def PAGE_SIZE_def)

theorem InMemoryBackend_refines_pstore_witness:
  "be_read (InMemoryBackend 4) (mk_gaddr 0 0x400) PAGE_SIZE = ps_read (page_view (InMemoryBackend 4)) (mk_gaddr 0 0x400) \<and>
   be_ok (snd (be_write (InMemoryBackend 4) (mk_gaddr 0 0x400) (replicate 1024 7) PAGE_SIZE))"
proof -
  have "offset (mk_gaddr 0 0x400) = 0x400" using mk_gaddr_0_fields [of "0x400"] by simp
  then have "1024 dvd unat (offset (mk_gaddr 0 0x400))" by simp
  moreover have "length (replicate 1024 (7 :: byte)) = 1024" by simp
  ultimately show ?thesis using InMemoryBackend_refines_pstore [OF example_backend_ok, of "replicate 1024 7" "mk_gaddr 0 0x400" "0x400"]
    by simp
qed

lemma rounded_size_unat:
  assumes "unat sz < 2 ^ 63"
  shows "unat sz \<le> unat (rounded_size sz) \<and> unat (rounded_size sz) < unat sz + 1024 \<and>
    1024 dvd unat (rounded_size sz)"
proof -
  have add: "unat (sz + PAGE_SIZE) = unat sz + 1024"
    by (subst unat_add_lem [THEN iffD1]) (use assms in simp_all)
  have "unat (sz + PAGE_SIZE - 1) = unat sz + 1023"
    by (subst unat_minus_one) (use add in \<open>auto simp: word_unat_eq_iff\<close>)
  then have q: "unat ((sz + PAGE_SIZE - 1) div PAGE_SIZE) = (unat sz + 1023) div 1024"
    by (simp add: unat_div)
  have "(unat sz + 1023) div 1024 * 1024 < 2 ^ 64"
    using assms by simp
  then have r: "unat (rounded_size sz) = (unat sz + 1023) div 1024 * 1024"
    unfolding rounded_size_def by (subst unat_mult_lem [THEN iffD1]) (simp_all add: q)
  have "(unat sz + 1023) div 1024 * 1024 + (unat sz + 1023) mod 1024 = unat sz + 1023"
    by (rule div_mult_mod_eq)
  moreover have "(unat sz + 1023) mod 1024 < 1024" by simp
  ultimately show ?thesis unfolding r by (intro conjI) (linarith, linarith, rule dvd_triv_right)
qed

text \<open>C27: \<open>InMemoryBackend::alloc\<close> hands out, for any request that fits, a page-aligned region
  that starts at the bump pointer and ends inside the store; otherwise it returns Null and
  leaves the backend as it was.\<close>

theorem be_alloc_spec:
  assumes "be_ok b" "unat sz < 2 ^ 47"
  shows "(if unat (cur_offset b) + unat (rounded_size sz) \<le> unat (capacity_bytes b)
     then offset (fst (be_alloc b sz)) = cur_offset b \<and> nodeID (fst (be_alloc b sz)) = 0 \<and>
       fst (be_alloc b sz) \<noteq> ga_Null \<and>
       unat (cur_offset b) + unat sz \<le> unat (cur_offset (snd (be_alloc b sz))) \<and>
       be_ok (snd (be_alloc b sz))
     else be_alloc b sz = (ga_Null, b))"
proof -
  have ok: "unat (capacity_bytes b) < 2 ^ 47" "1024 \<le> unat (cur_offset b)"
    "1024 dvd unat (cur_offset b)" "unat (cur_offset b) \<le> unat (capacity_bytes b)"
    using assms(1) by (simp_all add: be_ok_def ps_ok_def page_view_def word_le_nat_alt)
  note r = rounded_size_unat [of sz]
  have add: "unat (cur_offset b + rounded_size sz) = unat (cur_offset b) + unat (rounded_size sz)"
    by (subst unat_add_lem [THEN iffD1]) (use ok r assms(2) in simp_all)
  have off: "offset (mk_gaddr 0 (cur_offset b)) = cur_offset b" "nodeID (mk_gaddr 0 (cur_offset b)) = 0"
    using mk_gaddr_0_fields ok by simp_all
  have "mk_gaddr 0 (cur_offset b) \<noteq> ga_Null"
    using off ok by (auto simp: ga_Null_def offset_def)
  then show ?thesis
    using assms ok off add r
    by (auto simp: be_alloc_def Let_def word_less_nat_alt word_le_nat_alt be_ok_def ps_ok_def page_view_def)
qed

theorem be_alloc_spec_witness:
  "offset (fst (be_alloc (InMemoryBackend 4) 1000)) = 0x400 \<and> fst (be_alloc (InMemoryBackend 4) 1000) \<noteq> ga_Null"
proof -
  have "unat (rounded_size 1000) = 1024" by (simp add: rounded_size_def PAGE_SIZE_def)
  then show ?thesis
    using be_alloc_spec [OF example_backend_ok, of 1000] by (simp add: InMemoryBackend_def PAGE_SIZE_def)
qed

end
