(* ===== verification/NodeBase.thy ===== *)
theory NodeBase
  imports GlobalAddr
begin

text \<open>
  The page layout of \<open>include/cache/BtreeNode.h\<close>: one record \<open>page\<close> holds the header
  \<open>NodeBase\<close> and the fields of \<open>BTreeLeaf\<close> and \<open>BTreeInner\<close>, of which \<open>ptype\<close> says
  which are in use (the source overlays the two bodies in the same kilobyte and never reads one
  as the other). Arrays are lists of the fixed capacity; the live part is the prefix that
  \<open>count\<close> announces. The search loop that leaves and inner nodes share is here too, with the
  contract of an in-node search as the locale \<open>node_search\<close>.
\<close>

record page =
  remote_address :: gaddr
  bitmap :: u64
  parent_ptr :: u64
  ptype :: page_type
  count :: nat
  level :: nat
  pos_state :: pos_state
  shared :: bool
  dirty :: bool
  obsolete :: bool
  min_limit :: u64
  max_limit :: u64
  data :: "(u64 \<times> u64) list"
  next_leaf :: gaddr
  children :: "gaddr list"
  keys :: "u64 list"

definition sizeof_NodeBase :: nat where "sizeof_NodeBase = 48"

definition max_leaf_entries :: nat where
  "max_leaf_entries = (1024 - (8 * 2 + 8 * 2) - sizeof_NodeBase) div 16"

definition max_inner_entries :: nat where
  "max_inner_entries = (1024 - sizeof_NodeBase - 8) div (8 + 8)"

lemma max_leaf_entries [simp]: "max_leaf_entries = 59"
  by (simp add: max_leaf_entries_def sizeof_NodeBase_def)

lemma max_inner_entries [simp]: "max_inner_entries = 60"
  by (simp add: max_inner_entries_def sizeof_NodeBase_def)

text \<open>A page of zeroed memory.\<close>

definition zero_page :: page where
  "zero_page = \<lparr>remote_address = 0, bitmap = 0, parent_ptr = 0, ptype = PT_None, count = 0,
     level = 0, pos_state = POS_REMOTE, shared = False, dirty = False, obsolete = False,
     min_limit = 0, max_limit = 0, data = replicate max_leaf_entries (0, 0), next_leaf = ga_Null,
     children = replicate max_inner_entries 0, keys = replicate max_inner_entries 0\<rparr>"

definition KEY_MIN :: u64 where "KEY_MIN = 0"
definition KEY_MAX :: u64 where "KEY_MAX = - 1"

text \<open>\<open>checkObsolete\<close> and \<open>isShared\<close>.\<close>

definition checkObsolete :: "page \<Rightarrow> bool" where "checkObsolete p = obsolete p"
definition isShared :: "page \<Rightarrow> bool" where "isShared p = shared p"

text \<open>\<open>rangeValid\<close>, the same in both node types: the half-open interval above the minimum, and
  the smallest key in the leftmost node.\<close>

definition rangeValid :: "page \<Rightarrow> u64 \<Rightarrow> bool" where
  "rangeValid p k = (if KEY_MIN = k \<and> k = min_limit p then True else k > min_limit p \<and> k \<le> max_limit p)"

subsection \<open>The binary search\<close>

function lower_bound_loop :: "(nat \<Rightarrow> u64) \<Rightarrow> u64 \<Rightarrow> nat \<Rightarrow> nat \<Rightarrow> nat" where
  "lower_bound_loop key k lower upper =
     (if lower < upper then
        (let mid = (upper - lower) div 2 + lower
         in if k = key mid then mid
            else if k > key mid then lower_bound_loop key k (mid + 1) upper
            else lower_bound_loop key k lower mid)
      else lower)"
  by pat_completeness auto
termination
  by (relation "measure (\<lambda>(key, k, lower, upper). upper - lower)") auto

declare lower_bound_loop.simps [simp del]

lemma lower_bound_loop_correct:
  assumes "\<forall>i j. i < j \<longrightarrow> j < n \<longrightarrow> key i < key j" "lower \<le> upper" "upper \<le> n"
    "\<forall>i < lower. key i < k" "\<forall>i. upper \<le> i \<longrightarrow> i < n \<longrightarrow> k \<le> key i"
  shows "lower_bound_loop key k lower upper \<le> upper \<and>
    (\<forall>i < lower_bound_loop key k lower upper. key i < k) \<and>
    (\<forall>i. lower_bound_loop key k lower upper \<le> i \<longrightarrow> i < n \<longrightarrow> k \<le> key i)"
  using assms
proof (induction key k lower upper rule: lower_bound_loop.induct)
  case (1 key k lower upper)
  show ?case
  proof (cases "lower < upper")
    case False
    then have eq: "lower_bound_loop key k lower upper = lower"
      by (simp add: lower_bound_loop.simps [of key k lower upper])
    from False "1.prems" show ?thesis unfolding eq by auto
  next
    case True
    define mid where "mid = (upper - lower) div 2 + lower"
    have mid: "lower \<le> mid" "mid < upper" using True by (auto simp: mid_def)
    have mono: "\<And>i. i < mid \<Longrightarrow> key i < key mid" "\<And>i. mid \<le> i \<Longrightarrow> i < n \<Longrightarrow> key mid \<le> key i"
      using "1.prems"(1,3) mid by (auto simp: le_less)
    consider "k = key mid" | "k \<noteq> key mid" "k > key mid" | "k \<noteq> key mid" "\<not> k > key mid" by blast
    then show ?thesis
    proof cases
      case a: 1
      with True have eq: "lower_bound_loop key k lower upper = mid"
        by (subst lower_bound_loop.simps) (simp add: Let_def mid_def)
      from a mid mono show ?thesis unfolding eq by auto
    next
      case b: 2
      then have eq: "lower_bound_loop key k lower upper = lower_bound_loop key k (mid + 1) upper"
        using True by (simp add: lower_bound_loop.simps [of key k lower upper] Let_def mid_def)
      have "\<forall>i < mid + 1. key i < k"
        using mono(1) b by (auto simp: less_Suc_eq intro: less_trans)
      with "1.IH"(1) [OF True mid_def b] "1.prems" mid show ?thesis by (simp add: eq)
    next
      case c: 3
      then have eq: "lower_bound_loop key k lower upper = lower_bound_loop key k lower mid"
        using True by (simp add: lower_bound_loop.simps [of key k lower upper] Let_def mid_def)
      have "\<forall>i. mid \<le> i \<longrightarrow> i < n \<longrightarrow> k \<le> key i"
        using mono(2) c by (auto simp: not_less intro: order_trans)
      with "1.IH"(2) [OF True mid_def c] "1.prems" mid show ?thesis by (simp add: eq)
    qed
  qed
qed

text \<open>The contract of a search inside a node, over the node's live keys.\<close>

locale node_search =
  fixes keys_of :: "'n \<Rightarrow> u64 list"
    and lb :: "'n \<Rightarrow> u64 \<Rightarrow> nat"
    and ok :: "'n \<Rightarrow> bool"
  assumes ok_sorted: "ok n \<Longrightarrow> sorted_keys (keys_of n)"
    and lb_le: "ok n \<Longrightarrow> lb n k \<le> length (keys_of n)"
    and lb_below: "ok n \<Longrightarrow> i < lb n k \<Longrightarrow> keys_of n ! i < k"
    and lb_above: "ok n \<Longrightarrow> lb n k \<le> i \<Longrightarrow> i < length (keys_of n) \<Longrightarrow> k \<le> keys_of n ! i"
begin

lemma lb_hit: "ok n \<Longrightarrow> lb n k < length (keys_of n) \<and> keys_of n ! lb n k = k \<longleftrightarrow> k \<in> set (keys_of n)"
proof
  assume ok: "ok n" and "k \<in> set (keys_of n)"
  then obtain i where i: "i < length (keys_of n)" "keys_of n ! i = k" by (auto simp: in_set_conv_nth)
  then have "\<not> i < lb n k" using lb_below [OF ok] by auto
  moreover have "\<not> lb n k < i"
  proof
    assume "lb n k < i"
    then have "keys_of n ! lb n k < k"
      using ok_sorted [OF ok] i by (auto simp: sorted_wrt_iff_nth_less)
    moreover have "k \<le> keys_of n ! lb n k"
      using \<open>lb n k < i\<close> i lb_above [OF ok] by simp
    ultimately show False by simp
  qed
  ultimately have "lb n k = i" by simp
  with i show "lb n k < length (keys_of n) \<and> keys_of n ! lb n k = k" by simp
qed (auto simp: in_set_conv_nth)

lemma lb_unique: "ok n \<Longrightarrow> i < length (keys_of n) \<Longrightarrow> keys_of n ! i = k \<Longrightarrow> lb n k = i"
  using lb_hit [of n k] ok_sorted [of n]
  by (metis nth_eq_iff_index_eq nth_mem sorted_keys_distinct)

lemma lb_split:
  assumes "ok n"
  shows "\<forall>x \<in> set (take (lb n k) (keys_of n)). x < k" and "\<forall>x \<in> set (drop (lb n k) (keys_of n)). k \<le> x"
proof -
  show "\<forall>x \<in> set (take (lb n k) (keys_of n)). x < k"
    using lb_below [OF assms] by (auto simp: in_set_conv_nth)
  show "\<forall>x \<in> set (drop (lb n k) (keys_of n)). k \<le> x"
    using lb_above [OF assms] by (auto simp: in_set_conv_nth)
qed

lemma insert_sorted:
  assumes "ok n" "k \<notin> set (keys_of n)"
  shows "sorted_keys (take (lb n k) (keys_of n) @ k # drop (lb n k) (keys_of n))"
proof -
  have "\<forall>x \<in> set (drop (lb n k) (keys_of n)). k < x"
    using lb_split(2) [OF assms(1)] assms(2) by (metis in_set_dropD order_le_less)
  moreover have "sorted_keys (take (lb n k) (keys_of n) @ drop (lb n k) (keys_of n))"
    using ok_sorted [OF assms(1)] by simp
  ultimately show ?thesis
    using lb_split(1) [OF assms(1)] by (auto simp: sorted_wrt_append intro: less_trans)
qed

end

end
