(* ===== verification/LeafNode.thy ===== *)
theory LeafNode
  imports NodeBase
begin

text \<open>
  \<open>BTreeLeaf\<close> of \<open>include/cache/BtreeNode.h\<close>: construction, search, insertion, removal,
  update, scan and split of a leaf page, and the proof that a well-formed leaf is a finite map.
\<close>

subsection \<open>Operations\<close>

text \<open>The constructor, run by placement new over zeroed memory.\<close>

definition mk_BTreeLeaf :: "gaddr \<Rightarrow> page" where
  "mk_BTreeLeaf remote = zero_page
     \<lparr>remote_address := remote, parent_ptr := 0, level := 0, count := 0, pos_state := POS_REMOTE,
      dirty := True, obsolete := False, shared := False, ptype := BTreeLeaf, bitmap := 0,
      min_limit := KEY_MIN, max_limit := KEY_MAX, next_leaf := ga_Null\<rparr>"

definition initLeaf :: "gaddr \<Rightarrow> page" where
  "initLeaf remote = zero_page
     \<lparr>remote_address := remote, parent_ptr := 0, bitmap := 0, ptype := BTreeLeaf, level := 0,
      count := 0, pos_state := POS_LOCAL, shared := False, dirty := True, obsolete := False,
      min_limit := KEY_MIN, max_limit := KEY_MAX, next_leaf := ga_Null\<rparr>"

definition leaf_isFull :: "page \<Rightarrow> bool" where
  "leaf_isFull p \<longleftrightarrow> count p = max_leaf_entries"

definition leaf_lowerBound :: "page \<Rightarrow> u64 \<Rightarrow> nat" where
  "leaf_lowerBound p k = lower_bound_loop (\<lambda>i. fst (data p ! i)) k 0 (count p)"

text \<open>\<open>find\<close> returns whether the key is there and writes the value to its out-parameter: the
  option is the pair of the two.\<close>

definition leaf_find :: "page \<Rightarrow> u64 \<Rightarrow> u64 option" where
  "leaf_find p k =
     (let pos = leaf_lowerBound p k
      in if pos < count p \<and> fst (data p ! pos) = k then Some (snd (data p ! pos)) else None)"

text \<open>\<open>rangeScan\<close> copies entries to the caller's buffer and returns how many: the list is what
  it copies.\<close>

definition leaf_rangeScan :: "page \<Rightarrow> u64 \<Rightarrow> nat \<Rightarrow> (u64 \<times> u64) list" where
  "leaf_rangeScan p k num =
     (let pos = leaf_lowerBound p k
      in if pos < count p \<and> fst (data p ! pos) = k then
           (let remain_count = count p - pos; copy_count = min remain_count num
            in take copy_count (drop pos (data p)))
         else [])"

definition leaf_insert :: "page \<Rightarrow> u64 \<Rightarrow> u64 \<Rightarrow> bool \<times> page" where
  "leaf_insert p0 k v =
     (let p = p0\<lparr>dirty := True\<rparr>
      in if count p > 0 then
           (let pos = leaf_lowerBound p k
            in if pos < count p \<and> fst (data p ! pos) = k then
                 (False, p\<lparr>data := (data p)[pos := (fst (data p ! pos), v)]\<rparr>)
               else if count p \<ge> max_leaf_entries then (False, p)
               else (True, p\<lparr>data := (blit (data p) (pos + 1) (data p) pos (count p - pos))[pos := (k, v)],
                            count := u8 (int (count p) + 1)\<rparr>))
         else (True, p\<lparr>data := (data p)[0 := (k, v)], count := u8 (int (count p) + 1)\<rparr>))"

definition leaf_remove :: "page \<Rightarrow> u64 \<Rightarrow> bool \<times> page" where
  "leaf_remove p k =
     (if count p = 0 then (False, p)
      else
        (let pos = leaf_lowerBound p k
         in if pos < count p \<and> fst (data p ! pos) = k then
              (True, p\<lparr>dirty := True,
                      data := blit (data p) pos (data p) (pos + 1) (count p - pos - 1),
                      count := u8 (int (count p) - 1)\<rparr>)
            else (False, p)))"

definition leaf_update :: "page \<Rightarrow> u64 \<Rightarrow> u64 \<Rightarrow> bool \<times> page" where
  "leaf_update p k v =
     (let pos = leaf_lowerBound p k
      in if pos < count p \<and> fst (data p ! pos) = k then
           (True, p\<lparr>dirty := True, data := (data p)[pos := (fst (data p ! pos), v)]\<rparr>)
         else (False, p))"

text \<open>\<open>split\<close> moves the upper half into \<open>newLeaf\<close> and returns the separator and both
  leaves. It links the left leaf to the new one and leaves \<open>newLeaf\<close>'s own link as it was.\<close>

definition leaf_split :: "page \<Rightarrow> page \<Rightarrow> u64 \<times> page \<times> page" where
  "leaf_split p new =
     (let newcount = u8 (int (count p) - int (count p div 2));
          cnt = u8 (int (count p) - int newcount);
          sep = fst (data p ! (cnt - 1))
      in (sep,
          p\<lparr>count := cnt, next_leaf := remote_address new, max_limit := sep, dirty := True\<rparr>,
          new\<lparr>count := newcount, data := blit (data new) 0 (data p) cnt newcount,
              min_limit := sep, max_limit := max_limit p\<rparr>))"

subsection \<open>Well-formed leaves and what they stand for\<close>

definition leaf_entries :: "page \<Rightarrow> (u64 \<times> u64) list" where
  "leaf_entries p = take (count p) (data p)"

definition leaf_keys :: "page \<Rightarrow> u64 list" where
  "leaf_keys p = map fst (leaf_entries p)"

definition leaf_map :: "page \<Rightarrow> u64 \<rightharpoonup> u64" where
  "leaf_map p = map_of (leaf_entries p)"

definition leaf_ok :: "page \<Rightarrow> bool" where
  "leaf_ok p \<longleftrightarrow> length (data p) = max_leaf_entries \<and> count p \<le> max_leaf_entries \<and>
     sorted_keys (leaf_keys p)"

text \<open>The keys lie in the interval the page announces.\<close>

definition leaf_in_limits :: "page \<Rightarrow> bool" where
  "leaf_in_limits p \<longleftrightarrow> (\<forall>k \<in> set (leaf_keys p). rangeValid p k)"

lemma length_leaf_entries [simp]: "leaf_ok p \<Longrightarrow> length (leaf_entries p) = count p"
  and length_leaf_keys [simp]: "leaf_ok p \<Longrightarrow> length (leaf_keys p) = count p"
  by (simp_all add: leaf_ok_def leaf_entries_def leaf_keys_def)

lemma leaf_entries_header [simp]:
  shows "leaf_entries (p\<lparr>dirty := x0\<rparr>) = leaf_entries p"
  and "leaf_entries (p\<lparr>pos_state := x1\<rparr>) = leaf_entries p"
  and "leaf_entries (p\<lparr>parent_ptr := x2\<rparr>) = leaf_entries p"
  and "leaf_entries (p\<lparr>bitmap := x3\<rparr>) = leaf_entries p"
  and "leaf_entries (p\<lparr>remote_address := x4\<rparr>) = leaf_entries p"
  and "leaf_entries (p\<lparr>min_limit := x5\<rparr>) = leaf_entries p"
  and "leaf_entries (p\<lparr>max_limit := x6\<rparr>) = leaf_entries p"
  and "leaf_entries (p\<lparr>next_leaf := x7\<rparr>) = leaf_entries p"
  and "leaf_entries (p\<lparr>obsolete := x8\<rparr>) = leaf_entries p"
  by (simp_all add: leaf_entries_def)

lemma leaf_keys_header [simp]:
  shows "leaf_keys (p\<lparr>dirty := x0\<rparr>) = leaf_keys p"
  and "leaf_keys (p\<lparr>pos_state := x1\<rparr>) = leaf_keys p"
  and "leaf_keys (p\<lparr>parent_ptr := x2\<rparr>) = leaf_keys p"
  and "leaf_keys (p\<lparr>bitmap := x3\<rparr>) = leaf_keys p"
  and "leaf_keys (p\<lparr>remote_address := x4\<rparr>) = leaf_keys p"
  and "leaf_keys (p\<lparr>min_limit := x5\<rparr>) = leaf_keys p"
  and "leaf_keys (p\<lparr>max_limit := x6\<rparr>) = leaf_keys p"
  and "leaf_keys (p\<lparr>next_leaf := x7\<rparr>) = leaf_keys p"
  and "leaf_keys (p\<lparr>obsolete := x8\<rparr>) = leaf_keys p"
  by (simp_all add: leaf_keys_def)

lemma leaf_map_header [simp]:
  shows "leaf_map (p\<lparr>dirty := x0\<rparr>) = leaf_map p"
  and "leaf_map (p\<lparr>pos_state := x1\<rparr>) = leaf_map p"
  and "leaf_map (p\<lparr>parent_ptr := x2\<rparr>) = leaf_map p"
  and "leaf_map (p\<lparr>bitmap := x3\<rparr>) = leaf_map p"
  and "leaf_map (p\<lparr>remote_address := x4\<rparr>) = leaf_map p"
  and "leaf_map (p\<lparr>min_limit := x5\<rparr>) = leaf_map p"
  and "leaf_map (p\<lparr>max_limit := x6\<rparr>) = leaf_map p"
  and "leaf_map (p\<lparr>next_leaf := x7\<rparr>) = leaf_map p"
  and "leaf_map (p\<lparr>obsolete := x8\<rparr>) = leaf_map p"
  by (simp_all add: leaf_map_def)

lemma leaf_ok_header [simp]:
  shows "leaf_ok (p\<lparr>dirty := x0\<rparr>) = leaf_ok p"
  and "leaf_ok (p\<lparr>pos_state := x1\<rparr>) = leaf_ok p"
  and "leaf_ok (p\<lparr>parent_ptr := x2\<rparr>) = leaf_ok p"
  and "leaf_ok (p\<lparr>bitmap := x3\<rparr>) = leaf_ok p"
  and "leaf_ok (p\<lparr>remote_address := x4\<rparr>) = leaf_ok p"
  and "leaf_ok (p\<lparr>min_limit := x5\<rparr>) = leaf_ok p"
  and "leaf_ok (p\<lparr>max_limit := x6\<rparr>) = leaf_ok p"
  and "leaf_ok (p\<lparr>next_leaf := x7\<rparr>) = leaf_ok p"
  and "leaf_ok (p\<lparr>obsolete := x8\<rparr>) = leaf_ok p"
  by (simp_all add: leaf_ok_def)

lemma leaf_keys_nth: "leaf_ok p \<Longrightarrow> i < count p \<Longrightarrow> leaf_keys p ! i = fst (data p ! i)"
  and leaf_entries_nth: "leaf_ok p \<Longrightarrow> i < count p \<Longrightarrow> leaf_entries p ! i = data p ! i"
  by (simp_all add: leaf_ok_def leaf_entries_def leaf_keys_def)

lemma leaf_distinct: "leaf_ok p \<Longrightarrow> distinct (map fst (leaf_entries p))"
  using sorted_keys_distinct by (auto simp: leaf_ok_def leaf_keys_def)

lemma dom_leaf_map: "dom (leaf_map p) = set (leaf_keys p)"
  by (simp add: leaf_map_def leaf_keys_def dom_map_of_conv_image_fst)

lemma leaf_lowerBound_rank:
  assumes "leaf_ok p"
  shows "leaf_lowerBound p k \<le> count p \<and> (\<forall>i < leaf_lowerBound p k. leaf_keys p ! i < k) \<and>
    (\<forall>i. leaf_lowerBound p k \<le> i \<longrightarrow> i < count p \<longrightarrow> k \<le> leaf_keys p ! i)"
proof -
  have "\<forall>i j. i < j \<longrightarrow> j < count p \<longrightarrow> fst (data p ! i) < fst (data p ! j)"
    using assms by (auto simp: leaf_ok_def sorted_wrt_iff_nth_less leaf_keys_def leaf_entries_def)
  from lower_bound_loop_correct [OF this, of 0 "count p" k] show ?thesis
    using assms by (simp add: leaf_lowerBound_def [symmetric] leaf_keys_nth)
qed

interpretation leaf: node_search leaf_keys leaf_lowerBound leaf_ok
proof
  fix n k i
  assume ok: "leaf_ok n"
  then show "sorted_keys (leaf_keys n)" by (simp add: leaf_ok_def)
  from leaf_lowerBound_rank [OF ok, of k] ok
  show "leaf_lowerBound n k \<le> length (leaf_keys n)"
    and "i < leaf_lowerBound n k \<Longrightarrow> leaf_keys n ! i < k"
    and "leaf_lowerBound n k \<le> i \<Longrightarrow> i < length (leaf_keys n) \<Longrightarrow> k \<le> leaf_keys n ! i"
    by simp_all
qed

text \<open>The test every operation makes after its search.\<close>

lemma leaf_hit: "leaf_ok p \<Longrightarrow>
  leaf_lowerBound p k < count p \<and> fst (data p ! leaf_lowerBound p k) = k \<longleftrightarrow> k \<in> dom (leaf_map p)"
  using leaf.lb_hit [of p k] by (auto simp: dom_leaf_map leaf_keys_nth)

lemma leaf_hit_value:
  assumes "leaf_ok p" "leaf_lowerBound p k < count p" "fst (data p ! leaf_lowerBound p k) = k"
  shows "leaf_map p k = Some (snd (data p ! leaf_lowerBound p k))"
  using map_of_nth [OF leaf_distinct [OF assms(1)], of "leaf_lowerBound p k"] assms
  by (simp add: leaf_map_def leaf_entries_nth)

subsection \<open>Search\<close>

lemma leaf_find_map: "leaf_ok p \<Longrightarrow> leaf_find p k = leaf_map p k"
  using leaf_hit [of p k] leaf_hit_value [of p k]
  by (auto simp: leaf_find_def Let_def)

lemma leaf_rangeScan_hit:
  assumes "leaf_ok p" "i < count p" "leaf_keys p ! i = k"
  shows "leaf_rangeScan p k num = take num (drop i (leaf_entries p))"
proof -
  have lb: "leaf_lowerBound p k = i"
    using leaf.lb_unique [OF assms(1)] assms by simp
  have "take (min (count p - i) num) (drop i (data p)) = take num (drop i (leaf_entries p))"
    by (simp add: leaf_entries_def drop_take min.commute)
  with assms lb show ?thesis by (simp add: leaf_rangeScan_def Let_def leaf_keys_nth)
qed

lemma leaf_rangeScan_miss: "leaf_ok p \<Longrightarrow> leaf_map p k = None \<Longrightarrow> leaf_rangeScan p k num = []"
  using leaf_hit [of p k] by (auto simp: leaf_rangeScan_def Let_def)

lemma leaf_rangeScan_length: "leaf_ok p \<Longrightarrow> length (leaf_rangeScan p k num) \<le> min num (count p)"
  by (auto simp: leaf_rangeScan_def Let_def)

subsection \<open>Insertion\<close>

lemma leaf_entries_insert:
  assumes "leaf_ok p" "count p < max_leaf_entries" "pos \<le> count p"
  shows "leaf_entries (p\<lparr>dirty := d, data := (blit (data p) (pos + 1) (data p) pos (count p - pos))[pos := e],
      count := u8 (int (count p) + 1)\<rparr>) = take pos (leaf_entries p) @ e # drop pos (leaf_entries p)"
proof -
  have "u8 (int (count p) + 1) = Suc (count p)"
    using u8_Suc [of "count p"] assms(2) by simp
  with take_blit_insert [of pos "count p" "data p" e] assms show ?thesis
    by (simp add: leaf_entries_def leaf_ok_def min_absorb1)
qed

lemma leaf_insert_empty:
  assumes "leaf_ok p" "count p = 0"
  shows "leaf_insert p k v = (True, p\<lparr>dirty := True, data := (data p)[0 := (k, v)], count := u8 (int (count p) + 1)\<rparr>)"
    and "leaf_entries (snd (leaf_insert p k v)) = [(k, v)]"
proof -
  show ins: "leaf_insert p k v = (True, p\<lparr>dirty := True, data := (data p)[0 := (k, v)], count := u8 (int (count p) + 1)\<rparr>)"
    using assms(2) by (simp add: leaf_insert_def)
  have "take 1 ((data p)[0 := (k, v)]) = [(k, v)]"
    using assms(1) by (cases "data p") (simp_all add: leaf_ok_def)
  then show "leaf_entries (snd (leaf_insert p k v)) = [(k, v)]"
    using u8_Suc [of "count p"] assms(2) by (simp add: ins leaf_entries_def)
qed

lemma leaf_lowerBound_dirty [simp]: "leaf_lowerBound (p\<lparr>dirty := d\<rparr>) k = leaf_lowerBound p k"
  by (simp add: leaf_lowerBound_def)

lemma leaf_insert_present:
  assumes "leaf_ok p" "leaf_map p k \<noteq> None"
  shows "leaf_insert p k v = (False, p\<lparr>dirty := True, data := (data p)[leaf_lowerBound p k := (k, v)]\<rparr>)"
proof -
  have "leaf_lowerBound p k < count p" "fst (data p ! leaf_lowerBound p k) = k"
    using assms leaf_hit [of p k] by auto
  then show ?thesis by (simp add: leaf_insert_def Let_def leaf_lowerBound_dirty)
qed

lemma leaf_insert_absent:
  assumes "leaf_ok p" "leaf_map p k = None" "count p < max_leaf_entries"
  shows "fst (leaf_insert p k v)"
    and "leaf_entries (snd (leaf_insert p k v)) =
      take (leaf_lowerBound p k) (leaf_entries p) @ (k, v) # drop (leaf_lowerBound p k) (leaf_entries p)"
proof -
  have miss: "\<not> (leaf_lowerBound p k < count p \<and> fst (data p ! leaf_lowerBound p k) = k)"
    using leaf_hit [OF assms(1)] assms(2) by auto
  have le: "leaf_lowerBound p k \<le> count p" using leaf_lowerBound_rank [OF assms(1)] by simp
  show "fst (leaf_insert p k v)"
    using miss assms(3) by (auto simp: leaf_insert_def Let_def)
  show "leaf_entries (snd (leaf_insert p k v)) =
      take (leaf_lowerBound p k) (leaf_entries p) @ (k, v) # drop (leaf_lowerBound p k) (leaf_entries p)"
  proof (cases "count p = 0")
    case True
    with leaf_insert_empty [OF assms(1) True] show ?thesis by (simp add: leaf_entries_def)
  next
    case False
    then have "snd (leaf_insert p k v) = p\<lparr>dirty := True,
        data := (blit (data p) (leaf_lowerBound p k + 1) (data p) (leaf_lowerBound p k)
          (count p - leaf_lowerBound p k))[leaf_lowerBound p k := (k, v)],
        count := u8 (int (count p) + 1)\<rparr>"
      using miss assms(3) by (auto simp: leaf_insert_def Let_def)
    then show ?thesis using leaf_entries_insert [OF assms(1,3) le] by simp
  qed
qed

lemma leaf_insert_full:
  assumes "leaf_ok p" "leaf_map p k = None" "count p = max_leaf_entries"
  shows "leaf_insert p k v = (False, p\<lparr>dirty := True\<rparr>)"
proof -
  have "\<not> (leaf_lowerBound p k < count p \<and> fst (data p ! leaf_lowerBound p k) = k)"
    using assms leaf_hit [of p k] by auto
  then show ?thesis using assms(3) by (auto simp: leaf_insert_def Let_def)
qed

lemma leaf_insert_frame: "snd (leaf_insert p k v) =
    p\<lparr>dirty := True, data := data (snd (leaf_insert p k v)), count := count (snd (leaf_insert p k v))\<rparr>"
  by (simp add: leaf_insert_def Let_def)

lemma leaf_insert_data_length:
  assumes "leaf_ok p"
  shows "length (data (snd (leaf_insert p k v))) = max_leaf_entries"
  using assms leaf_lowerBound_rank [OF assms, of k]
  by (auto simp: leaf_insert_def Let_def leaf_ok_def)

lemma leaf_insert_count:
  assumes "leaf_ok p"
  shows "count (snd (leaf_insert p k v)) =
    (if fst (leaf_insert p k v) then Suc (count p) else count p)"
proof -
  have "count p < max_leaf_entries \<Longrightarrow> u8 (int (count p) + 1) = Suc (count p)"
    using u8_Suc [of "count p"] by simp
  then show ?thesis by (auto simp: leaf_insert_def Let_def)
qed

lemma leaf_update_at_entries:
  assumes "leaf_ok p" "i < count p"
  shows "leaf_entries (p\<lparr>dirty := d, data := (data p)[i := (fst (data p ! i), v)]\<rparr>) =
    (leaf_entries p)[i := (fst (leaf_entries p ! i), v)]"
  using assms by (simp add: leaf_entries_def take_update_swap)

lemma map_fst_update_same: "i < length es \<Longrightarrow> map fst (es[i := (fst (es ! i), v)]) = map fst es"
  by (metis fst_conv list_update_id map_update nth_map)

lemma leaf_insert_correct:
  assumes ok: "leaf_ok p"
  shows "leaf_map (snd (leaf_insert p k v)) =
      (if leaf_map p k = None \<and> leaf_isFull p then leaf_map p else (leaf_map p)(k \<mapsto> v)) \<and>
    (fst (leaf_insert p k v) \<longleftrightarrow> leaf_map p k = None \<and> \<not> leaf_isFull p) \<and>
    leaf_ok (snd (leaf_insert p k v)) \<and> dirty (snd (leaf_insert p k v))"
proof -
  have cnt: "count p \<le> max_leaf_entries" using ok by (simp add: leaf_ok_def)
  have okI: "leaf_ok (snd (leaf_insert p k v))" if "sorted_keys (leaf_keys (snd (leaf_insert p k v)))"
    "fst (leaf_insert p k v) \<longrightarrow> count p < max_leaf_entries"
    using that leaf_insert_data_length [OF ok] leaf_insert_count [OF ok] cnt
    by (auto simp: leaf_ok_def)
  have d: "dirty (snd (leaf_insert p k v))" by (subst leaf_insert_frame) simp
  consider (present) "leaf_map p k \<noteq> None" | (full) "leaf_map p k = None" "count p = max_leaf_entries"
    | (new) "leaf_map p k = None" "count p < max_leaf_entries" using cnt by (auto simp: le_less)
  then show ?thesis
  proof cases
    case present
    define i where "i = leaf_lowerBound p k"
    have i: "i < count p" "fst (data p ! i) = k"
      using leaf_hit [OF ok, of k] present by (auto simp: i_def)
    have ins: "leaf_insert p k v = (False, p\<lparr>dirty := True, data := (data p)[i := (fst (data p ! i), v)]\<rparr>)"
      using leaf_insert_present [OF ok present] i by (simp add: i_def)
    have ent: "leaf_entries (snd (leaf_insert p k v)) = (leaf_entries p)[i := (fst (leaf_entries p ! i), v)]"
      using leaf_update_at_entries [OF ok i(1)] by (simp add: ins)
    have "leaf_keys (snd (leaf_insert p k v)) = leaf_keys p"
      unfolding leaf_keys_def ent using i ok by (intro map_fst_update_same) simp
    moreover have "leaf_map (snd (leaf_insert p k v)) = (leaf_map p)(k \<mapsto> v)"
      unfolding leaf_map_def ent using map_of_update_at [OF leaf_distinct [OF ok], of i k v] i ok
      by (simp add: leaf_entries_nth)
    ultimately show ?thesis using present okI ok d by (auto simp: ins leaf_ok_def)
  next
    case full
    then have "leaf_insert p k v = (False, p\<lparr>dirty := True\<rparr>)" by (rule leaf_insert_full [OF ok])
    with full ok show ?thesis by (simp add: leaf_isFull_def)
  next
    case new
    note ins = leaf_insert_absent [OF ok new]
    have k: "k \<notin> set (leaf_keys p)" using new(1) dom_leaf_map [of p] by auto
    have "leaf_keys (snd (leaf_insert p k v)) =
        take (leaf_lowerBound p k) (leaf_keys p) @ k # drop (leaf_lowerBound p k) (leaf_keys p)"
      by (simp add: leaf_keys_def ins(2) take_map drop_map)
    then have "sorted_keys (leaf_keys (snd (leaf_insert p k v)))"
      using leaf.insert_sorted [OF ok k] by simp
    moreover have "leaf_map (snd (leaf_insert p k v)) = (leaf_map p)(k \<mapsto> v)"
      unfolding leaf_map_def ins(2) by (rule map_of_insert_at) (use k in \<open>simp add: leaf_keys_def\<close>)
    ultimately show ?thesis using new ins(1) okI d by (simp add: leaf_isFull_def)
  qed
qed

subsection \<open>Removal and update\<close>

lemma leaf_remove_present:
  assumes "leaf_ok p" "leaf_map p k \<noteq> None"
  shows "fst (leaf_remove p k)"
    and "leaf_entries (snd (leaf_remove p k)) =
      take (leaf_lowerBound p k) (leaf_entries p) @ drop (Suc (leaf_lowerBound p k)) (leaf_entries p)"
    and "count (snd (leaf_remove p k)) = count p - 1"
    and "length (data (snd (leaf_remove p k))) = max_leaf_entries"
proof -
  have i: "leaf_lowerBound p k < count p" "fst (data p ! leaf_lowerBound p k) = k"
    using assms leaf_hit [of p k] by auto
  have len: "length (data p) = 59" "count p \<le> 59" using assms(1) by (simp_all add: leaf_ok_def)
  have c: "u8 (int (count p) - 1) = count p - 1" using i len by (intro u8_pred) auto
  have rem: "leaf_remove p k = (True, p\<lparr>dirty := True,
      data := blit (data p) (leaf_lowerBound p k) (data p) (leaf_lowerBound p k + 1)
        (count p - leaf_lowerBound p k - 1), count := u8 (int (count p) - 1)\<rparr>)"
    using i by (simp add: leaf_remove_def Let_def)
  show "fst (leaf_remove p k)" "count (snd (leaf_remove p k)) = count p - 1"
    "length (data (snd (leaf_remove p k))) = max_leaf_entries"
    using i len by (simp_all add: rem c)
  show "leaf_entries (snd (leaf_remove p k)) =
      take (leaf_lowerBound p k) (leaf_entries p) @ drop (Suc (leaf_lowerBound p k)) (leaf_entries p)"
    using take_blit_remove [of "leaf_lowerBound p k" "count p" "data p"] i len
    by (simp add: rem c leaf_entries_def min_absorb1)
qed

lemma leaf_remove_absent: "leaf_ok p \<Longrightarrow> leaf_map p k = None \<Longrightarrow> leaf_remove p k = (False, p)"
  using leaf_hit [of p k] by (auto simp: leaf_remove_def Let_def)

lemma leaf_remove_correct:
  assumes ok: "leaf_ok p"
  shows "leaf_map (snd (leaf_remove p k)) = (leaf_map p)(k := None) \<and>
    (fst (leaf_remove p k) \<longleftrightarrow> k \<in> dom (leaf_map p)) \<and> leaf_ok (snd (leaf_remove p k)) \<and>
    (k \<notin> dom (leaf_map p) \<longrightarrow> snd (leaf_remove p k) = p)"
proof (cases "leaf_map p k = None")
  case True
  then have "(leaf_map p)(k := None) = leaf_map p" by auto
  with leaf_remove_absent [OF ok True] ok show ?thesis by (simp add: domIff True)
next
  case False
  note rem = leaf_remove_present [OF ok False]
  have i: "leaf_lowerBound p k < count p" "fst (data p ! leaf_lowerBound p k) = k"
    using ok False leaf_hit [of p k] by auto
  have "leaf_map (snd (leaf_remove p k)) = (leaf_map p)(k := None)"
    unfolding leaf_map_def rem(2)
    by (rule map_of_remove_at) (use leaf_distinct [OF ok] i ok in \<open>simp_all add: leaf_entries_nth\<close>)
  moreover have "sorted_keys (leaf_keys (snd (leaf_remove p k)))"
    using sorted_wrt_remove_at [of "(<)" "leaf_keys p" "leaf_lowerBound p k"] ok
    by (simp add: leaf_keys_def rem(2) leaf_ok_def take_map drop_map)
  ultimately show ?thesis using rem(1,3,4) ok False by (auto simp: leaf_ok_def)
qed

lemma leaf_update_correct:
  assumes ok: "leaf_ok p"
  shows "(if k \<in> dom (leaf_map p)
      then fst (leaf_update p k v) \<and> leaf_map (snd (leaf_update p k v)) = (leaf_map p)(k \<mapsto> v) \<and>
        leaf_keys (snd (leaf_update p k v)) = leaf_keys p \<and> dirty (snd (leaf_update p k v))
      else leaf_update p k v = (False, p)) \<and> leaf_ok (snd (leaf_update p k v))"
proof (cases "leaf_map p k = None")
  case True
  then have "leaf_update p k v = (False, p)"
    using leaf_hit [OF ok, of k] by (auto simp: leaf_update_def Let_def)
  with True ok show ?thesis by (auto simp: domIff)
next
  case False
  define i where "i = leaf_lowerBound p k"
  have i: "i < count p" "fst (data p ! i) = k"
    using ok False leaf_hit [of p k] by (auto simp: i_def)
  have upd: "leaf_update p k v = (True, p\<lparr>dirty := True, data := (data p)[i := (fst (data p ! i), v)]\<rparr>)"
    using i by (simp add: leaf_update_def Let_def i_def)
  have ent: "leaf_entries (snd (leaf_update p k v)) = (leaf_entries p)[i := (fst (leaf_entries p ! i), v)]"
    using leaf_update_at_entries [OF ok i(1)] by (simp add: upd)
  have keys: "leaf_keys (snd (leaf_update p k v)) = leaf_keys p"
    unfolding leaf_keys_def ent using i ok by (intro map_fst_update_same) simp
  moreover have "leaf_map (snd (leaf_update p k v)) = (leaf_map p)(k \<mapsto> v)"
    unfolding leaf_map_def ent using map_of_update_at [OF leaf_distinct [OF ok], of i k v] i ok
    by (simp add: leaf_entries_nth)
  moreover have "leaf_ok (snd (leaf_update p k v))"
    using ok keys by (auto simp: upd leaf_ok_def)
  ultimately show ?thesis using False by (auto simp: upd domIff)
qed

lemma leaf_remove_frame: "snd (leaf_remove p k) =
    p\<lparr>dirty := dirty (snd (leaf_remove p k)), data := data (snd (leaf_remove p k)),
      count := count (snd (leaf_remove p k))\<rparr>"
  by (simp add: leaf_remove_def Let_def)

lemma leaf_update_frame: "snd (leaf_update p k v) =
    p\<lparr>dirty := dirty (snd (leaf_update p k v)), data := data (snd (leaf_update p k v))\<rparr>"
  by (simp add: leaf_update_def Let_def)

text \<open>The key set after an operation, and the interval the keys stay in.\<close>

lemma leaf_insert_keys: "leaf_ok p \<Longrightarrow> set (leaf_keys (snd (leaf_insert p k v))) \<subseteq> insert k (set (leaf_keys p))"
  using leaf_insert_correct [of p k v] dom_leaf_map by (metis dom_fun_upd option.distinct(1) order_refl subset_insertI)

lemma leaf_remove_keys: "leaf_ok p \<Longrightarrow> set (leaf_keys (snd (leaf_remove p k))) = set (leaf_keys p) - {k}"
  using leaf_remove_correct [of p k] dom_leaf_map by (metis dom_fun_upd)

lemma rangeValid_limits: "min_limit p = min_limit q \<Longrightarrow> max_limit p = max_limit q \<Longrightarrow> rangeValid p = rangeValid q"
  by (auto simp: rangeValid_def fun_eq_iff)

lemma leaf_insert_limits:
  assumes "leaf_ok p" "leaf_in_limits p" "rangeValid p k"
  shows "leaf_in_limits (snd (leaf_insert p k v))"
proof -
  have "rangeValid (snd (leaf_insert p k v)) = rangeValid p"
    by (rule rangeValid_limits) (subst leaf_insert_frame, simp)+
  with assms leaf_insert_keys [OF assms(1), of k v] show ?thesis by (auto simp: leaf_in_limits_def)
qed

lemma leaf_remove_limits:
  assumes "leaf_ok p" "leaf_in_limits p"
  shows "leaf_in_limits (snd (leaf_remove p k))"
proof -
  have "rangeValid (snd (leaf_remove p k)) = rangeValid p"
    by (rule rangeValid_limits) (subst leaf_remove_frame, simp)+
  with assms leaf_remove_keys [OF assms(1), of k] show ?thesis by (auto simp: leaf_in_limits_def)
qed

lemma leaf_update_limits:
  assumes "leaf_ok p" "leaf_in_limits p"
  shows "leaf_in_limits (snd (leaf_update p k v))"
proof -
  have "rangeValid (snd (leaf_update p k v)) = rangeValid p"
    by (rule rangeValid_limits) (subst leaf_update_frame, simp)+
  moreover have "leaf_keys (snd (leaf_update p k v)) = leaf_keys p"
    using leaf_update_correct [OF assms(1), of k v] by (auto split: if_splits)
  ultimately show ?thesis using assms(2) by (simp add: leaf_in_limits_def)
qed

subsection \<open>Split\<close>

lemma leaf_split_parts:
  assumes p: "leaf_ok p" and new: "length (data new) = max_leaf_entries" and n: "2 \<le> count p"
    and split: "leaf_split p new = (sep, l, r)"
  shows "leaf_entries l = take (count p div 2) (leaf_entries p)"
    and "leaf_entries r = drop (count p div 2) (leaf_entries p)"
    and "count l = count p div 2" and "count r = count p - count p div 2"
    and "sep = fst (last (leaf_entries l))"
    and "l = p\<lparr>count := count l, next_leaf := remote_address new, max_limit := sep, dirty := True\<rparr>"
    and "r = new\<lparr>count := count r, data := data r, min_limit := sep, max_limit := max_limit p\<rparr>"
    and "length (data r) = max_leaf_entries"
proof -
  define h where "h = count p div 2"
  have len: "length (data p) = 59" "count p \<le> 59" "length (data new) = 59"
    using p new by (simp_all add: leaf_ok_def)
  have h: "1 \<le> h" "h < count p" "h \<le> count p" using n by (auto simp: h_def)
  have c1: "u8 (int (count p) - int (count p div 2)) = count p - h"
    unfolding h_def by (rule u8_diff) (use len in auto)
  have c2: "u8 (int (count p) - int (count p - h)) = h"
    using u8_diff [of "count p - h" "count p"] h len by simp
  have sp: "leaf_split p new = (fst (data p ! (h - 1)),
      p\<lparr>count := h, next_leaf := remote_address new, max_limit := fst (data p ! (h - 1)), dirty := True\<rparr>,
      new\<lparr>count := count p - h, data := blit (data new) 0 (data p) h (count p - h),
        min_limit := fst (data p ! (h - 1)), max_limit := max_limit p\<rparr>)"
    by (simp add: leaf_split_def Let_def c1 c2)
  then have parts: "sep = fst (data p ! (h - 1))"
    "l = p\<lparr>count := h, next_leaf := remote_address new, max_limit := sep, dirty := True\<rparr>"
    "r = new\<lparr>count := count p - h, data := blit (data new) 0 (data p) h (count p - h),
        min_limit := sep, max_limit := max_limit p\<rparr>"
    using split by simp_all
  show "count l = count p div 2" "count r = count p - count p div 2" by (simp_all add: parts(2,3) h_def)
  show el: "leaf_entries l = take (count p div 2) (leaf_entries p)"
    using h len by (simp add: parts(2) leaf_entries_def h_def)
  show "leaf_entries r = drop (count p div 2) (leaf_entries p)"
    using take_blit_prefix [of h "count p - h" "data p" "data new"] h len
    by (simp add: parts(3) leaf_entries_def h_def drop_take)
  have "length (leaf_entries l) = h" using el h p by (simp add: h_def)
  then have "last (leaf_entries l) = leaf_entries l ! (h - 1)"
    using h by (subst last_conv_nth) auto
  also have "\<dots> = leaf_entries p ! (h - 1)"
    unfolding el using h by (simp add: h_def)
  also have "\<dots> = data p ! (h - 1)"
    using h p by (simp add: leaf_entries_nth)
  finally show "sep = fst (last (leaf_entries l))" by (simp add: parts(1))
  show "l = p\<lparr>count := count l, next_leaf := remote_address new, max_limit := sep, dirty := True\<rparr>"
    "r = new\<lparr>count := count r, data := data r, min_limit := sep, max_limit := max_limit p\<rparr>"
    by (simp_all add: parts(2,3))
  show "length (data r) = max_leaf_entries" using h len by (simp add: parts(3))
qed

lemma leaf_split_correct:
  assumes p: "leaf_ok p" "leaf_in_limits p" and new: "length (data new) = max_leaf_entries"
    and n: "2 \<le> count p" and split: "leaf_split p new = (sep, l, r)"
  shows "leaf_ok l \<and> leaf_ok r \<and> leaf_in_limits l \<and> leaf_in_limits r \<and>
    leaf_entries l @ leaf_entries r = leaf_entries p \<and>
    (\<forall>k \<in> set (leaf_keys l). k \<le> sep) \<and> (\<forall>k \<in> set (leaf_keys r). sep < k) \<and>
    sep \<in> set (leaf_keys p) \<and> (4 \<le> count p \<longrightarrow> min_limit p < sep \<and> sep < max_limit p)"
proof -
  note parts = leaf_split_parts [OF p(1) new n split]
  have cat: "leaf_entries l @ leaf_entries r = leaf_entries p" by (simp add: parts(1,2))
  then have "sorted_keys (leaf_keys l @ leaf_keys r)"
    using p(1) by (metis leaf_keys_def leaf_ok_def map_append)
  then have srt: "sorted_keys (leaf_keys l)" "sorted_keys (leaf_keys r)"
    and lt: "\<forall>x \<in> set (leaf_keys l). \<forall>y \<in> set (leaf_keys r). x < y"
    by (simp_all add: sorted_wrt_append)
  have cnt: "count l = count p div 2" "count r = count p - count p div 2" "count p \<le> 59"
    using parts(3,4) p(1) by (simp_all add: leaf_ok_def)
  have dl: "data l = data p" using arg_cong [OF parts(6), of data] by simp
  have ok: "leaf_ok l" "leaf_ok r"
    using srt cnt parts(8) dl p(1) by (auto simp: leaf_ok_def)
  have len: "length (leaf_keys l) = count l" using ok(1) by simp
  have ne: "leaf_keys l \<noteq> []" using len cnt n by auto
  have sep: "sep = last (leaf_keys l)"
    using parts(5) ne by (simp add: leaf_keys_def last_map)
  have sep_in: "sep \<in> set (leaf_keys l)" using ne by (simp add: sep)
  have le: "\<forall>k \<in> set (leaf_keys l). k \<le> sep"
  proof
    fix k assume "k \<in> set (leaf_keys l)"
    then obtain i where i: "i < length (leaf_keys l)" "leaf_keys l ! i = k"
      by (auto simp: in_set_conv_nth)
    have "leaf_keys l ! i \<le> leaf_keys l ! (length (leaf_keys l) - 1)"
    proof (cases "i = length (leaf_keys l) - 1")
      case False
      with i srt(1) have "leaf_keys l ! i < leaf_keys l ! (length (leaf_keys l) - 1)"
        unfolding sorted_wrt_iff_nth_less by auto
      then show ?thesis by simp
    qed simp
    then show "k \<le> sep" using i(2) ne by (simp add: sep last_conv_nth)
  qed
  have keys: "set (leaf_keys p) = set (leaf_keys l) \<union> set (leaf_keys r)"
    using cat by (metis leaf_keys_def map_append set_append)
  have valid: "\<forall>k \<in> set (leaf_keys p). rangeValid p k" using p(2) by (simp add: leaf_in_limits_def)
  have lims: "min_limit l = min_limit p" "max_limit l = sep" "min_limit r = sep" "max_limit r = max_limit p"
    using arg_cong [OF parts(6), of min_limit] arg_cong [OF parts(6), of max_limit]
      arg_cong [OF parts(7), of min_limit] arg_cong [OF parts(7), of max_limit] by simp_all
  have "leaf_in_limits l"
    unfolding leaf_in_limits_def using valid le keys by (auto simp: rangeValid_def lims)
  moreover have gt: "\<forall>k \<in> set (leaf_keys r). sep < k" using lt sep_in by blast
  moreover have "leaf_in_limits r"
    unfolding leaf_in_limits_def
  proof
    fix k assume k: "k \<in> set (leaf_keys r)"
    then have "rangeValid p k" "sep < k" using valid keys gt by auto
    then show "rangeValid r k" by (auto simp: rangeValid_def lims KEY_MIN_def split: if_splits)
  qed
  moreover have "min_limit p < sep \<and> sep < max_limit p" if four: "4 \<le> count p"
  proof
    have l1: "leaf_keys l ! 0 < leaf_keys l ! (length (leaf_keys l) - 1)"
      using srt(1) len cnt four unfolding sorted_wrt_iff_nth_less by auto
    moreover have "leaf_keys l ! 0 \<in> set (leaf_keys l)" using ne by (cases "leaf_keys l") auto
    then have "rangeValid p (leaf_keys l ! 0)" using valid keys by blast
    then have "min_limit p \<le> leaf_keys l ! 0" by (auto simp: rangeValid_def split: if_splits)
    ultimately show "min_limit p < sep" using ne by (simp add: sep last_conv_nth)
    have "length (leaf_keys r) = count r" using ok(2) by simp
    then have "leaf_keys r \<noteq> []" using cnt n by auto
    then obtain k where k: "k \<in> set (leaf_keys r)" by (cases "leaf_keys r") auto
    then have "rangeValid p k" "sep < k" using valid keys gt by auto
    then show "sep < max_limit p" by (auto simp: rangeValid_def KEY_MIN_def split: if_splits)
  qed
  ultimately show ?thesis using ok cat le keys sep_in by auto
qed

subsection \<open>Properties\<close>

text \<open>A leaf with three entries, for the instances below.\<close>

definition example_leaf :: page where
  "example_leaf = (mk_BTreeLeaf 0x4000000)
     \<lparr>count := 3, data := [(5, 50), (7, 70), (9, 90)] @ replicate 56 (0, 0)\<rparr>"

lemma example_leaf_entries: "leaf_entries example_leaf = [(5, 50), (7, 70), (9, 90)]"
  by (simp add: leaf_entries_def example_leaf_def)

lemma example_leaf_ok: "leaf_ok example_leaf"
  by (simp add: leaf_ok_def leaf_keys_def example_leaf_entries) (simp add: example_leaf_def)

lemma example_leaf_map: "leaf_map example_leaf = [5 \<mapsto> 50, 7 \<mapsto> 70, 9 \<mapsto> 90]"
  by (simp add: leaf_map_def example_leaf_entries fun_eq_iff)

lemma example_leaf_limits: "leaf_in_limits example_leaf"
  by (simp add: leaf_in_limits_def leaf_keys_def example_leaf_entries)
    (simp add: rangeValid_def example_leaf_def mk_BTreeLeaf_def KEY_MIN_def KEY_MAX_def)

text \<open>C31: \<open>find\<close> on a well-formed leaf returns the value stored under the key and fails
  exactly when the key is absent; \<open>rangeScan\<close> returns the entries from the key on, at most as
  many as asked for and only from this leaf, and nothing at all when the key itself is absent.\<close>

theorem leaf_search_spec:
  assumes "leaf_ok p"
  shows "leaf_find p k = leaf_map p k \<and>
    (leaf_map p k = None \<longrightarrow> leaf_rangeScan p k num = []) \<and>
    (\<forall>i < count p. leaf_keys p ! i = k \<longrightarrow> leaf_rangeScan p k num = take num (drop i (leaf_entries p)))"
  using assms leaf_find_map leaf_rangeScan_miss leaf_rangeScan_hit by auto

theorem leaf_search_spec_witness:
  "leaf_find example_leaf 7 = Some 70 \<and> leaf_rangeScan example_leaf 6 10 = [] \<and>
   leaf_rangeScan example_leaf 7 10 = [(7, 70), (9, 90)]"
proof -
  note s = leaf_search_spec [OF example_leaf_ok]
  have "leaf_keys example_leaf ! 1 = 7 \<and> 1 < count example_leaf"
    by (simp add: leaf_keys_def example_leaf_entries) (simp add: example_leaf_def)
  then have "leaf_rangeScan example_leaf 7 10 = take 10 (drop 1 (leaf_entries example_leaf))"
    using s [of 7 10] by blast
  then show ?thesis
    using s [of 7 10] s [of 6 10] by (simp add: example_leaf_map example_leaf_entries)
qed

text \<open>C14: \<open>insert\<close> on a leaf, every branch: an existing key is overwritten and \<open>false\<close>
  returned; a new key goes into a leaf with room and \<open>true\<close> is returned; a full leaf is left
  as it is. The leaf stays well formed, inside its limits, and is marked dirty in all three.\<close>

theorem leaf_insert_spec:
  assumes "leaf_ok p" "leaf_in_limits p" "rangeValid p k"
  shows "leaf_map (snd (leaf_insert p k v)) =
      (if leaf_map p k = None \<and> leaf_isFull p then leaf_map p else (leaf_map p)(k \<mapsto> v)) \<and>
    (fst (leaf_insert p k v) \<longleftrightarrow> leaf_map p k = None \<and> \<not> leaf_isFull p) \<and>
    leaf_ok (snd (leaf_insert p k v)) \<and> leaf_in_limits (snd (leaf_insert p k v)) \<and>
    dirty (snd (leaf_insert p k v))"
  using leaf_insert_correct [OF assms(1)] leaf_insert_limits [OF assms] by simp

theorem leaf_insert_spec_witness:
  "leaf_map (snd (leaf_insert example_leaf 8 80)) = [5 \<mapsto> 50, 7 \<mapsto> 70, 9 \<mapsto> 90, 8 \<mapsto> 80]"
proof -
  have "rangeValid example_leaf 8"
    by (simp add: rangeValid_def example_leaf_def mk_BTreeLeaf_def KEY_MIN_def KEY_MAX_def)
  moreover have "\<not> leaf_isFull example_leaf" by (simp add: leaf_isFull_def example_leaf_def)
  ultimately show ?thesis
    using leaf_insert_spec [OF example_leaf_ok example_leaf_limits, of 8 80] by (simp add: example_leaf_map)
qed

text \<open>C32: \<open>remove\<close> and \<open>update\<close> on a leaf: on a present key the one deletes exactly its entry and the
  other overwrites its value and marks the page dirty; both refuse an absent key without touching
  the page. The limits are kept.\<close>

theorem leaf_modify_spec:
  assumes "leaf_ok p" "leaf_in_limits p"
  shows "if k \<in> dom (leaf_map p)
    then \<exists>q r. leaf_remove p k = (True, q) \<and> leaf_map q = (leaf_map p)(k := None) \<and> leaf_ok q \<and> leaf_in_limits q \<and>
      leaf_update p k v = (True, r) \<and> leaf_map r = (leaf_map p)(k \<mapsto> v) \<and> leaf_keys r = leaf_keys p \<and> dirty r \<and>
      leaf_ok r \<and> leaf_in_limits r
    else leaf_remove p k = (False, p) \<and> leaf_update p k v = (False, p)"
proof (cases "k \<in> dom (leaf_map p)")
  case True
  then have "leaf_remove p k = (True, snd (leaf_remove p k))" "leaf_update p k v = (True, snd (leaf_update p k v))"
    using leaf_remove_correct [OF assms(1), of k] leaf_update_correct [OF assms(1), of k v] by (simp_all add: prod_eq_iff)
  with True show ?thesis
    using leaf_remove_correct [OF assms(1), of k] leaf_remove_limits [OF assms, of k] leaf_update_correct [OF assms(1), of k v]
      leaf_update_limits [OF assms, of k v] by (simp only: if_True) blast
next
  case False
  then show ?thesis using leaf_remove_absent [OF assms(1)] leaf_update_correct [OF assms(1), of k v] by auto
qed

theorem leaf_modify_spec_witness:
  "leaf_map (snd (leaf_remove example_leaf 7)) = [5 \<mapsto> 50, 9 \<mapsto> 90] \<and>
   leaf_map (snd (leaf_update example_leaf 7 71)) = [5 \<mapsto> 50, 7 \<mapsto> 71, 9 \<mapsto> 90] \<and>
   leaf_update example_leaf 8 1 = (False, example_leaf)"
  using leaf_modify_spec [OF example_leaf_ok example_leaf_limits, of 7 71]
    leaf_modify_spec [OF example_leaf_ok example_leaf_limits, of 8 1]
  by (auto simp: example_leaf_map fun_eq_iff)

text \<open>C17: splitting a leaf with at least two entries cuts its entries in two well-formed leaves
  around the separator, which becomes the upper limit of the left and the lower limit of the
  right one; no entry is lost or moved out of order. The left leaf is linked to the new one, but
  the new one keeps its own link, so the page that followed the old leaf drops out of the chain.\<close>

theorem leaf_split_spec:
  assumes "leaf_ok p" "leaf_in_limits p" "length (data new) = max_leaf_entries" "2 \<le> count p"
    and "leaf_split p new = (sep, l, r)"
  shows "leaf_entries l @ leaf_entries r = leaf_entries p \<and> count l = count p div 2 \<and>
    leaf_ok l \<and> leaf_ok r \<and> leaf_in_limits l \<and> leaf_in_limits r \<and>
    min_limit l = min_limit p \<and> max_limit l = sep \<and> min_limit r = sep \<and> max_limit r = max_limit p \<and>
    (\<forall>k \<in> set (leaf_keys l). k \<le> sep) \<and> (\<forall>k \<in> set (leaf_keys r). sep < k) \<and>
    next_leaf l = remote_address new \<and> next_leaf r = next_leaf new"
proof -
  note parts = leaf_split_parts [OF assms(1,3,4,5)]
  have "min_limit l = min_limit p \<and> max_limit l = sep \<and> next_leaf l = remote_address new"
    by (subst (1 2 3) parts(6)) simp
  moreover have "min_limit r = sep \<and> max_limit r = max_limit p \<and> next_leaf r = next_leaf new"
    by (subst (1 2 3) parts(7)) simp
  ultimately show ?thesis using leaf_split_correct [OF assms] parts(3) by blast
qed

theorem leaf_split_spec_witness:
  "\<exists>sep l r. leaf_split example_leaf (mk_BTreeLeaf 0x8000000) = (sep, l, r) \<and>
     leaf_entries l @ leaf_entries r = [(5, 50), (7, 70), (9, 90)] \<and> next_leaf r = ga_Null"
proof -
  obtain sep l r where sp: "leaf_split example_leaf (mk_BTreeLeaf 0x8000000) = (sep, l, r)"
    by (cases "leaf_split example_leaf (mk_BTreeLeaf 0x8000000)") auto
  have "length (data (mk_BTreeLeaf 0x8000000)) = max_leaf_entries" "2 \<le> count example_leaf"
    "next_leaf (mk_BTreeLeaf 0x8000000) = ga_Null"
    by (simp_all add: mk_BTreeLeaf_def zero_page_def example_leaf_def)
  with leaf_split_spec [OF example_leaf_ok example_leaf_limits _ _ sp] sp show ?thesis
    by (auto simp: example_leaf_entries)
qed

end
