(* ===== verification/InnerNode.thy ===== *)
theory InnerNode
  imports NodeBase
begin

text \<open>
  \<open>BTreeInner\<close> of \<open>include/cache/BtreeNode.h\<close>: search, insertion and split of an inner page,
  and the 64-bit map that records which children are swizzled, with the probe
  \<open>closest_set\<close> that the sampler uses.
\<close>

subsection \<open>Operations\<close>

text \<open>The constructor, run by placement new over zeroed memory.\<close>

definition mk_BTreeInner :: "nat \<Rightarrow> gaddr \<Rightarrow> page" where
  "mk_BTreeInner level_in remote = zero_page
     \<lparr>remote_address := remote, parent_ptr := 0, level := level_in, count := 0,
      pos_state := POS_REMOTE, dirty := True, obsolete := False, shared := False,
      ptype := BTreeInner, bitmap := 0, min_limit := KEY_MIN, max_limit := KEY_MAX\<rparr>"

definition initInner :: "gaddr \<Rightarrow> nat \<Rightarrow> page" where
  "initInner remote lvl = zero_page
     \<lparr>remote_address := remote, parent_ptr := 0, bitmap := 0, ptype := BTreeInner, level := lvl,
      count := 0, pos_state := POS_LOCAL, shared := False, dirty := True, obsolete := False,
      min_limit := KEY_MIN, max_limit := KEY_MAX\<rparr>"

definition inner_isFull :: "page \<Rightarrow> bool" where
  "inner_isFull p \<longleftrightarrow> count p = max_inner_entries - 1"

definition inner_lowerBound :: "page \<Rightarrow> u64 \<Rightarrow> nat" where
  "inner_lowerBound p k = lower_bound_loop (\<lambda>i. keys p ! i) k 0 (count p)"

definition findIdx :: "page \<Rightarrow> u64 \<Rightarrow> int" where
  "findIdx p target_addr =
     (case List.find (\<lambda>i. children p ! i = target_addr) [0..<count p + 1] of
        Some i \<Rightarrow> int i | None \<Rightarrow> -1)"

definition set_bitmap :: "nat \<Rightarrow> page \<Rightarrow> page" where
  "set_bitmap idx p = p\<lparr>bitmap := bitmap p OR push_bit idx 1\<rparr>"

definition unset_bitmap :: "nat \<Rightarrow> page \<Rightarrow> page" where
  "unset_bitmap idx p = p\<lparr>bitmap := bitmap p AND NOT (push_bit idx 1)\<rparr>"

definition test_bitmap :: "page \<Rightarrow> nat \<Rightarrow> bool" where
  "test_bitmap p idx \<longleftrightarrow> bitmap p AND push_bit idx 1 \<noteq> 0"

text \<open>The trailing and leading zero counts of the BMI/LZCNT instructions (64 for zero).\<close>

definition tzcnt64 :: "u64 \<Rightarrow> nat" where
  "tzcnt64 w = length (takeWhile (\<lambda>i. \<not> bit w i) [0..<64])"

definition lzcnt64 :: "u64 \<Rightarrow> nat" where
  "lzcnt64 w = length (takeWhile (\<lambda>i. \<not> bit w (63 - i)) [0..<64])"

definition closest_set :: "page \<Rightarrow> int \<Rightarrow> int" where
  "closest_set p position =
     (if bitmap p = 0 then -1
      else
        (let bit_pos = nat (min position 63);
             right_sets = bitmap p AND NOT (push_bit bit_pos 1 - 1);
             right_dist = (if right_sets \<noteq> 0 then int (tzcnt64 right_sets) - int bit_pos else 64);
             left_sets = bitmap p AND (push_bit bit_pos 1 - 1);
             left_dist = (if left_sets \<noteq> 0 then int bit_pos - (63 - int (lzcnt64 left_sets)) else 64)
         in if right_dist < left_dist \<and> position + right_dist < int (count p) + 1
            then position + right_dist else position - left_dist))"

definition inner_insert :: "page \<Rightarrow> u64 \<Rightarrow> gaddr \<Rightarrow> page res" where
  "inner_insert p k child =
     assertR (count p < max_inner_entries - 1)
       (let pos = inner_lowerBound p k;
            ks = (blit (keys p) (pos + 1) (keys p) pos (count p - pos + 1))[pos := k];
            cs = (blit (children p) (pos + 1) (children p) pos (count p - pos + 1))[pos := child];
            cs' = cs[pos := cs ! (pos + 1), pos + 1 := cs ! pos];
            upper_part = push_bit (pos + 2) (drop_bit (pos + 1) (bitmap p));
            bm = (bitmap p AND (push_bit (pos + 1) 1 - 1)) OR upper_part;
            p1 = p\<lparr>keys := ks, children := cs', bitmap := bm\<rparr>;
            p2 = (if swizzled child then set_bitmap (pos + 1) p1 else p1)
        in Inr (p2\<lparr>count := u8 (int (count p) + 1), dirty := True\<rparr>))"

definition inner_split :: "page \<Rightarrow> page \<Rightarrow> u64 \<times> page \<times> page" where
  "inner_split p new =
     (let newcount = u8 (int (count p) - int (count p div 2));
          cnt = u8 (int (count p) - int newcount - 1);
          sep = keys p ! cnt
      in (sep,
          p\<lparr>count := cnt, max_limit := sep, bitmap := bitmap p AND (push_bit (cnt + 1) 1 - 1),
            dirty := True\<rparr>,
          new\<lparr>count := newcount,
              keys := blit (keys new) 0 (keys p) (cnt + 1) (newcount + 1),
              children := blit (children new) 0 (children p) (cnt + 1) (newcount + 1),
              min_limit := sep, max_limit := max_limit p,
              bitmap := drop_bit (cnt + 1) (bitmap p)\<rparr>))"

subsection \<open>Well-formed inner nodes\<close>

definition inner_keys :: "page \<Rightarrow> u64 list" where
  "inner_keys p = take (count p) (keys p)"

definition inner_children :: "page \<Rightarrow> gaddr list" where
  "inner_children p = take (count p + 1) (children p)"

definition inner_ok :: "page \<Rightarrow> bool" where
  "inner_ok p \<longleftrightarrow> length (keys p) = max_inner_entries \<and> length (children p) = max_inner_entries \<and>
     count p < max_inner_entries \<and> sorted_keys (inner_keys p)"

text \<open>The swizzle bitmap tells exactly which live children are swizzled.\<close>

definition bitmap_ok :: "page \<Rightarrow> bool" where
  "bitmap_ok p \<longleftrightarrow> (\<forall>i < 64. bit (bitmap p) i \<longleftrightarrow> i \<le> count p \<and> swizzled (children p ! i))"

text \<open>The interval of keys that child \<open>i\<close> is responsible for.\<close>

definition child_min :: "page \<Rightarrow> nat \<Rightarrow> u64" where
  "child_min p idx = (if idx = 0 then min_limit p else keys p ! (idx - 1))"

definition child_max :: "page \<Rightarrow> nat \<Rightarrow> u64" where
  "child_max p idx = (if idx = count p then max_limit p else keys p ! idx)"

lemma length_inner_keys [simp]: "inner_ok p \<Longrightarrow> length (inner_keys p) = count p"
  and length_inner_children [simp]: "inner_ok p \<Longrightarrow> length (inner_children p) = count p + 1"
  by (simp_all add: inner_ok_def inner_keys_def inner_children_def)

lemma inner_keys_nth: "inner_ok p \<Longrightarrow> i < count p \<Longrightarrow> inner_keys p ! i = keys p ! i"
  and inner_children_nth: "inner_ok p \<Longrightarrow> i \<le> count p \<Longrightarrow> inner_children p ! i = children p ! i"
  by (simp_all add: inner_ok_def inner_keys_def inner_children_def)

lemma inner_lowerBound_rank:
  assumes "inner_ok p"
  shows "inner_lowerBound p k \<le> count p \<and> (\<forall>i < inner_lowerBound p k. inner_keys p ! i < k) \<and>
    (\<forall>i. inner_lowerBound p k \<le> i \<longrightarrow> i < count p \<longrightarrow> k \<le> inner_keys p ! i)"
proof -
  have "\<forall>i j. i < j \<longrightarrow> j < count p \<longrightarrow> keys p ! i < keys p ! j"
    using assms by (auto simp: inner_ok_def sorted_wrt_iff_nth_less inner_keys_def)
  from lower_bound_loop_correct [OF this, of 0 "count p" k] show ?thesis
    using assms by (simp add: inner_lowerBound_def [symmetric] inner_keys_nth)
qed

interpretation inner: node_search inner_keys inner_lowerBound inner_ok
proof
  fix n k i
  assume ok: "inner_ok n"
  then show "sorted_keys (inner_keys n)" by (simp add: inner_ok_def)
  from inner_lowerBound_rank [OF ok, of k] ok
  show "inner_lowerBound n k \<le> length (inner_keys n)"
    and "i < inner_lowerBound n k \<Longrightarrow> inner_keys n ! i < k"
    and "inner_lowerBound n k \<le> i \<Longrightarrow> i < length (inner_keys n) \<Longrightarrow> k \<le> inner_keys n ! i"
    by simp_all
qed

lemma inner_route:
  assumes "inner_ok p" "rangeValid p k"
  shows "(KEY_MIN = k \<and> k = child_min p (inner_lowerBound p k)) \<or>
    (child_min p (inner_lowerBound p k) < k \<and> k \<le> child_max p (inner_lowerBound p k))"
proof -
  define i where "i = inner_lowerBound p k"
  note rank = inner_lowerBound_rank [OF assms(1), of k, folded i_def]
  have lo: "child_min p i < k" if "i \<noteq> 0"
  proof -
    have "inner_keys p ! (i - 1) < k" "i - 1 < count p" using that rank by auto
    then show ?thesis using that assms(1) by (simp add: child_min_def inner_keys_nth)
  qed
  have hi: "k \<le> child_max p i"
    using rank assms by (auto simp: child_max_def inner_keys_nth rangeValid_def KEY_MIN_def split: if_splits)
  show ?thesis
  proof (cases "i = 0")
    case True
    then have "child_min p i = min_limit p" by (simp add: child_min_def)
    then show ?thesis using assms(2) hi True by (auto simp: rangeValid_def i_def split: if_splits)
  next
    case False
    then show ?thesis using lo hi by (simp add: i_def)
  qed
qed

subsection \<open>Bits\<close>

lemma exp_minus_1_mask: "push_bit n 1 - 1 = (mask n :: u64)"
  by (simp add: mask_eq_exp_minus_1 push_bit_eq_mult)

lemma bit_single: "bit (push_bit n 1 :: u64) i \<longleftrightarrow> i = n \<and> n < 64"
  by (auto simp: bit_exp_iff)

lemma bit_exp64: "bit (2 ^ n :: u64) i \<longleftrightarrow> i = n \<and> n < 64"
  by (auto simp: bit_exp_iff)

lemma bit_mask64: "bit (mask n :: u64) i \<longleftrightarrow> i < n \<and> i < 64"
  by (auto simp: bit_mask_iff)

lemma word_nonzero_bit: "(w :: u64) \<noteq> 0 \<longleftrightarrow> (\<exists>i < 64. bit w i)"
proof
  assume "w \<noteq> 0"
  then obtain i where "bit w i" by (metis bit_eqI bit_0_eq bot_apply bot_bool_def)
  then show "\<exists>i < 64. bit w i" using bit_imp_le_length [of w i] by auto
qed auto

lemma bit_shift_gap:
  "j < 64 \<Longrightarrow> bit (push_bit (n + 2) (drop_bit (n + 1) (w :: u64))) j \<longleftrightarrow> n + 2 \<le> j \<and> bit w (j - 1)"
proof -
  assume j: "j < 64"
  have "n + 2 \<le> j \<Longrightarrow> n + 1 + (j - (n + 2)) = j - 1" by simp
  with j show ?thesis
    by (simp only: bit_push_bit_iff bit_drop_bit_eq possible_bit_word len_num0 comp_def) auto
qed

lemma bit_low_mask: "bit (w AND (push_bit n 1 - 1)) j \<longleftrightarrow> j < n \<and> bit (w :: u64) j"
  by (simp only: exp_minus_1_mask bit_and_iff bit_mask64) (auto dest: bit_imp_le_length)

lemma bit_set_bitmap: "bit (bitmap (set_bitmap n p)) i \<longleftrightarrow> bit (bitmap p) i \<or> i = n \<and> n < 64"
  by (simp add: set_bitmap_def bit_or_iff bit_exp64)

lemma bit_unset_bitmap: "bit (bitmap (unset_bitmap n p)) i \<longleftrightarrow> bit (bitmap p) i \<and> i \<noteq> n"
  by (auto simp: unset_bitmap_def bit_and_iff bit_not_iff bit_exp64 dest: bit_imp_le_length)

lemma test_bitmap_iff: "n < 64 \<Longrightarrow> test_bitmap p n \<longleftrightarrow> bit (bitmap p) n"
  by (auto simp: test_bitmap_def word_nonzero_bit bit_and_iff bit_exp64)

subsection \<open>Insertion\<close>

lemma inner_insert_parts:
  assumes ok: "inner_ok p" and n: "count p < max_inner_entries - 1"
    and i: "i = inner_lowerBound p k"
  obtains p' where "inner_insert p k child = Inr p'"
    and "inner_keys p' = take i (inner_keys p) @ k # drop i (inner_keys p)"
    and "inner_children p' = take (Suc i) (inner_children p) @ child # drop (Suc i) (inner_children p)"
    and "count p' = Suc (count p)" "length (keys p') = max_inner_entries"
      "length (children p') = max_inner_entries"
    and "\<And>j. j < 64 \<Longrightarrow> bit (bitmap p') j \<longleftrightarrow>
      (if j \<le> i then bit (bitmap p) j else if j = Suc i then swizzled child else bit (bitmap p) (j - 1))"
    and "p' = p\<lparr>keys := keys p', children := children p', bitmap := bitmap p', count := count p', dirty := True\<rparr>"
proof -
  define ks where "ks = (blit (keys p) (i + 1) (keys p) i (count p - i + 1))[i := k]"
  define cs where "cs = (blit (children p) (i + 1) (children p) i (count p - i + 1))[i := child]"
  define cs' where "cs' = cs[i := cs ! (i + 1), i + 1 := cs ! i]"
  define bm where "bm = (bitmap p AND (push_bit (i + 1) 1 - 1)) OR push_bit (i + 2) (drop_bit (i + 1) (bitmap p))"
  define bm' where "bm' = (if swizzled child then bm OR push_bit (i + 1) 1 else bm)"
  define p' where "p' = p\<lparr>keys := ks, children := cs', bitmap := bm', count := Suc (count p), dirty := True\<rparr>"
  have len: "length (keys p) = 60" "length (children p) = 60" "count p < 59"
    using ok n by (simp_all add: inner_ok_def)
  have il: "i \<le> count p" using inner_lowerBound_rank [OF ok, of k] i by simp
  have c: "u8 (int (count p) + 1) = Suc (count p)" using len by (intro u8_Suc) simp
  have ins: "inner_insert p k child = Inr p'"
    unfolding inner_insert_def Let_def i [symmetric] c
    unfolding ks_def [symmetric] cs_def [symmetric] cs'_def [symmetric] bm_def [symmetric]
    using n by (simp add: set_bitmap_def p'_def bm'_def)
  have lks: "length ks = 60" "length cs = 60" "length cs' = 60"
    using il len by (simp_all add: ks_def cs_def cs'_def)
  have ik: "inner_keys p' = take i (inner_keys p) @ k # drop i (inner_keys p)"
    using take_blit_insert1 [OF il, of "keys p" k] len il
    by (simp add: inner_keys_def p'_def ks_def min_absorb1)
  have cs: "take (count p + 2) cs = take i (inner_children p) @ child # drop i (inner_children p)"
    using take_blit_insert [of i "count p + 1" "children p" child] il len
    by (simp add: cs_def inner_children_def Suc_diff_le min_absorb1)
  have "inner_children p' = (take (count p + 2) cs)[i := cs ! (i + 1), i + 1 := cs ! i]"
    by (simp add: inner_children_def p'_def cs'_def take_update_swap)
  also have "\<dots> = (take (count p + 2) cs)[i := take (count p + 2) cs ! (i + 1), i + 1 := take (count p + 2) cs ! i]"
    using il by simp
  also have "\<dots> = take (Suc i) (inner_children p) @ child # drop (Suc i) (inner_children p)"
    using il ok by (intro swap_insert [OF _ cs]) simp
  finally have ic: "inner_children p' = take (Suc i) (inner_children p) @ child # drop (Suc i) (inner_children p)" .
  have bits: "bit (bitmap p') j \<longleftrightarrow>
      (if j \<le> i then bit (bitmap p) j else if j = Suc i then swizzled child else bit (bitmap p) (j - 1))"
    if j: "j < 64" for j
  proof -
    have b: "bit bm j \<longleftrightarrow> (j \<le> i \<and> bit (bitmap p) j) \<or> (i + 2 \<le> j \<and> bit (bitmap p) (j - 1))"
      unfolding bm_def bit_or_iff bit_shift_gap [OF j] bit_low_mask by auto
    have "bit bm' j \<longleftrightarrow> bit bm j \<or> swizzled child \<and> j = Suc i"
      unfolding bm'_def Suc_eq_plus1 using j by (cases "swizzled child") (simp_all only: if_True if_False bit_or_iff bit_single, auto)
    moreover have "bitmap p' = bm'" by (simp add: p'_def)
    ultimately show ?thesis using b j by (cases "j = Suc i") auto
  qed
  show ?thesis
    by (rule that [OF ins ik ic _ _ _ bits]) (simp_all add: p'_def lks)
qed

lemma bitmap_ok_children: "inner_ok p \<Longrightarrow>
  bitmap_ok p \<longleftrightarrow> (\<forall>i < 64. bit (bitmap p) i \<longleftrightarrow> i \<le> count p \<and> swizzled (inner_children p ! i))"
  by (auto simp: bitmap_ok_def inner_children_nth)

lemma inner_insert_correct:
  assumes ok: "inner_ok p" and n: "\<not> inner_isFull p" and k: "k \<notin> set (inner_keys p)" and bm: "bitmap_ok p"
    and ins: "inner_insert p k child = Inr p'"
  shows "inner_ok p' \<and> bitmap_ok p' \<and> count p' = Suc (count p) \<and>
    inner_keys p' = take (inner_lowerBound p k) (inner_keys p) @ k # drop (inner_lowerBound p k) (inner_keys p) \<and>
    inner_children p' = take (Suc (inner_lowerBound p k)) (inner_children p) @ child #
      drop (Suc (inner_lowerBound p k)) (inner_children p)"
proof -
  define i where "i = inner_lowerBound p k"
  have n': "count p < max_inner_entries - 1" using ok n by (auto simp: inner_ok_def inner_isFull_def)
  from inner_insert_parts [OF ok n' i_def, of child] ins
  have parts: "inner_keys p' = take i (inner_keys p) @ k # drop i (inner_keys p)"
    "inner_children p' = take (Suc i) (inner_children p) @ child # drop (Suc i) (inner_children p)"
    "count p' = Suc (count p)" "length (keys p') = max_inner_entries" "length (children p') = max_inner_entries"
    and bits: "\<And>j. j < 64 \<Longrightarrow> bit (bitmap p') j \<longleftrightarrow>
      (if j \<le> i then bit (bitmap p) j else if j = Suc i then swizzled child else bit (bitmap p) (j - 1))"
    by (metis sum.inject(2))+
  have il: "i \<le> count p" using inner_lowerBound_rank [OF ok, of k] i_def by simp
  have ok': "inner_ok p'"
    using inner.insert_sorted [OF ok k] parts n' by (simp add: inner_ok_def i_def)
  have ch: "inner_children p' ! j = (if j \<le> i then inner_children p ! j else if j = Suc i then child
      else inner_children p ! (j - 1))" if "j \<le> count p + 1" for j
    using nth_insert_at [of "Suc i" "inner_children p" j child] il ok that by (simp add: parts(2) less_Suc_eq_le)
  have b: "bit (bitmap p) j \<longleftrightarrow> j \<le> count p \<and> swizzled (inner_children p ! j)" if "j < 64" for j
    using bm ok that by (simp add: bitmap_ok_children)
  have "bitmap_ok p'"
    unfolding bitmap_ok_children [OF ok'] parts(3)
  proof (intro allI impI)
    fix j :: nat
    assume j: "j < 64"
    show "bit (bitmap p') j \<longleftrightarrow> j \<le> Suc (count p) \<and> swizzled (inner_children p' ! j)"
      using bits [OF j] b [OF j] b [of "j - 1"] ch [of j] il j by auto
  qed
  with ok' parts show ?thesis by (simp add: i_def)
qed

lemma inner_insert_assert: "inner_isFull p \<Longrightarrow> inner_insert p k child = Inl AssertFail"
  by (simp add: inner_insert_def inner_isFull_def)

subsection \<open>Split\<close>

lemma inner_split_parts:
  assumes p: "inner_ok p" and new: "length (keys new) = max_inner_entries" "length (children new) = max_inner_entries"
    and n: "2 \<le> count p" and split: "inner_split p new = (sep, l, r)"
  shows "inner_keys l @ sep # inner_keys r = inner_keys p"
    and "inner_children l @ inner_children r = inner_children p"
    and "count l = count p div 2 - 1" and "count r = count p - count p div 2"
    and "bitmap l = bitmap p AND (push_bit (count p div 2) 1 - 1)" and "bitmap r = drop_bit (count p div 2) (bitmap p)"
    and "l = p\<lparr>count := count l, max_limit := sep, bitmap := bitmap l, dirty := True\<rparr>"
    and "r = new\<lparr>count := count r, keys := keys r, children := children r, min_limit := sep,
        max_limit := max_limit p, bitmap := bitmap r\<rparr>"
    and "length (keys r) = max_inner_entries" "length (children r) = max_inner_entries"
proof -
  define h where "h = count p div 2"
  have len: "length (keys p) = 60" "length (children p) = 60" "count p < 60"
    "length (keys new) = 60" "length (children new) = 60"
    using p new by (simp_all add: inner_ok_def)
  have h: "1 \<le> h" "h < count p" using n by (auto simp: h_def)
  have c1: "u8 (int (count p) - int (count p div 2)) = count p - h"
    unfolding h_def by (rule u8_diff) (use len in auto)
  have c2: "u8 (int (count p) - int (count p - h) - 1) = h - 1"
    using u8_of_nat [of "h - 1"] h len by (simp add: of_nat_diff)
  have sp: "inner_split p new = (keys p ! (h - 1),
      p\<lparr>count := h - 1, max_limit := keys p ! (h - 1), bitmap := bitmap p AND (push_bit (h - 1 + 1) 1 - 1), dirty := True\<rparr>,
      new\<lparr>count := count p - h, keys := blit (keys new) 0 (keys p) (h - 1 + 1) (count p - h + 1),
        children := blit (children new) 0 (children p) (h - 1 + 1) (count p - h + 1),
        min_limit := keys p ! (h - 1), max_limit := max_limit p, bitmap := drop_bit (h - 1 + 1) (bitmap p)\<rparr>)"
    unfolding inner_split_def Let_def c1 c2 by (rule refl)
  have h1: "h - 1 + 1 = h" using h by simp
  have parts: "sep = keys p ! (h - 1)"
    "l = p\<lparr>count := h - 1, max_limit := sep, bitmap := bitmap p AND (push_bit h 1 - 1), dirty := True\<rparr>"
    "r = new\<lparr>count := count p - h, keys := blit (keys new) 0 (keys p) h (count p - h + 1),
        children := blit (children new) 0 (children p) h (count p - h + 1),
        min_limit := sep, max_limit := max_limit p, bitmap := drop_bit h (bitmap p)\<rparr>"
    using sp [unfolded split h1] by (simp_all only: prod.inject)
  show "count l = count p div 2 - 1" "count r = count p - count p div 2"
    "bitmap l = bitmap p AND (push_bit (count p div 2) 1 - 1)" "bitmap r = drop_bit (count p div 2) (bitmap p)"
    by (simp_all add: parts(2,3) h_def)
  have kr: "inner_keys r = take (count p - h) (drop h (keys p))"
  proof -
    have "take (count p - h) (blit (keys new) 0 (keys p) h (count p - h + 1)) =
        take (count p - h) (take (count p - h + 1) (blit (keys new) 0 (keys p) h (count p - h + 1)))"
      by simp
    also have "\<dots> = take (count p - h) (drop h (keys p))"
      by (subst take_blit_prefix) (use len h in auto)
    finally show ?thesis by (simp add: parts(3) inner_keys_def)
  qed
  have "inner_children r = take (count p - h + 1) (drop h (children p))"
    using take_blit_prefix [of h "count p - h + 1" "children p" "children new"] len h
    by (simp add: parts(3) inner_children_def)
  moreover have "inner_children l = take h (children p)"
    using h by (simp add: parts(2) inner_children_def)
  ultimately show "inner_children l @ inner_children r = inner_children p"
    using h by (simp add: inner_children_def take_add [symmetric])
  have kl: "inner_keys l = take (h - 1) (keys p)"
    by (simp add: parts(2) inner_keys_def)
  have "take (h - 1) (keys p) @ sep # take (count p - h) (drop h (keys p)) =
      take h (keys p) @ take (count p - h) (drop h (keys p))"
    using h len take_Suc_conv_app_nth [of "h - 1" "keys p"] by (simp add: parts(1))
  also have "\<dots> = take (count p) (keys p)"
    using take_add [of h "count p - h" "keys p"] h by simp
  finally show "inner_keys l @ sep # inner_keys r = inner_keys p"
    by (simp only: kl kr inner_keys_def [of p])
  show "l = p\<lparr>count := count l, max_limit := sep, bitmap := bitmap l, dirty := True\<rparr>"
    "r = new\<lparr>count := count r, keys := keys r, children := children r, min_limit := sep,
        max_limit := max_limit p, bitmap := bitmap r\<rparr>"
    by (simp_all add: parts(2,3))
  show "length (keys r) = max_inner_entries" "length (children r) = max_inner_entries"
    using h len by (simp_all add: parts(3))
qed

lemma inner_split_correct:
  assumes p: "inner_ok p" "bitmap_ok p"
    and new: "length (keys new) = max_inner_entries" "length (children new) = max_inner_entries"
    and n: "2 \<le> count p" and split: "inner_split p new = (sep, l, r)"
  shows "inner_ok l \<and> inner_ok r \<and> bitmap_ok l \<and> bitmap_ok r \<and>
    (\<forall>k \<in> set (inner_keys l). k < sep) \<and> (\<forall>k \<in> set (inner_keys r). sep < k)"
proof -
  define h where "h = count p div 2"
  note parts = inner_split_parts [OF p(1) new n split, folded h_def]
  have h: "1 \<le> h" "h < count p" "count p < 60" using n p(1) by (auto simp: h_def inner_ok_def)
  have srt: "sorted_keys (inner_keys l @ sep # inner_keys r)" using p(1) by (simp add: parts(1) inner_ok_def)
  have kl: "keys l = keys p" "children l = children p"
    using arg_cong [OF parts(7), of keys] arg_cong [OF parts(7), of children] by simp_all
  have ok: "inner_ok l" "inner_ok r"
    using srt parts(3,4,9,10) h p(1) kl by (auto simp: inner_ok_def sorted_wrt_append)
  have ll: "length (inner_children l) = h" using ok(1) parts(3) h by simp
  have b: "bit (bitmap p) j \<longleftrightarrow> j \<le> count p \<and> swizzled (inner_children p ! j)" if "j < 64" for j
    using p that by (simp add: bitmap_ok_children)
  have "bitmap_ok l"
    unfolding bitmap_ok_children [OF ok(1)]
  proof (intro allI impI)
    fix j :: nat assume j: "j < 64"
    have "j < h \<Longrightarrow> inner_children l ! j = inner_children p ! j"
      using ll by (simp add: parts(2) [symmetric] nth_append)
    moreover have "bit (bitmap l) j \<longleftrightarrow> j < h \<and> bit (bitmap p) j" unfolding parts(5) bit_low_mask ..
    ultimately show "bit (bitmap l) j \<longleftrightarrow> j \<le> count l \<and> swizzled (inner_children l ! j)"
      using b [OF j] h by (auto simp: parts(3))
  qed
  moreover have "bitmap_ok r"
    unfolding bitmap_ok_children [OF ok(2)]
  proof (intro allI impI)
    fix j :: nat assume j: "j < 64"
    have ch: "inner_children r ! j = inner_children p ! (h + j)"
      using ll by (simp add: parts(2) [symmetric] nth_append)
    show "bit (bitmap r) j \<longleftrightarrow> j \<le> count r \<and> swizzled (inner_children r ! j)"
    proof (cases "h + j < 64")
      case True
      with b [OF True] ch h show ?thesis by (auto simp: parts(4,6) bit_drop_bit_eq)
    next
      case False
      then have "\<not> bit (bitmap p) (h + j)" by (auto dest: bit_imp_le_length)
      with False h show ?thesis by (auto simp: parts(4,6) bit_drop_bit_eq)
    qed
  qed
  ultimately show ?thesis using ok srt by (auto simp: sorted_wrt_append)
qed

subsection \<open>The nearest swizzled child\<close>

lemma tzcnt64_bit:
  assumes "w \<noteq> 0"
  shows "tzcnt64 w < 64 \<and> bit w (tzcnt64 w) \<and> (\<forall>j < tzcnt64 w. \<not> bit w j)"
proof -
  have lt: "tzcnt64 w < 64"
  proof (rule ccontr)
    assume "\<not> tzcnt64 w < 64"
    then have "takeWhile (\<lambda>i. \<not> bit w i) [0..<64] = [0..<64]"
      unfolding tzcnt64_def by (metis length_upt diff_zero length_takeWhile_le linorder_neqE_nat
          linorder_not_less takeWhile_eq_take take_all_iff)
    then have "\<forall>i < 64. \<not> bit w i" by (simp add: takeWhile_eq_all_conv)
    with assms show False unfolding word_nonzero_bit by blast
  qed
  have "\<not> bit w j" if "j < tzcnt64 w" for j
  proof -
    have "[0..<64] ! j \<in> set (takeWhile (\<lambda>i. \<not> bit w i) [0..<64])"
      using that lt by (metis nth_mem takeWhile_nth tzcnt64_def)
    then show ?thesis using that lt by (auto dest: set_takeWhileD)
  qed
  moreover have "bit w (tzcnt64 w)"
    using nth_length_takeWhile [of "\<lambda>i. \<not> bit w i" "[0..<64]"] lt by (simp add: tzcnt64_def)
  ultimately show ?thesis using lt by blast
qed

lemma lzcnt64_bit:
  assumes "w \<noteq> 0"
  shows "lzcnt64 w < 64 \<and> bit w (63 - lzcnt64 w) \<and> (\<forall>j. 63 - lzcnt64 w < j \<longrightarrow> \<not> bit w j)"
proof -
  have lt: "lzcnt64 w < 64"
  proof (rule ccontr)
    assume "\<not> lzcnt64 w < 64"
    then have "takeWhile (\<lambda>i. \<not> bit w (63 - i)) [0..<64] = [0..<64]"
      unfolding lzcnt64_def by (metis length_upt diff_zero length_takeWhile_le linorder_neqE_nat
          linorder_not_less takeWhile_eq_take take_all_iff)
    then have all: "\<forall>i < 64. \<not> bit w (63 - i)" by (simp add: takeWhile_eq_all_conv)
    from assms obtain i where "i < 64" "bit w i" by (auto simp: word_nonzero_bit)
    moreover have "63 - (63 - i) = i" "63 - i < 64" using \<open>i < 64\<close> by auto
    ultimately show False using all by metis
  qed
  have low: "\<not> bit w (63 - i)" if "i < lzcnt64 w" for i
  proof -
    have "[0..<64] ! i \<in> set (takeWhile (\<lambda>i. \<not> bit w (63 - i)) [0..<64])"
      using that lt by (metis nth_mem takeWhile_nth lzcnt64_def)
    then show ?thesis using that lt by (auto dest: set_takeWhileD)
  qed
  have "\<not> bit w j" if j: "63 - lzcnt64 w < j" for j
  proof (cases "j < 64")
    case True
    then have "63 - j < lzcnt64 w" "63 - (63 - j) = j" using j by auto
    then show ?thesis using low by metis
  qed (auto dest: bit_imp_le_length)
  moreover have "bit w (63 - lzcnt64 w)"
    using nth_length_takeWhile [of "\<lambda>i. \<not> bit w (63 - i)" "[0..<64]"] lt by (simp add: lzcnt64_def)
  ultimately show ?thesis using lt by blast
qed

lemma closest_set_nearest:
  assumes bm: "bitmap_ok p" and cnt: "count p < max_inner_entries" and ne: "bitmap p \<noteq> 0" and c: "c \<le> count p"
  shows "\<exists>i. closest_set p (int c) = int i \<and> i \<le> count p \<and> swizzled (children p ! i) \<and>
    (\<forall>j \<le> count p. swizzled (children p ! j) \<longrightarrow> \<bar>int i - int c\<bar> \<le> \<bar>int j - int c\<bar>)"
proof -
  define R where "R = bitmap p AND NOT (push_bit c 1 - 1)"
  define L where "L = bitmap p AND (push_bit c 1 - 1)"
  have c64: "c < 64" "nat (min (int c) 63) = c" using c cnt by auto
  have b: "bit (bitmap p) j \<longleftrightarrow> j \<le> count p \<and> swizzled (children p ! j)" for j
    using bm cnt bit_imp_le_length [of "bitmap p" j] by (cases "j < 64") (auto simp: bitmap_ok_def)
  have R: "bit R j \<longleftrightarrow> c \<le> j \<and> bit (bitmap p) j" for j
    unfolding R_def exp_minus_1_mask using bit_imp_le_length [of "bitmap p" j]
    by (auto simp: bit_and_iff bit_not_iff bit_mask64)
  have L: "bit L j \<longleftrightarrow> j < c \<and> bit (bitmap p) j" for j
    unfolding L_def bit_low_mask ..
  define rd where "rd = (if R \<noteq> 0 then int (tzcnt64 R) - int c else 64)"
  define ld where "ld = (if L \<noteq> 0 then int c - (63 - int (lzcnt64 L)) else 64)"
  have cs: "closest_set p (int c) = (if rd < ld \<and> int c + rd < int (count p) + 1 then int c + rd else int c - ld)"
    using ne unfolding closest_set_def Let_def c64(2) R_def [symmetric] L_def [symmetric]
      rd_def [symmetric] ld_def [symmetric] by simp
  have r1: "0 \<le> rd \<and> bit (bitmap p) (nat (int c + rd)) \<and> (\<forall>j. c \<le> j \<longrightarrow> bit (bitmap p) j \<longrightarrow> int c + rd \<le> int j)" if "R \<noteq> 0"
  proof -
    note t = tzcnt64_bit [OF that]
    have "\<forall>j. c \<le> j \<longrightarrow> bit (bitmap p) j \<longrightarrow> tzcnt64 R \<le> j" using t R by (metis linorder_not_less)
    then show ?thesis using t that R by (auto simp: rd_def)
  qed
  have r0: "rd = 64 \<and> (\<forall>j. c \<le> j \<longrightarrow> \<not> bit (bitmap p) j)" if "R = 0"
    using that R by (auto simp: rd_def)
  have l1: "0 < ld \<and> ld \<le> int c \<and> bit (bitmap p) (nat (int c - ld)) \<and> (\<forall>j < c. bit (bitmap p) j \<longrightarrow> int j \<le> int c - ld)" if "L \<noteq> 0"
  proof -
    note t = lzcnt64_bit [OF that]
    have "\<forall>j < c. bit (bitmap p) j \<longrightarrow> j \<le> 63 - lzcnt64 L" using t L by (metis linorder_not_less)
    moreover have "63 - lzcnt64 L < c" "bit (bitmap p) (63 - lzcnt64 L)" using t L by auto
    moreover have "nat (63 - int (lzcnt64 L)) = 63 - lzcnt64 L" by linarith
    ultimately show ?thesis using t that by (auto simp: ld_def of_nat_diff)
  qed
  have l0: "ld = 64 \<and> (\<forall>j < c. \<not> bit (bitmap p) j)" if "L = 0"
    using that L by (auto simp: ld_def)
  have "\<exists>i. closest_set p (int c) = int i \<and> bit (bitmap p) i \<and>
      (\<forall>j. bit (bitmap p) j \<longrightarrow> \<bar>int i - int c\<bar> \<le> \<bar>int j - int c\<bar>)"
  proof (cases "rd < ld")
    case True
    then have Rn: "R \<noteq> 0" using r0 l0 l1 c64 by (cases "L = 0") force+
    note r = r1 [OF Rn]
    have "int c + rd < int (count p) + 1" using r b by (auto simp: nat_le_iff)
    with True have "closest_set p (int c) = int (nat (int c + rd))" using cs r by simp
    moreover have "\<bar>int (nat (int c + rd)) - int c\<bar> \<le> \<bar>int j - int c\<bar>" if "bit (bitmap p) j" for j
    proof (cases "c \<le> j")
      case c_le: True
      then have "int c + rd \<le> int j" using r that by blast
      with r show ?thesis by simp
    next
      case False
      then have "L \<noteq> 0" using l0 that by force
      then have "int j \<le> int c - ld" using l1 False that by force
      with r True show ?thesis by simp
    qed
    ultimately show ?thesis using r by blast
  next
    case False
    have Ln: "L \<noteq> 0"
    proof
      assume "L = 0"
      then have ld64: "ld = 64" and none: "\<forall>j < c. \<not> bit (bitmap p) j" using l0 by auto
      from ne obtain j where j: "bit (bitmap p) j" unfolding word_nonzero_bit by blast
      then have cj: "c \<le> j" "j < 60" using none b cnt by (auto simp: not_less [symmetric])
      then have "R \<noteq> 0" using r0 j by force
      then have "int c + rd \<le> int j" using r1 j cj by blast
      then show False using False ld64 cj by simp
    qed
    note l = l1 [OF Ln]
    have "closest_set p (int c) = int (nat (int c - ld))" using cs l False by simp
    moreover have "\<bar>int (nat (int c - ld)) - int c\<bar> \<le> \<bar>int j - int c\<bar>" if "bit (bitmap p) j" for j
    proof (cases "c \<le> j")
      case c_le: True
      then have "R \<noteq> 0" using r0 that by force
      then have "int c + rd \<le> int j" using r1 c_le that by force
      with l False show ?thesis by simp
    next
      case False
      then have "int j \<le> int c - ld" using l that by force
      with l show ?thesis by simp
    qed
    ultimately show ?thesis using l by blast
  qed
  then show ?thesis using b by metis
qed

subsection \<open>Properties\<close>

text \<open>An inner node with three children, the middle one swizzled, for the instances below.\<close>

definition example_inner :: page where
  "example_inner = (mk_BTreeInner 1 0x4000000)
     \<lparr>count := 2, keys := [10, 20] @ replicate 58 0,
      children := [0x8000000, swz 0x7000, 0xC000000] @ replicate 57 0, bitmap := 2\<rparr>"

lemma example_inner_fields:
  "count example_inner = 2" "inner_keys example_inner = [10, 20]" "bitmap example_inner = 2"
  "inner_children example_inner = [0x8000000, swz 0x7000, 0xC000000]"
  "min_limit example_inner = 0" "max_limit example_inner = - 1"
  by (simp_all add: example_inner_def inner_keys_def inner_children_def mk_BTreeInner_def KEY_MIN_def KEY_MAX_def)

lemma example_inner_ok: "inner_ok example_inner"
  by (simp add: inner_ok_def example_inner_fields) (simp add: example_inner_def)

lemma not_swizzled_28: "unat (v :: u64) < 2 ^ 63 \<Longrightarrow> \<not> swizzled v"
  using not_bit_small [of v 63 63] by (simp add: swizzled_iff_bit)

lemma example_inner_bitmap: "bitmap_ok example_inner"
  unfolding bitmap_ok_children [OF example_inner_ok] example_inner_fields
proof (intro allI impI)
  fix i :: nat
  have b2: "bit (2 :: u64) i \<longleftrightarrow> i = 1" using bit_exp64 [of 1 i] unfolding power_one_right by auto
  consider "i = 0" | "i = 1" | "i = 2" | "2 < i" by linarith
  then show "bit (2 :: u64) i \<longleftrightarrow> i \<le> 2 \<and> swizzled ([0x8000000, swz 0x7000, 0xC000000] ! i)"
    unfolding b2 by cases (simp_all add: not_swizzled_28)
qed

text \<open>C30: an inner node routes every key of its interval to the one child whose interval holds
  it; \<open>lowerBound\<close> is the rank of the key among the separators.\<close>

theorem inner_route_spec:
  assumes "inner_ok p" "rangeValid p k"
  shows "inner_lowerBound p k \<le> count p \<and>
    (KEY_MIN = k \<and> k = child_min p (inner_lowerBound p k) \<or>
     child_min p (inner_lowerBound p k) < k \<and> k \<le> child_max p (inner_lowerBound p k)) \<and>
    (\<forall>i \<le> count p. child_min p i < k \<and> k \<le> child_max p i \<longrightarrow> i = inner_lowerBound p k)"
proof -
  define b where "b = inner_lowerBound p k"
  note rank = inner_lowerBound_rank [OF assms(1), of k, folded b_def]
  have "i = b" if i: "i \<le> count p" "child_min p i < k" "k \<le> child_max p i" for i
  proof (rule linorder_cases [of i b])
    assume "i < b"
    then have "inner_keys p ! i < k" "i < count p" using rank by auto
    then show ?thesis using i(3) assms(1) by (simp add: child_max_def inner_keys_nth)
  next
    assume "b < i"
    then have "k \<le> inner_keys p ! (i - 1)" "i - 1 < count p" "i \<noteq> 0" using rank i(1) by auto
    then show ?thesis using i(2) assms(1) by (simp add: child_min_def inner_keys_nth)
  qed
  with inner_route [OF assms] rank show ?thesis by (auto simp: b_def)
qed

theorem inner_route_spec_witness: "inner_lowerBound example_inner 15 = 1"
proof -
  have r: "rangeValid example_inner 15" by (simp add: rangeValid_def example_inner_fields KEY_MIN_def)
  have "child_min example_inner 1 < 15 \<and> 15 \<le> child_max example_inner 1"
    by (simp add: child_min_def child_max_def example_inner_def)
  then have "1 = inner_lowerBound example_inner 15"
    using inner_route_spec [OF example_inner_ok r] by (simp only: example_inner_fields)
  then show ?thesis by (rule sym)
qed

text \<open>C15: inserting a new separator and its right child into an inner node with room puts both in
  order, shifts the swizzle bits with the children, and keeps node and bitmap well formed; on a full
  node the assertion stops the process.\<close>

theorem inner_insert_spec:
  assumes "inner_ok p" "bitmap_ok p" "k \<notin> set (inner_keys p)"
  shows "(if inner_isFull p then inner_insert p k child = Inl AssertFail
    else \<exists>p'. inner_insert p k child = Inr p' \<and> inner_ok p' \<and> bitmap_ok p' \<and>
      inner_keys p' = take (inner_lowerBound p k) (inner_keys p) @ k # drop (inner_lowerBound p k) (inner_keys p) \<and>
      inner_children p' = take (Suc (inner_lowerBound p k)) (inner_children p) @ child #
        drop (Suc (inner_lowerBound p k)) (inner_children p) \<and>
      dirty p' \<and> min_limit p' = min_limit p \<and> max_limit p' = max_limit p \<and> level p' = level p)"
proof (cases "inner_isFull p")
  case True
  then show ?thesis by (simp add: inner_insert_assert)
next
  case False
  then have n: "count p < max_inner_entries - 1" using assms(1) by (auto simp: inner_ok_def inner_isFull_def)
  obtain p' where p': "inner_insert p k child = Inr p'"
    "p' = p\<lparr>keys := keys p', children := children p', bitmap := bitmap p', count := count p', dirty := True\<rparr>"
    using inner_insert_parts [OF assms(1) n refl] by metis
  have "dirty p' \<and> min_limit p' = min_limit p \<and> max_limit p' = max_limit p \<and> level p' = level p"
    by (subst (1 2 3 4) p'(2)) simp
  with inner_insert_correct [OF assms(1) False assms(3,2) p'(1)] p'(1) False show ?thesis by auto
qed

theorem inner_insert_spec_witness:
  "\<exists>p'. inner_insert example_inner 15 (swz 0x9000) = Inr p' \<and> inner_keys p' = [10, 15, 20] \<and>
     inner_children p' = [0x8000000, swz 0x7000, swz 0x9000, 0xC000000] \<and> bitmap_ok p'"
proof -
  have "inner_lowerBound example_inner 15 = 1"
    unfolding inner_lowerBound_def example_inner_fields(1)
    by (simp add: lower_bound_loop.simps [of _ _ 0 2] lower_bound_loop.simps [of _ _ 0 "Suc 0"]
        lower_bound_loop.simps [of _ _ "Suc 0" "Suc 0"] example_inner_def)
  moreover have "\<not> inner_isFull example_inner" by (simp add: inner_isFull_def example_inner_fields)
  ultimately show ?thesis
    using inner_insert_spec [OF example_inner_ok example_inner_bitmap, of 15 "swz 0x9000"]
    by (auto simp: example_inner_fields)
qed

text \<open>C18: splitting an inner node with at least two separators removes the middle one, which
  becomes the limit between the halves, and deals the other separators, the children and the
  swizzle bits out to the two halves in order; both stay well formed.\<close>

theorem inner_split_spec:
  assumes "inner_ok p" "bitmap_ok p" "2 \<le> count p"
    and "length (keys new) = max_inner_entries" "length (children new) = max_inner_entries"
    and "inner_split p new = (sep, l, r)"
  shows "inner_keys l @ sep # inner_keys r = inner_keys p \<and>
    inner_children l @ inner_children r = inner_children p \<and>
    inner_ok l \<and> inner_ok r \<and> bitmap_ok l \<and> bitmap_ok r \<and>
    min_limit l = min_limit p \<and> max_limit l = sep \<and> min_limit r = sep \<and> max_limit r = max_limit p"
proof -
  note parts = inner_split_parts [OF assms(1,4,5,3,6)]
  have "min_limit l = min_limit p \<and> max_limit l = sep" by (subst (1 2) parts(7)) simp
  moreover have "min_limit r = sep \<and> max_limit r = max_limit p" by (subst (1 2) parts(8)) simp
  ultimately show ?thesis
    using inner_split_correct [OF assms(1,2,4,5,3,6)] parts(1,2) by blast
qed

theorem inner_split_spec_witness:
  "\<exists>sep l r. inner_split example_inner (mk_BTreeInner 1 0x10000000) = (sep, l, r) \<and>
     inner_keys l @ sep # inner_keys r = [10, 20] \<and> bitmap_ok l \<and> bitmap_ok r"
proof -
  obtain sep l r where sp: "inner_split example_inner (mk_BTreeInner 1 0x10000000) = (sep, l, r)"
    by (cases "inner_split example_inner (mk_BTreeInner 1 0x10000000)") auto
  have "length (keys (mk_BTreeInner 1 0x10000000)) = max_inner_entries"
    "length (children (mk_BTreeInner 1 0x10000000)) = max_inner_entries" "2 \<le> count example_inner"
    by (simp_all add: mk_BTreeInner_def zero_page_def example_inner_fields)
  with inner_split_spec [OF example_inner_ok example_inner_bitmap _ _ _ sp] sp show ?thesis
    by (auto simp: example_inner_fields)
qed

text \<open>C16: from any child index, \<open>closest_set\<close> finds a swizzled child at the least distance
  whenever the bitmap is exact and not empty, so the sampler never follows an unswizzled or
  out-of-range slot; on an empty bitmap it answers -1.\<close>

theorem closest_set_spec:
  assumes "bitmap_ok p" "count p < max_inner_entries" "c \<le> count p"
  shows "(if \<forall>j \<le> count p. \<not> swizzled (children p ! j) then closest_set p (int c) = -1
    else \<exists>i. closest_set p (int c) = int i \<and> i \<le> count p \<and> swizzled (children p ! i) \<and>
      (\<forall>j \<le> count p. swizzled (children p ! j) \<longrightarrow> \<bar>int i - int c\<bar> \<le> \<bar>int j - int c\<bar>))"
proof -
  have "bitmap p = 0 \<longleftrightarrow> (\<forall>j \<le> count p. \<not> swizzled (children p ! j))"
  proof -
    have "bitmap p \<noteq> 0 \<longleftrightarrow> (\<exists>i < 64. i \<le> count p \<and> swizzled (children p ! i))"
      unfolding word_nonzero_bit using assms(1) by (auto simp: bitmap_ok_def)
    then show ?thesis using assms(2) by force
  qed
  then show ?thesis using closest_set_nearest [OF assms(1,2) _ assms(3)] by (simp add: closest_set_def)
qed

theorem closest_set_spec_witness: "closest_set example_inner 0 = 1"
proof -
  have "children example_inner ! 1 = swz 0x7000" "children example_inner ! 0 = 0x8000000"
    "children example_inner ! 2 = 0xC000000"
    by (simp_all add: example_inner_def)
  then have sw: "swizzled (children example_inner ! j) \<and> j \<le> 2 \<longleftrightarrow> j = 1" for j
    by (cases "j = 0 \<or> j = 1 \<or> j = 2") (auto simp: not_swizzled_28)
  have ne: "\<not> (\<forall>j \<le> count example_inner. \<not> swizzled (children example_inner ! j))"
    using sw [of 1] unfolding example_inner_fields by blast
  have "\<exists>i. closest_set example_inner (int 0) = int i \<and> i \<le> count example_inner \<and> swizzled (children example_inner ! i)"
    using closest_set_spec [OF example_inner_bitmap, of 0] unfolding if_not_P [OF ne]
    by (auto simp: example_inner_fields)
  then obtain i where "closest_set example_inner 0 = int i" "i \<le> 2" "swizzled (children example_inner ! i)"
    by (auto simp: example_inner_fields)
  then show ?thesis using sw [of i] by simp
qed

end
