(* ===== verification/NodeWR.thy ===== *)
theory NodeWR
  imports Backend LeafNode InnerNode
begin

text \<open>
  The helpers of \<open>include/cache/NodeWR.h\<close>: moving pages between memory and the backend, the
  walk that the sampler takes down the swizzled part of the tree, and the consistency checks.
  The record \<open>world\<close> is the memory these free functions reach: the nodes by address (the
  slots of the buffer pool and the heap-allocated super root), the backend behind
  \<open>global_backend_\<close>, the read scratch page, and the number of random draws made so far.
  The C++ scratch page for writing never outlives a call and has no field.
\<close>

record world =
  mem :: "u64 \<Rightarrow> page"
  be :: "page pstore"
  scratch :: page
  draws :: nat

type_synonym 'a world_st = "'a world_scheme"

text \<open>
  What the program takes from outside: \<open>std::_Hash_bytes\<close> of an eight-byte key, and the
  outputs of the Mersenne twisters, of which \<open>uniform_int_distribution(0, n - 1)\<close> makes a
  value below \<open>n\<close>. As \<open>rnd\<close> is arbitrary, every sequence of such values occurs.
\<close>

record env =
  hash_of :: "u64 \<Rightarrow> u64"
  rnd :: "nat \<Rightarrow> nat"

definition draw_below :: "env \<Rightarrow> u64 \<Rightarrow> 'a world_st \<Rightarrow> u64 \<times> 'a world_st" where
  "draw_below E n w = (of_nat (rnd E (draws w) mod unat n), w\<lparr>draws := draws w + 1\<rparr>)"

definition set_node :: "u64 \<Rightarrow> page \<Rightarrow> 'a world_st \<Rightarrow> 'a world_st" where
  "set_node a p w = w\<lparr>mem := (mem w)(a := p)\<rparr>"

subsection \<open>Backend input and output\<close>

text \<open>A read that the backend refuses leaves the old contents of the scratch page.\<close>

definition raw_remote_read :: "gaddr \<Rightarrow> 'a world_st \<Rightarrow> page \<times> 'a world_st" where
  "raw_remote_read g w =
     (let p = (case ps_read (be w) g of Some p \<Rightarrow> p | None \<Rightarrow> scratch w)
      in (p, w\<lparr>scratch := p\<rparr>))"

definition opt_remote_read :: "gaddr \<Rightarrow> 'a world_st \<Rightarrow> page \<times> 'a world_st" where
  "opt_remote_read g w = raw_remote_read g w"

definition remote_consistent_read :: "gaddr \<Rightarrow> 'a world_st \<Rightarrow> page \<times> 'a world_st" where
  "remote_consistent_read g w = raw_remote_read g w"

text \<open>\<open>remote_write\<close> on the contents of \<open>mem_node\<close>: the node as the call leaves it, and the
  backend. Without a copy the header fields are cleared in the node itself.\<close>

definition remote_write_node :: "gaddr \<Rightarrow> page \<Rightarrow> bool \<Rightarrow> page pstore \<Rightarrow> (page \<times> page pstore) res" where
  "remote_write_node g node without_copy b =
     (let node1 = node\<lparr>dirty := False\<rparr>;
          flushed = node1\<lparr>parent_ptr := 0, pos_state := POS_REMOTE\<rparr>
      in if remote_address flushed \<noteq> g then Inl Spin
         else Inr (if without_copy then flushed else node1, ps_write b g flushed))"

definition remote_write :: "gaddr \<Rightarrow> u64 \<Rightarrow> 'a world_st \<Rightarrow> 'a world_st res" where
  "remote_write g a w =
     bindR (remote_write_node g (mem w a) False (be w))
       (\<lambda>(n, b). Inr (set_node a n w\<lparr>be := b\<rparr>))"

subsection \<open>Walking the swizzled part of the tree\<close>

definition murmur64 :: "u64 \<Rightarrow> u64" where
  "murmur64 k0 =
     (let k1 = k0 XOR drop_bit 33 k0;
          k2 = k1 * 0xff51afd7ed558ccd;
          k3 = k2 XOR drop_bit 33 k2;
          k4 = k3 * 0xc4ceb9fe1a85ec53
      in k4 XOR drop_bit 33 k4)"

text \<open>The child at which the walk starts to look in the node at address \<open>a\<close>.\<close>

definition start_idx :: "u64 \<Rightarrow> page \<Rightarrow> nat" where
  "start_idx a p = unat (murmur64 a mod of_nat (count p + 1))"

definition update_all_parent_ptr :: "u64 \<Rightarrow> (u64 \<Rightarrow> page) \<Rightarrow> u64 \<Rightarrow> page" where
  "update_all_parent_ptr a m =
     (if ptype (m a) = BTreeLeaf then m
      else foldl (\<lambda>m i. let v = children (m a) ! i
                        in if swizzled v then m(hide v := (m (hide v))\<lparr>parent_ptr := a\<rparr>) else m)
             m [0..<count (m a) + 1])"

text \<open>
  \<open>recursive_iterate\<close> from the node at \<open>a\<close>, with the output parameter
  \<open>idx_in_parent\<close> threaded through: the node found, or null.
\<close>

fun recursive_iterate :: "nat \<Rightarrow> (u64 \<Rightarrow> page) \<Rightarrow> u64 \<Rightarrow> int \<Rightarrow> (u64 option \<times> int) res" where
  "recursive_iterate 0 m a idx = Inl OutOfFuel"
| "recursive_iterate (Suc fuel) m a idx =
     (if bitmap (m a) \<noteq> 0 then
        (let next_idx = closest_set (m a) (int (start_idx a (m a)))
         in if next_idx = -1 then Inr (None, idx)
            else if next_idx < 0 \<or> next_idx \<ge> int (length (children (m a))) then Inl OutOfBounds
            else let next_val = children (m a) ! nat next_idx
                 in assertR (swizzled next_val) (recursive_iterate fuel m (hide next_val) next_idx))
      else Inr (if pos_state (m a) \<noteq> POS_HOT then None else Some a, idx))"

text \<open>The older walk without the bitmap.\<close>

definition first_swizzled_from :: "page \<Rightarrow> nat \<Rightarrow> nat option" where
  "first_swizzled_from p s =
     map_option (\<lambda>i. (s + i) mod (count p + 1))
       (List.find (\<lambda>i. swizzled (children p ! ((s + i) mod (count p + 1)))) [0..<count p + 1])"

definition iterate_result :: "(u64 \<Rightarrow> page) \<Rightarrow> u64 \<Rightarrow> u64 option" where
  "iterate_result m a =
     (if pos_state (m a) \<noteq> POS_HOT then None
      else if ptype (m a) = BTreeInner \<and> (\<exists>i \<in> set [0..<count (m a) + 1]. swizzled (children (m a) ! i)) then None
      else Some a)"

fun recursive_iterate_without_bitmap :: "nat \<Rightarrow> (u64 \<Rightarrow> page) \<Rightarrow> u64 \<Rightarrow> int \<Rightarrow> (u64 option \<times> int) res" where
  "recursive_iterate_without_bitmap 0 m a idx = Inl OutOfFuel"
| "recursive_iterate_without_bitmap (Suc fuel) m a idx =
     (if ptype (m a) = BTreeInner then
        (case first_swizzled_from (m a) (start_idx a (m a)) of
           None \<Rightarrow> Inr (iterate_result m a, idx)
         | Some i \<Rightarrow>
             let next = hide (children (m a) ! i)
             in if next = 0 \<or> next = a then Inr (iterate_result m a, int i)
                else recursive_iterate_without_bitmap fuel m next (int i))
      else Inr (iterate_result m a, idx))"

text \<open>\<open>fully_unswizzle\<close> of a page: its children by backend address, its bitmap empty.\<close>

fun unswizzle_children :: "(u64 \<Rightarrow> page) \<Rightarrow> nat list \<Rightarrow> page \<Rightarrow> page res" where
  "unswizzle_children m [] p = Inr p"
| "unswizzle_children m (i # is) p =
     (if swizzled (children p ! i)
      then assertR (test_bitmap p i)
        (unswizzle_children m is (p\<lparr>children := (children p)[i := remote_address (m (hide (children p ! i)))]\<rparr>))
      else unswizzle_children m is p)"

definition fully_unswizzle :: "(u64 \<Rightarrow> page) \<Rightarrow> page \<Rightarrow> page res" where
  "fully_unswizzle m p =
     (if ptype p = BTreeLeaf then Inr p
      else bindR (unswizzle_children m [0..<count p + 1] p) (\<lambda>p'. Inr (p'\<lparr>bitmap := 0\<rparr>)))"

subsection \<open>Consistency checks\<close>

definition check_limit_match :: "page \<Rightarrow> u64 \<Rightarrow> page \<Rightarrow> bool \<Rightarrow> bool" where
  "check_limit_match parent child_addr child using_swizzle =
     (let idx = (if using_swizzle then findIdx parent (swz child_addr)
                 else findIdx parent (remote_address child))
      in if idx = -1 then False
         else child_min parent (nat idx) = min_limit child \<and> child_max parent (nat idx) = max_limit child)"

definition new_check_limit_match :: "page \<Rightarrow> page \<Rightarrow> nat \<Rightarrow> bool" where
  "new_check_limit_match parent child idx \<longleftrightarrow>
     child_min parent idx = min_limit child \<and> child_max parent idx = max_limit child"

definition check_parent_child_info :: "page \<Rightarrow> u64 \<Rightarrow> page \<Rightarrow> bool" where
  "check_parent_child_info parent child_addr child \<longleftrightarrow>
     level parent = 255 \<or>
     (level parent = level child + 1 \<and>
      \<not> (min_limit child < min_limit parent \<or> max_limit child > max_limit parent) \<and>
      (check_limit_match parent child_addr child True \<or> check_limit_match parent child_addr child False))"

subsection \<open>Backend input and output: lemmas\<close>

lemma set_node_simps [simp]:
  "mem (set_node a p w) = (mem w)(a := p)" "be (set_node a p w) = be w"
  "scratch (set_node a p w) = scratch w" "draws (set_node a p w) = draws w"
  by (simp_all add: set_node_def)

lemma raw_remote_read_simps [simp]:
  "mem (snd (raw_remote_read g w)) = mem w" "be (snd (raw_remote_read g w)) = be w"
  "draws (snd (raw_remote_read g w)) = draws w"
  by (simp_all add: raw_remote_read_def Let_def)

definition flushed_image :: "page \<Rightarrow> page" where
  "flushed_image p = p\<lparr>dirty := False, parent_ptr := 0, pos_state := POS_REMOTE\<rparr>"

lemma remote_write_eq:
  "remote_write g a w =
     (if remote_address (mem w a) \<noteq> g then Inl Spin
      else Inr (set_node a ((mem w a)\<lparr>dirty := False\<rparr>) w\<lparr>be := ps_write (be w) g (flushed_image (mem w a))\<rparr>))"
  by (simp add: remote_write_def remote_write_node_def flushed_image_def Let_def)

lemma remote_write_correct:
  assumes "ps_ok (be w)" "g \<in> ps_allocated (be w)" "remote_address (mem w a) = g" "remote_write g a w = Inr w'"
  shows "mem w' = (mem w)(a := (mem w a)\<lparr>dirty := False\<rparr>)" "ps_ok (be w')"
    "ps_allocated (be w') = ps_allocated (be w)"
    "ps_read (be w') g = Some (flushed_image (mem w a))"
    "\<And>g'. g' \<in> ps_allocated (be w) \<Longrightarrow> g' \<noteq> g \<Longrightarrow> ps_read (be w') g' = ps_read (be w) g'"
  using assms ps.rd_wr_same [of "be w" g] ps.rd_wr_other [of "be w" g] ps.inv_wr [of "be w"]
  by (auto simp: remote_write_eq ps.allocated_wr)

subsection \<open>Parent pointers\<close>

lemma update_parent_fold:
  fixes m :: "u64 \<Rightarrow> page"
  defines "step a \<equiv> (\<lambda>m i. let v = children (m a) ! i
                        in if swizzled v then m(hide v := (m (hide v))\<lparr>parent_ptr := a\<rparr>) else (m :: u64 \<Rightarrow> page))"
  assumes "\<forall>i \<in> set is. swizzled (children (m a) ! i) \<longrightarrow> hide (children (m a) ! i) \<noteq> a"
  shows "foldl (step a) m is =
    (\<lambda>x. if \<exists>i \<in> set is. children (m a) ! i = swz x \<and> \<not> swizzled x then (m x)\<lparr>parent_ptr := a\<rparr> else m x)"
  using assms(2)
proof (induction "is" arbitrary: m)
  case (Cons i "is")
  define m1 where "m1 = step a m i"
  have m1: "m1 x = (if children (m a) ! i = swz x \<and> \<not> swizzled x then (m x)\<lparr>parent_ptr := a\<rparr> else m x)" for x
    by (auto simp: m1_def step_def Let_def)
  have m1a: "m1 a = m a" using Cons.prems by (auto simp: m1)
  have "foldl (step a) m1 is =
    (\<lambda>x. if \<exists>i \<in> set is. children (m1 a) ! i = swz x \<and> \<not> swizzled x then (m1 x)\<lparr>parent_ptr := a\<rparr> else m1 x)"
    by (rule Cons.IH) (use Cons.prems in \<open>simp add: m1a\<close>)
  then show ?case unfolding m1a by (auto simp: m1_def [symmetric] m1 fun_eq_iff)
qed simp

lemma update_all_parent_ptr_correct:
  assumes "ptype (m a) = BTreeInner"
    and "\<forall>i \<le> count (m a). swizzled (children (m a) ! i) \<longrightarrow> hide (children (m a) ! i) \<noteq> a"
  shows "update_all_parent_ptr a m =
    (\<lambda>x. if \<exists>i \<le> count (m a). children (m a) ! i = swz x \<and> \<not> swizzled x then (m x)\<lparr>parent_ptr := a\<rparr> else m x)"
proof -
  have "\<forall>i \<in> set [0..<count (m a) + 1]. swizzled (children (m a) ! i) \<longrightarrow> hide (children (m a) ! i) \<noteq> a"
    using assms(2) by auto
  from update_parent_fold [where m = m and a = a, OF this] show ?thesis
    using assms(1) by (auto simp: update_all_parent_ptr_def fun_eq_iff less_Suc_eq_le)
qed

subsection \<open>The sampler's walk\<close>

definition walk_ok :: "page \<Rightarrow> bool" where
  "walk_ok p \<longleftrightarrow> (if ptype p = BTreeInner
     then bitmap_ok p \<and> count p < max_inner_entries \<and> length (children p) = max_inner_entries
     else bitmap p = 0)"

text \<open>A set of nodes that the swizzled pointers do not leave, each one level further down.\<close>

definition walk_closed :: "(u64 \<Rightarrow> page) \<Rightarrow> u64 set \<Rightarrow> bool" where
  "walk_closed m R \<longleftrightarrow> (\<forall>a \<in> R. walk_ok (m a) \<and> (ptype (m a) = BTreeInner \<longrightarrow>
     (\<forall>i \<le> count (m a). swizzled (children (m a) ! i) \<longrightarrow>
        hide (children (m a) ! i) \<in> R \<and> level (m (hide (children (m a) ! i))) < level (m a))))"

lemma start_idx_le: "count p < 2 ^ 32 \<Longrightarrow> start_idx a p \<le> count p"
proof -
  assume c: "count p < 2 ^ 32"
  then have "unat (of_nat (count p + 1) :: u64) = count p + 1"
    by (subst unat_of_nat) (simp add: take_bit_nat_eq_self)
  then have "start_idx a p = unat (murmur64 a) mod (count p + 1)"
    by (simp add: start_idx_def unat_mod)
  also have "\<dots> < count p + 1" by (rule mod_less_divisor) simp
  finally show "start_idx a p \<le> count p" by simp
qed

lemma recursive_iterate_correct:
  assumes "walk_closed m R" "a \<in> R" "level (m a) < fuel"
  shows "\<exists>r idx'. recursive_iterate fuel m a idx = Inr (r, idx') \<and>
    (r = None \<longrightarrow> (\<exists>b \<in> R. bitmap (m b) = 0 \<and> pos_state (m b) \<noteq> POS_HOT)) \<and>
    (\<forall>b. r = Some b \<longrightarrow> b \<in> R \<and> pos_state (m b) = POS_HOT \<and> bitmap (m b) = 0 \<and>
      (b = a \<and> idx' = idx \<or>
       (\<exists>q \<in> R. \<exists>i \<le> count (m q). ptype (m q) = BTreeInner \<and> idx' = int i \<and> children (m q) ! i = swz b \<and> \<not> swizzled b)))"
  using assms
proof (induction fuel arbitrary: a idx)
  case (Suc fuel)
  show ?case
  proof (cases "bitmap (m a) = 0")
    case True
    then show ?thesis using Suc.prems(2) by auto
  next
    case False
    have w: "walk_ok (m a)" and
      ch: "\<forall>i \<le> count (m a). ptype (m a) = BTreeInner \<longrightarrow> swizzled (children (m a) ! i) \<longrightarrow>
        hide (children (m a) ! i) \<in> R \<and> level (m (hide (children (m a) ! i))) < level (m a)"
      using Suc.prems(1,2) by (auto simp: walk_closed_def)
    from w False have inner: "ptype (m a) = BTreeInner" and bm: "bitmap_ok (m a)"
      and cnt: "count (m a) < max_inner_entries" "length (children (m a)) = max_inner_entries"
      by (auto simp: walk_ok_def split: if_splits)
    have "start_idx a (m a) \<le> count (m a)" using cnt by (intro start_idx_le) simp
    from closest_set_nearest [OF bm cnt(1) False this] obtain i where
      i: "closest_set (m a) (int (start_idx a (m a))) = int i" "i \<le> count (m a)" "swizzled (children (m a) ! i)"
      by blast
    let ?b = "hide (children (m a) ! i)"
    have b: "?b \<in> R" "level (m ?b) < level (m a)" using ch i(2,3) inner by auto
    have step: "recursive_iterate (Suc fuel) m a idx = recursive_iterate fuel m ?b (int i)"
      using False i cnt by (simp add: Let_def)
    have "level (m ?b) < fuel" using b(2) Suc.prems(3) by simp
    from Suc.IH [OF Suc.prems(1) b(1) this, of "int i"] obtain r idx' where
      r: "recursive_iterate fuel m ?b (int i) = Inr (r, idx')" and
      r2: "r = None \<longrightarrow> (\<exists>b \<in> R. bitmap (m b) = 0 \<and> pos_state (m b) \<noteq> POS_HOT)" "\<forall>c. r = Some c \<longrightarrow> c \<in> R \<and> pos_state (m c) = POS_HOT \<and> bitmap (m c) = 0 \<and>
      (c = ?b \<and> idx' = int i \<or>
       (\<exists>q \<in> R. \<exists>i \<le> count (m q). ptype (m q) = BTreeInner \<and> idx' = int i \<and> children (m q) ! i = swz c \<and> \<not> swizzled c))"
      by blast
    have "\<exists>q \<in> R. \<exists>j \<le> count (m q). ptype (m q) = BTreeInner \<and> int i = int j \<and> children (m q) ! j = swz ?b \<and> \<not> swizzled ?b"
      using i(2,3) inner Suc.prems(2) by (intro bexI [of _ a] exI [of _ i]) auto
    with r2 show ?thesis unfolding step r by blast
  qed
qed simp

subsection \<open>Unswizzling a whole page\<close>

lemma unswizzle_children_correct:
  assumes "\<forall>i \<in> set is. i < length (children p) \<and> (swizzled (children p ! i) \<longrightarrow> test_bitmap p i)" "distinct is"
  shows "unswizzle_children m is p = Inr (p\<lparr>children := map (\<lambda>i. if i \<in> set is \<and> swizzled (children p ! i)
      then remote_address (m (hide (children p ! i))) else children p ! i) [0..<length (children p)]\<rparr>)"
  using assms
proof (induction "is" arbitrary: p)
  case Nil
  have "map ((!) (children p)) [0..<length (children p)] = children p" by (rule map_nth)
  then show ?case by simp
next
  case (Cons i "is")
  show ?case
  proof (cases "swizzled (children p ! i)")
    case False
    have "unswizzle_children m is p = Inr (p\<lparr>children := map (\<lambda>i. if i \<in> set is \<and> swizzled (children p ! i)
      then remote_address (m (hide (children p ! i))) else children p ! i) [0..<length (children p)]\<rparr>)"
      using Cons by simp
    moreover have "i \<notin> set is" using Cons.prems(2) by simp
    ultimately show ?thesis using False by (auto intro!: arg_cong [where f = "\<lambda>x. p\<lparr>children := x\<rparr>"])
  next
    case True
    define p1 where "p1 = p\<lparr>children := (children p)[i := remote_address (m (hide (children p ! i)))]\<rparr>"
    have ni: "i \<notin> set is" using Cons.prems(2) by simp
    have il: "i < length (children p)" "test_bitmap p i" using Cons.prems(1) True by auto
    have "unswizzle_children m is p1 = Inr (p1\<lparr>children := map (\<lambda>i. if i \<in> set is \<and> swizzled (children p1 ! i)
      then remote_address (m (hide (children p1 ! i))) else children p1 ! i) [0..<length (children p1)]\<rparr>)"
    proof (rule Cons.IH)
      show "\<forall>i \<in> set is. i < length (children p1) \<and> (swizzled (children p1 ! i) \<longrightarrow> test_bitmap p1 i)"
        using Cons.prems(1) ni by (auto simp: p1_def test_bitmap_def nth_list_update)
    qed (use Cons.prems(2) in simp)
    moreover have "map (\<lambda>j. if j \<in> set is \<and> swizzled (children p1 ! j)
      then remote_address (m (hide (children p1 ! j))) else children p1 ! j) [0..<length (children p1)] =
      map (\<lambda>j. if j \<in> set (i # is) \<and> swizzled (children p ! j)
      then remote_address (m (hide (children p ! j))) else children p ! j) [0..<length (children p)]"
      using ni True il by (auto simp: p1_def nth_list_update)
    ultimately show ?thesis using True il(2) by (simp add: p1_def)
  qed
qed

text \<open>The value of a child slot without its swizzling.\<close>

definition unswz :: "(u64 \<Rightarrow> page) \<Rightarrow> u64 \<Rightarrow> gaddr" where
  "unswz m v = (if swizzled v then remote_address (m (hide v)) else v)"

lemma fully_unswizzle_correct:
  assumes "ptype p = BTreeInner" "inner_ok p" "bitmap_ok p"
  shows "\<exists>p'. fully_unswizzle m p = Inr p' \<and>
    p' = p\<lparr>children := children p', bitmap := 0\<rparr> \<and>
    inner_children p' = map (unswz m) (inner_children p) \<and> length (children p') = length (children p)"
proof -
  have len: "count p < max_inner_entries" "length (children p) = max_inner_entries"
    using assms(2) by (simp_all add: inner_ok_def)
  have "\<forall>i \<in> set [0..<count p + 1]. i < length (children p) \<and> (swizzled (children p ! i) \<longrightarrow> test_bitmap p i)"
    using len assms(3) by (auto simp: bitmap_ok_def test_bitmap_iff)
  note u = unswizzle_children_correct [OF this distinct_upt, of m]
  define cs where "cs = map (\<lambda>i. if i \<in> set [0..<count p + 1] \<and> swizzled (children p ! i)
      then remote_address (m (hide (children p ! i))) else children p ! i) [0..<length (children p)]"
  have "fully_unswizzle m p = Inr (p\<lparr>children := cs, bitmap := 0\<rparr>)"
    unfolding fully_unswizzle_def u cs_def [symmetric] using assms(1) by simp
  moreover have "take (count p + 1) cs = map (unswz m) (take (count p + 1) (children p))"
    using len by (intro nth_equalityI) (auto simp: cs_def unswz_def)
  ultimately show ?thesis by (simp add: inner_children_def cs_def)
qed

subsection \<open>Properties\<close>

text \<open>C28: \<open>remote_write\<close> of a node to its own address makes the backend hold the node with its
  pool-specific fields cleared (clean, no parent, remote), which is what the next read of that
  address returns; it clears the dirty flag of the node and changes no other node and no other
  page. Called with another address it never returns.\<close>

theorem remote_write_spec:
  assumes "ps_ok (be w)" "g \<in> ps_allocated (be w)"
  shows "if remote_address (mem w a) \<noteq> g then remote_write g a w = Inl Spin
     else \<exists>w'. remote_write g a w = Inr w' \<and>
       fst (raw_remote_read g w') = (mem w a)\<lparr>dirty := False, parent_ptr := 0, pos_state := POS_REMOTE\<rparr> \<and>
       mem w' = (mem w)(a := (mem w a)\<lparr>dirty := False\<rparr>) \<and>
       (\<forall>g' \<in> ps_allocated (be w). g' \<noteq> g \<longrightarrow> fst (raw_remote_read g' w') = fst (raw_remote_read g' w))"
proof (cases "remote_address (mem w a) = g")
  case False
  then show ?thesis by (simp add: remote_write_eq)
next
  case True
  then obtain w' where w': "remote_write g a w = Inr w'" by (simp add: remote_write_eq)
  have rd: "g' \<notin> ps_allocated (be w)" if "ps_read (be w) g' = None" for g'
    using ps.rd_allocated assms(1) that by blast
  from remote_write_correct [OF assms True w'] show ?thesis
    using True w' rd by (auto simp: raw_remote_read_def Let_def flushed_image_def split: option.splits)
qed

definition example_world :: world where
  "example_world = \<lparr>mem = (\<lambda>_. example_leaf\<lparr>remote_address := 0x4000000, pos_state := POS_HOT\<rparr>)(0x6000 := example_inner),
     be = \<lparr>ps_capacity = 0x10000, ps_cur = 0xC00, ps_page = (\<lambda>_. zero_page)\<rparr>, scratch = zero_page, draws = 0\<rparr>"

lemma example_world_be: "ps_ok (be example_world) \<and> {0x4000000, 0x8000000} \<subseteq> ps_allocated (be example_world)"
  by (simp add: example_world_def ps_ok_def ps_allocated_def nodeID_def offset_def drop_bit_eq_div)

theorem remote_write_spec_witness:
  "(\<exists>w'. remote_write 0x4000000 0x7000 example_world = Inr w' \<and>
     pos_state (fst (raw_remote_read 0x4000000 w')) = POS_REMOTE) \<and>
   remote_write 0x8000000 0x6000 example_world = Inl Spin"
proof -
  have "remote_address (mem example_world 0x7000) = 0x4000000" "remote_address (mem example_world 0x6000) \<noteq> 0x8000000"
    by (simp_all add: example_world_def example_inner_def mk_BTreeInner_def)
  then show ?thesis
    using remote_write_spec [where w = example_world and g = "0x4000000" and a = "0x7000"]
      remote_write_spec [where w = example_world and g = "0x8000000" and a = "0x6000"]
      example_world_be by auto
qed

text \<open>C22: the sampler's walk. Where the bitmaps are exact and levels fall along swizzled pointers,
  \<open>recursive_iterate\<close> returns after at most one step per level, without tripping its
  assertion or leaving the children array; a node it returns is hot and has no swizzled child, and
  the output index is the slot that points to it, unless the walk never moved; it returns null
  only if the node it ended at is not hot.\<close>

theorem recursive_iterate_spec:
  assumes "walk_closed m R" "a \<in> R" "level (m a) < fuel"
  shows "\<exists>r idx'. recursive_iterate fuel m a idx = Inr (r, idx') \<and>
    (r = None \<longrightarrow> (\<exists>b \<in> R. bitmap (m b) = 0 \<and> pos_state (m b) \<noteq> POS_HOT)) \<and>
    (\<forall>b. r = Some b \<longrightarrow> b \<in> R \<and> pos_state (m b) = POS_HOT \<and> bitmap (m b) = 0 \<and>
      (b = a \<and> idx' = idx \<or>
       (\<exists>q \<in> R. \<exists>i \<le> count (m q). ptype (m q) = BTreeInner \<and> idx' = int i \<and> children (m q) ! i = swz b \<and> \<not> swizzled b)))"
  using assms by (rule recursive_iterate_correct)

lemma example_walk: "walk_closed (mem example_world) {0x6000, 0x7000}"
proof -
  have ch: "children example_inner ! 0 = 0x8000000" "children example_inner ! 1 = swz 0x7000"
    "children example_inner ! 2 = 0xC000000" "ptype example_inner = BTreeInner" "level example_inner = 1"
    by (simp_all add: example_inner_def mk_BTreeInner_def)
  then have "i \<le> 2 \<Longrightarrow> swizzled (children example_inner ! i) \<Longrightarrow> children example_inner ! i = swz 0x7000" for i
    by (cases "i = 0 \<or> i = 1 \<or> i = 2") (auto simp: not_swizzled_28)
  moreover have "hide (swz 0x7000) = 0x7000" by (simp add: not_swizzled_28)
  moreover have "level example_leaf = 0" "bitmap example_leaf = 0" "ptype example_leaf = BTreeLeaf"
    by (simp_all add: example_leaf_def mk_BTreeLeaf_def zero_page_def)
  ultimately show ?thesis
    using example_inner_bitmap example_inner_ok ch
    by (auto simp: walk_closed_def walk_ok_def example_world_def example_inner_fields inner_ok_def)
qed

theorem recursive_iterate_spec_witness:
  "\<exists>idx'. recursive_iterate 2 (mem example_world) 0x6000 (-1) = Inr (Some 0x7000, idx')"
proof -
  have hot: "pos_state (mem example_world b) = POS_HOT \<longleftrightarrow> b \<noteq> 0x6000" for b
    by (simp add: example_world_def example_inner_def mk_BTreeInner_def)
  have bm: "bitmap (mem example_world 0x6000) \<noteq> 0"
    by (simp add: example_world_def example_inner_def)
  have lv: "level (mem example_world 0x6000) < 2"
    by (simp add: example_world_def example_inner_def mk_BTreeInner_def)
  from recursive_iterate_spec [OF example_walk _ lv, of "-1"] obtain r idx' where
    r: "recursive_iterate 2 (mem example_world) 0x6000 (-1) = Inr (r, idx')"
    "r = None \<longrightarrow> (\<exists>b \<in> {0x6000, 0x7000}. bitmap (mem example_world b) = 0 \<and> pos_state (mem example_world b) \<noteq> POS_HOT)"
    "\<forall>b. r = Some b \<longrightarrow> b \<in> {0x6000, 0x7000} \<and> pos_state (mem example_world b) = POS_HOT"
    by blast
  then have "r \<noteq> None" using hot bm by auto
  then show ?thesis using r(1,3) hot by auto
qed

text \<open>C29: \<open>fully_unswizzle\<close>, which the flush runs on a copy of each dirty page, replaces every
  pool pointer among the children by the backend address of the page it points to, leaves the
  other children and the rest of the page as they are, and empties the bitmap; its assertion
  holds whenever the bitmap is exact.\<close>

theorem fully_unswizzle_spec:
  assumes "ptype p = BTreeInner" "inner_ok p" "bitmap_ok p"
  shows "\<exists>p'. fully_unswizzle m p = Inr p' \<and> p' = p\<lparr>children := children p', bitmap := 0\<rparr> \<and>
    length (children p') = length (children p) \<and>
    (\<forall>i \<le> count p. children p' ! i =
       (if swizzled (children p ! i) then remote_address (m (hide (children p ! i))) else children p ! i))"
proof -
  obtain p' where p': "fully_unswizzle m p = Inr p'" "p' = p\<lparr>children := children p', bitmap := 0\<rparr>"
    "inner_children p' = map (unswz m) (inner_children p)" "length (children p') = length (children p)"
    using fully_unswizzle_correct [OF assms, of m] by blast
  have "count p' = count p" using arg_cong [OF p'(2), of count] by simp
  moreover have len: "count p + 1 \<le> length (children p)" using assms(2) by (simp add: inner_ok_def)
  ultimately have "children p' ! i = unswz m (children p ! i)" if "i \<le> count p" for i
    using arg_cong [OF p'(3), of "\<lambda>cs. cs ! i"] that p'(4) by (simp add: inner_children_def)
  then show ?thesis using p' by (auto simp: unswz_def)
qed

theorem fully_unswizzle_spec_witness:
  "\<exists>p'. fully_unswizzle (mem example_world) example_inner = Inr p' \<and> bitmap p' = 0 \<and> children p' ! 1 = 0x4000000"
proof -
  have inner: "ptype example_inner = BTreeInner" by (simp add: example_inner_def mk_BTreeInner_def)
  have ch: "children example_inner ! 1 = swz 0x7000" by (simp add: example_inner_def)
  have rm: "remote_address (mem example_world (hide (swz 0x7000))) = 0x4000000"
    by (subst hide_swz) (simp_all add: not_swizzled_28 example_world_def)
  obtain p' where p': "fully_unswizzle (mem example_world) example_inner = Inr p'"
    "p' = example_inner\<lparr>children := children p', bitmap := 0\<rparr>"
    "\<forall>i \<le> count example_inner. children p' ! i = (if swizzled (children example_inner ! i)
       then remote_address (mem example_world (hide (children example_inner ! i))) else children example_inner ! i)"
    using fully_unswizzle_spec [OF inner example_inner_ok example_inner_bitmap, of "mem example_world"] by blast
  have "bitmap p' = 0" using arg_cong [OF p'(2), of bitmap] by simp
  moreover have "children p' ! 1 = 0x4000000"
    using p'(3) [rule_format, of 1] unfolding ch rm by (simp add: example_inner_fields)
  ultimately show ?thesis using p'(1) by blast
qed

end
