(* ===== verification/PageTable.thy ===== *)
theory PageTable
  imports GlobalAddr
begin

text \<open>
  The page table (\<open>include/tree/PageTable.h\<close>): a hash table from backend addresses to the
  pool slot that holds the page, with chains of three-frame buckets. A chain of
  \<open>PageBucket\<close>s linked by \<open>next_\<close> is the list of its buckets, head first; a null
  \<open>buffer_page_\<close> marks a free frame whose \<open>page_id_\<close> is stale. The hash
  (\<open>std::_Hash_bytes\<close> of the C++ runtime) is the parameter \<open>H\<close>; the dereference of a
  node pointer that two operations make is the parameter \<open>ra\<close>, the \<open>remote_address\<close> of
  the node stored there. Memory for overflow buckets is taken to be available.
\<close>

subsection \<open>Frames, buckets, chains\<close>

definition num_entry_in_page_bucket :: nat where "num_entry_in_page_bucket = 3"

definition IO_FLAG :: u64 where "IO_FLAG = push_bit 63 1"

record page_frame =
  page_id :: u64
  buffer_page :: u64

record page_bucket =
  pb_count :: "32 word"
  frames :: "page_frame list"

definition empty_frame :: page_frame where "empty_frame = \<lparr>page_id = 0, buffer_page = 0\<rparr>"

definition empty_bucket :: page_bucket where
  "empty_bucket = \<lparr>pb_count = 0, frames = replicate num_entry_in_page_bucket empty_frame\<rparr>"

text \<open>Every operation walks the chain, frame by frame, to the first one that passes its test.\<close>

fun chain_scan :: "(page_frame \<Rightarrow> bool) \<Rightarrow> page_bucket list \<Rightarrow> (nat \<times> nat) option" where
  "chain_scan P [] = None"
| "chain_scan P (b # bs) =
     (case List.find (\<lambda>i. P (frames b ! i)) [0..<num_entry_in_page_bucket] of
        Some i \<Rightarrow> Some (0, i)
      | None \<Rightarrow> map_option (\<lambda>(j, i). (Suc j, i)) (chain_scan P bs))"

definition frame_at :: "page_bucket list \<Rightarrow> nat \<Rightarrow> nat \<Rightarrow> page_frame" where
  "frame_at c b i = frames (c ! b) ! i"

definition store_frame :: "nat \<Rightarrow> nat \<Rightarrow> page_frame \<Rightarrow> 32 word \<Rightarrow> page_bucket list \<Rightarrow> page_bucket list" where
  "store_frame b i f d c =
     c[b := (c ! b)\<lparr>frames := (frames (c ! b))[i := f], pb_count := pb_count (c ! b) + d\<rparr>]"

definition new_bucket :: "u64 \<Rightarrow> u64 \<Rightarrow> page_bucket" where
  "new_bucket key v = empty_bucket
     \<lparr>frames := (frames empty_bucket)[0 := \<lparr>page_id = key, buffer_page = v\<rparr>], pb_count := 0 + 1\<rparr>"

definition live_key :: "u64 \<Rightarrow> page_frame \<Rightarrow> bool" where
  "live_key key f \<longleftrightarrow> page_id f = key \<and> buffer_page f \<noteq> 0"

subsection \<open>Operations on one chain\<close>

definition pt_get :: "page_bucket list \<Rightarrow> u64 \<Rightarrow> u64" where
  "pt_get c key = (case chain_scan (live_key key) c of Some (b, i) \<Rightarrow> buffer_page (frame_at c b i) | None \<Rightarrow> 0)"

text \<open>\<open>insert\<close> returns its flag, the value handed back through the reference, and the chain.\<close>

definition pt_insert :: "page_bucket list \<Rightarrow> u64 \<Rightarrow> u64 \<Rightarrow> bool \<times> u64 \<times> page_bucket list" where
  "pt_insert c key v =
     (case chain_scan (live_key key) c of
        Some (b, i) \<Rightarrow> (False, buffer_page (frame_at c b i), c)
      | None \<Rightarrow>
          (case chain_scan (\<lambda>f. buffer_page f = 0) c of
             Some (b, i) \<Rightarrow> (True, v, store_frame b i \<lparr>page_id = key, buffer_page = v\<rparr> 1 c)
           | None \<Rightarrow> (True, v, c @ [new_bucket key v])))"

definition pt_upsert :: "(u64 \<Rightarrow> u64) \<Rightarrow> page_bucket list \<Rightarrow> u64 \<Rightarrow> u64 \<Rightarrow> (bool \<times> u64 \<times> page_bucket list) res" where
  "pt_upsert ra c key v =
     (case chain_scan (live_key key) c of
        Some (b, i) \<Rightarrow>
          Inr (False, buffer_page (frame_at c b i), store_frame b i ((frame_at c b i)\<lparr>buffer_page := v\<rparr>) 0 c)
      | None \<Rightarrow>
          (case chain_scan (\<lambda>f. buffer_page f = 0) c of
             Some (b, i) \<Rightarrow>
               assertR (ra v = key) (Inr (True, v, store_frame b i \<lparr>page_id = key, buffer_page = v\<rparr> 1 c))
           | None \<Rightarrow> Inr (True, v, c @ [new_bucket key v])))"

text \<open>Freeing a frame; an overflow bucket that becomes empty is unlinked from the chain.\<close>

definition free_frame :: "nat \<Rightarrow> nat \<Rightarrow> page_bucket list \<Rightarrow> page_bucket list" where
  "free_frame b i c =
     (let c' = store_frame b i ((frame_at c b i)\<lparr>buffer_page := 0\<rparr>) (- 1) c
      in if pb_count (c' ! b) = 0 \<and> b \<noteq> 0 then take b c' @ drop (Suc b) c' else c')"

definition pt_remove :: "page_bucket list \<Rightarrow> u64 \<Rightarrow> u64 \<Rightarrow> bool \<times> page_bucket list" where
  "pt_remove c key v =
     (case chain_scan (\<lambda>f. page_id f = key \<and> buffer_page f = v) c of
        Some (b, i) \<Rightarrow> (True, free_frame b i c) | None \<Rightarrow> (False, c))"

definition pt_remove_key :: "page_bucket list \<Rightarrow> u64 \<Rightarrow> bool \<times> page_bucket list" where
  "pt_remove_key c key =
     (case chain_scan (\<lambda>f. page_id f = key) c of
        Some (b, i) \<Rightarrow> (True, free_frame b i c) | None \<Rightarrow> (False, c))"

definition pt_update :: "(u64 \<Rightarrow> u64) \<Rightarrow> page_bucket list \<Rightarrow> u64 \<Rightarrow> u64 \<Rightarrow> (bool \<times> u64 option \<times> page_bucket list) res" where
  "pt_update ra c key v =
     (case chain_scan (live_key key) c of
        Some (b, i) \<Rightarrow>
          if ra v \<noteq> key then Inl Spin
          else Inr (True, Some (buffer_page (frame_at c b i)),
                    store_frame b i ((frame_at c b i)\<lparr>buffer_page := v\<rparr>) 0 c)
      | None \<Rightarrow> Inr (False, None, c))"

definition pt_RMW :: "page_bucket list \<Rightarrow> u64 \<Rightarrow> u64 \<Rightarrow> u64 \<Rightarrow> bool \<times> page_bucket list" where
  "pt_RMW c key new_value old_value =
     (case chain_scan (\<lambda>f. page_id f = key \<and> buffer_page f = old_value) c of
        Some (b, i) \<Rightarrow> (True, store_frame b i ((frame_at c b i)\<lparr>buffer_page := new_value\<rparr>) 0 c)
      | None \<Rightarrow> (False, c))"

subsection \<open>The table\<close>

record page_table =
  pt_bucket_num :: u64
  pt_entry_num :: u64
  pt_table :: "page_bucket list list"

definition ceil_div :: "u64 \<Rightarrow> u64 \<Rightarrow> u64" where
  "ceil_div n d = (if n mod d = 0 then n div d else n div d + 1)"

definition mk_PageTable :: "u64 \<Rightarrow> page_table" where
  "mk_PageTable entry_num =
     (let bn = ceil_div entry_num (of_nat num_entry_in_page_bucket)
      in \<lparr>pt_bucket_num = bn, pt_entry_num = entry_num, pt_table = replicate (unat bn) [empty_bucket]\<rparr>)"

definition pt_reset :: "page_table \<Rightarrow> page_table" where
  "pt_reset t = t\<lparr>pt_table := replicate (unat (pt_bucket_num t)) [empty_bucket]\<rparr>"

definition pt_bucket :: "(u64 \<Rightarrow> u64) \<Rightarrow> page_table \<Rightarrow> u64 \<Rightarrow> nat" where
  "pt_bucket H t key = unat (H key mod pt_bucket_num t)"

definition pt_chain :: "(u64 \<Rightarrow> u64) \<Rightarrow> page_table \<Rightarrow> u64 \<Rightarrow> page_bucket list" where
  "pt_chain H t key = pt_table t ! pt_bucket H t key"

definition pt_put_chain :: "(u64 \<Rightarrow> u64) \<Rightarrow> page_table \<Rightarrow> u64 \<Rightarrow> page_bucket list \<Rightarrow> page_table" where
  "pt_put_chain H t key c = t\<lparr>pt_table := (pt_table t)[pt_bucket H t key := c]\<rparr>"

definition get_with_bucket :: "(u64 \<Rightarrow> u64) \<Rightarrow> page_table \<Rightarrow> u64 \<Rightarrow> u64" where
  "get_with_bucket H t key = pt_get (pt_chain H t key) key"

definition insert_with_lock :: "(u64 \<Rightarrow> u64) \<Rightarrow> page_table \<Rightarrow> u64 \<Rightarrow> u64 \<Rightarrow> bool \<times> u64 \<times> page_table" where
  "insert_with_lock H t key v =
     (case pt_insert (pt_chain H t key) key v of (r, v', c) \<Rightarrow> (r, v', pt_put_chain H t key c))"

definition insert_io_flag_with_lock :: "(u64 \<Rightarrow> u64) \<Rightarrow> page_table \<Rightarrow> u64 \<Rightarrow> bool \<times> page_table" where
  "insert_io_flag_with_lock H t key =
     (case insert_with_lock H t key IO_FLAG of (r, _, t') \<Rightarrow> (r, t'))"

definition upsert_with_lock :: "(u64 \<Rightarrow> u64) \<Rightarrow> (u64 \<Rightarrow> u64) \<Rightarrow> page_table \<Rightarrow> u64 \<Rightarrow> u64 \<Rightarrow> (bool \<times> u64 \<times> page_table) res" where
  "upsert_with_lock H ra t key v =
     bindR (pt_upsert ra (pt_chain H t key) key v)
       (\<lambda>(r, v', c). Inr (r, v', pt_put_chain H t key c))"

definition remove_with_lock :: "(u64 \<Rightarrow> u64) \<Rightarrow> page_table \<Rightarrow> u64 \<Rightarrow> u64 \<Rightarrow> bool \<times> page_table" where
  "remove_with_lock H t key v =
     (case pt_remove (pt_chain H t key) key v of (r, c) \<Rightarrow> (r, pt_put_chain H t key c))"

definition check_and_remove :: "(u64 \<Rightarrow> u64) \<Rightarrow> page_table \<Rightarrow> u64 \<Rightarrow> bool \<times> page_table" where
  "check_and_remove H t key =
     (if pt_get (pt_chain H t key) key = 0 then (False, t)
      else (case pt_remove_key (pt_chain H t key) key of (r, c) \<Rightarrow> (r, pt_put_chain H t key c)))"

definition update_with_lock :: "(u64 \<Rightarrow> u64) \<Rightarrow> (u64 \<Rightarrow> u64) \<Rightarrow> page_table \<Rightarrow> u64 \<Rightarrow> u64 \<Rightarrow> (bool \<times> u64 option \<times> page_table) res" where
  "update_with_lock H ra t key v =
     bindR (pt_update ra (pt_chain H t key) key v)
       (\<lambda>(r, old, c). Inr (r, old, pt_put_chain H t key c))"

definition RMW_with_lock :: "(u64 \<Rightarrow> u64) \<Rightarrow> page_table \<Rightarrow> u64 \<Rightarrow> u64 \<Rightarrow> u64 \<Rightarrow> bool \<times> page_table" where
  "RMW_with_lock H t key new_value old_value =
     (case pt_RMW (pt_chain H t key) key new_value old_value of (r, c) \<Rightarrow> (r, pt_put_chain H t key c))"

subsection \<open>What a chain stands for\<close>

abbreviation live :: "page_frame \<Rightarrow> bool" where "live f \<equiv> buffer_page f \<noteq> 0"

definition chain_frames :: "page_bucket list \<Rightarrow> page_frame list" where
  "chain_frames c = concat (map frames c)"

definition live_alist :: "page_bucket list \<Rightarrow> (u64 \<times> u64) list" where
  "live_alist c = map (\<lambda>f. (page_id f, buffer_page f)) (filter live (chain_frames c))"

definition chain_map :: "page_bucket list \<Rightarrow> u64 \<rightharpoonup> u64" where
  "chain_map c = map_of (live_alist c)"

definition bucket_ok :: "page_bucket \<Rightarrow> bool" where
  "bucket_ok b \<longleftrightarrow> length (frames b) = num_entry_in_page_bucket \<and>
     pb_count b = of_nat (length (filter live (frames b)))"

text \<open>
  A live frame is the first frame of its chain that carries its address: the frames before
  it, live or free, carry other addresses. (An insertion takes the first free frame, so a
  stale copy of an address can only lie behind the live one.)
\<close>

abbreviation first_of :: "page_frame list \<Rightarrow> bool" where
  "first_of \<equiv> sorted_wrt (\<lambda>f g. live g \<longrightarrow> page_id f \<noteq> page_id g)"

definition chain_ok :: "page_bucket list \<Rightarrow> bool" where
  "chain_ok c \<longleftrightarrow> c \<noteq> [] \<and> (\<forall>b \<in> set c. bucket_ok b) \<and> first_of (chain_frames c)"

lemma first_of_distinct: "first_of fs \<Longrightarrow> distinct (map page_id (filter live fs))"
  by (induction fs) auto

lemma chain_ok_distinct: "chain_ok c \<Longrightarrow> distinct (map fst (live_alist c))"
  using first_of_distinct [of "chain_frames c"] by (simp add: chain_ok_def live_alist_def comp_def)

lemma chain_frames_simps [simp]:
  "chain_frames [] = []" "chain_frames (b # c) = frames b @ chain_frames c"
  "chain_frames (c1 @ c2) = chain_frames c1 @ chain_frames c2"
  by (simp_all add: chain_frames_def)

lemma live_alist_append [simp]: "live_alist (c1 @ c2) = live_alist c1 @ live_alist c2"
  by (simp add: live_alist_def)

lemma chain_scan_SomeD:
  assumes "chain_scan P c = Some (b, i)" "\<forall>bk \<in> set c. length (frames bk) = num_entry_in_page_bucket"
  shows "\<exists>pre bk post fp f fs. c = pre @ bk # post \<and> length pre = b \<and> frames bk = fp @ f # fs \<and>
    length fp = i \<and> P f \<and> (\<forall>g \<in> set (chain_frames pre @ fp). \<not> P g)"
  using assms
proof (induction c arbitrary: b)
  case (Cons x c)
  have lx: "length (frames x) = num_entry_in_page_bucket" using Cons.prems(2) by simp
  show ?case
  proof (cases "List.find (\<lambda>i. P (frames x ! i)) [0..<num_entry_in_page_bucket]")
    case (Some j)
    then have j: "j < length (frames x)" "P (frames x ! j)" "\<forall>l < j. \<not> P (frames x ! l)"
      using lx by (auto simp: find_Some_iff)
    have "frames x = take j (frames x) @ frames x ! j # drop (Suc j) (frames x)"
      using j(1) by (rule id_take_nth_drop)
    moreover have "\<forall>g \<in> set (take j (frames x)). \<not> P g"
      using j by (auto simp: in_set_conv_nth)
    moreover have "b = 0" "i = j" using Cons.prems(1) Some by simp_all
    ultimately show ?thesis using j
      by (intro exI [of _ "[]"] exI [of _ x] exI [of _ c] exI [of _ "take j (frames x)"]
          exI [of _ "frames x ! j"] exI [of _ "drop (Suc j) (frames x)"]) simp
  next
    case None
    then have none: "\<forall>g \<in> set (frames x). \<not> P g"
      using lx by (auto simp: find_None_iff in_set_conv_nth)
    from None Cons.prems(1) obtain b' where b': "b = Suc b'" "chain_scan P c = Some (b', i)"
      by (auto split: prod.splits)
    from Cons.IH [OF b'(2)] Cons.prems(2) obtain pre bk post fp f fs where
      "c = pre @ bk # post" "length pre = b'" "frames bk = fp @ f # fs" "length fp = i" "P f"
      "\<forall>g \<in> set (chain_frames pre @ fp). \<not> P g" by auto
    then show ?thesis using none b'(1)
      by (intro exI [of _ "x # pre"] exI [of _ bk] exI [of _ post] exI [of _ fp] exI [of _ f] exI [of _ fs]) auto
  qed
qed simp

lemma chain_scan_None:
  assumes "\<forall>bk \<in> set c. length (frames bk) = num_entry_in_page_bucket"
  shows "chain_scan P c = None \<longleftrightarrow> (\<forall>f \<in> set (chain_frames c). \<not> P f)"
  using assms
proof (induction c)
  case (Cons x c)
  have "List.find (\<lambda>i. P (frames x ! i)) [0..<num_entry_in_page_bucket] = None \<longleftrightarrow> (\<forall>f \<in> set (frames x). \<not> P f)"
  proof -
    have lx: "num_entry_in_page_bucket = length (frames x)" using Cons.prems by simp
    show ?thesis unfolding lx by (auto simp: find_None_iff all_set_conv_all_nth)
  qed
  with Cons show ?case by (auto split: option.splits)
qed simp

lemma store_frame_split:
  "c = pre @ bk # post \<Longrightarrow> frames bk = fp @ f # fs \<Longrightarrow> b = length pre \<Longrightarrow> i = length fp \<Longrightarrow>
   frame_at c b i = f \<and>
   store_frame b i g d c = pre @ bk\<lparr>frames := fp @ g # fs, pb_count := pb_count bk + d\<rparr> # post"
  by (simp add: frame_at_def store_frame_def nth_append list_update_append)

lemma chain_ok_len: "chain_ok c \<Longrightarrow> \<forall>bk \<in> set c. length (frames bk) = num_entry_in_page_bucket"
  by (auto simp: chain_ok_def bucket_ok_def)

text \<open>Replacing one frame by another and keeping the count in step.\<close>

lemma chain_ok_replace:
  assumes ok: "chain_ok c" and c: "c = pre @ bk # post" and fr: "frames bk = fp @ f # fs"
    and c': "c' = pre @ bk\<lparr>frames := fp @ g # fs, pb_count := pb_count bk + d\<rparr> # post"
    and d: "d = of_nat (if live g then 1 else 0) - of_nat (if live f then 1 else 0)"
    and dist: "first_of (chain_frames c')"
  shows "chain_ok c'"
  using ok d dist by (auto simp: chain_ok_def bucket_ok_def c c' fr)

lemma live_alist_split:
  "c = pre @ bk # post \<Longrightarrow> frames bk = fp @ f # fs \<Longrightarrow>
   live_alist c = map (\<lambda>f. (page_id f, buffer_page f)) (filter live (chain_frames pre @ fp)) @
     (if live f then [(page_id f, buffer_page f)] else []) @
     map (\<lambda>f. (page_id f, buffer_page f)) (filter live (fs @ chain_frames post))"
  by (simp add: live_alist_def)

lemma dom_chain_map: "k \<in> dom (chain_map c) \<longleftrightarrow> (\<exists>f \<in> set (chain_frames c). live_key k f)"
  by (auto simp: chain_map_def live_alist_def dom_map_of_conv_image_fst live_key_def image_image)

lemma chain_map_live: "chain_ok c \<Longrightarrow> f \<in> set (chain_frames c) \<Longrightarrow> live f \<Longrightarrow>
  chain_map c (page_id f) = Some (buffer_page f)"
  using chain_ok_distinct [of c] by (auto simp: chain_map_def live_alist_def intro!: map_of_is_SomeI)

lemma chain_map_nonzero: "chain_map c k = Some v \<Longrightarrow> v \<noteq> 0"
  by (auto simp: chain_map_def live_alist_def dest!: map_of_SomeD)

lemma pt_get_map:
  assumes ok: "chain_ok c"
  shows "pt_get c k = (case chain_map c k of Some v \<Rightarrow> v | None \<Rightarrow> 0)"
proof (cases "chain_scan (live_key k) c")
  case None
  then have "k \<notin> dom (chain_map c)"
    using chain_scan_None [OF chain_ok_len [OF ok]] by (auto simp: dom_chain_map)
  then show ?thesis using None by (auto simp: pt_get_def split: option.splits)
next
  case (Some bi)
  obtain b i where bi: "bi = (b, i)" by (cases bi)
  from chain_scan_SomeD [OF Some [unfolded bi] chain_ok_len [OF ok]]
  obtain pre bk post fp f fs where s: "c = pre @ bk # post" "length pre = b" "frames bk = fp @ f # fs"
    "length fp = i" "live_key k f" by blast
  then have "frame_at c b i = f" "f \<in> set (chain_frames c)" using store_frame_split [OF s(1,3)] by auto
  then show ?thesis
    using chain_map_live [OF ok, of f] s(5) Some by (simp add: pt_get_def bi live_key_def)
qed

lemma map_fst_live: "map fst (map (\<lambda>f. (page_id f, buffer_page f)) fs) = map page_id fs"
  by (induction fs) auto

lemma chain_map_absent:
  "chain_ok c \<Longrightarrow> chain_scan (live_key k) c = None \<longleftrightarrow> chain_map c k = None"
  using chain_scan_None [OF chain_ok_len, of c "live_key k"] dom_chain_map [of k c] by (auto simp: domIff)

lemma chain_map_present:
  assumes "chain_ok c" "chain_scan (live_key k) c = Some (b, i)"
  shows "chain_map c k = Some (buffer_page (frame_at c b i))"
  using pt_get_map [OF assms(1), of k] assms chain_map_absent [OF assms(1), of k]
  by (auto simp: pt_get_def)

text \<open>Storing into a free frame.\<close>

lemma chain_fill_free:
  assumes ok: "chain_ok c" and abs: "chain_map c k = None" and v: "v \<noteq> 0"
    and scan: "chain_scan (\<lambda>f. buffer_page f = 0) c = Some (b, i)"
  shows "chain_ok (store_frame b i \<lparr>page_id = k, buffer_page = v\<rparr> 1 c) \<and>
    chain_map (store_frame b i \<lparr>page_id = k, buffer_page = v\<rparr> 1 c) = (chain_map c)(k \<mapsto> v)"
proof -
  from chain_scan_SomeD [OF scan chain_ok_len [OF ok]]
  obtain pre bk post fp f fs where s: "c = pre @ bk # post" "length pre = b" "frames bk = fp @ f # fs"
    "length fp = i" "buffer_page f = 0" "\<forall>g \<in> set (chain_frames pre @ fp). live g" by blast
  let ?g = "\<lparr>page_id = k, buffer_page = v\<rparr>"
  define c' where "c' = pre @ bk\<lparr>frames := fp @ ?g # fs, pb_count := pb_count bk + 1\<rparr> # post"
  have st: "store_frame b i ?g 1 c = c'"
    using store_frame_split [OF s(1,3)] s(2,4) by (simp add: c'_def)
  define A B where "A = map (\<lambda>f. (page_id f, buffer_page f)) (filter live (chain_frames pre @ fp))"
    and "B = map (\<lambda>f. (page_id f, buffer_page f)) (filter live (fs @ chain_frames post))"
  have la: "live_alist c = A @ B" using live_alist_split [OF s(1,3)] s(5) by (simp add: A_def B_def)
  have la': "live_alist c' = A @ (k, v) # B"
    using live_alist_split [OF c'_def, of fp ?g fs] v by (simp add: A_def B_def)
  have k: "k \<notin> fst ` set A" using abs by (simp add: chain_map_def la map_of_eq_None_iff)
  have "chain_ok c'"
  proof (rule chain_ok_replace [OF ok s(1,3) c'_def])
    have "\<forall>g \<in> set (chain_frames c). live g \<longrightarrow> page_id g \<noteq> k"
      using abs dom_chain_map [of k c] by (auto simp: live_key_def domIff)
    then show "first_of (chain_frames c')"
      using ok s(5,6) by (auto simp: c'_def s(1,3) chain_ok_def sorted_wrt_append)
  qed (use s(5) v in simp_all)
  moreover have "chain_map c' = (chain_map c)(k \<mapsto> v)"
    unfolding chain_map_def la la' using k by (rule map_of_mid)
  ultimately show ?thesis by (simp add: st)
qed

text \<open>Adding an overflow bucket.\<close>

lemma chain_add_bucket:
  assumes ok: "chain_ok c" and abs: "chain_map c k = None" and v: "v \<noteq> 0"
    and full: "chain_scan (\<lambda>f. buffer_page f = 0) c = None"
  shows "chain_ok (c @ [new_bucket k v]) \<and> chain_map (c @ [new_bucket k v]) = (chain_map c)(k \<mapsto> v)"
proof -
  have fr: "frames (new_bucket k v) = [\<lparr>page_id = k, buffer_page = v\<rparr>, empty_frame, empty_frame]"
    by (simp add: new_bucket_def empty_bucket_def num_entry_in_page_bucket_def eval_nat_numeral)
  have la: "live_alist (c @ [new_bucket k v]) = live_alist c @ [(k, v)]"
    using v by (simp add: fr live_alist_def empty_frame_def)
  have "bucket_ok (new_bucket k v)"
    using v by (simp add: bucket_ok_def fr num_entry_in_page_bucket_def empty_frame_def) (simp add: new_bucket_def)
  moreover have k: "k \<notin> fst ` set (live_alist c)" using abs by (simp add: chain_map_def map_of_eq_None_iff)
  moreover have "\<forall>g \<in> set (chain_frames c). live g \<and> page_id g \<noteq> k"
    using chain_scan_None [OF chain_ok_len [OF ok]] full abs dom_chain_map [of k c]
    by (auto simp: live_key_def domIff)
  ultimately have "chain_ok (c @ [new_bucket k v])"
    using ok by (auto simp: chain_ok_def sorted_wrt_append fr empty_frame_def)
  moreover have "chain_map (c @ [new_bucket k v]) = (chain_map c)(k \<mapsto> v)"
    unfolding chain_map_def la using map_of_mid [OF k, of v "[]"] by simp
  ultimately show ?thesis by simp
qed

text \<open>Overwriting the pointer of a live frame.\<close>

lemma chain_overwrite:
  assumes ok: "chain_ok c" and scan: "chain_scan (\<lambda>f. page_id f = k \<and> Q f) c = Some (b, i)"
    and Q: "\<And>f. Q f \<Longrightarrow> live f" and v: "v \<noteq> 0"
  shows "chain_ok (store_frame b i ((frame_at c b i)\<lparr>buffer_page := v\<rparr>) 0 c) \<and>
    chain_map (store_frame b i ((frame_at c b i)\<lparr>buffer_page := v\<rparr>) 0 c) = (chain_map c)(k \<mapsto> v)"
proof -
  from chain_scan_SomeD [OF scan chain_ok_len [OF ok]]
  obtain pre bk post fp f fs where s: "c = pre @ bk # post" "length pre = b" "frames bk = fp @ f # fs"
    "length fp = i" "page_id f = k" "live f" using Q by blast
  define c' where "c' = pre @ bk\<lparr>frames := fp @ f\<lparr>buffer_page := v\<rparr> # fs, pb_count := pb_count bk + 0\<rparr> # post"
  have st: "store_frame b i ((frame_at c b i)\<lparr>buffer_page := v\<rparr>) 0 c = c'"
    using store_frame_split [OF s(1,3)] s(2,4) by (simp add: c'_def)
  define A B where "A = map (\<lambda>f. (page_id f, buffer_page f)) (filter live (chain_frames pre @ fp))"
    and "B = map (\<lambda>f. (page_id f, buffer_page f)) (filter live (fs @ chain_frames post))"
  have la: "live_alist c = A @ (k, buffer_page f) # B"
    using live_alist_split [OF s(1,3)] s(5,6) by (simp add: A_def B_def)
  have la': "live_alist c' = A @ (k, v) # B"
    using live_alist_split [OF c'_def, of fp "f\<lparr>buffer_page := v\<rparr>" fs] v s(5) by (simp add: A_def B_def)
  have dist: "distinct (map fst (live_alist c))" using ok by (rule chain_ok_distinct)
  then have k: "k \<notin> fst ` set A" by (simp add: la)
  have "chain_ok c'"
    by (rule chain_ok_replace [OF ok s(1,3) c'_def]) (use s(6) v ok in \<open>auto simp: c'_def s(1,3) chain_ok_def sorted_wrt_append\<close>)
  moreover have "chain_map c' = (chain_map c)(k \<mapsto> v)"
    unfolding chain_map_def la la' by (simp only: map_of_mid [OF k] fun_upd_upd)
  ultimately show ?thesis by (simp add: st)
qed

text \<open>Freeing a live frame, with or without unlinking its bucket.\<close>

lemma chain_free:
  assumes ok: "chain_ok c" and s: "c = pre @ bk # post" "length pre = b" "frames bk = fp @ f # fs" "length fp = i"
    and f: "live f"
  shows "chain_ok (free_frame b i c) \<and> chain_map (free_frame b i c) = (chain_map c)(page_id f := None)"
proof -
  define bk' where "bk' = bk\<lparr>frames := fp @ f\<lparr>buffer_page := 0\<rparr> # fs, pb_count := pb_count bk + - 1\<rparr>"
  define c' where "c' = pre @ bk' # post"
  have st: "store_frame b i ((frame_at c b i)\<lparr>buffer_page := 0\<rparr>) (- 1) c = c'"
    using store_frame_split [OF s(1,3)] s(2,4) by (simp add: c'_def bk'_def)
  define A B where "A = map (\<lambda>f. (page_id f, buffer_page f)) (filter live (chain_frames pre @ fp))"
    and "B = map (\<lambda>f. (page_id f, buffer_page f)) (filter live (fs @ chain_frames post))"
  have la: "live_alist c = A @ (page_id f, buffer_page f) # B"
    using live_alist_split [OF s(1,3)] f by (simp add: A_def B_def)
  have la': "live_alist c' = A @ B"
    using live_alist_split [OF c'_def, of fp "f\<lparr>buffer_page := 0\<rparr>" fs] by (simp add: A_def B_def bk'_def)
  have dist: "distinct (map fst (live_alist c))" using ok by (rule chain_ok_distinct)
  then have nk: "page_id f \<notin> fst ` set A" "page_id f \<notin> fst ` set B" by (simp_all add: la)
  have okc: "chain_ok c'"
    by (rule chain_ok_replace [OF ok s(1,3) c'_def [unfolded bk'_def]]) (use f ok in \<open>auto simp: c'_def bk'_def s(1,3) chain_ok_def sorted_wrt_append\<close>)
  have mp: "map_of (A @ B) = (chain_map c)(page_id f := None)"
  proof -
    have "map_of (A @ B) (page_id f) = None" using nk by (auto simp: map_of_eq_None_iff)
    then show ?thesis unfolding chain_map_def la map_of_mid [OF nk(1)] by (auto simp: fun_eq_iff)
  qed
  show ?thesis
  proof (cases "pb_count (c' ! b) = 0 \<and> b \<noteq> 0")
    case False
    then have "free_frame b i c = c'" unfolding free_frame_def Let_def st by auto
    then show ?thesis using okc mp by (simp add: chain_map_def la')
  next
    case True
    have cb: "c' ! b = bk'" unfolding c'_def s(2) [symmetric] by (rule nth_append_length)
    have fr: "free_frame b i c = pre @ post"
      unfolding free_frame_def Let_def st using True s(2) by (simp add: c'_def)
    have bok: "bucket_ok bk'" using okc by (simp add: chain_ok_def c'_def)
    define n where "n = length (filter live (frames bk'))"
    have "length (frames bk') = num_entry_in_page_bucket" using bok by (simp add: bucket_ok_def)
    then have "n \<le> 3" using length_filter_le [of live "frames bk'"] by (simp add: n_def num_entry_in_page_bucket_def)
    moreover have "(of_nat n :: 32 word) = 0" using True bok by (simp add: cb bucket_ok_def n_def)
    ultimately have "n = 0" by (simp add: word_of_nat_eq_0_iff) (auto dest: dvd_imp_le)
    then have "filter live (frames bk') = []" by (simp add: n_def)
    then have la'': "live_alist (pre @ post) = A @ B"
      using la' by (simp add: c'_def) (simp add: live_alist_def)
    have "pre \<noteq> []" using True s(2) by auto
    then have "chain_ok (pre @ post)"
      using okc by (simp add: chain_ok_def c'_def sorted_wrt_append)
    then show ?thesis using mp unfolding fr chain_map_def la'' by simp
  qed
qed

subsection \<open>The operations on a chain\<close>

lemma scan_key_value:
  assumes ok: "chain_ok c" and v: "v \<noteq> 0"
  shows "chain_scan (\<lambda>f. page_id f = k \<and> buffer_page f = v) c = None \<longleftrightarrow> chain_map c k \<noteq> Some v"
proof -
  have "chain_map c k = Some v \<longleftrightarrow> (\<exists>f \<in> set (chain_frames c). page_id f = k \<and> buffer_page f = v)"
  proof
    assume "chain_map c k = Some v"
    then show "\<exists>f \<in> set (chain_frames c). page_id f = k \<and> buffer_page f = v"
      by (auto simp: chain_map_def live_alist_def dest!: map_of_SomeD)
  qed (use chain_map_live [OF ok] v in auto)
  then show ?thesis using chain_scan_None [OF chain_ok_len [OF ok]] by auto
qed

lemma scan_free:
  assumes ok: "chain_ok c" and scan: "chain_scan P c = Some (b, i)" and live: "\<And>f. P f \<Longrightarrow> live f"
    and key: "\<And>f. P f \<Longrightarrow> page_id f = k"
  shows "chain_ok (free_frame b i c) \<and> chain_map (free_frame b i c) = (chain_map c)(k := None)"
proof -
  from chain_scan_SomeD [OF scan chain_ok_len [OF ok]]
  obtain pre bk post fp f fs where s: "c = pre @ bk # post" "length pre = b" "frames bk = fp @ f # fs"
    "length fp = i" "P f" by blast
  show ?thesis using chain_free [OF ok s(1-4) live [OF s(5)]] key [OF s(5)] by simp
qed

lemma pt_insert_correct:
  assumes "chain_ok c" "v \<noteq> 0"
  shows "case chain_map c k of
      Some w \<Rightarrow> pt_insert c k v = (False, w, c)
    | None \<Rightarrow> (\<exists>c'. pt_insert c k v = (True, v, c') \<and> chain_ok c' \<and> chain_map c' = (chain_map c)(k \<mapsto> v))"
proof (cases "chain_scan (live_key k) c")
  case None
  then have "chain_map c k = None" using chain_map_absent [OF assms(1)] by simp
  then show ?thesis
    using None chain_fill_free [OF assms(1) _ assms(2)] chain_add_bucket [OF assms(1) _ assms(2)]
    by (auto simp: pt_insert_def split: option.splits)
next
  case (Some bi)
  then show ?thesis using chain_map_present [OF assms(1)] by (cases bi) (auto simp: pt_insert_def)
qed

lemma pt_upsert_correct:
  assumes "chain_ok c" "v \<noteq> 0" "chain_map c k = None \<Longrightarrow> ra v = k"
  shows "\<exists>c'. pt_upsert ra c k v =
      Inr (chain_map c k = None, case chain_map c k of Some w \<Rightarrow> w | None \<Rightarrow> v, c') \<and>
    chain_ok c' \<and> chain_map c' = (chain_map c)(k \<mapsto> v)"
proof (cases "chain_scan (live_key k) c")
  case None
  then have "chain_map c k = None" using chain_map_absent [OF assms(1)] by simp
  then show ?thesis
    using None assms(3) chain_fill_free [OF assms(1) _ assms(2)] chain_add_bucket [OF assms(1) _ assms(2)]
    by (auto simp: pt_upsert_def split: option.splits)
next
  case (Some bi)
  obtain b i where bi: "bi = (b, i)" by (cases bi)
  note m = chain_map_present [OF assms(1) Some [unfolded bi]]
  note o = chain_overwrite [OF assms(1), of k live b i v, folded live_key_def [abs_def]]
  show ?thesis using o m Some assms(2) by (simp add: pt_upsert_def bi live_key_def [abs_def])
qed

lemma pt_remove_correct:
  assumes "chain_ok c" "v \<noteq> 0"
  shows "if chain_map c k = Some v
    then \<exists>c'. pt_remove c k v = (True, c') \<and> chain_ok c' \<and> chain_map c' = (chain_map c)(k := None)
    else pt_remove c k v = (False, c)"
proof (cases "chain_scan (\<lambda>f. page_id f = k \<and> buffer_page f = v) c")
  case None
  then show ?thesis using scan_key_value [OF assms, of k] by (simp add: pt_remove_def)
next
  case (Some bi)
  then show ?thesis
    using scan_key_value [OF assms, of k] scan_free [OF assms(1), of _ "fst bi" "snd bi" k] assms(2)
    by (cases bi) (auto simp: pt_remove_def)
qed

text \<open>
  \<open>remove(key)\<close> does not look at \<open>buffer_page_\<close>, but on a chain where the address is
  live the frame it finds is the live one.
\<close>

lemma pt_remove_key_correct:
  assumes ok: "chain_ok c" and k: "chain_map c k \<noteq> None"
  shows "\<exists>c'. pt_remove_key c k = (True, c') \<and> chain_ok c' \<and> chain_map c' = (chain_map c)(k := None)"
proof -
  obtain g where g: "g \<in> set (chain_frames c)" "live_key k g"
    using k dom_chain_map [of k c] by (auto simp: domIff)
  then obtain b i where scan: "chain_scan (\<lambda>f. page_id f = k) c = Some (b, i)"
    using chain_scan_None [OF chain_ok_len [OF ok], of "\<lambda>f. page_id f = k"]
    by (auto simp: live_key_def)
  from chain_scan_SomeD [OF scan chain_ok_len [OF ok]]
  obtain pre bk post fp f fs where s: "c = pre @ bk # post" "length pre = b" "frames bk = fp @ f # fs"
    "length fp = i" "page_id f = k" "\<forall>g \<in> set (chain_frames pre @ fp). page_id g \<noteq> k" by blast
  have cf: "chain_frames c = (chain_frames pre @ fp) @ f # fs @ chain_frames post" by (simp add: s)
  have "live f"
  proof (cases "g = f")
    case False
    then have "g \<in> set (fs @ chain_frames post)" using g s(6) unfolding cf by (auto simp: live_key_def)
    then show ?thesis
      using ok g(2) s(5) unfolding chain_ok_def cf sorted_wrt_append by (auto simp: live_key_def)
  qed (use g in \<open>simp add: live_key_def\<close>)
  then show ?thesis
    using chain_free [OF ok s(1-4)] s(5) by (simp add: pt_remove_key_def scan)
qed

lemma pt_update_correct:
  assumes "chain_ok c" "v \<noteq> 0"
  shows "case chain_map c k of
      None \<Rightarrow> pt_update ra c k v = Inr (False, None, c)
    | Some w \<Rightarrow> if ra v \<noteq> k then pt_update ra c k v = Inl Spin
        else (\<exists>c'. pt_update ra c k v = Inr (True, Some w, c') \<and> chain_ok c' \<and> chain_map c' = (chain_map c)(k \<mapsto> v))"
proof (cases "chain_scan (live_key k) c")
  case None
  then show ?thesis using chain_map_absent [OF assms(1), THEN iffD1, OF None] by (simp add: pt_update_def)
next
  case (Some bi)
  obtain b i where bi: "bi = (b, i)" by (cases bi)
  note m = chain_map_present [OF assms(1) Some [unfolded bi]]
  note o = chain_overwrite [OF assms(1), of k live b i v, folded live_key_def [abs_def]]
  show ?thesis using o m Some assms(2) by (simp add: pt_update_def bi live_key_def [abs_def])
qed

lemma pt_RMW_correct:
  assumes "chain_ok c" "old \<noteq> 0" "new \<noteq> 0"
  shows "if chain_map c k = Some old
    then \<exists>c'. pt_RMW c k new old = (True, c') \<and> chain_ok c' \<and> chain_map c' = (chain_map c)(k \<mapsto> new)
    else pt_RMW c k new old = (False, c)"
proof (cases "chain_scan (\<lambda>f. page_id f = k \<and> buffer_page f = old) c")
  case None
  then show ?thesis using scan_key_value [OF assms(1,2), of k] by (simp add: pt_RMW_def)
next
  case (Some bi)
  then show ?thesis
    using scan_key_value [OF assms(1,2), of k] assms(2,3)
      chain_overwrite [OF assms(1), of k "\<lambda>f. buffer_page f = old" "fst bi" "snd bi" new]
    by (cases bi) (auto simp: pt_RMW_def)
qed

subsection \<open>The table as a map\<close>

definition table_map :: "(u64 \<Rightarrow> u64) \<Rightarrow> page_table \<Rightarrow> u64 \<rightharpoonup> u64" where
  "table_map H t key = chain_map (pt_chain H t key) key"

definition table_ok :: "page_table \<Rightarrow> bool" where
  "table_ok t \<longleftrightarrow> 0 < pt_bucket_num t \<and> length (pt_table t) = unat (pt_bucket_num t) \<and>
     (\<forall>c \<in> set (pt_table t). chain_ok c)"

lemma table_map_nonzero: "table_map H t k = Some v \<Longrightarrow> v \<noteq> 0"
  by (simp add: table_map_def chain_map_nonzero)

lemma pt_bucket_less: "table_ok t \<Longrightarrow> pt_bucket H t k < length (pt_table t)"
  by (simp add: table_ok_def pt_bucket_def unat_mod word_gt_0 unat_gt_0)

lemma pt_chain_ok: "table_ok t \<Longrightarrow> chain_ok (pt_chain H t k)"
  using pt_bucket_less [of t H k] by (simp add: table_ok_def pt_chain_def)

lemma get_table_map: "table_ok t \<Longrightarrow> get_with_bucket H t k = (case table_map H t k of Some v \<Rightarrow> v | None \<Rightarrow> 0)"
  by (simp add: get_with_bucket_def table_map_def pt_get_map pt_chain_ok)

lemma put_chain_same [simp]: "table_ok t \<Longrightarrow> pt_put_chain H t k (pt_chain H t k) = t"
  by (simp add: pt_put_chain_def pt_chain_def)

lemma put_chain_map:
  assumes ok: "table_ok t" and c: "chain_ok c" "chain_map c = (chain_map (pt_chain H t k))(k := r)"
  shows "table_ok (pt_put_chain H t k c)" "table_map H (pt_put_chain H t k c) = (table_map H t)(k := r)"
proof -
  have len: "pt_bucket H t k < length (pt_table t)" by (rule pt_bucket_less [OF ok])
  have b: "pt_bucket H (pt_put_chain H t k c) k' = pt_bucket H t k'" for k'
    by (simp add: pt_bucket_def pt_put_chain_def)
  show "table_ok (pt_put_chain H t k c)"
    using ok c(1) by (auto simp: table_ok_def pt_put_chain_def dest!: set_update_subset_insert [THEN subsetD])
  show "table_map H (pt_put_chain H t k c) = (table_map H t)(k := r)"
  proof
    fix k'
    show "table_map H (pt_put_chain H t k c) k' = ((table_map H t)(k := r)) k'"
      using len c(2) unfolding table_map_def pt_chain_def b
      by (cases "pt_bucket H t k' = pt_bucket H t k") (auto simp: pt_put_chain_def pt_chain_def)
  qed
qed

lemma insert_with_lock_correct:
  assumes "table_ok t" "v \<noteq> 0"
  shows "case table_map H t k of
      Some w \<Rightarrow> insert_with_lock H t k v = (False, w, t)
    | None \<Rightarrow> (\<exists>t'. insert_with_lock H t k v = (True, v, t') \<and> table_ok t' \<and> table_map H t' = (table_map H t)(k \<mapsto> v))"
  using pt_insert_correct [OF pt_chain_ok [OF assms(1)] assms(2), of H k k] assms(1) put_chain_map [OF assms(1)]
  by (auto simp: table_map_def insert_with_lock_def split: option.splits)

lemma upsert_with_lock_correct:
  assumes "table_ok t" "v \<noteq> 0" "table_map H t k = None \<Longrightarrow> ra v = k"
  shows "\<exists>t'. upsert_with_lock H ra t k v =
      Inr (table_map H t k = None, case table_map H t k of Some w \<Rightarrow> w | None \<Rightarrow> v, t') \<and>
    table_ok t' \<and> table_map H t' = (table_map H t)(k \<mapsto> v)"
  using pt_upsert_correct [OF pt_chain_ok [OF assms(1)] assms(2), of H k k ra] assms(3)
    put_chain_map [OF assms(1)]
  by (auto simp: table_map_def upsert_with_lock_def)

lemma remove_with_lock_correct:
  assumes "table_ok t" "v \<noteq> 0"
  shows "if table_map H t k = Some v
    then \<exists>t'. remove_with_lock H t k v = (True, t') \<and> table_ok t' \<and> table_map H t' = (table_map H t)(k := None)
    else remove_with_lock H t k v = (False, t)"
  using pt_remove_correct [OF pt_chain_ok [OF assms(1)] assms(2), of H k k] assms(1) put_chain_map [OF assms(1)]
  by (auto simp: table_map_def remove_with_lock_def split: if_splits)

lemma check_and_remove_correct:
  assumes "table_ok t"
  shows "\<exists>t'. check_and_remove H t k = (table_map H t k \<noteq> None, t') \<and>
    table_ok t' \<and> table_map H t' = (table_map H t)(k := None)"
proof (cases "table_map H t k")
  case None
  then have "pt_get (pt_chain H t k) k = 0"
    using get_table_map [OF assms, of H k] by (simp add: get_with_bucket_def)
  then show ?thesis using None assms by (auto simp: check_and_remove_def fun_eq_iff)
next
  case (Some v)
  then have "pt_get (pt_chain H t k) k \<noteq> 0"
    using get_table_map [OF assms, of H k] table_map_nonzero [OF Some] by (simp add: get_with_bucket_def)
  then show ?thesis
    using pt_remove_key_correct [OF pt_chain_ok [OF assms], of H k k] Some put_chain_map [OF assms]
    by (auto simp: check_and_remove_def table_map_def)
qed

lemma update_with_lock_correct:
  assumes "table_ok t" "v \<noteq> 0"
  shows "case table_map H t k of
      None \<Rightarrow> update_with_lock H ra t k v = Inr (False, None, t)
    | Some w \<Rightarrow> if ra v \<noteq> k then update_with_lock H ra t k v = Inl Spin
        else (\<exists>t'. update_with_lock H ra t k v = Inr (True, Some w, t') \<and> table_ok t' \<and>
          table_map H t' = (table_map H t)(k \<mapsto> v))"
  using pt_update_correct [OF pt_chain_ok [OF assms(1), of H k] assms(2), where k = k and ra = ra] assms(1) put_chain_map [OF assms(1)]
  by (auto simp: table_map_def update_with_lock_def split: option.splits if_splits)

lemma RMW_with_lock_correct:
  assumes "table_ok t" "old \<noteq> 0" "new \<noteq> 0"
  shows "if table_map H t k = Some old
    then \<exists>t'. RMW_with_lock H t k new old = (True, t') \<and> table_ok t' \<and> table_map H t' = (table_map H t)(k \<mapsto> new)
    else RMW_with_lock H t k new old = (False, t)"
  using pt_RMW_correct [OF pt_chain_ok [OF assms(1), of H k] assms(2,3), where k = k] assms(1) put_chain_map [OF assms(1)]
  by (auto simp: table_map_def RMW_with_lock_def split: if_splits)

lemma mk_PageTable_correct:
  assumes "0 < n" "unat n < 2 ^ 32"
  shows "table_ok (mk_PageTable n) \<and> table_map H (mk_PageTable n) = Map.empty"
proof -
  have ok: "chain_ok [empty_bucket]"
    by (simp add: chain_ok_def bucket_ok_def empty_bucket_def empty_frame_def num_entry_in_page_bucket_def
        eval_nat_numeral)
  have emp: "chain_map [empty_bucket] = Map.empty"
    by (simp add: chain_map_def live_alist_def empty_bucket_def empty_frame_def num_entry_in_page_bucket_def
        eval_nat_numeral)
  have q: "unat (n div 3) = unat n div 3" by (simp add: unat_div)
  have n0: "unat n \<noteq> 0" using assms(1) by (auto simp: word_gt_0 unat_eq_0)
  have "ceil_div n 3 \<noteq> 0"
  proof (cases "n mod 3 = 0")
    case True
    then have "unat n mod 3 = 0" using unat_mod [of n 3] by simp
    then have "unat n div 3 \<noteq> 0" using n0 by (auto simp: mod_eq_0_iff_dvd elim: dvdE)
    then show ?thesis using True q by (auto simp: ceil_div_def)
  next
    case False
    have "unat (n div 3 + 1) = unat n div 3 + 1"
      using assms(2) q by (simp add: unat_word_ariths)
    then show ?thesis using False by (auto simp: ceil_div_def)
  qed
  then have ok': "table_ok (mk_PageTable n)"
    using ok by (simp add: table_ok_def mk_PageTable_def Let_def num_entry_in_page_bucket_def word_gt_0)
  moreover have "pt_chain H (mk_PageTable n) k = [empty_bucket]" for k
    using pt_bucket_less [OF ok', of H k]
    by (simp add: pt_chain_def pt_bucket_def mk_PageTable_def Let_def)
  ultimately show ?thesis using emp by (simp add: table_map_def fun_eq_iff)
qed

lemma pt_reset_correct:
  assumes "table_ok t"
  shows "table_ok (pt_reset t) \<and> table_map H (pt_reset t) = Map.empty"
proof -
  have ok: "chain_ok [empty_bucket]" "chain_map [empty_bucket] = Map.empty"
    by (simp_all add: chain_ok_def bucket_ok_def chain_map_def live_alist_def empty_bucket_def empty_frame_def
        num_entry_in_page_bucket_def eval_nat_numeral)
  then have ok': "table_ok (pt_reset t)" using assms by (simp add: table_ok_def pt_reset_def)
  moreover have "pt_chain H (pt_reset t) k = [empty_bucket]" for k
    using pt_bucket_less [OF ok', of H k] by (simp add: pt_chain_def pt_bucket_def pt_reset_def)
  ultimately show ?thesis using ok by (simp add: table_map_def fun_eq_iff)
qed

subsection \<open>The contract of the page table\<close>

text \<open>
  What the cache relies on: \<open>slot\<close> is \<open>get\<close>, \<open>put\<close> is \<open>upsert\<close> of a
  slot that holds the page, \<open>drop_if\<close> is the two-argument \<open>remove\<close> of the eviction
  path. An address goes away only when the evicted slot is still the one recorded for it.
\<close>

locale page_map =
  fixes ok :: "'t \<Rightarrow> bool" and slot :: "'t \<Rightarrow> u64 \<Rightarrow> u64"
    and put :: "'t \<Rightarrow> u64 \<Rightarrow> u64 \<Rightarrow> 't" and drop_if :: "'t \<Rightarrow> u64 \<Rightarrow> u64 \<Rightarrow> 't"
  assumes put_ok: "ok t \<Longrightarrow> v \<noteq> 0 \<Longrightarrow> ok (put t k v)"
    and put_slot: "ok t \<Longrightarrow> v \<noteq> 0 \<Longrightarrow> slot (put t k v) k' = (if k' = k then v else slot t k')"
    and drop_ok: "ok t \<Longrightarrow> v \<noteq> 0 \<Longrightarrow> ok (drop_if t k v)"
    and drop_slot: "ok t \<Longrightarrow> v \<noteq> 0 \<Longrightarrow>
      slot (drop_if t k v) k' = (if k' = k \<and> slot t k = v then 0 else slot t k')"
begin

text \<open>Evicting an old copy of a page leaves the entry of the copy that replaced it.\<close>

lemma stale_drop:
  "ok t \<Longrightarrow> a \<noteq> 0 \<Longrightarrow> b \<noteq> 0 \<Longrightarrow> a \<noteq> b \<Longrightarrow> slot (drop_if (put (put t k a) k b) k a) k' = slot (put t k b) k'"
  by (simp add: put_ok put_slot drop_slot)

lemma drop_current:
  "ok t \<Longrightarrow> a \<noteq> 0 \<Longrightarrow> slot t k = 0 \<Longrightarrow> slot (drop_if (put t k a) k a) k' = slot t k'"
  by (simp add: put_ok put_slot drop_slot)

lemma drop_twice:
  "ok t \<Longrightarrow> a \<noteq> 0 \<Longrightarrow> slot (drop_if (drop_if t k a) k a) k' = slot (drop_if t k a) k'"
  by (simp add: drop_ok drop_slot)

end

definition pt_put :: "(u64 \<Rightarrow> u64) \<Rightarrow> page_table \<Rightarrow> u64 \<Rightarrow> u64 \<Rightarrow> page_table" where
  "pt_put H t k v = (case upsert_with_lock H (\<lambda>_. k) t k v of Inr (_, _, t') \<Rightarrow> t' | Inl _ \<Rightarrow> t)"

interpretation pages: page_map table_ok "get_with_bucket H" "pt_put H" "\<lambda>t k v. snd (remove_with_lock H t k v)"
proof unfold_locales
  fix t :: page_table and v k k' :: u64
  assume a: "table_ok t" "v \<noteq> 0"
  from upsert_with_lock_correct [OF a, of H k "\<lambda>_. k"] obtain t' where
    "pt_put H t k v = t'" "table_ok t'" "table_map H t' = (table_map H t)(k \<mapsto> v)"
    by (auto simp: pt_put_def)
  then show "table_ok (pt_put H t k v)"
    "get_with_bucket H (pt_put H t k v) k' = (if k' = k then v else get_with_bucket H t k')"
    using a by (simp_all add: get_table_map)
  have "table_ok (snd (remove_with_lock H t k v)) \<and> table_map H (snd (remove_with_lock H t k v)) =
      (if table_map H t k = Some v then (table_map H t)(k := None) else table_map H t)"
    using remove_with_lock_correct [OF a, of H k] a(1) by (auto split: if_splits)
  then show "table_ok (snd (remove_with_lock H t k v))"
    "get_with_bucket H (snd (remove_with_lock H t k v)) k' =
      (if k' = k \<and> get_with_bucket H t k = v then 0 else get_with_bucket H t k')"
    using a by (auto simp: get_table_map split: option.splits)
qed

lemma upsert_is_put:
  assumes "table_ok t" "v \<noteq> 0" "ra v = k"
  shows "\<exists>r w. upsert_with_lock H ra t k v = Inr (r, w, pt_put H t k v)"
proof -
  have "pt_upsert ra (pt_chain H t k) k v = pt_upsert (\<lambda>_. k) (pt_chain H t k) k v"
    using assms(3) by (simp add: pt_upsert_def split: option.splits)
  then have "upsert_with_lock H ra t k v = upsert_with_lock H (\<lambda>_. k) t k v"
    by (simp add: upsert_with_lock_def)
  then show ?thesis using upsert_with_lock_correct [of t v H k "\<lambda>_. k"] assms by (auto simp: pt_put_def)
qed

definition example_table :: page_table where
  "example_table = (case insert_with_lock id (mk_PageTable 4) 5 7 of (_, _, t) \<Rightarrow> t)"

lemma example_table_ok: "table_ok example_table \<and> table_map id example_table = [5 \<mapsto> 7]"
  using mk_PageTable_correct [of 4 id] insert_with_lock_correct [of "mk_PageTable 4" 7 id 5]
  by (auto simp: example_table_def)

subsection \<open>Properties\<close>

text \<open>A fresh page table, and one that has been reset, record no page: the overflow buckets
  are gone and every lookup returns null.\<close>

lemma page_table_empty:
  "(0 < n \<and> unat n < 2 ^ 32 \<longrightarrow> table_ok (mk_PageTable n) \<and> get_with_bucket H (mk_PageTable n) k = 0) \<and>
   (table_ok t \<longrightarrow> table_ok (pt_reset t) \<and> get_with_bucket H (pt_reset t) k = 0)"
  using mk_PageTable_correct [of n H] pt_reset_correct [of t H] get_table_map by auto

text \<open>The inserting operations. \<open>upsert\<close> of a slot that holds the page makes lookups of that
  address, and of no other, return the slot, hands back the slot it replaced, and says whether
  the address was new; \<open>insert\<close> does the same for a new address and changes nothing, returning
  the recorded slot, when the address is there. The buckets stay well formed (counts in step,
  one live frame per address, which is the first of its address in the chain).\<close>

lemma page_table_puts:
  assumes "table_ok t" "v \<noteq> 0" "get_with_bucket H t k = 0 \<longrightarrow> ra v = k"
  shows "(\<exists>t'. upsert_with_lock H ra t k v =
       Inr (get_with_bucket H t k = 0, if get_with_bucket H t k = 0 then v else get_with_bucket H t k, t') \<and>
       table_ok t' \<and> (\<forall>k'. get_with_bucket H t' k' = (if k' = k then v else get_with_bucket H t k'))) \<and>
     (if get_with_bucket H t k \<noteq> 0 then insert_with_lock H t k v = (False, get_with_bucket H t k, t)
      else (\<exists>t'. insert_with_lock H t k v = (True, v, t') \<and> table_ok t' \<and>
        (\<forall>k'. get_with_bucket H t' k' = (if k' = k then v else get_with_bucket H t k'))))"
proof -
  have z: "get_with_bucket H t k = 0 \<longleftrightarrow> table_map H t k = None"
    using get_table_map [OF assms(1), of H k] table_map_nonzero [of H t k] by (auto split: option.splits)
  then obtain t' where "upsert_with_lock H ra t k v =
      Inr (table_map H t k = None, case table_map H t k of Some w \<Rightarrow> w | None \<Rightarrow> v, t')"
    "table_ok t'" "table_map H t' = (table_map H t)(k \<mapsto> v)"
    using upsert_with_lock_correct [OF assms(1,2), of H k ra] assms(3) by auto
  moreover have "if get_with_bucket H t k \<noteq> 0 then insert_with_lock H t k v = (False, get_with_bucket H t k, t)
      else (\<exists>t'. insert_with_lock H t k v = (True, v, t') \<and> table_ok t' \<and>
        (\<forall>k'. get_with_bucket H t' k' = (if k' = k then v else get_with_bucket H t k')))"
    using insert_with_lock_correct [OF assms(1,2), of H k] z assms(1)
    by (auto simp: get_table_map split: option.splits)
  ultimately show ?thesis using assms(1) z by (auto simp: get_table_map split: option.splits)
qed

text \<open>Removal. The two-argument \<open>remove\<close> of the eviction path forgets the address exactly
  when the slot it is called with is the recorded one, and otherwise returns false and leaves
  the table as it is; \<open>check_and_remove\<close> forgets the address whatever its slot, and reports
  whether there was one. All other addresses keep their slots.\<close>

lemma page_table_removes:
  assumes "table_ok t" "v \<noteq> 0"
  shows "(\<exists>t'. remove_with_lock H t k v = (get_with_bucket H t k = v, t') \<and> table_ok t' \<and>
       (get_with_bucket H t k \<noteq> v \<longrightarrow> t' = t) \<and>
       (\<forall>k'. get_with_bucket H t' k' = (if k' = k \<and> get_with_bucket H t k = v then 0 else get_with_bucket H t k'))) \<and>
     (\<exists>t'. check_and_remove H t k = (get_with_bucket H t k \<noteq> 0, t') \<and> table_ok t' \<and>
       (\<forall>k'. get_with_bucket H t' k' = (if k' = k then 0 else get_with_bucket H t k')))"
proof -
  have g: "get_with_bucket H t k = v \<longleftrightarrow> table_map H t k = Some v"
    "get_with_bucket H t k \<noteq> 0 \<longleftrightarrow> table_map H t k \<noteq> None"
    using get_table_map [OF assms(1), of H k] table_map_nonzero [of H t k] assms(2) by (auto split: option.splits)
  have "\<exists>t'. remove_with_lock H t k v = (get_with_bucket H t k = v, t') \<and> table_ok t' \<and>
       (get_with_bucket H t k \<noteq> v \<longrightarrow> t' = t) \<and>
       (\<forall>k'. get_with_bucket H t' k' = (if k' = k \<and> get_with_bucket H t k = v then 0 else get_with_bucket H t k'))"
    using remove_with_lock_correct [OF assms, of H k] g(1) assms(1) by (auto simp: get_table_map split: if_splits)
  moreover have "\<exists>t'. check_and_remove H t k = (get_with_bucket H t k \<noteq> 0, t') \<and> table_ok t' \<and>
       (\<forall>k'. get_with_bucket H t' k' = (if k' = k then 0 else get_with_bucket H t k'))"
    using check_and_remove_correct [OF assms(1), of H k] g(2) assms(1) by (auto simp: get_table_map)
  ultimately show ?thesis by blast
qed

text \<open>The cache replaces the copy of a page before it evicts the old one: evicting the old slot
  after the new one has been recorded for the address leaves the new entry, and every other entry,
  in place.\<close>

lemma page_table_stale_evict:
  assumes "table_ok t" "a \<noteq> 0" "b \<noteq> 0" "a \<noteq> b" "ra a = k" "ra b = k"
  shows "\<exists>r1 w1 t1 r2 w2 t2. upsert_with_lock H ra t k a = Inr (r1, w1, t1) \<and>
     upsert_with_lock H ra t1 k b = Inr (r2, w2, t2) \<and>
     (\<forall>k'. get_with_bucket H (snd (remove_with_lock H t2 k a)) k' = (if k' = k then b else get_with_bucket H t k'))"
proof -
  obtain r1 w1 where 1: "upsert_with_lock H ra t k a = Inr (r1, w1, pt_put H t k a)"
    using upsert_is_put [of t a ra k H] assms(1,2,5) by blast
  have ok1: "table_ok (pt_put H t k a)" by (rule pages.put_ok [OF assms(1,2)])
  then obtain r2 w2 where "upsert_with_lock H ra (pt_put H t k a) k b = Inr (r2, w2, pt_put H (pt_put H t k a) k b)"
    using upsert_is_put [of _ b ra k H] assms(3,6) by blast
  with 1 show ?thesis using pages.stale_drop [OF assms(1-4)] pages.put_slot [OF assms(1,3)] by auto
qed

text \<open>The exchanging operations. \<open>update\<close> replaces the slot of a recorded address, hands
  back the old one, does nothing when the address is absent, and never returns when the new
  node carries another address; \<open>RMW\<close> is a compare-and-swap on the recorded slot.\<close>

lemma page_table_exchanges:
  assumes "table_ok t" "v \<noteq> 0" "old \<noteq> 0"
  shows "(if get_with_bucket H t k = 0 then update_with_lock H ra t k v = Inr (False, None, t)
      else if ra v \<noteq> k then update_with_lock H ra t k v = Inl Spin
      else (\<exists>t'. update_with_lock H ra t k v = Inr (True, Some (get_with_bucket H t k), t') \<and> table_ok t' \<and>
        (\<forall>k'. get_with_bucket H t' k' = (if k' = k then v else get_with_bucket H t k')))) \<and>
    (if get_with_bucket H t k \<noteq> old then RMW_with_lock H t k v old = (False, t)
     else (\<exists>t'. RMW_with_lock H t k v old = (True, t') \<and> table_ok t' \<and>
       (\<forall>k'. get_with_bucket H t' k' = (if k' = k then v else get_with_bucket H t k'))))"
proof -
  have g: "get_with_bucket H t k = old \<longleftrightarrow> table_map H t k = Some old"
    "get_with_bucket H t k = 0 \<longleftrightarrow> table_map H t k = None"
    using get_table_map [OF assms(1), of H k] table_map_nonzero [of H t k] assms(3) by (auto split: option.splits)
  show ?thesis
    using update_with_lock_correct [OF assms(1,2), where H = H and k = k and ra = ra]
      RMW_with_lock_correct [OF assms(1,3,2), where H = H and k = k] g assms(1)
    by (auto simp: get_table_map split: option.splits if_splits)
qed

text \<open>C23: the operations that write an entry. \<open>upsert\<close> of a slot that holds the page makes lookups of that
  address, and of no other, return the slot, hands back the slot it replaced, and says whether
  the address was new; \<open>insert\<close> does the same for a new address and changes nothing, returning
  the recorded slot, when the address is there. \<open>update\<close> replaces the slot of a recorded address, hands
  back the old one, does nothing when the address is absent, and never returns when the new
  node carries another address; \<open>RMW\<close> is a compare-and-swap on the recorded slot. The buckets stay well formed
  (counts in step, one live frame per address, which is the first of its address in the chain).\<close>

theorem page_table_put_spec:
  assumes "table_ok t" "v \<noteq> 0" "get_with_bucket H t k = 0 \<longrightarrow> ra v = k" "old \<noteq> 0"
  shows "(\<exists>t'. upsert_with_lock H ra t k v =
       Inr (get_with_bucket H t k = 0, if get_with_bucket H t k = 0 then v else get_with_bucket H t k, t') \<and>
       table_ok t' \<and> (\<forall>k'. get_with_bucket H t' k' = (if k' = k then v else get_with_bucket H t k'))) \<and>
     (if get_with_bucket H t k \<noteq> 0 then insert_with_lock H t k v = (False, get_with_bucket H t k, t)
      else (\<exists>t'. insert_with_lock H t k v = (True, v, t') \<and> table_ok t' \<and>
        (\<forall>k'. get_with_bucket H t' k' = (if k' = k then v else get_with_bucket H t k')))) \<and>
     (if get_with_bucket H t k = 0 then update_with_lock H ra t k v = Inr (False, None, t)
      else if ra v \<noteq> k then update_with_lock H ra t k v = Inl Spin
      else (\<exists>t'. update_with_lock H ra t k v = Inr (True, Some (get_with_bucket H t k), t') \<and> table_ok t' \<and>
        (\<forall>k'. get_with_bucket H t' k' = (if k' = k then v else get_with_bucket H t k')))) \<and>
     (if get_with_bucket H t k \<noteq> old then RMW_with_lock H t k v old = (False, t)
      else (\<exists>t'. RMW_with_lock H t k v old = (True, t') \<and> table_ok t' \<and>
        (\<forall>k'. get_with_bucket H t' k' = (if k' = k then v else get_with_bucket H t k'))))"
  using page_table_puts [of t v H k ra] page_table_exchanges [of t v old H k ra] assms by blast

theorem page_table_put_spec_witness:
  "(\<exists>t'. upsert_with_lock id (\<lambda>_. 5) example_table 5 8 = Inr (False, 7, t') \<and> get_with_bucket id t' 5 = 8) \<and>
   (\<exists>t'. RMW_with_lock id example_table 5 8 7 = (True, t') \<and> get_with_bucket id t' 5 = 8) \<and>
   RMW_with_lock id example_table 5 8 9 = (False, example_table)"
  using page_table_put_spec [of example_table 8 id 5 "\<lambda>_. 5" 7] page_table_put_spec [of example_table 8 id 5 "\<lambda>_. 5" 9] example_table_ok
    get_table_map [of example_table id 5] by auto

text \<open>C24: removal. The two-argument \<open>remove\<close> of the eviction path forgets the address exactly
  when the slot it is called with is the recorded one, and otherwise returns false and leaves
  the table as it is; \<open>check_and_remove\<close> forgets the address whatever its slot, and reports
  whether there was one. All other addresses keep their slots. So the cache may evict the old copy of a page after it has
  recorded the new one: the new entry stays.\<close>

theorem page_table_remove_spec:
  assumes "table_ok t" "v \<noteq> 0"
  shows "(\<exists>t'. remove_with_lock H t k v = (get_with_bucket H t k = v, t') \<and> table_ok t' \<and>
       (get_with_bucket H t k \<noteq> v \<longrightarrow> t' = t) \<and>
       (\<forall>k'. get_with_bucket H t' k' = (if k' = k \<and> get_with_bucket H t k = v then 0 else get_with_bucket H t k'))) \<and>
     (\<exists>t'. check_and_remove H t k = (get_with_bucket H t k \<noteq> 0, t') \<and> table_ok t' \<and>
       (\<forall>k'. get_with_bucket H t' k' = (if k' = k then 0 else get_with_bucket H t k'))) \<and>
     (\<forall>w. w \<noteq> 0 \<and> w \<noteq> v \<and> ra v = k \<and> ra w = k \<longrightarrow>
       (\<exists>r1 w1 t1 r2 w2 t2. upsert_with_lock H ra t k v = Inr (r1, w1, t1) \<and> upsert_with_lock H ra t1 k w = Inr (r2, w2, t2) \<and>
         (\<forall>k'. get_with_bucket H (snd (remove_with_lock H t2 k v)) k' = (if k' = k then w else get_with_bucket H t k'))))"
  using page_table_removes [OF assms, of H k] page_table_stale_evict [OF assms, of _ ra k H] by blast

theorem page_table_remove_spec_witness:
  "(\<exists>t'. remove_with_lock id example_table 5 7 = (True, t') \<and> get_with_bucket id t' 5 = 0) \<and>
   (\<exists>r1 w1 t1 r2 w2 t2. upsert_with_lock id (\<lambda>_. 6) example_table 6 1 = Inr (r1, w1, t1) \<and>
     upsert_with_lock id (\<lambda>_. 6) t1 6 2 = Inr (r2, w2, t2) \<and>
     get_with_bucket id (snd (remove_with_lock id t2 6 1)) 6 = 2)"
proof
  show "\<exists>t'. remove_with_lock id example_table 5 7 = (True, t') \<and> get_with_bucket id t' 5 = 0"
    using page_table_remove_spec [of example_table 7 id 5 id] example_table_ok get_table_map [of example_table id 5] by auto
  show "\<exists>r1 w1 t1 r2 w2 t2. upsert_with_lock id (\<lambda>_. 6) example_table 6 1 = Inr (r1, w1, t1) \<and>
     upsert_with_lock id (\<lambda>_. 6) t1 6 2 = Inr (r2, w2, t2) \<and> get_with_bucket id (snd (remove_with_lock id t2 6 1)) 6 = 2"
    using page_table_remove_spec [of example_table 1 id 6 "\<lambda>_. 6", THEN conjunct2, THEN conjunct2, THEN spec, of 2] example_table_ok by auto
qed

text \<open>A chain on which the one-argument \<open>remove\<close> finds a free frame: only the count of its bucket
  changes, and the bucket is unlinked when that becomes zero.\<close>

lemma pt_remove_key_stale:
  assumes ok: "chain_ok c" and scan: "chain_scan (\<lambda>f. page_id f = k) c = Some (b, i)" and absent: "chain_map c k = None"
  defines "n \<equiv> length (filter live (frames (c ! b)))"
  shows "pt_remove_key c k = (True, if b \<noteq> 0 \<and> n = 1 then take b c @ drop (Suc b) c
      else c[b := (c ! b)\<lparr>pb_count := of_nat n - 1\<rparr>])"
    "b < length c" "bucket_ok (c ! b)"
proof -
  from chain_scan_SomeD [OF scan chain_ok_len [OF ok]] obtain pre bk post fp f fs where
    s: "c = pre @ bk # post" "length pre = b" "frames bk = fp @ f # fs" "length fp = i" "page_id f = k" by blast
  have cb: "c ! b = bk" using s(1,2) by auto
  show "b < length c" using s(1,2) by simp
  show "bucket_ok (c ! b)" using ok s(1) unfolding cb by (simp add: chain_ok_def)
  then have bk: "pb_count bk = of_nat n" "n \<le> 3"
    using length_filter_le [of live "frames bk"] by (simp_all add: bucket_ok_def n_def cb num_entry_in_page_bucket_def)
  have "\<not> live f" using chain_map_live [OF ok, of f] absent s(1,3,5) by auto
  then have f: "f\<lparr>buffer_page := 0\<rparr> = f" by simp
  have "store_frame b i ((frame_at c b i)\<lparr>buffer_page := 0\<rparr>) (- 1) c = pre @ bk\<lparr>frames := fp @ f # fs, pb_count := pb_count bk + - 1\<rparr> # post"
    using store_frame_split [OF s(1,3)] s(2,4) f by simp
  also have "bk\<lparr>frames := fp @ f # fs, pb_count := pb_count bk + - 1\<rparr> = bk\<lparr>pb_count := of_nat n - 1\<rparr>"
    using s(3) bk(1) by (cases bk) simp
  also have "pre @ bk\<lparr>pb_count := of_nat n - 1\<rparr> # post = c[b := (c ! b)\<lparr>pb_count := of_nat n - 1\<rparr>]"
    unfolding cb using s(1,2) by (simp add: list_update_append)
  finally have st: "store_frame b i ((frame_at c b i)\<lparr>buffer_page := 0\<rparr>) (- 1) c = c[b := (c ! b)\<lparr>pb_count := of_nat n - 1\<rparr>]" .
  have z: "(of_nat n :: 32 word) - 1 = 0 \<longleftrightarrow> n = 1"
  proof -
    have "n \<in> {0, 1, 2, 3}" using bk(2) by auto
    then show ?thesis by auto
  qed
  show "pt_remove_key c k = (True, if b \<noteq> 0 \<and> n = 1 then take b c @ drop (Suc b) c else c[b := (c ! b)\<lparr>pb_count := of_nat n - 1\<rparr>])"
    unfolding pt_remove_key_def scan option.case prod.case free_frame_def Let_def st using \<open>b < length c\<close> z by auto
qed

text \<open>Every such call breaks the chain: it loses an entry of another address, or a count is no longer that
  of the entries.\<close>

lemma stale_unlink_loses:
  assumes ok: "chain_ok c" and b: "b < length c" "length (filter live (frames (c ! b))) = 1"
  shows "\<exists>k' v. chain_map c k' = Some v \<and> chain_map (take b c @ drop (Suc b) c) k' = None"
proof -
  obtain f where f: "filter live (frames (c ! b)) = [f]" using b(2) by (auto simp: length_Suc_conv)
  have c: "c = take b c @ c ! b # drop (Suc b) c" using b(1) by (rule id_take_nth_drop)
  have la: "live_alist c = live_alist (take b c) @ (page_id f, buffer_page f) # live_alist (drop (Suc b) c)"
    by (subst c) (simp add: live_alist_def f)
  have "distinct (map fst (live_alist c))" using ok by (rule chain_ok_distinct)
  then have "page_id f \<notin> fst ` set (live_alist (take b c))" "page_id f \<notin> fst ` set (live_alist (drop (Suc b) c))"
    unfolding la by simp_all
  then have "chain_map (take b c @ drop (Suc b) c) (page_id f) = None"
    unfolding chain_map_def live_alist_append map_of_eq_None_iff set_append image_Un by blast
  moreover have "chain_map c (page_id f) = Some (buffer_page f)"
  proof -
    have "f \<in> set (filter live (frames (c ! b)))" by (simp add: f)
    then have "f \<in> set (chain_frames c)" "live f" by (subst c, simp_all)
    then show ?thesis by (rule chain_map_live [OF ok])
  qed
  ultimately show ?thesis by blast
qed

lemma stale_count_wrong:
  assumes "b < length c" "bucket_ok (c ! b)"
  shows "\<not> chain_ok (c[b := (c ! b)\<lparr>pb_count := pb_count (c ! b) - 1\<rparr>])"
proof
  assume "chain_ok (c[b := (c ! b)\<lparr>pb_count := pb_count (c ! b) - 1\<rparr>])"
  moreover have "(c ! b)\<lparr>pb_count := pb_count (c ! b) - 1\<rparr> \<in> set (c[b := (c ! b)\<lparr>pb_count := pb_count (c ! b) - 1\<rparr>])"
    using assms(1) by (rule set_update_memI)
  ultimately have "bucket_ok ((c ! b)\<lparr>pb_count := pb_count (c ! b) - 1\<rparr>)" unfolding chain_ok_def by blast
  then show False using assms(2) by (simp add: bucket_ok_def)
qed

text \<open>C34: the one-argument \<open>remove\<close>, on every branch, over any well-formed chain of buckets. Where no frame carries the address
  it does nothing; where the address is recorded it forgets it and nothing else. Since it lacks the test for a free
  frame that its siblings have, it also matches a frame that was freed and still carries the address. It then reports success and
  always damages the chain: the count of the bucket falls below the number of its entries (an
  empty bucket's wraps to \<open>2 ^ 32 - 1\<close>), or, in an overflow bucket with one entry left, becomes zero, and the bucket
  is unlinked and freed together with the entry of another address. \<open>check_and_remove\<close>, its only caller, looks the address
  up first.\<close>

theorem pt_remove_key_spec:
  assumes "chain_ok c"
  shows "case chain_scan (\<lambda>f. page_id f = k) c of
      None \<Rightarrow> pt_remove_key c k = (False, c) \<and> chain_map c k = None
    | Some (b, i) \<Rightarrow>
        if chain_map c k \<noteq> None
        then \<exists>c'. pt_remove_key c k = (True, c') \<and> chain_ok c' \<and> chain_map c' = (chain_map c)(k := None)
        else if b \<noteq> 0 \<and> pb_count (c ! b) = 1
        then pt_remove_key c k = (True, take b c @ drop (Suc b) c) \<and>
          (\<exists>k' v. chain_map c k' = Some v \<and> chain_map (take b c @ drop (Suc b) c) k' = None)
        else \<exists>c'. pt_remove_key c k = (True, c') \<and> c' = c[b := (c ! b)\<lparr>pb_count := pb_count (c ! b) - 1\<rparr>] \<and> \<not> chain_ok c'"
proof (cases "chain_scan (\<lambda>f. page_id f = k) c")
  case None
  then have "\<forall>f \<in> set (chain_frames c). \<not> live_key k f"
    using chain_scan_None [OF chain_ok_len [OF assms], of "\<lambda>f. page_id f = k"] by (auto simp: live_key_def)
  then show ?thesis using None dom_chain_map [of k c] by (auto simp: pt_remove_key_def domIff)
next
  case (Some bi)
  obtain b i where bi: "bi = (b, i)" by (cases bi)
  show ?thesis
  proof (cases "chain_map c k")
    case None
    note st = pt_remove_key_stale [OF assms Some [unfolded bi] None]
    define n where "n = length (filter live (frames (c ! b)))"
    have n: "n \<le> 3" "pb_count (c ! b) = of_nat n"
      using st(3) length_filter_le [of live "frames (c ! b)"] by (simp_all add: bucket_ok_def n_def num_entry_in_page_bucket_def)
    then have n1: "pb_count (c ! b) = 1 \<longleftrightarrow> n = 1"
    proof -
      have "n \<in> {0, 1, 2, 3}" using n(1) by auto
      then show ?thesis using n(2) by auto
    qed
    show ?thesis
      using st(1) [folded n_def] n1 n(2) stale_unlink_loses [OF assms st(2), folded n_def] stale_count_wrong [OF st(2,3)] Some None
      by (cases "b = 0") (simp_all add: bi)
  qed (use pt_remove_key_correct [OF assms, of k] Some bi in simp)
qed

text \<open>A page that came and went leaves such a frame; here in an empty bucket, and in an overflow bucket
  beside the entry of address 9, which the call loses.\<close>

definition example_overflow :: "page_bucket list" where
  "example_overflow = [\<lparr>pb_count = 3, frames = [\<lparr>page_id = 1, buffer_page = 7\<rparr>, \<lparr>page_id = 2, buffer_page = 7\<rparr>, \<lparr>page_id = 3, buffer_page = 7\<rparr>]\<rparr>,
     \<lparr>pb_count = 1, frames = [\<lparr>page_id = 9, buffer_page = 8\<rparr>, \<lparr>page_id = 5, buffer_page = 0\<rparr>, empty_frame]\<rparr>]"

theorem pt_remove_key_spec_witness:
  "(case pt_insert [empty_bucket] 5 7 of (_, _, c1) \<Rightarrow> case pt_remove c1 5 7 of (_, c2) \<Rightarrow>
      map pb_count (snd (pt_remove_key c2 5)) = [0xFFFFFFFF] \<and> \<not> chain_ok (snd (pt_remove_key c2 5))) \<and>
   pt_remove_key example_overflow 5 = (True, [hd example_overflow]) \<and> chain_map example_overflow 9 = Some 8"
proof
  show "case pt_insert [empty_bucket] 5 7 of (_, _, c1) \<Rightarrow> case pt_remove c1 5 7 of (_, c2) \<Rightarrow>
      map pb_count (snd (pt_remove_key c2 5)) = [0xFFFFFFFF] \<and> \<not> chain_ok (snd (pt_remove_key c2 5))"
  proof -
    let ?c = "[\<lparr>pb_count = 0, frames = [\<lparr>page_id = 5, buffer_page = 0\<rparr>, empty_frame, empty_frame]\<rparr>]"
    have ev: "pt_insert [empty_bucket] 5 7 = (True, 7, [\<lparr>pb_count = 1, frames = [\<lparr>page_id = 5, buffer_page = 7\<rparr>, empty_frame, empty_frame]\<rparr>])"
      "pt_remove [\<lparr>pb_count = 1, frames = [\<lparr>page_id = 5, buffer_page = 7\<rparr>, empty_frame, empty_frame]\<rparr>] 5 7 = (True, ?c)" by code_simp+
    have c: "chain_ok ?c" "chain_map ?c 5 = None" "chain_scan (\<lambda>f. page_id f = 5) ?c = Some (0, 0)"
      by (simp_all add: chain_ok_def bucket_ok_def chain_map_def live_alist_def empty_frame_def num_entry_in_page_bucket_def numeral_3_eq_3)
    show ?thesis using pt_remove_key_spec [of ?c 5, OF c(1)] c(2,3) by (simp add: ev)
  qed
  have c: "chain_ok example_overflow" "chain_map example_overflow 5 = None" "chain_scan (\<lambda>f. page_id f = 5) example_overflow = Some (1, 1)"
    "chain_map example_overflow 9 = Some 8"
    by (simp_all add: example_overflow_def chain_ok_def bucket_ok_def chain_map_def live_alist_def empty_frame_def num_entry_in_page_bucket_def numeral_3_eq_3)
  then show "pt_remove_key example_overflow 5 = (True, [hd example_overflow]) \<and> chain_map example_overflow 9 = Some 8"
    using pt_remove_key_spec [of example_overflow 5, OF c(1)] by (simp add: example_overflow_def)
qed

end
