(* ===== verification/HashTable.thy ===== *)
theory HashTable
  imports NodeWR PageTable
begin

text \<open>
  The cool tier (\<open>include/tree/HashTable.h\<close>): a hash table from backend addresses to pool
  slots in which a page waits between its demotion and its eviction. A bucket holds six frames,
  newest first; each frame packs a fingerprint of the hash (16 bits) with the slot (48 bits).
  The record \<open>tables\<close> extends the world by the two tables that the class reaches.
\<close>

subsection \<open>Buckets\<close>

definition NUM_ENTRIES :: nat where "NUM_ENTRIES = 6"

definition ADDRESS_HIDE :: u64 where "ADDRESS_HIDE = push_bit 48 1 - 1"

record bucket =
  b_count :: nat
  frame :: "u64 list"

definition b_empty :: bucket where
  "b_empty = \<lparr>b_count = 0, frame = replicate NUM_ENTRIES 0\<rparr>"

definition frame_slot :: "u64 \<Rightarrow> u64" where "frame_slot page = page AND ADDRESS_HIDE"
definition frame_FP :: "u64 \<Rightarrow> u64" where "frame_FP page = drop_bit 48 page"

definition b_match :: "(u64 \<Rightarrow> page) \<Rightarrow> bucket \<Rightarrow> u64 \<Rightarrow> u64 \<Rightarrow> int" where
  "b_match m b key FP =
     (case List.find (\<lambda>i. frame_FP (frame b ! i) = FP \<and> remote_address (m (frame_slot (frame b ! i))) = key)
        [0..<b_count b] of Some i \<Rightarrow> int i | None \<Rightarrow> -1)"

definition b_match_value :: "bucket \<Rightarrow> u64 \<Rightarrow> u64 \<Rightarrow> int" where
  "b_match_value b FP v =
     (case List.find (\<lambda>i. frame_FP (frame b ! i) = FP \<and> frame_slot (frame b ! i) = v) [0..<b_count b] of
        Some i \<Rightarrow> int i | None \<Rightarrow> -1)"

definition b_remove :: "nat \<Rightarrow> bucket \<Rightarrow> bucket" where
  "b_remove idx b =
     (let fs = (frame b)[idx := 0]
      in b\<lparr>frame := blit fs idx fs (idx + 1) (b_count b - 1 - idx), b_count := b_count b - 1\<rparr>)"

text \<open>\<open>evict_last\<close>: null when the bucket is empty, else the oldest slot, which must be clean.\<close>

definition b_pop :: "bucket \<Rightarrow> u64 option \<times> bucket" where
  "b_pop b =
     (if b_count b = 0 then (None, b)
      else (Some (frame_slot (frame b ! (b_count b - 1))), b\<lparr>b_count := b_count b - 1\<rparr>))"

definition evict_last :: "(u64 \<Rightarrow> page) \<Rightarrow> bucket \<Rightarrow> (u64 option \<times> bucket) res" where
  "evict_last m b =
     (case b_pop b of
        (None, b') \<Rightarrow> Inr (None, b')
      | (Some a, b') \<Rightarrow> assertR (\<not> dirty (m a)) (Inr (Some a, b')))"

definition b_is_full :: "bucket \<Rightarrow> bool" where "b_is_full b \<longleftrightarrow> b_count b = NUM_ENTRIES"

definition b_push :: "bucket \<Rightarrow> u64 \<Rightarrow> bucket" where
  "b_push b payload =
     b\<lparr>frame := (blit (frame b) 1 (frame b) 0 (b_count b))[0 := payload], b_count := b_count b + 1\<rparr>"

definition b_insert :: "(u64 \<Rightarrow> page) \<Rightarrow> bucket \<Rightarrow> u64 \<Rightarrow> (u64 option \<times> bucket) res" where
  "b_insert m b payload =
     bindR (if b_count b = NUM_ENTRIES
            then bindR (evict_last m b) (\<lambda>(ev, b'). assertR (ev \<noteq> None) (Inr (ev, b')))
            else Inr (None, b))
       (\<lambda>(ev, b'). Inr (ev, b_push b' payload))"

subsection \<open>The table\<close>

record hash_table =
  ht_entry_num :: u64
  ht_bucket_num :: u64
  total_num :: u64
  ht_table :: "bucket list"

record tables = world +
  ht :: hash_table
  pt :: page_table

type_synonym 'a tables_st = "'a tables_scheme"

definition mk_HashTable :: "u64 \<Rightarrow> hash_table" where
  "mk_HashTable entry_num =
     (let bn = ceil_div entry_num (of_nat NUM_ENTRIES)
      in \<lparr>ht_entry_num = entry_num, ht_bucket_num = bn, total_num = 0, ht_table = replicate (unat bn) b_empty\<rparr>)"

definition ht_reset :: "hash_table \<Rightarrow> hash_table" where
  "ht_reset t = t\<lparr>ht_table := replicate (unat (ht_bucket_num t)) b_empty\<rparr>"

definition FP_of :: "u64 \<Rightarrow> u64" where
  "FP_of hash_val = drop_bit 49 hash_val OR push_bit 15 1"

definition mk_payload :: "u64 \<Rightarrow> u64 \<Rightarrow> u64" where
  "mk_payload FP v = push_bit 48 FP OR (v AND ADDRESS_HIDE)"

definition bucket_idx :: "env \<Rightarrow> hash_table \<Rightarrow> u64 \<Rightarrow> nat" where
  "bucket_idx E t key = unat (hash_of E key mod ht_bucket_num t)"

definition ht_get_bucket :: "env \<Rightarrow> hash_table \<Rightarrow> u64 \<Rightarrow> u64 \<Rightarrow> nat \<times> u64" where
  "ht_get_bucket E t key v = (bucket_idx E t key, mk_payload (FP_of (hash_of E key)) v)"

definition ht_get_bucket_FP :: "env \<Rightarrow> hash_table \<Rightarrow> u64 \<Rightarrow> nat \<times> u64" where
  "ht_get_bucket_FP E t key = (bucket_idx E t key, FP_of (hash_of E key))"

definition set_bucket :: "nat \<Rightarrow> bucket \<Rightarrow> hash_table \<Rightarrow> hash_table" where
  "set_bucket i b t = t\<lparr>ht_table := (ht_table t)[i := b]\<rparr>"

text \<open>Forgetting an evicted page in the page table, if it still records that slot.\<close>

definition forget_page :: "env \<Rightarrow> u64 \<Rightarrow> 'a tables_st \<Rightarrow> 'a tables_st" where
  "forget_page E a s = s\<lparr>pt := snd (remove_with_lock (hash_of E) (pt s) (remote_address (mem s a)) a)\<rparr>"

text \<open>\<open>insert\<close>, with the initial value of \<open>*evict_page\<close>; the result is its final value.\<close>

definition ht_insert :: "env \<Rightarrow> u64 \<Rightarrow> u64 \<Rightarrow> u64 \<Rightarrow> 'a tables_st \<Rightarrow> (u64 \<times> 'a tables_st) res" where
  "ht_insert E key v evict_page s =
     (if ht_bucket_num (ht s) = 0 then Inl DivZero
      else
        (let i = bucket_idx E (ht s) key;
             FP = FP_of (hash_of E key)
         in bindR (if dirty (mem s v) then remote_write (remote_address (mem s v)) v s else Inr s)
           (\<lambda>s1. bindR (b_insert (mem s1) (ht_table (ht s1) ! i) (mk_payload FP v))
             (\<lambda>(ev, b).
                let s2 = set_node v ((mem s1 v)\<lparr>pos_state := POS_COOL\<rparr>) (s1\<lparr>ht := set_bucket i b (ht s1)\<rparr>);
                    evp = (case ev of Some e \<Rightarrow> e | None \<Rightarrow> evict_page)
                in Inr (evp, if evp \<noteq> 0 then forget_page E evp s2 else s2)))))"

definition try_promote :: "env \<Rightarrow> u64 \<Rightarrow> 'a tables_st \<Rightarrow> u64 option \<times> 'a tables_st" where
  "try_promote E key s =
     (let i = bucket_idx E (ht s) key;
          b = ht_table (ht s) ! i;
          slot = b_match (mem s) b key (FP_of (hash_of E key))
      in if slot = -1 then (None, s)
         else (Some (frame_slot (frame b ! nat slot)), s\<lparr>ht := set_bucket i (b_remove (nat slot) b) (ht s)\<rparr>))"

definition try_promote_using_value :: "env \<Rightarrow> u64 \<Rightarrow> u64 \<Rightarrow> 'a tables_st \<Rightarrow> bool \<times> 'a tables_st" where
  "try_promote_using_value E key pg s =
     (let i = bucket_idx E (ht s) key;
          b = ht_table (ht s) ! i;
          slot = b_match_value b (FP_of (hash_of E key)) pg
      in if slot = -1 then (False, s)
         else (True, s\<lparr>ht := set_bucket i (b_remove (nat slot) b) (ht s)\<rparr>))"

definition check_existence :: "env \<Rightarrow> u64 \<Rightarrow> u64 \<Rightarrow> 'a tables_st \<Rightarrow> bool" where
  "check_existence E key page_ptr s =
     (let b = ht_table (ht s) ! bucket_idx E (ht s) key;
          slot = b_match (mem s) b key (FP_of (hash_of E key))
      in slot \<noteq> -1 \<and> page_ptr = frame_slot (frame b ! nat slot))"

definition random_bucket_idx :: "env \<Rightarrow> 'a tables_st \<Rightarrow> (u64 \<times> 'a tables_st) res" where
  "random_bucket_idx E s =
     (case draw_below E (ht_bucket_num (ht s)) s of
        (idx, s') \<Rightarrow> assertR (idx < ht_bucket_num (ht s)) (Inr (idx, s')))"

fun evict_probe :: "env \<Rightarrow> nat list \<Rightarrow> 'a tables_st \<Rightarrow> (u64 option \<times> 'a tables_st) res" where
  "evict_probe E [] s = Inr (None, s)"
| "evict_probe E (i # is) s =
     bindR (evict_last (mem s) (ht_table (ht s) ! i))
       (\<lambda>(ev, b). case ev of
          None \<Rightarrow> evict_probe E is s
        | Some a \<Rightarrow> Inr (Some a, forget_page E a (s\<lparr>ht := set_bucket i b (ht s)\<rparr>)))"

definition random_evict_to_remote :: "env \<Rightarrow> u64 \<Rightarrow> 'a tables_st \<Rightarrow> (u64 option \<times> 'a tables_st) res" where
  "random_evict_to_remote E probing_length s =
     bindR (random_bucket_idx E s)
       (\<lambda>(idx, s'). evict_probe E [unat idx..<unat (min (ht_bucket_num (ht s')) (idx + probing_length))] s')"

subsection \<open>Frames\<close>

lemma ADDRESS_HIDE_mask: "ADDRESS_HIDE = mask 48"
  by (simp add: ADDRESS_HIDE_def mask_eq_exp_minus_1 push_bit_eq_mult)

lemma FP_of_bound: "unat (FP_of h) < 2 ^ 16"
proof -
  have "FP_of h AND mask 16 = FP_of h"
    unfolding FP_of_def
    by (rule bit_word_eqI, simp only: bit_and_iff bit_or_iff bit_single bit_mask64 bit_drop_bit_eq)
      (auto dest: bit_imp_le_length)
  then have "take_bit 16 (FP_of h) = FP_of h" by (simp add: take_bit_eq_mask)
  then have "unat (FP_of h) = take_bit 16 (unat (FP_of h))" by (metis unsigned_take_bit_eq)
  then show ?thesis by (metis take_bit_nat_less_exp)
qed

lemma frame_slot_payload:
  assumes "unat v < 2 ^ 48"
  shows "frame_slot (mk_payload FP v) = v"
proof -
  have "bit v n \<Longrightarrow> n < 48" for n using not_bit_small [OF assms, of n] by (meson not_le)
  then show ?thesis unfolding frame_slot_def mk_payload_def ADDRESS_HIDE_mask
    by (intro bit_word_eqI) (auto simp: bit_simps)
qed

lemma frame_FP_payload: "frame_FP (mk_payload (FP_of h) v) = FP_of h"
proof -
  have "bit (FP_of h) n \<Longrightarrow> n < 16" for n using not_bit_small [OF FP_of_bound, of n] by (meson not_le)
  then show ?thesis unfolding frame_FP_def mk_payload_def ADDRESS_HIDE_mask
    by (intro bit_word_eqI) (auto simp: bit_simps)
qed

subsection \<open>A bucket is a bounded queue\<close>

text \<open>
  The contract of a bucket: \<open>push\<close> at the front, \<open>pop\<close> of the oldest at the back.
  \<open>insert\<close> makes room first when the queue is full.
\<close>

locale bounded_fifo =
  fixes items :: "'b \<Rightarrow> 'x list" and ok :: "'b \<Rightarrow> bool" and cap :: nat
    and push :: "'b \<Rightarrow> 'x \<Rightarrow> 'b" and pop :: "'b \<Rightarrow> 'b"
  assumes cap_pos: "0 < cap"
    and size_le: "ok b \<Longrightarrow> length (items b) \<le> cap"
    and push_items: "ok b \<Longrightarrow> length (items b) < cap \<Longrightarrow> items (push b x) = x # items b"
    and push_ok: "ok b \<Longrightarrow> length (items b) < cap \<Longrightarrow> ok (push b x)"
    and pop_items: "ok b \<Longrightarrow> items b \<noteq> [] \<Longrightarrow> items (pop b) = butlast (items b)"
    and pop_ok: "ok b \<Longrightarrow> items b \<noteq> [] \<Longrightarrow> ok (pop b)"
begin

definition ins :: "'b \<Rightarrow> 'x \<Rightarrow> 'b" where
  "ins b x = push (if length (items b) = cap then pop b else b) x"

lemma ins_items:
  assumes "ok b"
  shows "items (ins b x) = take cap (x # items b) \<and> ok (ins b x)"
proof (cases "length (items b) = cap")
  case True
  then have "items b \<noteq> []" using cap_pos by auto
  then have "items (pop b) = butlast (items b)" "ok (pop b)" using assms pop_items pop_ok by auto
  moreover have "length (butlast (items b)) < cap" using True cap_pos by simp
  moreover have "take cap (x # items b) = x # butlast (items b)"
    using True cap_pos by (cases cap) (auto simp: butlast_conv_take)
  ultimately show ?thesis using True by (simp add: ins_def push_items push_ok)
next
  case False
  then have "length (items b) < cap" using size_le [OF assms] by simp
  then show ?thesis using False assms by (simp add: ins_def push_items push_ok)
qed

text \<open>After any sequence of insertions the queue holds the newest \<open>cap\<close> items.\<close>

lemma ins_sequence: "ok b \<Longrightarrow> items (foldl ins b xs) = take cap (rev xs @ items b) \<and> ok (foldl ins b xs)"
proof (induction xs rule: rev_induct)
  case Nil
  then show ?case using size_le by simp
next
  case (snoc x xs)
  then have ih: "items (foldl ins b xs) = take cap (rev xs @ items b)" "ok (foldl ins b xs)" by simp_all
  have "take cap (x # take cap l) = take cap (x # l)" for l :: "'x list"
    using cap_pos by (cases cap) (auto simp: min_def)
  then have "items (ins (foldl ins b xs) x) = take cap (x # rev xs @ items b)"
    using ins_items [OF ih(2), of x] unfolding ih(1) \<open>\<And>l. take cap (x # take cap l) = take cap (x # l)\<close> by blast
  then show ?case using ins_items [OF ih(2), of x] by simp
qed

end

definition b_items :: "bucket \<Rightarrow> u64 list" where
  "b_items b = take (b_count b) (frame b)"

definition b_ok :: "bucket \<Rightarrow> bool" where
  "b_ok b \<longleftrightarrow> length (frame b) = NUM_ENTRIES \<and> b_count b \<le> NUM_ENTRIES"

lemma length_b_items [simp]: "b_ok b \<Longrightarrow> length (b_items b) = b_count b"
  by (simp add: b_ok_def b_items_def)

lemma b_push_items:
  assumes "b_ok b" "b_count b < NUM_ENTRIES"
  shows "b_items (b_push b x) = x # b_items b \<and> b_ok (b_push b x)"
proof -
  have "take (Suc (b_count b)) ((blit (frame b) (0 + 1) (frame b) 0 (b_count b - 0))[0 := x]) =
      take 0 (frame b) @ x # drop 0 (take (b_count b) (frame b))"
    by (rule take_blit_insert) (use assms in \<open>simp_all add: b_ok_def\<close>)
  then show ?thesis using assms by (simp add: b_items_def b_push_def b_ok_def)
qed

lemma b_pop_items:
  assumes "b_ok b" "b_items b \<noteq> []"
  shows "b_pop b = (Some (frame_slot (last (b_items b))), b\<lparr>b_count := b_count b - 1\<rparr>) \<and>
    b_items (b\<lparr>b_count := b_count b - 1\<rparr>) = butlast (b_items b) \<and> b_ok (b\<lparr>b_count := b_count b - 1\<rparr>)"
proof -
  have c: "0 < b_count b" "b_count b \<le> length (frame b)" using assms by (auto simp: b_items_def b_ok_def)
  then have "last (b_items b) = frame b ! (b_count b - 1)"
    by (subst last_conv_nth) (auto simp: b_items_def)
  then show ?thesis using c assms(1) by (auto simp: b_pop_def b_items_def b_ok_def butlast_take)
qed

lemma b_items_Nil: "b_ok b \<Longrightarrow> b_items b = [] \<longleftrightarrow> b_count b = 0"
  by (auto simp: b_items_def b_ok_def NUM_ENTRIES_def)

interpretation cool: bounded_fifo b_items b_ok NUM_ENTRIES b_push "\<lambda>b. snd (b_pop b)"
proof unfold_locales
  fix b :: bucket and x :: u64
  assume ok: "b_ok b"
  then show "length (b_items b) \<le> NUM_ENTRIES" by simp (simp add: b_ok_def)
  show "b_items (b_push b x) = x # b_items b" "b_ok (b_push b x)" if "length (b_items b) < NUM_ENTRIES"
    using b_push_items [OF ok, of x] that ok by simp_all
  show "b_items (snd (b_pop b)) = butlast (b_items b)" "b_ok (snd (b_pop b))" if "b_items b \<noteq> []"
    using b_pop_items [OF ok that] by simp_all
qed (simp add: NUM_ENTRIES_def)

lemma b_remove_items:
  assumes "b_ok b" "i < b_count b"
  shows "b_items (b_remove i b) = take i (b_items b) @ drop (Suc i) (b_items b) \<and> b_ok (b_remove i b)"
proof -
  let ?fs = "(frame b)[i := 0]"
  have len: "b_count b \<le> length ?fs" using assms by (simp add: b_ok_def)
  have "take (b_count b - 1) (blit ?fs i ?fs (i + 1) (b_count b - i - 1)) =
      take i ?fs @ drop (Suc i) (take (b_count b) ?fs)"
    by (rule take_blit_remove [OF assms(2) len])
  also have "\<dots> = take i (b_items b) @ drop (Suc i) (b_items b)"
    using assms by (simp add: b_items_def min_def drop_take)
  finally have "b_items (b_remove i b) = take i (b_items b) @ drop (Suc i) (b_items b)"
    by (simp add: b_remove_def b_items_def Let_def diff_commute)
  moreover have "length (blit ?fs i ?fs (i + 1) (b_count b - 1 - i)) = length ?fs"
    using assms len by (intro length_blit) auto
  ultimately show ?thesis using assms by (auto simp: b_remove_def b_ok_def Let_def)
qed

subsection \<open>The operations of the table\<close>

definition ht_ok :: "hash_table \<Rightarrow> bool" where
  "ht_ok t \<longleftrightarrow> 0 < ht_bucket_num t \<and> length (ht_table t) = unat (ht_bucket_num t) \<and>
     (\<forall>b \<in> set (ht_table t). b_ok b)"

text \<open>The slots waiting in bucket \<open>i\<close>, newest first, and in the whole table.\<close>

definition cool_bucket :: "hash_table \<Rightarrow> nat \<Rightarrow> u64 list" where
  "cool_bucket t i = map frame_slot (b_items (ht_table t ! i))"

definition cool_slots :: "hash_table \<Rightarrow> u64 list" where
  "cool_slots t = concat (map (\<lambda>b. map frame_slot (b_items b)) (ht_table t))"

lemma bucket_idx_less: "ht_ok t \<Longrightarrow> bucket_idx E t key < length (ht_table t)"
  by (simp add: ht_ok_def bucket_idx_def unat_mod word_gt_0 unat_gt_0)

lemma ht_ok_nth: "ht_ok t \<Longrightarrow> i < length (ht_table t) \<Longrightarrow> b_ok (ht_table t ! i)"
  by (simp add: ht_ok_def)

lemma ht_ok_set_bucket: "ht_ok t \<Longrightarrow> b_ok b \<Longrightarrow> ht_ok (set_bucket i b t)"
  by (auto simp: ht_ok_def set_bucket_def dest!: set_update_subset_insert [THEN subsetD])

lemma cool_bucket_set:
  "i < length (ht_table t) \<Longrightarrow>
   cool_bucket (set_bucket i b t) j = (if j = i then map frame_slot (b_items b) else cool_bucket t j)"
  by (simp add: cool_bucket_def set_bucket_def)

lemma set_bucket_fields [simp]:
  "ht_bucket_num (set_bucket i b t) = ht_bucket_num t" "length (ht_table (set_bucket i b t)) = length (ht_table t)"
  by (simp_all add: set_bucket_def)

lemma mk_HashTable_ok:
  assumes "0 < ceil_div n (of_nat NUM_ENTRIES)"
  shows "ht_ok (mk_HashTable n) \<and> cool_slots (mk_HashTable n) = []"
  using assms by (simp add: ht_ok_def mk_HashTable_def Let_def b_ok_def b_empty_def cool_slots_def b_items_def)

lemma evict_last_correct:
  assumes "b_ok b"
  shows "evict_last m b = (if b_items b = [] then Inr (None, b)
    else let a = frame_slot (last (b_items b)) in assertR (\<not> dirty (m a)) (Inr (Some a, b\<lparr>b_count := b_count b - 1\<rparr>)))"
proof (cases "b_items b = []")
  case True
  then show ?thesis using assms by (simp add: evict_last_def b_pop_def b_items_Nil)
next
  case False
  then show ?thesis using b_pop_items [OF assms] by (simp add: evict_last_def Let_def)
qed

text \<open>What a bucket insertion evicts, and the queue it leaves.\<close>

definition b_victim :: "bucket \<Rightarrow> u64 option" where
  "b_victim b = (if b_count b = NUM_ENTRIES then Some (frame_slot (last (b_items b))) else None)"

lemma b_insert_correct:
  assumes ok: "b_ok b" and clean: "\<And>a. b_victim b = Some a \<Longrightarrow> \<not> dirty (m a)"
  shows "b_insert m b payload = Inr (b_victim b, cool.ins b payload)"
    "b_items (cool.ins b payload) = take NUM_ENTRIES (payload # b_items b)" "b_ok (cool.ins b payload)"
proof -
  show "b_items (cool.ins b payload) = take NUM_ENTRIES (payload # b_items b)" "b_ok (cool.ins b payload)"
    using cool.ins_items [OF ok] by simp_all
  show "b_insert m b payload = Inr (b_victim b, cool.ins b payload)"
  proof (cases "b_count b = NUM_ENTRIES")
    case True
    then have ne: "b_items b \<noteq> []" using ok by (simp add: b_items_Nil NUM_ENTRIES_def)
    then have "evict_last m b = Inr (b_victim b, snd (b_pop b))"
      using True clean b_pop_items [OF ok ne] by (simp add: evict_last_correct [OF ok] Let_def b_victim_def)
    then show ?thesis using True ok by (simp add: b_insert_def cool.ins_def b_victim_def)
  next
    case False
    then show ?thesis using ok by (simp add: b_insert_def cool.ins_def b_victim_def)
  qed
qed

lemma ht_insert_correct:
  assumes t: "ht_ok (ht s)" and i: "i = bucket_idx E (ht s) key" and b: "b = ht_table (ht s) ! i"
    and m: "m = (mem s)(v := (mem s v)\<lparr>dirty := False\<rparr>)"
    and clean: "\<And>a. b_victim b = Some a \<Longrightarrow> \<not> dirty (m a)"
  shows "ht_insert E key v 0 s = Inr (case b_victim b of Some e \<Rightarrow> e | None \<Rightarrow> 0,
    (let s2 = s\<lparr>mem := m(v := (m v)\<lparr>pos_state := POS_COOL\<rparr>),
                be := (if dirty (mem s v) then ps_write (be s) (remote_address (mem s v)) (flushed_image (mem s v)) else be s),
                ht := set_bucket i (cool.ins b (mk_payload (FP_of (hash_of E key)) v)) (ht s)\<rparr>
     in case b_victim b of None \<Rightarrow> s2 | Some e \<Rightarrow> if e = 0 then s2 else forget_page E e s2))"
proof -
  have bok: "b_ok b" unfolding b using ht_ok_nth [OF t] bucket_idx_less [OF t] i by simp
  have nz: "ht_bucket_num (ht s) \<noteq> 0" using t by (auto simp: ht_ok_def)
  define s1 where "s1 = s\<lparr>mem := m, be := (if dirty (mem s v) then ps_write (be s) (remote_address (mem s v)) (flushed_image (mem s v)) else be s)\<rparr>"
  have w: "(if dirty (mem s v) then remote_write (remote_address (mem s v)) v s else Inr s) = Inr s1"
  proof (cases "dirty (mem s v)")
    case True
    then show ?thesis by (simp add: remote_write_eq s1_def m set_node_def)
  next
    case False
    have "(mem s v)\<lparr>dirty := False\<rparr> = mem s v" using False by (cases "mem s v") simp
    then have "m = mem s" by (simp add: m)
    then show ?thesis using False by (simp add: s1_def)
  qed
  have s1: "mem s1 = m" "ht s1 = ht s" by (simp_all add: s1_def)
  have ins: "b_insert (mem s1) (ht_table (ht s1) ! i) p = Inr (b_victim b, cool.ins b p)" for p
    unfolding s1 b [symmetric] by (rule b_insert_correct(1) [OF bok clean])
  have s2: "set_node v ((m v)\<lparr>pos_state := POS_COOL\<rparr>) (s1\<lparr>ht := B\<rparr>) =
      s\<lparr>mem := m(v := (m v)\<lparr>pos_state := POS_COOL\<rparr>),
        be := (if dirty (mem s v) then ps_write (be s) (remote_address (mem s v)) (flushed_image (mem s v)) else be s),
        ht := B\<rparr>" for B
    by (simp add: s1_def set_node_def)
  show ?thesis
    unfolding ht_insert_def Let_def i [symmetric] w bindR.simps ins
    using nz unfolding s1 s2 by (simp split: option.splits)
qed

lemma evict_probe_correct:
  assumes "ht_ok (ht s)" "\<forall>i \<in> set is. i < length (ht_table (ht s))"
    "\<forall>a \<in> set (cool_slots (ht s)). \<not> dirty (mem s a)"
  shows "evict_probe E is s =
    (case List.find (\<lambda>i. cool_bucket (ht s) i \<noteq> []) is of
       None \<Rightarrow> Inr (None, s)
     | Some i \<Rightarrow> Inr (Some (last (cool_bucket (ht s) i)),
         forget_page E (last (cool_bucket (ht s) i))
           (s\<lparr>ht := set_bucket i ((ht_table (ht s) ! i)\<lparr>b_count := b_count (ht_table (ht s) ! i) - 1\<rparr>) (ht s)\<rparr>)))"
  using assms(2)
proof (induction "is")
  case (Cons i "is")
  have bok: "b_ok (ht_table (ht s) ! i)" using assms(1) Cons.prems ht_ok_nth by simp
  show ?case
  proof (cases "b_items (ht_table (ht s) ! i) = []")
    case True
    then show ?thesis using Cons by (simp add: evict_last_correct [OF bok] cool_bucket_def)
  next
    case False
    have l: "last (cool_bucket (ht s) i) = frame_slot (last (b_items (ht_table (ht s) ! i)))"
      using False by (simp add: cool_bucket_def last_map)
    have "last (cool_bucket (ht s) i) \<in> set (cool_bucket (ht s) i)"
      using False by (intro last_in_set) (simp add: cool_bucket_def)
    then have "last (cool_bucket (ht s) i) \<in> set (cool_slots (ht s))"
      using Cons.prems by (auto simp: cool_slots_def cool_bucket_def)
    then have "\<not> dirty (mem s (frame_slot (last (b_items (ht_table (ht s) ! i)))))" using assms(3) l by simp
    then show ?thesis using False by (simp add: evict_last_correct [OF bok] Let_def l) (simp add: cool_bucket_def)
  qed
qed simp

lemma forget_page_fields [simp]:
  "mem (forget_page E a s) = mem s" "be (forget_page E a s) = be s" "ht (forget_page E a s) = ht s"
  "scratch (forget_page E a s) = scratch s" "draws (forget_page E a s) = draws s"
  "more (forget_page E a s) = more s"
  by (simp_all add: forget_page_def)

lemma forget_page_table:
  assumes "table_ok (pt s)" "a \<noteq> 0"
  shows "table_ok (pt (forget_page E a s))"
    "get_with_bucket (hash_of E) (pt (forget_page E a s)) k =
      (if k = remote_address (mem s a) \<and> get_with_bucket (hash_of E) (pt s) k = a then 0
       else get_with_bucket (hash_of E) (pt s) k)"
  using pages.drop_ok [OF assms] pages.drop_slot [OF assms] by (auto simp: forget_page_def)

lemma cool_bucket_subset: "i < length (ht_table t) \<Longrightarrow> set (cool_bucket t i) \<subseteq> set (cool_slots t)"
  by (auto simp: cool_slots_def cool_bucket_def intro!: bexI [OF _ nth_mem])

lemma b_victim_cool:
  assumes "ht_ok t" "i < length (ht_table t)"
  shows "b_victim (ht_table t ! i) =
    (if length (cool_bucket t i) = NUM_ENTRIES then Some (last (cool_bucket t i)) else None)"
proof -
  have ok: "b_ok (ht_table t ! i)" using assms by (rule ht_ok_nth)
  have "b_items (ht_table t ! i) \<noteq> []" if "b_count (ht_table t ! i) = NUM_ENTRIES"
    using that ok by (simp add: b_items_Nil NUM_ENTRIES_def)
  then show ?thesis using ok by (auto simp: b_victim_def cool_bucket_def last_map)
qed

lemma ht_insert_effect:
  assumes t: "ht_ok (ht s)" and p: "table_ok (pt s)" and i: "i = bucket_idx E (ht s) key"
    and v: "unat v < 2 ^ 48" "v \<notin> set (cool_slots (ht s))"
    and clean: "\<forall>a \<in> set (cool_slots (ht s)). a \<noteq> 0 \<and> \<not> dirty (mem s a)"
    and ev: "ev = (if length (cool_bucket (ht s) i) = NUM_ENTRIES then last (cool_bucket (ht s) i) else 0)"
  shows "\<exists>s'. ht_insert E key v 0 s = Inr (ev, s') \<and> ht_ok (ht s') \<and> table_ok (pt s') \<and>
     cool_bucket (ht s') i = take NUM_ENTRIES (v # cool_bucket (ht s) i) \<and>
     (\<forall>j < length (ht_table (ht s)). j \<noteq> i \<longrightarrow> cool_bucket (ht s') j = cool_bucket (ht s) j) \<and>
     length (ht_table (ht s')) = length (ht_table (ht s)) \<and>
     mem s' = (mem s)(v := (mem s v)\<lparr>dirty := False, pos_state := POS_COOL\<rparr>) \<and>
     be s' = (if dirty (mem s v) then ps_write (be s) (remote_address (mem s v)) (flushed_image (mem s v)) else be s) \<and>
     scratch s' = scratch s \<and> draws s' = draws s \<and> more s' = more s \<and>
     (\<forall>k. get_with_bucket (hash_of E) (pt s') k =
        (if ev \<noteq> 0 \<and> k = remote_address (mem s ev) \<and> get_with_bucket (hash_of E) (pt s) k = ev then 0
         else get_with_bucket (hash_of E) (pt s) k))"
proof -
  define b where "b = ht_table (ht s) ! i"
  define m where "m = (mem s)(v := (mem s v)\<lparr>dirty := False\<rparr>)"
  have il: "i < length (ht_table (ht s))" using bucket_idx_less [OF t] i by simp
  have bok: "b_ok b" using ht_ok_nth [OF t il] by (simp add: b_def)
  have vic: "b_victim b = (if length (cool_bucket (ht s) i) = NUM_ENTRIES then Some (last (cool_bucket (ht s) i)) else None)"
    using b_victim_cool [OF t il] by (simp add: b_def)
  have vc: "a \<in> set (cool_slots (ht s))" if "b_victim b = Some a" for a
  proof -
    have "cool_bucket (ht s) i \<noteq> []" "a = last (cool_bucket (ht s) i)"
      using that vic by (auto simp: NUM_ENTRIES_def split: if_splits)
    then show ?thesis using cool_bucket_subset [OF il] last_in_set by blast
  qed
  have evv: "ev = (case b_victim b of Some e \<Rightarrow> e | None \<Rightarrow> 0)" by (simp add: ev vic)
  have cl: "\<not> dirty (m a)" if "b_victim b = Some a" for a
    using vc [OF that] clean v(2) by (auto simp: m_def)
  note ins = b_insert_correct(2,3) [of b m, OF bok cl]
  define B where "B = set_bucket i (cool.ins b (mk_payload (FP_of (hash_of E key)) v)) (ht s)"
  define s2 where "s2 = s\<lparr>mem := m(v := (m v)\<lparr>pos_state := POS_COOL\<rparr>),
      be := (if dirty (mem s v) then ps_write (be s) (remote_address (mem s v)) (flushed_image (mem s v)) else be s),
      ht := B\<rparr>"
  define s' where "s' = (case b_victim b of None \<Rightarrow> s2 | Some e \<Rightarrow> if e = 0 then s2 else forget_page E e s2)"
  have eq: "ht_insert E key v 0 s = Inr (ev, s')"
    unfolding evv s'_def s2_def B_def by (rule ht_insert_correct [OF t i b_def m_def cl, unfolded Let_def])
  have f: "mem s' = mem s2" "be s' = be s2" "ht s' = B" "scratch s' = scratch s" "draws s' = draws s" "more s' = more s"
    by (simp_all add: s'_def s2_def split: option.split)
  have okB: "ht_ok B" unfolding B_def by (rule ht_ok_set_bucket [OF t ins(2)])
  have cb: "cool_bucket B j = (if j = i then take NUM_ENTRIES (v # cool_bucket (ht s) i) else cool_bucket (ht s) j)" for j
    unfolding B_def using il v(1)
    by (simp add: cool_bucket_set ins(1) take_map [symmetric] frame_slot_payload) (simp add: cool_bucket_def b_def)
  have rem: "remote_address (mem s2 a) = remote_address (mem s a)" for a by (simp add: s2_def m_def)
  have p2: "pt s2 = pt s" by (simp add: s2_def)
  have ptl: "table_ok (pt s') \<and> (\<forall>k. get_with_bucket (hash_of E) (pt s') k =
        (if ev \<noteq> 0 \<and> k = remote_address (mem s ev) \<and> get_with_bucket (hash_of E) (pt s) k = ev then 0
         else get_with_bucket (hash_of E) (pt s) k))"
    using forget_page_table [of s2 ev E] p unfolding p2 rem
    by (cases "b_victim b") (auto simp: s'_def evv p2)
  have ms: "mem s2 = (mem s)(v := (mem s v)\<lparr>dirty := False, pos_state := POS_COOL\<rparr>)"
    by (simp add: s2_def m_def)
  have bs: "be s2 = (if dirty (mem s v) then ps_write (be s) (remote_address (mem s v)) (flushed_image (mem s v)) else be s)"
    by (simp add: s2_def)
  show ?thesis unfolding eq using okB cb ptl ms bs f by (auto simp: B_def)
qed

fun b_inserts :: "(u64 \<Rightarrow> page) \<Rightarrow> bucket \<Rightarrow> u64 list \<Rightarrow> bucket res" where
  "b_inserts m b [] = Inr b"
| "b_inserts m b (p # ps) = bindR (b_insert m b p) (\<lambda>(ev, b'). b_inserts m b' ps)"

lemma b_inserts_correct:
  assumes "b_ok b" "\<And>a. \<not> dirty (m a)"
  shows "b_inserts m b ps = Inr (foldl cool.ins b ps)"
  using assms(1)
proof (induction ps arbitrary: b)
  case (Cons p ps)
  then show ?case using b_insert_correct(1,3) [of b m p] assms(2) by simp
qed simp

lemma b_match_value_cases:
  "(b_match_value b FP v = -1 \<and> (\<forall>i < b_count b. \<not> (frame_FP (frame b ! i) = FP \<and> frame_slot (frame b ! i) = v))) \<or>
   (\<exists>i < b_count b. b_match_value b FP v = int i \<and> frame_FP (frame b ! i) = FP \<and> frame_slot (frame b ! i) = v \<and>
     (\<forall>j < i. \<not> (frame_FP (frame b ! j) = FP \<and> frame_slot (frame b ! j) = v)))"
  by (auto simp: b_match_value_def find_None_iff find_Some_iff split: option.splits)

text \<open>A frame that \<open>insert\<close> made for an address is found again under that address.\<close>

definition cool_entry :: "env \<Rightarrow> hash_table \<Rightarrow> u64 \<Rightarrow> u64 \<Rightarrow> bool" where
  "cool_entry E t key v \<longleftrightarrow>
     mk_payload (FP_of (hash_of E key)) v \<in> set (b_items (ht_table t ! bucket_idx E t key))"

lemma payload_iff:
  assumes "unat v < 2 ^ 48"
  shows "w = mk_payload (FP_of h) v \<longleftrightarrow> frame_FP w = FP_of h \<and> frame_slot w = v"
proof
  assume w: "frame_FP w = FP_of h \<and> frame_slot w = v"
  show "w = mk_payload (FP_of h) v"
  proof (rule bit_word_eqI)
    fix n assume n: "n < LENGTH(64)"
    have "bit (push_bit 48 (frame_FP w) OR (frame_slot w AND mask 48)) n = bit w n"
      using n by (auto simp: frame_FP_def frame_slot_def ADDRESS_HIDE_mask bit_simps)
    then show "bit w n = bit (mk_payload (FP_of h) v) n"
      using w by (simp add: mk_payload_def ADDRESS_HIDE_mask)
  qed
qed (use assms in \<open>simp add: frame_FP_payload frame_slot_payload\<close>)

lemma try_promote_using_value_correct:
  assumes t: "ht_ok (ht s)" and v: "unat v < 2 ^ 48" and i: "i = bucket_idx E (ht s) key"
  shows "if cool_entry E (ht s) key v
    then \<exists>xs ys t'. try_promote_using_value E key v s = (True, s\<lparr>ht := t'\<rparr>) \<and> ht_ok t' \<and>
      cool_bucket (ht s) i = xs @ v # ys \<and> cool_bucket t' i = xs @ ys \<and>
      (\<forall>j < length (ht_table (ht s)). j \<noteq> i \<longrightarrow> cool_bucket t' j = cool_bucket (ht s) j)
    else try_promote_using_value E key v s = (False, s)"
proof -
  define b where "b = ht_table (ht s) ! i"
  define FP where "FP = FP_of (hash_of E key)"
  have il: "i < length (ht_table (ht s))" using bucket_idx_less [OF t] i by simp
  have bok: "b_ok b" using ht_ok_nth [OF t il] by (simp add: b_def)
  then have len: "b_count b \<le> length (frame b)" by (simp add: b_ok_def)
  have ce: "cool_entry E (ht s) key v \<longleftrightarrow> (\<exists>j < b_count b. frame_FP (frame b ! j) = FP \<and> frame_slot (frame b ! j) = v)"
    using len payload_iff [OF v]
    by (auto simp: cool_entry_def i [symmetric] b_def [symmetric] b_items_def in_set_conv_nth FP_def)
  have un: "try_promote_using_value E key v s = (if b_match_value b FP v = -1 then (False, s)
      else (True, s\<lparr>ht := set_bucket i (b_remove (nat (b_match_value b FP v)) b) (ht s)\<rparr>))"
    by (simp add: try_promote_using_value_def Let_def i b_def FP_def)
  show ?thesis
  proof (cases "cool_entry E (ht s) key v")
    case False
    then have "b_match_value b FP v = -1" using b_match_value_cases [of b FP v] ce by blast
    then show ?thesis using False un by simp
  next
    case True
    then obtain j where j: "j < b_count b" "b_match_value b FP v = int j" "frame_slot (frame b ! j) = v"
      using b_match_value_cases [of b FP v] ce by blast
    define t' where "t' = set_bucket i (b_remove j b) (ht s)"
    note rem = b_remove_items [OF bok j(1)]
    have jl: "j < length (b_items b)" "b_items b ! j = frame b ! j" using j(1) len by (simp_all add: b_items_def)
    have split: "b_items b = take j (b_items b) @ frame b ! j # drop (Suc j) (b_items b)"
      using id_take_nth_drop [OF jl(1)] jl(2) by simp
    have "cool_bucket (ht s) i = map frame_slot (take j (b_items b)) @ v # map frame_slot (drop (Suc j) (b_items b))"
      unfolding cool_bucket_def b_def [symmetric] by (subst split) (simp add: j(3))
    moreover have "cool_bucket t' i = map frame_slot (take j (b_items b)) @ map frame_slot (drop (Suc j) (b_items b))"
      using il rem by (simp add: t'_def cool_bucket_set)
    moreover have "try_promote_using_value E key v s = (True, s\<lparr>ht := t'\<rparr>)" by (simp add: un j(2) t'_def)
    moreover have "ht_ok t'" unfolding t'_def using ht_ok_set_bucket [OF t] rem by blast
    moreover have "\<forall>k < length (ht_table (ht s)). k \<noteq> i \<longrightarrow> cool_bucket t' k = cool_bucket (ht s) k"
      using il by (simp add: t'_def cool_bucket_set)
    ultimately show ?thesis using True by auto
  qed
qed

lemma random_evict_correct:
  assumes t: "ht_ok (ht s)" and clean: "\<forall>a \<in> set (cool_slots (ht s)). \<not> dirty (mem s a)"
    and idx: "idx = rnd E (draws s) mod unat (ht_bucket_num (ht s))" and s1: "s1 = s\<lparr>draws := draws s + 1\<rparr>"
    and lim: "lim = unat (min (ht_bucket_num (ht s)) (of_nat idx + L))"
  shows "idx < length (ht_table (ht s)) \<and> lim \<le> length (ht_table (ht s)) \<and>
    random_evict_to_remote E L s =
    (case List.find (\<lambda>i. cool_bucket (ht s) i \<noteq> []) [idx..<lim] of
       None \<Rightarrow> Inr (None, s1)
     | Some i \<Rightarrow> Inr (Some (last (cool_bucket (ht s) i)),
         forget_page E (last (cool_bucket (ht s) i))
           (s1\<lparr>ht := set_bucket i ((ht_table (ht s) ! i)\<lparr>b_count := b_count (ht_table (ht s) ! i) - 1\<rparr>) (ht s)\<rparr>)))"
proof -
  let ?n = "unat (ht_bucket_num (ht s))"
  have n: "0 < ?n" "length (ht_table (ht s)) = ?n" using t by (simp_all add: ht_ok_def word_gt_0 unat_gt_0)
  have i: "idx < ?n" unfolding idx using n(1) by simp
  have "?n < 2 ^ 64" using unsigned_less [of "ht_bucket_num (ht s)"] by simp
  then have u: "unat (of_nat idx :: u64) = idx" using i by (simp add: unat_of_nat take_bit_nat_eq_self)
  have lim2: "lim \<le> ?n" unfolding lim by (simp add: unat_mono min_def word_le_nat_alt)
  have db: "random_bucket_idx E s = Inr (of_nat idx, s1)"
    using i u by (simp add: random_bucket_idx_def draw_below_def idx [symmetric] s1 word_less_nat_alt)
  have f: "ht s1 = ht s" "mem s1 = mem s" by (simp_all add: s1)
  have "evict_probe E [idx..<lim] s1 = (case List.find (\<lambda>i. cool_bucket (ht s1) i \<noteq> []) [idx..<lim] of
       None \<Rightarrow> Inr (None, s1)
     | Some i \<Rightarrow> Inr (Some (last (cool_bucket (ht s1) i)),
         forget_page E (last (cool_bucket (ht s1) i))
           (s1\<lparr>ht := set_bucket i ((ht_table (ht s1) ! i)\<lparr>b_count := b_count (ht_table (ht s1) ! i) - 1\<rparr>) (ht s1)\<rparr>)))"
    by (rule evict_probe_correct) (use t clean lim2 n in \<open>auto simp: f\<close>)
  then show ?thesis
    using i n lim2 unfolding f random_evict_to_remote_def db bindR.simps prod.case u lim [symmetric] by simp
qed

subsection \<open>Properties\<close>

definition example_env :: env where
  "example_env = \<lparr>hash_of = id, rnd = (\<lambda>n. 5 * n + 2)\<rparr>"

text \<open>A cool tier of two buckets; slot 0x7000 is waiting under the address 3, in bucket 1.\<close>

definition example_tables :: tables where
  "example_tables = \<lparr>mem = (\<lambda>_. example_leaf\<lparr>remote_address := 0x4000000, pos_state := POS_HOT, dirty := False\<rparr>),
     be = be example_world, scratch = zero_page, draws = 0,
     ht = (mk_HashTable 12)\<lparr>ht_table := [b_empty, b_push b_empty (mk_payload (FP_of 3) 0x7000)]\<rparr>,
     pt = example_table\<rparr>"

lemma b_empty_ok: "b_ok b_empty" "b_items b_empty = []"
  by (simp_all add: b_ok_def b_empty_def b_items_def)

lemma example_tables_ok:
  "ht_ok (ht example_tables)" "cool_bucket (ht example_tables) 0 = []" "cool_bucket (ht example_tables) 1 = [0x7000]"
  "cool_slots (ht example_tables) = [0x7000]" "table_ok (pt example_tables)"
proof -
  have c: "b_count b_empty < NUM_ENTRIES" by (simp add: b_empty_def NUM_ENTRIES_def)
  note p = b_push_items [OF b_empty_ok(1) c, of "mk_payload (FP_of 3) 0x7000", unfolded b_empty_ok(2)]
  show "ht_ok (ht example_tables)"
    using p b_empty_ok by (simp add: ht_ok_def example_tables_def mk_HashTable_def Let_def ceil_div_def NUM_ENTRIES_def)
  show "cool_bucket (ht example_tables) 0 = []" "cool_bucket (ht example_tables) 1 = [0x7000]"
    "cool_slots (ht example_tables) = [0x7000]"
    using p b_empty_ok by (simp_all add: cool_bucket_def cool_slots_def example_tables_def frame_slot_payload)
  show "table_ok (pt example_tables)" using example_table_ok by (simp add: example_tables_def)
qed

text \<open>A bucket of the cool tier is a first-in-first-out queue of six. After any sequence of
  insertions it holds the six newest frames, newest first, and \<open>evict_last\<close> takes the
  oldest; so a page demoted into a bucket is evicted by the sixth later demotion into it, or
  earlier by a free-slot search.\<close>

lemma cool_fifo:
  assumes "b_ok b" "\<And>a. \<not> dirty (m a)"
  shows "(\<exists>b'. b_inserts m b ps = Inr b' \<and> b_ok b' \<and> b_items b' = take NUM_ENTRIES (rev ps @ b_items b)) \<and>
    (if b_items b = [] then evict_last m b = Inr (None, b)
     else \<exists>b'. evict_last m b = Inr (Some (frame_slot (last (b_items b))), b') \<and> b_items b' = butlast (b_items b))"
proof -
  have "\<exists>b'. b_inserts m b ps = Inr b' \<and> b_ok b' \<and> b_items b' = take NUM_ENTRIES (rev ps @ b_items b)"
    using b_inserts_correct [of b m ps] cool.ins_sequence [of b ps] assms by simp
  moreover have "if b_items b = [] then evict_last m b = Inr (None, b)
     else \<exists>b'. evict_last m b = Inr (Some (frame_slot (last (b_items b))), b') \<and> b_items b' = butlast (b_items b)"
    using b_pop_items [OF assms(1)] assms(2) by (auto simp: evict_last_correct [OF assms(1)] Let_def)
  ultimately show ?thesis by blast
qed

text \<open>C21: \<open>HashTable::insert\<close>, the demotion of a page. A dirty page is written back first; the page
  ends clean and cool at the head of the bucket of its address; from a full bucket the oldest
  page is evicted and handed to the caller, and the page table forgets it exactly when it still
  records that slot for its address. No other bucket, node or page-table entry changes.\<close>

theorem ht_insert_spec:
  assumes "ht_ok (ht s)" "table_ok (pt s)" "ps_ok (be s)" "remote_address (mem s v) \<in> ps_allocated (be s)"
    "unat v < 2 ^ 48" "v \<notin> set (cool_slots (ht s))" "\<forall>a \<in> set (cool_slots (ht s)). a \<noteq> 0 \<and> \<not> dirty (mem s a)"
  shows "\<exists>ev s'. ht_insert E key v 0 s = Inr (ev, s') \<and> ht_ok (ht s') \<and> table_ok (pt s') \<and>
     (let i = bucket_idx E (ht s) key; q = cool_bucket (ht s) i
      in ev = (if length q = NUM_ENTRIES then last q else 0) \<and>
        cool_bucket (ht s') i = take NUM_ENTRIES (v # q) \<and>
        (\<forall>j < length (ht_table (ht s)). j \<noteq> i \<longrightarrow> cool_bucket (ht s') j = cool_bucket (ht s) j)) \<and>
     mem s' = (mem s)(v := (mem s v)\<lparr>dirty := False, pos_state := POS_COOL\<rparr>) \<and>
     (dirty (mem s v) \<longrightarrow> ps_read (be s') (remote_address (mem s v)) = Some (flushed_image (mem s v))) \<and>
     (\<forall>k. get_with_bucket (hash_of E) (pt s') k =
        (if ev \<noteq> 0 \<and> k = remote_address (mem s ev) \<and> get_with_bucket (hash_of E) (pt s) k = ev then 0
         else get_with_bucket (hash_of E) (pt s) k))"
proof -
  from ht_insert_effect [OF assms(1,2) refl assms(5-7) refl, of E key]
  show ?thesis using ps.rd_wr_same [OF assms(3,4)] by (auto simp: Let_def)
qed

theorem ht_insert_spec_witness:
  "\<exists>s'. ht_insert example_env 3 0x8000 0 example_tables = Inr (0, s') \<and>
     cool_bucket (ht s') 1 = [0x8000, 0x7000] \<and> pos_state (mem s' 0x8000) = POS_COOL"
proof -
  have "ps_ok (be example_tables)" "remote_address (mem example_tables 0x8000) \<in> ps_allocated (be example_tables)"
    using example_world_be by (simp_all add: example_tables_def)
  moreover have "bucket_idx example_env (ht example_tables) 3 = 1"
    by (simp add: bucket_idx_def example_env_def example_tables_def mk_HashTable_def ceil_div_def NUM_ENTRIES_def Let_def)
  moreover have "\<not> dirty (mem example_tables 0x7000)" by (simp add: example_tables_def)
  ultimately show ?thesis
    using ht_insert_spec [of example_tables "0x8000" example_env 3] example_tables_ok
    by (auto simp: Let_def NUM_ENTRIES_def)
qed

text \<open>C20: the search for a slot to recycle. From a random bucket on it takes, within the probing
  length and the table, the first bucket that is not empty, pops its oldest slot and makes the
  page table forget that slot if it is the recorded one; it returns none when all those buckets
  are empty.\<close>

theorem random_evict_spec:
  assumes "ht_ok (ht s)" "table_ok (pt s)" "\<forall>a \<in> set (cool_slots (ht s)). a \<noteq> 0 \<and> \<not> dirty (mem s a)"
    "idx = rnd E (draws s) mod unat (ht_bucket_num (ht s))" "lim = unat (min (ht_bucket_num (ht s)) (of_nat idx + L))"
  shows "if \<forall>i \<in> {idx..<lim}. cool_bucket (ht s) i = []
    then random_evict_to_remote E L s = Inr (None, s\<lparr>draws := draws s + 1\<rparr>)
    else \<exists>i \<in> {idx..<lim}. \<exists>s'. (\<forall>j \<in> {idx..<i}. cool_bucket (ht s) j = []) \<and> cool_bucket (ht s) i \<noteq> [] \<and>
      random_evict_to_remote E L s = Inr (Some (last (cool_bucket (ht s) i)), s') \<and>
      (\<forall>j < length (ht_table (ht s)). cool_bucket (ht s') j =
         (if j = i then butlast (cool_bucket (ht s) i) else cool_bucket (ht s) j)) \<and>
      (\<forall>k. get_with_bucket (hash_of E) (pt s') k =
        (if k = remote_address (mem s (last (cool_bucket (ht s) i))) \<and>
            get_with_bucket (hash_of E) (pt s) k = last (cool_bucket (ht s) i) then 0
         else get_with_bucket (hash_of E) (pt s) k))"
proof -
  have cl: "\<forall>a \<in> set (cool_slots (ht s)). \<not> dirty (mem s a)" using assms(3) by simp
  note r = random_evict_correct [OF assms(1) cl assms(4) refl assms(5)]
  show ?thesis
  proof (cases "\<forall>i \<in> {idx..<lim}. cool_bucket (ht s) i = []")
    case True
    then have "List.find (\<lambda>i. cool_bucket (ht s) i \<noteq> []) [idx..<lim] = None" by (auto simp: find_None_iff)
    then show ?thesis using r True by simp
  next
    case False
    then obtain i where f: "List.find (\<lambda>i. cool_bucket (ht s) i \<noteq> []) [idx..<lim] = Some i"
      by (cases "List.find (\<lambda>i. cool_bucket (ht s) i \<noteq> []) [idx..<lim]") (auto simp: find_None_iff)
    then obtain n where n: "n < lim - idx" "i = idx + n" "cool_bucket (ht s) i \<noteq> []"
      "\<forall>j < n. cool_bucket (ht s) (idx + j) = []" by (auto simp: find_Some_iff)
    have i: "i \<in> {idx..<lim}" "i < length (ht_table (ht s))" using n(1,2) r by auto
    have before: "\<forall>j \<in> {idx..<i}. cool_bucket (ht s) j = []"
    proof
      fix j assume "j \<in> {idx..<i}"
      then have "j = idx + (j - idx)" "j - idx < n" using n(2) by auto
      then show "cool_bucket (ht s) j = []" using n(4) by metis
    qed
    let ?a = "last (cool_bucket (ht s) i)"
    let ?b = "(ht_table (ht s) ! i)\<lparr>b_count := b_count (ht_table (ht s) ! i) - 1\<rparr>"
    let ?s1 = "s\<lparr>draws := draws s + 1, ht := set_bucket i ?b (ht s)\<rparr>"
    have a: "?a \<noteq> 0" using assms(3) cool_bucket_subset [OF i(2)] n(3) last_in_set by blast
    have bok: "b_ok (ht_table (ht s) ! i)" by (rule ht_ok_nth [OF assms(1) i(2)])
    have ne: "b_items (ht_table (ht s) ! i) \<noteq> []" using n(3) by (auto simp: cool_bucket_def)
    have cb: "cool_bucket (set_bucket i ?b (ht s)) j = (if j = i then butlast (cool_bucket (ht s) i) else cool_bucket (ht s) j)" for j
      using i(2) b_pop_items [OF bok ne] by (simp add: cool_bucket_set) (simp add: cool_bucket_def map_butlast)
    have ev: "random_evict_to_remote E L s = Inr (Some ?a, forget_page E ?a ?s1)"
      using r f by simp
    have p: "get_with_bucket (hash_of E) (pt (forget_page E ?a ?s1)) k =
        (if k = remote_address (mem s ?a) \<and> get_with_bucket (hash_of E) (pt s) k = ?a then 0
         else get_with_bucket (hash_of E) (pt s) k)" for k
    proof -
      have "pt ?s1 = pt s" "mem ?s1 = mem s" by simp_all
      with forget_page_table(2) [of ?s1 ?a E k] assms(2) a show ?thesis by metis
    qed
    show ?thesis unfolding if_not_P [OF False]
      using i n(3) before ev cb p by (intro bexI [of _ i] exI [of _ "forget_page E ?a ?s1"]) simp_all
  qed
qed

theorem random_evict_spec_witness:
  "\<exists>s'. random_evict_to_remote example_env 8 example_tables = Inr (Some 0x7000, s') \<and> cool_bucket (ht s') 1 = []"
proof -
  let ?t = "ht example_tables"
  have n: "ht_bucket_num ?t = 2" "rnd example_env (draws example_tables) = 2" "length (ht_table ?t) = 2"
    by (simp_all add: example_tables_def mk_HashTable_def ceil_div_def NUM_ENTRIES_def Let_def example_env_def)
  have cl: "\<forall>a \<in> set (cool_slots ?t). a \<noteq> 0 \<and> \<not> dirty (mem example_tables a)"
    unfolding example_tables_ok by (simp add: example_tables_def)
  have "0 = rnd example_env (draws example_tables) mod unat (ht_bucket_num ?t)"
    "2 = unat (min (ht_bucket_num ?t) (of_nat 0 + 8))" unfolding n by (simp_all add: min_def)
  note r = random_evict_spec [OF example_tables_ok(1,5) cl this]
  have not_all: "\<not> (\<forall>i \<in> {0..<2}. cool_bucket ?t i = [])"
    using example_tables_ok(3) by (auto intro!: bexI [of _ 1])
  from r [unfolded if_not_P [OF not_all]] obtain i s' where i: "i \<in> {0..<2}" "cool_bucket ?t i \<noteq> []"
    "random_evict_to_remote example_env 8 example_tables = Inr (Some (last (cool_bucket ?t i)), s')"
    "\<forall>j < length (ht_table ?t). cool_bucket (ht s') j = (if j = i then butlast (cool_bucket ?t i) else cool_bucket ?t j)"
    by blast
  have "i = 1" using i(1,2) example_tables_ok(2) by (cases "i = 0") auto
  then show ?thesis using i(3,4) example_tables_ok(3) n(3) by simp
qed

text \<open>A page waiting in the cool tier can be promoted: \<open>try_promote_using_value\<close> finds the frame
  that \<open>insert\<close> made for the address and the slot, exactly when it is still in its bucket,
  and takes it out, keeping the order of the others; otherwise it changes nothing.\<close>

lemma try_promote_entry:
  assumes "ht_ok (ht s)" "unat v < 2 ^ 48"
  shows "if cool_entry E (ht s) key v
    then \<exists>xs ys t'. try_promote_using_value E key v s = (True, s\<lparr>ht := t'\<rparr>) \<and> ht_ok t' \<and>
      cool_bucket (ht s) (bucket_idx E (ht s) key) = xs @ v # ys \<and>
      cool_bucket t' (bucket_idx E (ht s) key) = xs @ ys \<and>
      (\<forall>j < length (ht_table (ht s)). j \<noteq> bucket_idx E (ht s) key \<longrightarrow> cool_bucket t' j = cool_bucket (ht s) j)
    else try_promote_using_value E key v s = (False, s)"
  using try_promote_using_value_correct [OF assms refl] .

text \<open>C25: a bucket of the cool tier is a first-in-first-out queue of six. After any sequence of
  insertions it holds the six newest frames, newest first, and \<open>evict_last\<close> takes the
  oldest; so a page demoted into a bucket is evicted by the sixth later demotion into it, or
  earlier by a free-slot search. The one way out of the order is promotion: \<open>try_promote_using_value\<close> finds the frame
  that \<open>insert\<close> made for the address and the slot, exactly when it is still in its bucket,
  and takes it out, keeping the order of the others; otherwise it changes nothing.\<close>

theorem cool_fifo_spec:
  assumes "b_ok b" "\<forall>a. \<not> dirty (m a)" "ht_ok (ht s)" "unat v < 2 ^ 48"
  shows "(\<exists>b'. b_inserts m b ps = Inr b' \<and> b_ok b' \<and> b_items b' = take NUM_ENTRIES (rev ps @ b_items b)) \<and>
    (if b_items b = [] then evict_last m b = Inr (None, b)
     else \<exists>b'. evict_last m b = Inr (Some (frame_slot (last (b_items b))), b') \<and> b_items b' = butlast (b_items b)) \<and>
    (if cool_entry E (ht s) key v
     then \<exists>xs ys t'. try_promote_using_value E key v s = (True, s\<lparr>ht := t'\<rparr>) \<and> ht_ok t' \<and>
       cool_bucket (ht s) (bucket_idx E (ht s) key) = xs @ v # ys \<and>
       cool_bucket t' (bucket_idx E (ht s) key) = xs @ ys \<and>
       (\<forall>j < length (ht_table (ht s)). j \<noteq> bucket_idx E (ht s) key \<longrightarrow> cool_bucket t' j = cool_bucket (ht s) j)
     else try_promote_using_value E key v s = (False, s))"
proof -
  have "\<not> dirty (m a)" for a using assms(2) by blast
  from conjI [OF cool_fifo [of b m ps, OF assms(1) this] try_promote_entry [OF assms(3,4), of E key]]
  show ?thesis unfolding conj_assoc .
qed

theorem cool_fifo_spec_witness:
  "(\<exists>b'. b_inserts (mem example_tables) b_empty [1, 2, 3, 4, 5, 6, 7] = Inr b' \<and> b_items b' = [7, 6, 5, 4, 3, 2]) \<and>
   (\<exists>t'. try_promote_using_value example_env 3 0x7000 example_tables = (True, example_tables\<lparr>ht := t'\<rparr>) \<and> cool_bucket t' 1 = [])"
proof -
  have b: "bucket_idx example_env (ht example_tables) 3 = 1"
    by (simp add: bucket_idx_def example_env_def example_tables_def mk_HashTable_def ceil_div_def NUM_ENTRIES_def Let_def)
  have c: "b_count b_empty < NUM_ENTRIES" by (simp add: b_empty_def NUM_ENTRIES_def)
  have e: "cool_entry example_env (ht example_tables) 3 0x7000"
    using b_push_items [OF b_empty_ok(1) c, of "mk_payload (FP_of 3) 0x7000"] b
    by (simp add: cool_entry_def) (simp add: example_tables_def example_env_def)
  have d: "\<forall>a. \<not> dirty (mem example_tables a)" by (simp add: example_tables_def)
  have "unat (0x7000 :: u64) < 2 ^ 48" by simp
  note s = cool_fifo_spec [OF b_empty_ok(1) d example_tables_ok(1) this, of "[1, 2, 3, 4, 5, 6, 7]" example_env 3]
  show ?thesis
  proof
    show "\<exists>b'. b_inserts (mem example_tables) b_empty [1, 2, 3, 4, 5, 6, 7] = Inr b' \<and> b_items b' = [7, 6, 5, 4, 3, 2]"
      using s [THEN conjunct1] by (auto simp: b_empty_ok(2) NUM_ENTRIES_def simp del: b_inserts.simps)
    show "\<exists>t'. try_promote_using_value example_env 3 0x7000 example_tables = (True, example_tables\<lparr>ht := t'\<rparr>) \<and> cool_bucket t' 1 = []"
      using s [THEN conjunct2, THEN conjunct2] example_tables_ok b e by (auto simp: append_eq_Cons_conv Cons_eq_append_conv)
  qed
qed

end
