(* ===== verification/Allocator.thy ===== *)
theory Allocator
  imports NodeWR
begin

text \<open>
  The buffer pool (\<open>util/CacheAllocator.h\<close>): a bump allocator over the slots of one mapped
  region, with the uniform slot selection of the sampler. The static \<open>instance_\<close> is an option;
  the address that \<open>mmap\<close> returns is the parameter \<open>pool\<close>. The null pointer is 0.
\<close>

record allocator =
  base_address :: u64
  alloc_unit :: u64
  page_num :: u64
  head_idx :: u64

subsection \<open>Operations\<close>

text \<open>The constructor throws (here: no instance) when the mapping fails.\<close>

definition mk_CacheAllocator :: "u64 \<Rightarrow> u64 \<Rightarrow> u64 \<Rightarrow> allocator option" where
  "mk_CacheAllocator pool unit cache_size =
     (if pool = 0 then None
      else Some \<lparr>base_address = pool, alloc_unit = unit, page_num = cache_size div unit, head_idx = 0\<rparr>)"

definition alloc_initialize :: "u64 \<Rightarrow> u64 \<Rightarrow> u64 \<Rightarrow> allocator option \<Rightarrow> allocator option" where
  "alloc_initialize pool unit cache_size inst =
     (case inst of Some a \<Rightarrow> Some a | None \<Rightarrow> mk_CacheAllocator pool unit cache_size)"

definition slot_addr :: "allocator \<Rightarrow> u64 \<Rightarrow> u64" where
  "slot_addr a i = base_address a + i * alloc_unit a"

definition pool_slots :: "allocator \<Rightarrow> u64 list" where
  "pool_slots a = map (\<lambda>i. slot_addr a (of_nat i)) [0..<unat (page_num a)]"

definition zero_slots :: "u64 list \<Rightarrow> (u64 \<Rightarrow> page) \<Rightarrow> u64 \<Rightarrow> page" where
  "zero_slots xs m = (\<lambda>x. if x \<in> set xs then zero_page else m x)"

definition alloc_reset :: "allocator option \<Rightarrow> (u64 \<Rightarrow> page) \<Rightarrow> allocator option \<times> (u64 \<Rightarrow> page)" where
  "alloc_reset inst m =
     (case inst of None \<Rightarrow> (None, m)
      | Some a \<Rightarrow> (Some (a\<lparr>head_idx := 0\<rparr>), zero_slots (pool_slots a) m))"

text \<open>\<open>allocate\<close>: the slot or null, the flag for the last slot, the new instance.\<close>

definition allocate :: "allocator option \<Rightarrow> u64 \<times> bool \<times> allocator option" where
  "allocate inst =
     (case inst of None \<Rightarrow> (0, False, None)
      | Some a \<Rightarrow>
          if head_idx a \<ge> page_num a then (0, False, Some a)
          else (slot_addr a (head_idx a), head_idx a = page_num a - 1, Some (a\<lparr>head_idx := head_idx a + 1\<rparr>)))"

definition is_peer :: "allocator \<Rightarrow> u64 \<Rightarrow> u64 \<Rightarrow> bool" where
  "is_peer a left_pair right_pair =
     (let l = min left_pair right_pair; r = max left_pair right_pair
      in (l - base_address a) div alloc_unit a = (r - base_address a) div alloc_unit a)"

definition get_peer_addr :: "allocator \<Rightarrow> u64 \<Rightarrow> u64" where
  "get_peer_addr a page_addr =
     (if page_addr mod alloc_unit a = 0 then page_addr + alloc_unit a div 2
      else page_addr - alloc_unit a div 2)"

definition select_idx :: "allocator \<Rightarrow> u64 \<Rightarrow> u64 res" where
  "select_idx a idx =
     (if idx > head_idx a \<or> idx \<ge> page_num a
      then if min (head_idx a) (page_num a) = 0 then Inl DivZero
           else Inr (idx mod min (head_idx a) (page_num a))
      else Inr idx)"

definition random_select :: "env \<Rightarrow> allocator \<Rightarrow> 'a world_st \<Rightarrow> (u64 \<times> 'a world_st) res" where
  "random_select E a w =
     (case draw_below E (page_num a) w of
        (idx, w') \<Rightarrow> bindR (select_idx a idx) (\<lambda>i. Inr (slot_addr a i, w')))"

definition alloc_free :: "allocator option \<Rightarrow> allocator option" where
  "alloc_free inst = None"

subsection \<open>The pool region\<close>

text \<open>
  A pool of kilobyte slots that lies, slot-aligned and away from null, in the 48-bit user
  address space, as the kernel maps it.
\<close>

definition alloc_ok :: "allocator \<Rightarrow> bool" where
  "alloc_ok a \<longleftrightarrow> alloc_unit a = PAGE_SIZE \<and> 0 < page_num a \<and> head_idx a \<le> page_num a \<and>
     0 < unat (base_address a) \<and> 1024 dvd unat (base_address a) \<and>
     unat (base_address a) + unat (page_num a) * 1024 \<le> 2 ^ 47"

lemma slot_addr_unat:
  assumes "alloc_ok a" "i < page_num a"
  shows "unat (slot_addr a i) = unat (base_address a) + unat i * 1024"
proof -
  have b: "unat (base_address a) + unat (page_num a) * 1024 \<le> 2 ^ 47" and u: "alloc_unit a = 1024"
    using assms(1) by (simp_all add: alloc_ok_def PAGE_SIZE_def)
  have i: "unat i < unat (page_num a)" using assms(2) by (simp add: word_less_nat_alt)
  then have i2: "unat i * 1024 < unat (page_num a) * 1024" by simp
  have m: "unat (i * 1024) = unat i * 1024"
    using i2 b by (simp add: unat_word_ariths)
  then show ?thesis using i2 b by (simp add: slot_addr_def u unat_word_ariths)
qed

lemma slot_addr_inject:
  "alloc_ok a \<Longrightarrow> i < page_num a \<Longrightarrow> j < page_num a \<Longrightarrow> slot_addr a i = slot_addr a j \<longleftrightarrow> i = j"
  by (metis slot_addr_unat add_left_cancel mult_cancel2 zero_neq_numeral word_unat_eq_iff)

lemma slot_addr_bounds:
  assumes "alloc_ok a" "i < page_num a"
  shows "0 < unat (slot_addr a i)" "unat (slot_addr a i) < 2 ^ 47" "1024 dvd unat (slot_addr a i)"
proof -
  have "unat i < unat (page_num a)" using assms(2) by (simp add: word_less_nat_alt)
  then show "0 < unat (slot_addr a i)" "unat (slot_addr a i) < 2 ^ 47" "1024 dvd unat (slot_addr a i)"
    using assms slot_addr_unat [OF assms] by (auto simp: alloc_ok_def)
qed

lemma slot_not_swizzled: "alloc_ok a \<Longrightarrow> i < page_num a \<Longrightarrow> \<not> swizzled (slot_addr a i)"
  using slot_addr_bounds [of a i] not_bit_small [of "slot_addr a i" 47 63] by (simp add: swizzled_iff_bit)

lemma pool_slots_iff: "x \<in> set (pool_slots a) \<longleftrightarrow> (\<exists>i < page_num a. x = slot_addr a i)"
proof
  assume "x \<in> set (pool_slots a)"
  then obtain n where n: "n < unat (page_num a)" "x = slot_addr a (of_nat n)" by (auto simp: pool_slots_def)
  have "unat (page_num a) < 2 ^ 64" using unsigned_less [of "page_num a"] by simp
  then have "n < 2 ^ 64" using n(1) by simp
  then have "unat (of_nat n :: u64) = n" by (simp add: unat_of_nat take_bit_nat_eq_self)
  then show "\<exists>i < page_num a. x = slot_addr a i"
    using n by (intro exI [of _ "of_nat n"]) (simp add: word_less_nat_alt)
next
  assume "\<exists>i < page_num a. x = slot_addr a i"
  then obtain i where i: "i < page_num a" "x = slot_addr a i" by blast
  then have "unat i < unat (page_num a)" by (simp add: word_less_nat_alt)
  then show "x \<in> set (pool_slots a)"
    using i(2) by (auto simp: pool_slots_def intro!: image_eqI [of _ _ "unat i"])
qed

lemma pool_slots_distinct:
  assumes "alloc_ok a"
  shows "distinct (pool_slots a)"
proof -
  have "i = j" if "i < unat (page_num a)" "j < unat (page_num a)" "slot_addr a (of_nat i) = slot_addr a (of_nat j)" for i j
  proof -
    have b: "unat (of_nat n :: u64) = n" if n: "n < unat (page_num a)" for n
    proof -
      have "unat (page_num a) < 2 ^ 64" using unsigned_less [of "page_num a"] by simp
      then have "n < 2 ^ 64" using n by simp
      then show ?thesis by (simp add: unat_of_nat take_bit_nat_eq_self)
    qed
    then have "of_nat i < page_num a" "of_nat j < page_num a" using that by (simp_all add: word_less_nat_alt)
    then have "(of_nat i :: u64) = of_nat j" using slot_addr_inject [OF assms] that(3) by blast
    then show ?thesis using b that(1,2) by metis
  qed
  then show ?thesis by (auto simp: pool_slots_def distinct_map inj_on_def)
qed

lemma select_idx_correct:
  assumes "alloc_ok a" "0 < head_idx a"
  shows "\<exists>i. select_idx a idx = Inr i \<and> i < page_num a \<and> i \<le> head_idx a"
proof (cases "idx > head_idx a \<or> idx \<ge> page_num a")
  case False
  then show ?thesis by (auto simp: select_idx_def)
next
  case True
  have m: "min (head_idx a) (page_num a) = head_idx a" using assms(1) by (simp add: alloc_ok_def)
  have "idx mod head_idx a < head_idx a"
    using assms(2) by (simp add: word_less_nat_alt unat_mod)
  then show ?thesis using True m assms by (auto simp: select_idx_def alloc_ok_def intro: less_le_trans)
qed

lemma random_select_correct:
  assumes "alloc_ok a" "0 < head_idx a"
  shows "\<exists>i. random_select E a w = Inr (slot_addr a i, w\<lparr>draws := draws w + 1\<rparr>) \<and> i < page_num a \<and> i \<le> head_idx a"
proof -
  obtain i where "select_idx a (of_nat (rnd E (draws w) mod unat (page_num a))) = Inr i" "i < page_num a" "i \<le> head_idx a"
    using select_idx_correct [OF assms] by blast
  then show ?thesis by (auto simp: random_select_def draw_below_def)
qed

subsection \<open>Successive allocations\<close>

fun allocate_n :: "nat \<Rightarrow> allocator option \<Rightarrow> (u64 \<times> bool) list \<times> allocator option" where
  "allocate_n 0 inst = ([], inst)"
| "allocate_n (Suc n) inst =
     (case allocate inst of (p, fl, inst') \<Rightarrow> case allocate_n n inst' of (ps, inst'') \<Rightarrow> ((p, fl) # ps, inst''))"

lemma allocate_correct:
  assumes "alloc_ok a"
  shows "if head_idx a < page_num a
    then allocate (Some a) = (slot_addr a (head_idx a), head_idx a + 1 = page_num a, Some (a\<lparr>head_idx := head_idx a + 1\<rparr>)) \<and>
      alloc_ok (a\<lparr>head_idx := head_idx a + 1\<rparr>) \<and> unat (head_idx a + 1) = unat (head_idx a) + 1
    else allocate (Some a) = (0, False, Some a)"
proof (cases "head_idx a < page_num a")
  case True
  have "unat (head_idx a) < unat (page_num a)" using True by (simp add: word_less_nat_alt)
  moreover have "unat (page_num a) < 2 ^ 64" using unsigned_less [of "page_num a"] by simp
  ultimately have u: "unat (head_idx a + 1) = unat (head_idx a) + 1" by (simp add: unat_word_ariths)
  then have "alloc_ok (a\<lparr>head_idx := head_idx a + 1\<rparr>)"
    using assms True by (simp add: alloc_ok_def word_le_nat_alt word_less_nat_alt)
  moreover have "head_idx a = page_num a - 1 \<longleftrightarrow> head_idx a + 1 = page_num a" by (auto simp: algebra_simps)
  moreover have "\<not> page_num a \<le> head_idx a" using True by simp
  ultimately show ?thesis using True u by (simp add: allocate_def)
qed (auto simp: allocate_def not_less)

lemma allocate_n_correct:
  assumes "alloc_ok a"
  shows "fst (allocate_n n (Some a)) =
    map (\<lambda>i. if i < unat (page_num a) - unat (head_idx a)
        then (slot_addr a (head_idx a + of_nat i), unat (head_idx a) + i + 1 = unat (page_num a)) else (0, False)) [0..<n]"
  using assms
proof (induction n arbitrary: a)
  case (Suc n)
  have upt: "[0..<Suc n] = 0 # map Suc [0..<n]" by (simp add: upt_conv_Cons map_Suc_upt del: upt_Suc)
  show ?case
  proof (cases "head_idx a < page_num a")
    case True
    define a' where "a' = a\<lparr>head_idx := head_idx a + 1\<rparr>"
    from allocate_correct [OF Suc.prems] True have
      a: "allocate (Some a) = (slot_addr a (head_idx a), head_idx a + 1 = page_num a, Some a')" "alloc_ok a'"
      "unat (head_idx a + 1) = unat (head_idx a) + 1" by (simp_all add: a'_def)
    have ih: "fst (allocate_n n (Some a')) =
      map (\<lambda>i. if i < unat (page_num a) - (unat (head_idx a) + 1)
        then (slot_addr a (head_idx a + 1 + of_nat i), unat (head_idx a) + 1 + i + 1 = unat (page_num a)) else (0, False)) [0..<n]"
      using Suc.IH [OF a(2)] a(3) by (simp add: a'_def slot_addr_def add.commute)
    have lt: "unat (head_idx a) < unat (page_num a)" using True by (simp add: word_less_nat_alt)
    have last: "head_idx a + 1 = page_num a \<longleftrightarrow> unat (head_idx a) + 1 = unat (page_num a)"
      using a(3) by (simp add: word_unat_eq_iff)
    have "fst (allocate_n (Suc n) (Some a)) = (slot_addr a (head_idx a), head_idx a + 1 = page_num a) # fst (allocate_n n (Some a'))"
      by (simp add: a(1) split: prod.splits)
    also have "\<dots> = map (\<lambda>i. if i < unat (page_num a) - unat (head_idx a)
        then (slot_addr a (head_idx a + of_nat i), unat (head_idx a) + i + 1 = unat (page_num a)) else (0, False)) (0 # map Suc [0..<n])"
      unfolding ih list.map last using lt by (auto simp: algebra_simps)
    finally show ?thesis unfolding upt .
  next
    case False
    then have "allocate (Some a) = (0, False, Some a)" "unat (page_num a) - unat (head_idx a) = 0"
      using allocate_correct [OF Suc.prems] by (simp_all add: word_less_nat_alt)
    then show ?thesis unfolding upt using Suc.IH [OF Suc.prems]
      by (cases "allocate_n n (Some a)") (simp add: comp_def map_replicate_const)
  qed
qed simp

subsection \<open>Properties\<close>

definition example_alloc :: allocator where
  "example_alloc = \<lparr>base_address = 0x10000, alloc_unit = PAGE_SIZE, page_num = 4, head_idx = 1\<rparr>"

lemma example_alloc_ok: "alloc_ok example_alloc"
  by (simp add: alloc_ok_def example_alloc_def)

text \<open>The pool hands out each of its slots exactly once, in order and all different, raises the
  flag that starts the dynamic phase with the last one and with no other, and answers null from
  then on.\<close>

lemma allocate_slots:
  assumes "alloc_ok a"
  shows "(\<forall>i < n. fst (allocate_n n (Some a)) ! i =
      (if unat (head_idx a) + i < unat (page_num a)
       then (slot_addr a (head_idx a + of_nat i), unat (head_idx a) + i + 1 = unat (page_num a)) else (0, False))) \<and>
    (\<forall>i < page_num a. slot_addr a i \<noteq> 0 \<and> (\<forall>j < page_num a. slot_addr a i = slot_addr a j \<longrightarrow> i = j))"
proof -
  have "slot_addr a i \<noteq> 0" if "i < page_num a" for i
    using slot_addr_bounds(1) [OF assms that] by auto
  then show ?thesis
    using allocate_n_correct [OF assms, of n] slot_addr_inject [OF assms] by (auto simp: less_diff_conv add.commute)
qed

text \<open>\<open>random_select\<close> always answers with a slot of the pool once a page has been allocated. The
  comparison \<open>idx > head_idx_\<close> lets the slot just past the allocated ones through; when the
  pool is full, which is when the sampler runs, the slot is an allocated one.\<close>

lemma random_select_slot:
  assumes "alloc_ok a" "0 < head_idx a"
  shows "\<exists>i. random_select E a w = Inr (slot_addr a i, w\<lparr>draws := draws w + 1\<rparr>) \<and>
    i < page_num a \<and> i \<le> head_idx a \<and> slot_addr a i \<in> set (pool_slots a)"
  using random_select_correct [OF assms, of E w] pool_slots_iff [of _ a] by blast

text \<open>C33: the slots of the pool. It hands out each of them exactly once, in order and all different, raises the
  flag that starts the dynamic phase with the last one and with no other, and answers null from
  then on. \<open>random_select\<close> answers with a slot of the pool once one has been handed out, which may be the next one:
  the comparison \<open>idx > head_idx_\<close> lets the slot just past the allocated ones through.\<close>

theorem allocate_spec:
  assumes "alloc_ok a"
  shows "(\<forall>i < n. fst (allocate_n n (Some a)) ! i =
      (if unat (head_idx a) + i < unat (page_num a)
       then (slot_addr a (head_idx a + of_nat i), unat (head_idx a) + i + 1 = unat (page_num a)) else (0, False))) \<and>
    (\<forall>i < page_num a. slot_addr a i \<noteq> 0 \<and> (\<forall>j < page_num a. slot_addr a i = slot_addr a j \<longrightarrow> i = j)) \<and>
    (0 < head_idx a \<longrightarrow> (\<exists>i. random_select E a w = Inr (slot_addr a i, w\<lparr>draws := draws w + 1\<rparr>) \<and>
      i < page_num a \<and> i \<le> head_idx a \<and> slot_addr a i \<in> set (pool_slots a)))"
  using allocate_slots [OF assms, of n] random_select_slot [OF assms, of E w] by blast

theorem allocate_spec_witness:
  "fst (allocate_n 4 (Some example_alloc)) ! 2 = (0x10C00, True) \<and> fst (allocate_n 4 (Some example_alloc)) ! 3 = (0, False) \<and>
   (\<exists>i. random_select \<lparr>hash_of = id, rnd = (\<lambda>n. 5 * n + 2)\<rparr> example_alloc example_world =
     Inr (slot_addr example_alloc i, example_world\<lparr>draws := 1\<rparr>) \<and> i < 4 \<and> i \<le> 1)"
proof -
  note s = allocate_spec [OF example_alloc_ok, of 4 "\<lparr>hash_of = id, rnd = (\<lambda>n. 5 * n + 2)\<rparr>" example_world]
  have "fst (allocate_n 4 (Some example_alloc)) ! i =
      (if unat (head_idx example_alloc) + i < unat (page_num example_alloc)
       then (slot_addr example_alloc (head_idx example_alloc + of_nat i),
         unat (head_idx example_alloc) + i + 1 = unat (page_num example_alloc)) else (0, False))" if "i < 4" for i
    using s that by blast
  from this [of 2] this [of 3]
  have "fst (allocate_n 4 (Some example_alloc)) ! 2 = (0x10C00, True)" "fst (allocate_n 4 (Some example_alloc)) ! 3 = (0, False)"
    by (simp_all add: example_alloc_def slot_addr_def PAGE_SIZE_def)
  moreover have "0 < head_idx example_alloc" "page_num example_alloc = 4" "head_idx example_alloc = 1" by (simp_all add: example_alloc_def)
  moreover have "draws example_world = 0" by (simp add: example_world_def)
  ultimately show ?thesis using s by simp blast
qed

end
