(* ===== verification/Cache.thy ===== *)
theory Cache
  imports HashTable Allocator
begin

text \<open>
  The buffer manager (\<open>include/cache/LeanStoreCache.h\<close>). The record \<open>cache\<close> extends the
  world and the two tables by the fields of \<open>CacheManager\<close>, the thread-local
  \<open>local_page_set\<close> (a stack, top first) and the pool of \<open>CacheAllocator\<close>. Operations
  thread the state and return a value, or the failure in which they end. Statistics that are
  only printed have no field.
\<close>

record cache = tables +
  capacity :: u64
  cstate :: nat
  inner_miss :: u64
  leaf_miss :: u64
  full_page_miss :: u64
  rdma_write :: u64
  wrong_parent :: u64
  buffer_min_limit :: u64
  buffer_max_limit :: u64
  admission_idx :: u64
  local_pages :: "u64 list"
  pool :: "allocator option"

type_synonym 'a cache_st = "'a cache_scheme"

definition probing_length :: u64 where "probing_length = 8"
definition num_pages_to_sample :: nat where "num_pages_to_sample = 2"

text \<open>A reference to a \<open>GlobalAddress\<close>: a local variable, or a child slot of a node.\<close>

datatype slot_ref = LocalSlot gaddr | ChildSlot u64 nat

fun slot_val :: "slot_ref \<Rightarrow> 'a world_st \<Rightarrow> gaddr" where
  "slot_val (LocalSlot g) w = g"
| "slot_val (ChildSlot p i) w = children (mem w p) ! i"

fun set_slot :: "slot_ref \<Rightarrow> gaddr \<Rightarrow> 'a world_st \<Rightarrow> 'a world_st" where
  "set_slot (LocalSlot g) v w = w"
| "set_slot (ChildSlot p i) v w = set_node p ((mem w p)\<lparr>children := (children (mem w p))[i := v]\<rparr>) w"

definition set_pos :: "u64 \<Rightarrow> pos_state \<Rightarrow> 'a world_st \<Rightarrow> 'a world_st" where
  "set_pos a st w = set_node a ((mem w a)\<lparr>pos_state := st\<rparr>) w"

subsection \<open>Construction\<close>

text \<open>
  The constructor, with the process-wide state it finds: the allocator instance, the memory and
  the local page set. \<open>cool_entries\<close> is \<open>cache_capacity * cooling_ratio\<close>, \<open>adm\<close>
  is \<open>10000 * admission_rate\<close>, both truncated; \<open>bmin\<close> and \<open>bmax\<close> are the
  indeterminate values of the two limit fields, which no code sets. A failed mapping throws.
\<close>

definition mk_CacheManager ::
    "u64 \<Rightarrow> allocator option \<Rightarrow> (u64 \<Rightarrow> page) \<Rightarrow> u64 list \<Rightarrow> page pstore \<Rightarrow> u64 \<Rightarrow> u64 \<Rightarrow> u64 \<Rightarrow> u64 \<Rightarrow> u64 \<Rightarrow> cache option" where
  "mk_CacheManager mmap inst m lps b cache_capacity cool_entries adm bmin bmax =
     (case alloc_initialize mmap PAGE_SIZE (cache_capacity * PAGE_SIZE) inst of
        None \<Rightarrow> None
      | Some a \<Rightarrow> Some
          \<lparr>mem = (case inst of None \<Rightarrow> zero_slots (pool_slots a) m | Some _ \<Rightarrow> m), be = b, scratch = zero_page,
           draws = 0, ht = mk_HashTable cool_entries, pt = mk_PageTable cache_capacity,
           capacity = cache_capacity, cstate = 0, inner_miss = 0, leaf_miss = 0, full_page_miss = 0,
           rdma_write = 0, wrong_parent = 0, buffer_min_limit = bmin, buffer_max_limit = bmax,
           admission_idx = adm, local_pages = lps, pool = Some a\<rparr>)"

subsection \<open>Lookup by swizzled pointer\<close>

definition search_in_cache :: "gaddr \<Rightarrow> u64" where
  "search_in_cache node = (if swizzled node then hide node else 0)"

definition is_in_cache :: "gaddr \<Rightarrow> bool" where
  "is_in_cache node = swizzled node"

subsection \<open>The local page set\<close>

definition insert_local_set :: "u64 \<Rightarrow> 'a cache_st \<Rightarrow> 'a cache_st" where
  "insert_local_set a s = (set_pos a POS_LOCAL s)\<lparr>local_pages := a # local_pages s\<rparr>"

definition get_local_page_set :: "'a cache_st \<Rightarrow> u64 \<times> 'a cache_st" where
  "get_local_page_set s =
     (case local_pages s of [] \<Rightarrow> (0, s) | a # as \<Rightarrow> (a, s\<lparr>local_pages := as\<rparr>))"

subsection \<open>Demotion\<close>

text \<open>The common end of the two demoting branches of \<open>sample_page\<close>.\<close>

definition demote :: "env \<Rightarrow> u64 \<Rightarrow> 'a cache_st \<Rightarrow> 'a cache_st res" where
  "demote E cur s =
     bindR (if dirty (mem s cur) then remote_write (remote_address (mem s cur)) cur s else Inr s)
       (\<lambda>s1. bindR (ht_insert E (remote_address (mem s1 cur)) cur 0 s1)
         (\<lambda>(evict_page, s2). Inr (if evict_page \<noteq> 0 then insert_local_set evict_page s2 else s2)))"

definition unlink_child :: "u64 \<Rightarrow> nat \<Rightarrow> u64 \<Rightarrow> 'a world_st \<Rightarrow> 'a world_st" where
  "unlink_child parent i cur w =
     (let w1 = set_node parent ((mem w parent)\<lparr>children := (children (mem w parent))[i := remote_address (mem w cur)]\<rparr>) w;
          w2 = set_node parent (unset_bitmap i (mem w1 parent)) w1
      in set_node cur ((mem w2 cur)\<lparr>parent_ptr := 0\<rparr>) w2)"

text \<open>Walks of the sampler follow at most one pointer per level, and a level is a byte.\<close>

definition walk_fuel :: nat where "walk_fuel = 256"

text \<open>One turn of the loop of \<open>sample_page\<close>: whether a page was demoted, and the state.\<close>

definition sample_once :: "env \<Rightarrow> 'a cache_st \<Rightarrow> (bool \<times> 'a cache_st) res" where
  "sample_once E s =
     (case pool s of None \<Rightarrow> Inl OutOfBounds
      | Some al \<Rightarrow>
        bindR (random_select E al s) (\<lambda>(page, s1).
          if pos_state (mem s1 page) \<noteq> POS_HOT then Inr (False, s1)
          else bindR (recursive_iterate walk_fuel (mem s1) page (-1)) (\<lambda>(found, idx_in_parent).
            case found of None \<Rightarrow> Inr (False, s1)
            | Some cur \<Rightarrow>
                let parent = parent_ptr (mem s1 cur)
                in if parent \<noteq> 0 \<and> level (mem s1 parent) \<noteq> 255 then
                     assertR (pos_state (mem s1 cur) = POS_HOT)
                       (let i = (if idx_in_parent = -1 then findIdx (mem s1 parent) (swz cur) else idx_in_parent)
                        in if i = -1 then
                             Inr (False, (set_node cur ((mem s1 cur)\<lparr>parent_ptr := 0\<rparr>) s1)\<lparr>wrong_parent := wrong_parent s1 + 1\<rparr>)
                           else assertR (check_parent_child_info (mem s1 parent) cur (mem s1 cur))
                             (bindR (demote E cur (unlink_child parent (nat i) cur s1)) (\<lambda>s2. Inr (True, s2))))
                   else if parent = 0 then bindR (demote E cur s1) (\<lambda>s2. Inr (True, s2))
                   else Inr (False, s1))))"

text \<open>The counter is checked before each turn: the 1000th turn is \<open>exit(0)\<close>.\<close>

fun sample_loop :: "env \<Rightarrow> nat \<Rightarrow> 'a cache_st \<Rightarrow> 'a cache_st res" where
  "sample_loop E 0 s = Inl ExitCall"
| "sample_loop E (Suc n) s =
     bindR (sample_once E s) (\<lambda>(done, s'). if done then Inr s' else sample_loop E n s')"

definition sample_page :: "env \<Rightarrow> 'a cache_st \<Rightarrow> 'a cache_st res" where
  "sample_page E s = sample_loop E 999 s"

fun sample_multiple_pages :: "env \<Rightarrow> nat \<Rightarrow> 'a cache_st \<Rightarrow> 'a cache_st res" where
  "sample_multiple_pages E 0 s = Inr s"
| "sample_multiple_pages E (Suc n) s = bindR (sample_page E s) (sample_multiple_pages E n)"

subsection \<open>Free slots\<close>

definition try_get_empty_page :: "env \<Rightarrow> 'a cache_st \<Rightarrow> (u64 \<times> 'a cache_st) res" where
  "try_get_empty_page E s =
     (if cstate s = 1 then
        (if local_pages s \<noteq> [] then Inr (get_local_page_set s)
         else bindR (random_evict_to_remote E probing_length s) (\<lambda>(ret, s1).
           bindR (if ret = None then sample_multiple_pages E num_pages_to_sample s1 else Inr s1) (\<lambda>s2.
             let page = (case ret of Some p \<Rightarrow> p | None \<Rightarrow> 0)
             in if page = 0 \<and> local_pages s2 \<noteq> [] then
                  (case get_local_page_set s2 of (page', s3) \<Rightarrow> assertR (page' \<noteq> 0) (Inr (page', s3)))
                else Inr (page, s2))))
      else
        (case allocate (pool s) of
           (page, last_page_flag, inst) \<Rightarrow>
             let s1 = s\<lparr>pool := inst, cstate := (if last_page_flag then 1 else cstate s)\<rparr>
             in if page \<noteq> 0 then Inr (page, s1) else Inl Spin))"

fun get_empty_loop :: "env \<Rightarrow> nat \<Rightarrow> 'a cache_st \<Rightarrow> (u64 \<times> 'a cache_st) res" where
  "get_empty_loop E 0 s = Inl OutOfFuel"
| "get_empty_loop E (Suc n) s =
     bindR (try_get_empty_page E s) (\<lambda>(page, s'). if page \<noteq> 0 then Inr (page, s') else get_empty_loop E n s')"

text \<open>Every turn that finds no slot demotes two hot pages, so the pool bounds the turns.\<close>

definition get_empty_fuel :: "'a cache_st \<Rightarrow> nat" where
  "get_empty_fuel s = (case pool s of None \<Rightarrow> 1 | Some al \<Rightarrow> unat (page_num al) + 1)"

definition get_empty_page :: "env \<Rightarrow> 'a cache_st \<Rightarrow> (u64 \<times> 'a cache_st) res" where
  "get_empty_page E s = get_empty_loop E (get_empty_fuel s) s"

definition fill_local_page_set :: "env \<Rightarrow> 'a cache_st \<Rightarrow> 'a cache_st res" where
  "fill_local_page_set E s =
     (if local_pages s = [] then bindR (get_empty_page E s) (\<lambda>(p, s'). Inr (insert_local_set p s')) else Inr s)"

definition opportunistic_sample :: "env \<Rightarrow> 'a cache_st \<Rightarrow> 'a cache_st res" where
  "opportunistic_sample E s =
     (if cstate s = 1 \<and> local_pages s = [] then sample_multiple_pages E num_pages_to_sample s else Inr s)"

subsection \<open>Admission\<close>

text \<open>
  \<open>cache_insert\<close> of the page image \<open>cache_node\<close> for the address in \<open>gslot\<close>: the new
  slot, the value the reference holds afterwards, and the state. The reference is read after
  the free slot has been found.
\<close>

definition cache_insert :: "env \<Rightarrow> slot_ref \<Rightarrow> page \<Rightarrow> u64 \<Rightarrow> bool \<Rightarrow> 'a cache_st \<Rightarrow> (u64 \<times> gaddr \<times> 'a cache_st) res" where
  "cache_insert E gslot cache_node parent add_to_pt s =
     bindR (get_empty_page E s) (\<lambda>(page, s1).
       let s2 = set_node page (cache_node\<lparr>pos_state := POS_PIN, parent_ptr := parent\<rparr>) s1;
           snapshot = slot_val gslot s2;
           s3 = set_slot gslot (swz page) s2
       in if add_to_pt then
            bindR (upsert_with_lock (hash_of E) (\<lambda>a. remote_address (mem s3 a)) (pt s3) snapshot page)
              (\<lambda>(_, _, t). Inr (page, swz page, s3\<lparr>pt := t\<rparr>))
          else Inr (page, swz page, s3))"

subsection \<open>Swizzling\<close>

definition swizzling :: "slot_ref \<Rightarrow> u64 \<Rightarrow> nat \<Rightarrow> u64 \<Rightarrow> 'a cache_st \<Rightarrow> 'a cache_st res" where
  "swizzling gslot parent child_idx child s =
     bindR (if parent \<noteq> 0 \<and> \<not> check_parent_child_info (mem s parent) child (mem s child)
            then (case raw_remote_read (remote_address (mem s child)) s of
                    (_, s') \<Rightarrow> assertR (check_parent_child_info (mem s' parent) child (mem s' child)) (Inr s'))
            else Inr s) (\<lambda>s0.
       let s1 = set_node child ((mem s0 child)\<lparr>parent_ptr := parent, pos_state := POS_HOT\<rparr>) s0;
           s2 = set_slot gslot (swz child) s1
       in if parent \<noteq> 0 then
            (let s3 = set_node parent (set_bitmap child_idx (mem s2 parent)) s2;
                 s4 = (if level (mem s3 parent) = 255
                       then set_node parent ((mem s3 parent)\<lparr>children := (children (mem s3 parent))[0 := swz child]\<rparr>) s3
                       else s3)
             in assertR (check_parent_child_info (mem s4 parent) child (mem s4 child)) (Inr s4))
          else Inr s2)"

definition unswizzling :: "slot_ref \<Rightarrow> u64 \<Rightarrow> nat \<Rightarrow> u64 \<Rightarrow> 'a cache_st \<Rightarrow> 'a cache_st" where
  "unswizzling gslot parent child_idx child s =
     (let s1 = set_node parent (unset_bitmap child_idx (mem s parent)) s;
          s2 = set_slot gslot (remote_address (mem s1 child)) s1
      in set_node child ((mem s2 child)\<lparr>parent_ptr := 0\<rparr>) s2)"

definition fit_limits :: "page \<Rightarrow> 'a cache_st \<Rightarrow> bool" where
  "fit_limits p s \<longleftrightarrow> \<not> (min_limit p \<ge> buffer_max_limit s \<or> max_limit p < buffer_min_limit s)"

definition sync_or_not :: "page \<Rightarrow> nat \<Rightarrow> 'a cache_st \<Rightarrow> bool" where
  "sync_or_not inner idx s =
     (if level inner = 255 then True
      else \<not> (child_min inner idx \<ge> buffer_min_limit s \<and> child_max inner idx < buffer_max_limit s))"

definition replace_child :: "u64 \<Rightarrow> u64 \<Rightarrow> u64 \<Rightarrow> 'a cache_st \<Rightarrow> 'a cache_st res" where
  "replace_child parent cur_node new_node s =
     (let i = (if level (mem s parent) = 255 then 0 else findIdx (mem s parent) (swz cur_node))
      in assertR (i \<noteq> -1)
        (let s1 = set_node cur_node ((mem s cur_node)\<lparr>parent_ptr := 0\<rparr>) s;
             s2 = set_node new_node ((mem s1 new_node)\<lparr>parent_ptr := parent\<rparr>) s1
         in Inr (set_node parent ((mem s2 parent)\<lparr>children := (children (mem s2 parent))[nat i := swz new_node]\<rparr>) s2)))"

subsection \<open>Flushing and resetting\<close>

fun flush_slots :: "u64 list \<Rightarrow> 'a cache_st \<Rightarrow> 'a cache_st res" where
  "flush_slots [] s = Inr s"
| "flush_slots (a # as) s =
     (if dirty (mem s a) then
        bindR (fully_unswizzle (mem s) (mem s a)) (\<lambda>p.
          bindR (remote_write_node (remote_address p) p False (be s)) (\<lambda>(p', b').
            flush_slots as (set_node a ((mem s a)\<lparr>dirty := False\<rparr>) (s\<lparr>scratch := p', be := b'\<rparr>))))
      else flush_slots as s)"

definition flush_all :: "'a cache_st \<Rightarrow> 'a cache_st res" where
  "flush_all s =
     (let s1 = s\<lparr>inner_miss := 0, leaf_miss := 0\<rparr>
      in case pool s1 of None \<Rightarrow> Inl OutOfBounds | Some al \<Rightarrow> flush_slots (pool_slots al) s1)"

definition cache_reset :: "bool \<Rightarrow> 'a cache_st \<Rightarrow> 'a cache_st res" where
  "cache_reset flush_dirty s =
     bindR (if flush_dirty then flush_all s else Inr s) (\<lambda>s1.
       case alloc_reset (pool s1) (mem s1) of
         (inst, m) \<Rightarrow>
           Inr (s1\<lparr>cstate := 0, inner_miss := 0, leaf_miss := 0, full_page_miss := 0, rdma_write := 0,
                   pool := inst, mem := m, ht := ht_reset (ht s1), pt := pt_reset (pt s1)\<rparr>))"

definition check_dirty_in_buffer :: "'a cache_st \<Rightarrow> nat" where
  "check_dirty_in_buffer s =
     (case pool s of None \<Rightarrow> 0 | Some al \<Rightarrow> length (filter (\<lambda>a. dirty (mem s a)) (pool_slots al)))"

end
