(* ===== verification/Tree.thy ===== *)
theory Tree
  imports Cache
begin

text \<open>
  The B+-tree driver (\<open>include/tree/LeanStoreTree.h\<close>). The record \<open>tree\<close> extends the cache
  by the fields of \<open>LeanStoreTree\<close>: the heap address of the super root, the backend address of
  the real root, and the statistics. The driver descends through child slots, loading every page
  it meets into the pool, and splits full pages on the way down of an insertion.
\<close>

record tree = cache +
  super_root :: u64
  root_addr :: gaddr
  height :: nat
  leaf_num :: nat
  inner_num :: nat

type_synonym 'a tree_st = "'a tree_scheme"

subsection \<open>Allocation of pages in the backend\<close>

definition allocate_leaf :: "u64 \<Rightarrow> u64 \<Rightarrow> 'a tree_st \<Rightarrow> gaddr \<times> 'a tree_st" where
  "allocate_leaf min_lim max_lim s =
     (case ps_alloc (be s) of
        (addr, b) \<Rightarrow>
          (addr, s\<lparr>be := ps_write b addr ((mk_BTreeLeaf addr)\<lparr>min_limit := min_lim, max_limit := max_lim\<rparr>)\<rparr>))"

definition allocate_inner :: "nat \<Rightarrow> u64 \<Rightarrow> u64 \<Rightarrow> 'a tree_st \<Rightarrow> gaddr \<times> 'a tree_st" where
  "allocate_inner lvl min_lim max_lim s =
     (case ps_alloc (be s) of
        (addr, b) \<Rightarrow>
          (addr, s\<lparr>be := ps_write b addr ((mk_BTreeInner lvl addr)\<lparr>min_limit := min_lim, max_limit := max_lim\<rparr>)\<rparr>))"

subsection \<open>Loading a child\<close>

definition load_child :: "env \<Rightarrow> slot_ref \<Rightarrow> u64 \<Rightarrow> nat \<Rightarrow> 'a tree_st \<Rightarrow> (u64 \<times> 'a tree_st) res" where
  "load_child E child_slot parent child_idx s =
     (if swizzled (slot_val child_slot s) then Inr (hide (slot_val child_slot s), s)
      else
        (let pin = (parent \<noteq> 0 \<and> parent \<noteq> super_root s);
             prev_state = pos_state (mem s parent);
             s1 = (if pin then set_pos parent POS_PIN s else s)
         in case raw_remote_read (slot_val child_slot s1) s1 of
              (buf, s2) \<Rightarrow>
                let s3 = (if ptype buf = BTreeLeaf then s2\<lparr>leaf_miss := leaf_miss s2 + 1\<rparr>
                          else s2\<lparr>inner_miss := inner_miss s2 + 1\<rparr>)
                in bindR (cache_insert E child_slot buf parent True s3) (\<lambda>(cached, _, s4).
                     let s5 = set_pos cached POS_HOT s4;
                         s6 = (if parent \<noteq> 0 \<and> level (mem s5 parent) \<noteq> 255 \<and> ptype (mem s5 parent) = BTreeInner
                               then set_node parent (set_bitmap child_idx (mem s5 parent)) s5 else s5);
                         s7 = (if pin then set_pos parent prev_state s6 else s6)
                     in Inr (cached, s7))))"

definition is_full :: "page \<Rightarrow> bool" where
  "is_full p = (if ptype p = BTreeLeaf then leaf_isFull p else inner_isFull p)"

subsection \<open>Splitting\<close>

definition make_new_root :: "env \<Rightarrow> u64 \<Rightarrow> u64 \<Rightarrow> gaddr \<Rightarrow> nat \<Rightarrow> 'a tree_st \<Rightarrow> 'a tree_st res" where
  "make_new_root E sep leftChild rightAddr lvl s =
     (case ps_alloc (be s) of
        (new_root_addr, b) \<Rightarrow>
          let r0 = mk_BTreeInner lvl new_root_addr;
              r1 = r0\<lparr>count := 1, keys := (keys r0)[0 := sep], children := (children r0)[0 := swz leftChild, 1 := rightAddr]\<rparr>;
              r2 = set_bitmap 0 r1;
              r3 = (if swizzled rightAddr then set_bitmap 1 r2 else r2);
              s1 = s\<lparr>be := b, inner_num := inner_num s + 1, root_addr := new_root_addr\<rparr>
          in bindR (cache_insert E (LocalSlot new_root_addr) r3 (super_root s1) True s1) (\<lambda>(cached_root, new_root_slot, s2).
               let s3 = set_node cached_root ((mem s2 cached_root)\<lparr>pos_state := POS_HOT, dirty := True\<rparr>) s2;
                   sr = super_root s3;
                   s4 = set_node sr ((mem s3 sr)\<lparr>children := (children (mem s3 sr))[0 := new_root_slot], bitmap := 0, count := 0\<rparr>) s3;
                   s5 = set_node leftChild ((mem s4 leftChild)\<lparr>parent_ptr := cached_root\<rparr>) s4;
                   s6 = (if swizzled rightAddr
                         then set_node (hide rightAddr) ((mem s5 (hide rightAddr))\<lparr>parent_ptr := cached_root\<rparr>) s5 else s5)
               in Inr (s6\<lparr>height := lvl + 1\<rparr>)))"

definition split_child :: "env \<Rightarrow> u64 \<Rightarrow> nat \<Rightarrow> u64 \<Rightarrow> 'a tree_st \<Rightarrow> 'a tree_st res" where
  "split_child E parent idx child s =
     (if ptype (mem s child) = BTreeLeaf then
        (case ps_alloc (be s) of
           (sib_addr, b) \<Rightarrow>
             (case leaf_split (mem s child) (mk_BTreeLeaf sib_addr) of
                (sep, left, sib) \<Rightarrow>
                  let s1 = set_node child (left\<lparr>dirty := True\<rparr>) (s\<lparr>be := ps_write b sib_addr sib, leaf_num := leaf_num s + 1\<rparr>)
                  in if parent = super_root s then make_new_root E sep child sib_addr 1 s1
                     else bindR (inner_insert (mem s1 parent) sep sib_addr) (\<lambda>p'.
                            let s2 = set_node parent (p'\<lparr>dirty := True\<rparr>) s1
                            in bindR (load_child E (ChildSlot parent (idx + 1)) parent (idx + 1) s2) (\<lambda>(_, s3). Inr s3))))
      else
        (case ps_alloc (be s) of
           (sib_addr, b) \<Rightarrow>
             (case inner_split (mem s child) (mk_BTreeInner (level (mem s child)) sib_addr) of
                (sep, left, sib) \<Rightarrow>
                  let s1 = set_node child (left\<lparr>dirty := True\<rparr>) (s\<lparr>be := b, inner_num := inner_num s + 1\<rparr>)
                  in bindR (cache_insert E (LocalSlot sib_addr) sib parent True s1) (\<lambda>(cached_sib, sib_slot, s2).
                       let s3 = set_node cached_sib ((mem s2 cached_sib)\<lparr>pos_state := POS_HOT, dirty := True\<rparr>) s2;
                           s4 = s3\<lparr>mem := update_all_parent_ptr cached_sib (mem s3)\<rparr>
                       in if parent = super_root s
                          then make_new_root E sep child sib_slot (u8 (int (level (mem s4 child)) + 1)) s4
                          else bindR (inner_insert (mem s4 parent) sep sib_slot) (\<lambda>p'.
                                 Inr (set_node parent (p'\<lparr>dirty := True\<rparr>) s4))))))"

subsection \<open>The operations\<close>

definition load_root :: "env \<Rightarrow> 'a tree_st \<Rightarrow> (u64 \<times> 'a tree_st) res" where
  "load_root E s = load_child E (ChildSlot (super_root s) 0) (super_root s) 0 s"

text \<open>The descent that \<open>lookup\<close>, \<open>update\<close>, \<open>remove\<close> and \<open>range_scan\<close> share.\<close>

fun descend :: "env \<Rightarrow> nat \<Rightarrow> u64 \<Rightarrow> u64 \<Rightarrow> 'a tree_st \<Rightarrow> (u64 \<times> 'a tree_st) res" where
  "descend E 0 k cur s = Inl OutOfFuel"
| "descend E (Suc fuel) k cur s =
     (if ptype (mem s cur) = BTreeInner then
        (let idx = inner_lowerBound (mem s cur) k
         in bindR (load_child E (ChildSlot cur idx) cur idx s) (\<lambda>(child, s'). descend E fuel k child s'))
      else Inr (cur, s))"

definition find_leaf :: "env \<Rightarrow> u64 \<Rightarrow> 'a tree_st \<Rightarrow> (u64 \<times> 'a tree_st) res" where
  "find_leaf E k s = bindR (load_root E s) (\<lambda>(cur, s'). descend E walk_fuel k cur s')"

fun insert_descend :: "env \<Rightarrow> nat \<Rightarrow> u64 \<Rightarrow> u64 \<Rightarrow> 'a tree_st \<Rightarrow> (u64 \<times> 'a tree_st) res" where
  "insert_descend E 0 k cur s = Inl OutOfFuel"
| "insert_descend E (Suc fuel) k cur s =
     (if ptype (mem s cur) = BTreeInner then
        (let idx = inner_lowerBound (mem s cur) k
         in bindR (load_child E (ChildSlot cur idx) cur idx s) (\<lambda>(child, s1).
              if is_full (mem s1 child) then
                bindR (split_child E cur idx child s1) (\<lambda>s2.
                  let idx' = inner_lowerBound (mem s2 cur) k
                  in bindR (load_child E (ChildSlot cur idx') cur idx' s2) (\<lambda>(child', s3).
                       insert_descend E fuel k child' s3))
              else insert_descend E fuel k child s1))
      else Inr (cur, s))"

definition tree_insert :: "env \<Rightarrow> u64 \<Rightarrow> u64 \<Rightarrow> 'a tree_st \<Rightarrow> (bool \<times> 'a tree_st) res" where
  "tree_insert E k v s =
     bindR (load_root E s) (\<lambda>(cur, s1).
       bindR (if is_full (mem s1 cur)
              then bindR (split_child E (super_root s1) 0 cur s1) (load_root E)
              else Inr (cur, s1)) (\<lambda>(cur', s2).
         bindR (insert_descend E walk_fuel k cur' s2) (\<lambda>(leaf, s3).
           case leaf_insert (mem s3 leaf) k v of
             (inserted, p) \<Rightarrow> Inr (inserted, set_node leaf (p\<lparr>dirty := True\<rparr>) s3))))"

definition tree_lookup :: "env \<Rightarrow> u64 \<Rightarrow> 'a tree_st \<Rightarrow> (u64 option \<times> 'a tree_st) res" where
  "tree_lookup E k s = bindR (find_leaf E k s) (\<lambda>(leaf, s'). Inr (leaf_find (mem s' leaf) k, s'))"

definition tree_update :: "env \<Rightarrow> u64 \<Rightarrow> u64 \<Rightarrow> 'a tree_st \<Rightarrow> (bool \<times> 'a tree_st) res" where
  "tree_update E k v s =
     bindR (find_leaf E k s) (\<lambda>(leaf, s').
       case leaf_update (mem s' leaf) k v of
         (ok, p) \<Rightarrow> Inr (ok, set_node leaf (if ok then p\<lparr>dirty := True\<rparr> else p) s'))"

definition tree_remove :: "env \<Rightarrow> u64 \<Rightarrow> 'a tree_st \<Rightarrow> (bool \<times> 'a tree_st) res" where
  "tree_remove E k s =
     bindR (find_leaf E k s) (\<lambda>(leaf, s').
       case leaf_remove (mem s' leaf) k of
         (ok, p) \<Rightarrow> Inr (ok, set_node leaf (if ok then p\<lparr>dirty := True\<rparr> else p) s'))"

definition tree_range_scan :: "env \<Rightarrow> u64 \<Rightarrow> nat \<Rightarrow> 'a tree_st \<Rightarrow> ((u64 \<times> u64) list \<times> 'a tree_st) res" where
  "tree_range_scan E k num s =
     bindR (find_leaf E k s) (\<lambda>(leaf, s'). Inr (leaf_rangeScan (mem s' leaf) k num, s'))"

definition clear_statistic :: "'a tree_st \<Rightarrow> 'a tree_st" where
  "clear_statistic s = s\<lparr>inner_miss := 0, leaf_miss := 0, full_page_miss := 0, rdma_write := 0\<rparr>"

text \<open>The numbers that it prints: height, leaves, inner nodes, dirty pages in the pool.\<close>

definition get_statistic :: "'a tree_st \<Rightarrow> nat \<times> nat \<times> nat \<times> nat" where
  "get_statistic s = (height s, leaf_num s, inner_num s, check_dirty_in_buffer s)"

definition reset_buffer_pool :: "bool \<Rightarrow> 'a tree_st \<Rightarrow> 'a tree_st res" where
  "reset_buffer_pool flush_dirty s = cache_reset flush_dirty s"

text \<open>The constructor over a fresh cache; \<open>sr\<close> is the heap address of the super root. The
  destructor flushes.\<close>

definition mk_LeanStoreTree :: "env \<Rightarrow> u64 \<Rightarrow> cache \<Rightarrow> tree res" where
  "mk_LeanStoreTree E sr c =
     (let t = cache.extend c \<lparr>super_root = sr, root_addr = ga_Null, height = 1, leaf_num = 1, inner_num = 0\<rparr>;
          t1 = set_node sr ((mk_BTreeInner 255 ga_Null)\<lparr>pos_state := POS_HOT\<rparr>) t
      in case allocate_leaf KEY_MIN KEY_MAX t1 of
           (root, t2) \<Rightarrow>
             let t3 = set_node sr ((mem t2 sr)\<lparr>children := (children (mem t2 sr))[0 := root], count := 0\<rparr>) (t2\<lparr>root_addr := root\<rparr>)
             in bindR (load_child E (ChildSlot sr 0) sr 0 t3) (\<lambda>(_, t4). Inr t4))"

definition destroy_tree :: "'a tree_st \<Rightarrow> 'a tree_st res" where
  "destroy_tree s = flush_all s"

end
