(* ===== verification/Residency.thy ===== *)
theory Residency
  imports Cache
begin

text \<open>
  What the cache keeps true about the pages in its pool, and why eviction does not show. The
  abstract content of the store is a function \<open>V\<close> from backend addresses to logical nodes,
  in which children are backend addresses and nothing says whether a page is in the pool.
  \<open>residency\<close> relates it to memory, backend and the set \<open>R\<close> of slots in use: a page in
  the pool, or else its image in the backend, is what \<open>V\<close> says, and pool pointers and parent
  pointers fit together. Demoting a page and loading one keep \<open>V\<close>; only the modification of
  a page changes it.
\<close>

subsection \<open>Logical nodes\<close>

datatype lnode =
  LLeaf u64 u64 "(u64 \<times> u64) list"
| LInner nat u64 u64 "u64 list" "gaddr list"

fun vlevel :: "lnode \<Rightarrow> nat" where
  "vlevel (LLeaf lo hi es) = 0" | "vlevel (LInner l lo hi ks cs) = l"

fun vlo :: "lnode \<Rightarrow> u64" where
  "vlo (LLeaf lo hi es) = lo" | "vlo (LInner l lo hi ks cs) = lo"

fun vhi :: "lnode \<Rightarrow> u64" where
  "vhi (LLeaf lo hi es) = hi" | "vhi (LInner l lo hi ks cs) = hi"

fun vkeys :: "lnode \<Rightarrow> u64 list" where
  "vkeys (LLeaf lo hi es) = []" | "vkeys (LInner l lo hi ks cs) = ks"

fun vkids :: "lnode \<Rightarrow> gaddr list" where
  "vkids (LLeaf lo hi es) = []" | "vkids (LInner l lo hi ks cs) = cs"

definition node_of :: "(u64 \<Rightarrow> page) \<Rightarrow> page \<Rightarrow> lnode" where
  "node_of m p =
     (if ptype p = BTreeInner
      then LInner (level p) (min_limit p) (max_limit p) (inner_keys p) (map (unswz m) (inner_children p))
      else LLeaf (min_limit p) (max_limit p) (leaf_entries p))"

definition page_ok :: "page \<Rightarrow> bool" where
  "page_ok p \<longleftrightarrow>
     (if ptype p = BTreeInner then inner_ok p \<and> bitmap_ok p \<and> 0 < level p \<and> level p < 255
      else ptype p = BTreeLeaf \<and> leaf_ok p \<and> leaf_in_limits p \<and> bitmap p = 0 \<and> level p = 0)"

text \<open>The limits that node \<open>n\<close> assigns to its child \<open>i\<close>.\<close>

definition kid_lo :: "lnode \<Rightarrow> nat \<Rightarrow> u64" where
  "kid_lo n i = (if i = 0 then vlo n else vkeys n ! (i - 1))"

definition kid_hi :: "lnode \<Rightarrow> nat \<Rightarrow> u64" where
  "kid_hi n i = (if i = length (vkeys n) then vhi n else vkeys n ! i)"

text \<open>A well-formed tree of logical nodes at the addresses \<open>T\<close>.\<close>

definition kids_ok :: "(gaddr \<Rightarrow> lnode) \<Rightarrow> gaddr set \<Rightarrow> lnode \<Rightarrow> bool" where
  "kids_ok V T n \<longleftrightarrow> (\<forall>i < length (vkids n). vkids n ! i \<in> T \<and> vlevel (V (vkids n ! i)) + 1 = vlevel n \<and>
     vlo (V (vkids n ! i)) = kid_lo n i \<and> vhi (V (vkids n ! i)) = kid_hi n i)"

definition keys_ok :: "lnode \<Rightarrow> bool" where
  "keys_ok n \<longleftrightarrow> (\<forall>k \<in> set (vkeys n). vlo n \<le> k \<and> k \<le> vhi n)"

definition vtree :: "(gaddr \<Rightarrow> lnode) \<Rightarrow> gaddr set \<Rightarrow> gaddr \<Rightarrow> bool" where
  "vtree V T rg \<longleftrightarrow> rg \<in> T \<and> (\<forall>g \<in> T. kids_ok V T (V g) \<and> keys_ok (V g) \<and> distinct (vkids (V g)) \<and> rg \<notin> set (vkids (V g))) \<and>
     (\<forall>g \<in> T. \<forall>h \<in> T. set (vkids (V g)) \<inter> set (vkids (V h)) \<noteq> {} \<longrightarrow> g = h)"

subsection \<open>Residency\<close>

text \<open>The image of a page at rest in the backend: nothing in it is a pool pointer.\<close>

definition at_rest :: "(gaddr \<Rightarrow> lnode) \<Rightarrow> page pstore \<Rightarrow> gaddr \<Rightarrow> bool" where
  "at_rest V b g \<longleftrightarrow> (let q = ps_page b (offset g)
     in page_ok q \<and> remote_address q = g \<and> bitmap q = 0 \<and> pos_state q = POS_REMOTE \<and> parent_ptr q = 0 \<and> node_of (\<lambda>_. zero_page) q = V g)"

definition points_back :: "(u64 \<Rightarrow> page) \<Rightarrow> u64 \<Rightarrow> u64 set \<Rightarrow> u64 \<Rightarrow> bool" where
  "points_back m sr R a \<longleftrightarrow>
     (parent_ptr (m a) = sr \<and> children (m sr) ! 0 = swz a) \<or>
     (parent_ptr (m a) \<in> R \<and> ptype (m (parent_ptr (m a))) = BTreeInner \<and>
      (\<exists>i \<le> count (m (parent_ptr (m a))). children (m (parent_ptr (m a))) ! i = swz a))"

definition slot_ok :: "(u64 \<Rightarrow> page) \<Rightarrow> u64 set \<Rightarrow> u64 \<Rightarrow> u64 \<Rightarrow> bool" where
  "slot_ok m R a v \<longleftrightarrow>
     (if swizzled v then hide v \<in> R \<and> parent_ptr (m (hide v)) = a else \<forall>b \<in> R. remote_address (m b) \<noteq> v)"

record view =
  vw_nodes :: "gaddr \<Rightarrow> lnode"
  vw_addrs :: "gaddr set"
  vw_root :: gaddr
  vw_super :: u64

definition residency :: "view \<Rightarrow> (u64 \<Rightarrow> page) \<Rightarrow> page pstore \<Rightarrow> u64 set \<Rightarrow> bool" where
  "residency W m b R \<longleftrightarrow>
     vtree (vw_nodes W) (vw_addrs W) (vw_root W) \<and>
     ps_ok b \<and> vw_addrs W \<subseteq> ps_allocated b \<and>
     level (m (vw_super W)) = 255 \<and> length (children (m (vw_super W))) = max_inner_entries \<and>
     vw_super W \<notin> R \<and> vw_super W \<noteq> 0 \<and>
     (\<forall>a \<in> R. \<not> swizzled a \<and> a \<noteq> 0 \<and> page_ok (m a) \<and> remote_address (m a) \<in> vw_addrs W \<and>
        node_of m (m a) = vw_nodes W (remote_address (m a)) \<and> points_back m (vw_super W) R a) \<and>
     (\<forall>a \<in> R. \<forall>a' \<in> R. remote_address (m a) = remote_address (m a') \<longrightarrow> a = a') \<and>
     (\<forall>a \<in> R. ptype (m a) = BTreeInner \<longrightarrow> (\<forall>i \<le> count (m a). slot_ok m R a (children (m a) ! i))) \<and>
     (\<forall>g \<in> vw_addrs W. (\<forall>a \<in> R. remote_address (m a) = g \<longrightarrow> \<not> dirty (m a)) \<longrightarrow> at_rest (vw_nodes W) b g) \<and>
     slot_ok m R (vw_super W) (children (m (vw_super W)) ! 0) \<and>
     unswz m (children (m (vw_super W)) ! 0) = vw_root W"

lemma residencyD:
  assumes "residency W m b R"
  shows "vtree (vw_nodes W) (vw_addrs W) (vw_root W)" "ps_ok b" "vw_addrs W \<subseteq> ps_allocated b"
    "level (m (vw_super W)) = 255" "length (children (m (vw_super W))) = max_inner_entries"
    "vw_super W \<notin> R" "vw_super W \<noteq> 0"
    "\<And>a. a \<in> R \<Longrightarrow> \<not> swizzled a" "\<And>a. a \<in> R \<Longrightarrow> a \<noteq> 0"
    "\<And>a. a \<in> R \<Longrightarrow> page_ok (m a)" "\<And>a. a \<in> R \<Longrightarrow> remote_address (m a) \<in> vw_addrs W"
    "\<And>a. a \<in> R \<Longrightarrow> node_of m (m a) = vw_nodes W (remote_address (m a))"
    "\<And>a. a \<in> R \<Longrightarrow> points_back m (vw_super W) R a"
    "\<And>a a'. a \<in> R \<Longrightarrow> a' \<in> R \<Longrightarrow> remote_address (m a) = remote_address (m a') \<Longrightarrow> a = a'"
    "\<And>a i. a \<in> R \<Longrightarrow> ptype (m a) = BTreeInner \<Longrightarrow> i \<le> count (m a) \<Longrightarrow> slot_ok m R a (children (m a) ! i)"
    "\<And>g. g \<in> vw_addrs W \<Longrightarrow> (\<And>a. a \<in> R \<Longrightarrow> remote_address (m a) = g \<Longrightarrow> \<not> dirty (m a)) \<Longrightarrow> at_rest (vw_nodes W) b g"
    "slot_ok m R (vw_super W) (children (m (vw_super W)) ! 0)"
    "unswz m (children (m (vw_super W)) ! 0) = vw_root W"
  using assms unfolding residency_def by blast+

lemma residencyI:
  assumes "vtree (vw_nodes W) (vw_addrs W) (vw_root W)" "ps_ok b" "vw_addrs W \<subseteq> ps_allocated b"
    "level (m (vw_super W)) = 255" "length (children (m (vw_super W))) = max_inner_entries"
    "vw_super W \<notin> R" "vw_super W \<noteq> 0"
    "\<And>a. a \<in> R \<Longrightarrow> \<not> swizzled a" "\<And>a. a \<in> R \<Longrightarrow> a \<noteq> 0"
    "\<And>a. a \<in> R \<Longrightarrow> page_ok (m a)" "\<And>a. a \<in> R \<Longrightarrow> remote_address (m a) \<in> vw_addrs W"
    "\<And>a. a \<in> R \<Longrightarrow> node_of m (m a) = vw_nodes W (remote_address (m a))"
    "\<And>a. a \<in> R \<Longrightarrow> points_back m (vw_super W) R a"
    "\<And>a a'. a \<in> R \<Longrightarrow> a' \<in> R \<Longrightarrow> remote_address (m a) = remote_address (m a') \<Longrightarrow> a = a'"
    "\<And>a i. a \<in> R \<Longrightarrow> ptype (m a) = BTreeInner \<Longrightarrow> i \<le> count (m a) \<Longrightarrow> slot_ok m R a (children (m a) ! i)"
    "\<And>g. g \<in> vw_addrs W \<Longrightarrow> (\<And>a. a \<in> R \<Longrightarrow> remote_address (m a) = g \<Longrightarrow> \<not> dirty (m a)) \<Longrightarrow> at_rest (vw_nodes W) b g"
    "slot_ok m R (vw_super W) (children (m (vw_super W)) ! 0)"
    "unswz m (children (m (vw_super W)) ! 0) = vw_root W"
  shows "residency W m b R"
  using assms unfolding residency_def by blast

lemma addrs_not_swizzled: "residency W m b R \<Longrightarrow> g \<in> vw_addrs W \<Longrightarrow> \<not> swizzled g"
  using ps_allocated_not_swizzled residencyD(2,3) by blast

subsection \<open>Kids and child slots\<close>

lemma vkids_node_of: "ptype p = BTreeInner \<Longrightarrow> vkids (node_of m p) = map (unswz m) (inner_children p)"
  and vkeys_node_of: "ptype p = BTreeInner \<Longrightarrow> vkeys (node_of m p) = inner_keys p"
  by (simp_all add: node_of_def)

lemma page_ok_inner:
  assumes "page_ok p" "ptype p = BTreeInner"
  shows "inner_ok p" "bitmap_ok p" "0 < level p" "level p < 255" "count p < max_inner_entries"
    "length (children p) = max_inner_entries"
  using assms by (simp_all add: page_ok_def inner_ok_def)

lemma vlevel_node_of: "ptype p = BTreeInner \<Longrightarrow> vlevel (node_of m p) = level p"
  by (simp add: node_of_def)

lemma vkids_nth:
  assumes "page_ok p" "ptype p = BTreeInner" "i \<le> count p"
  shows "i < length (vkids (node_of m p))" "vkids (node_of m p) ! i = unswz m (children p ! i)"
  using page_ok_inner [OF assms(1,2)] assms(2,3)
  by (simp_all add: vkids_node_of inner_children_nth)

lemma vkids_length:
  assumes "page_ok p" "ptype p = BTreeInner"
  shows "length (vkids (node_of m p)) = count p + 1" "length (vkeys (node_of m p)) = count p"
  using page_ok_inner [OF assms] assms(2) by (simp_all add: vkids_node_of vkeys_node_of)

text \<open>Facts about one child slot of a resident node.\<close>

lemma resident_kid:
  assumes r: "residency W m b R" and a: "a \<in> R" "ptype (m a) = BTreeInner" "i \<le> count (m a)"
  defines "g \<equiv> unswz m (children (m a) ! i)"
  shows "g \<in> vw_addrs W" "g \<in> set (vkids (vw_nodes W (remote_address (m a))))"
    "vlevel (vw_nodes W g) + 1 = level (m a)"
    "vlo (vw_nodes W g) = child_min (m a) i" "vhi (vw_nodes W g) = child_max (m a) i"
proof -
  note ok = residencyD(10) [OF r a(1)]
  note n = residencyD(12) [OF r a(1)]
  note kid = vkids_nth [OF ok a(2,3), of m, unfolded n]
  have g: "g = vkids (vw_nodes W (remote_address (m a))) ! i" using kid(2) by (simp add: g_def)
  have k: "kids_ok (vw_nodes W) (vw_addrs W) (vw_nodes W (remote_address (m a)))"
    using residencyD(1,11) [OF r] a(1) by (simp add: vtree_def)
  show "g \<in> set (vkids (vw_nodes W (remote_address (m a))))" using kid(1) g by simp
  have k2: "g \<in> vw_addrs W \<and> vlevel (vw_nodes W g) + 1 = vlevel (node_of m (m a)) \<and>
      vlo (vw_nodes W g) = kid_lo (node_of m (m a)) i \<and> vhi (vw_nodes W g) = kid_hi (node_of m (m a)) i"
    using k kid(1) unfolding kids_ok_def g n by blast
  then show "g \<in> vw_addrs W" by blast
  from page_ok_inner [OF ok a(2)] have "inner_ok (m a)" by blast
  then have "i < count (m a) \<Longrightarrow> inner_keys (m a) ! i = keys (m a) ! i"
    "0 < i \<Longrightarrow> inner_keys (m a) ! (i - 1) = keys (m a) ! (i - 1)" "length (inner_keys (m a)) = count (m a)"
    using inner_keys_nth [of "m a"] a(3) by auto
  then show "vlevel (vw_nodes W g) + 1 = level (m a)" "vlo (vw_nodes W g) = child_min (m a) i"
    "vhi (vw_nodes W g) = child_max (m a) i"
    using k2 a(2,3) by (simp_all add: node_of_def kid_lo_def kid_hi_def child_min_def child_max_def)
qed

text \<open>Two child slots of resident nodes that stand for the same address are the same slot.\<close>

lemma kid_unique:
  assumes r: "residency W m b R" and a: "a \<in> R" "ptype (m a) = BTreeInner" "i \<le> count (m a)"
    and a': "a' \<in> R" "ptype (m a') = BTreeInner" "j \<le> count (m a')"
    and eq: "unswz m (children (m a) ! i) = unswz m (children (m a') ! j)"
  shows "a = a' \<and> i = j"
proof -
  let ?g = "remote_address (m a)" and ?h = "remote_address (m a')"
  have t: "vtree (vw_nodes W) (vw_addrs W) (vw_root W)" by (rule residencyD(1) [OF r])
  have "set (vkids (vw_nodes W ?g)) \<inter> set (vkids (vw_nodes W ?h)) \<noteq> {}"
    using resident_kid(2) [OF r a] resident_kid(2) [OF r a'] eq by auto
  then have "?g = ?h" using t residencyD(11) [OF r] a(1) a'(1) unfolding vtree_def by blast
  then have aa: "a = a'" using residencyD(14) [OF r a(1) a'(1)] by simp
  have "distinct (vkids (vw_nodes W ?g))" using t residencyD(11) [OF r a(1)] unfolding vtree_def by blast
  moreover have "\<And>i. i \<le> count (m a) \<Longrightarrow> i < length (vkids (vw_nodes W ?g)) \<and>
      vkids (vw_nodes W ?g) ! i = unswz m (children (m a) ! i)"
    using vkids_nth [OF residencyD(10) [OF r a(1)] a(2), of _ m] residencyD(12) [OF r a(1)] by simp
  ultimately have "i = j" using a(3) a'(3) eq unfolding aa by (metis nth_eq_iff_index_eq)
  with aa show ?thesis by simp
qed

lemma root_not_kid:
  assumes r: "residency W m b R" and a: "a \<in> R" "ptype (m a) = BTreeInner" "i \<le> count (m a)"
  shows "unswz m (children (m a) ! i) \<noteq> vw_root W"
  using resident_kid(2) [OF r a] residencyD(1) [OF r] residencyD(11) [OF r a(1)] unfolding vtree_def by metis

subsection \<open>Demoting a page\<close>

lemma set_child_page_ok:
  assumes ok: "page_ok p" "ptype p = BTreeInner" and i: "i \<le> count p"
  shows "\<not> swizzled g \<Longrightarrow> page_ok (unset_bitmap i (p\<lparr>children := (children p)[i := g]\<rparr>))"
    and "swizzled g \<Longrightarrow> page_ok (set_bitmap i (p\<lparr>children := (children p)[i := g]\<rparr>))"
proof -
  note o = page_ok_inner [OF ok]
  have i2: "i < 64" "i < length (children p)" using o(5,6) i by simp_all
  have b: "bit (bitmap p) j \<longleftrightarrow> j \<le> count p \<and> swizzled (children p ! j)" if "j < 64" for j
    using o(2) that by (simp add: bitmap_ok_def)
  show "page_ok (unset_bitmap i (p\<lparr>children := (children p)[i := g]\<rparr>))" if g: "\<not> swizzled g"
  proof -
    have "bitmap_ok (unset_bitmap i (p\<lparr>children := (children p)[i := g]\<rparr>))"
      unfolding bitmap_ok_def bit_unset_bitmap using b i2 g i
      by (auto simp: unset_bitmap_def nth_list_update)
    then show ?thesis using ok o by (simp add: page_ok_def) (simp add: unset_bitmap_def inner_ok_def inner_keys_def)
  qed
  show "page_ok (set_bitmap i (p\<lparr>children := (children p)[i := g]\<rparr>))" if g: "swizzled g"
  proof -
    have "bitmap_ok (set_bitmap i (p\<lparr>children := (children p)[i := g]\<rparr>))"
      unfolding bitmap_ok_def bit_set_bitmap using b i2 g i
      by (auto simp: set_bitmap_def nth_list_update)
    then show ?thesis using ok o by (simp add: page_ok_def) (simp add: set_bitmap_def inner_ok_def inner_keys_def)
  qed
qed

lemma no_swizzled_kid:
  assumes "page_ok p" "ptype p = BTreeInner" "bitmap p = 0" "i \<le> count p"
  shows "\<not> swizzled (children p ! i)"
  using page_ok_inner [OF assms(1,2)] assms(3,4) by (auto simp: bitmap_ok_def)

lemma inner_child_nth:
  assumes "page_ok p" "ptype p = BTreeInner" "v \<in> set (inner_children p)"
  obtains j where "j \<le> count p" "v = children p ! j"
proof -
  from assms(3) page_ok_inner [OF assms(1,2)] obtain j where "j < count p + 1" "v = children p ! j"
    by (auto simp: in_set_conv_nth inner_children_def)
  then show ?thesis by (intro that [of j]) simp_all
qed

lemma node_of_at_rest:
  assumes "page_ok p" "bitmap p = 0"
  shows "node_of m p = node_of m' p"
proof (cases "ptype p = BTreeInner")
  case True
  have "unswz m v = unswz m' v" if "v \<in> set (inner_children p)" for v
  proof -
    from inner_child_nth [OF assms(1) True that] obtain i where "i \<le> count p" "v = children p ! i" .
    then show ?thesis using no_swizzled_kid [OF assms(1) True assms(2)] by (simp add: unswz_def)
  qed
  then show ?thesis by (simp add: node_of_def)
qed (simp add: node_of_def)

lemma flushed_image_at_rest:
  assumes "page_ok p" "bitmap p = 0"
  shows "page_ok (flushed_image p)" "bitmap (flushed_image p) = 0" "node_of m (flushed_image p) = node_of m p"
    "remote_address (flushed_image p) = remote_address p" "pos_state (flushed_image p) = POS_REMOTE" "parent_ptr (flushed_image p) = 0"
    "\<not> dirty (flushed_image p)"
  using assms by (simp_all add: flushed_image_def page_ok_def node_of_def inner_ok_def bitmap_ok_def leaf_ok_def
      leaf_in_limits_def inner_keys_def inner_children_def leaf_keys_def leaf_entries_def rangeValid_def cong: if_cong)

lemma at_rest_write:
  assumes "ps_ok b" "g \<in> ps_allocated b" "page_ok p" "bitmap p = 0" "remote_address p = g" "node_of m p = V g"
  shows "at_rest V (ps_write b g (flushed_image p)) g"
proof -
  have "ps_page (ps_write b g (flushed_image p)) (offset g) = flushed_image p"
    using ps_allocated_in_bounds [OF assms(1,2)] by (simp add: ps_write_def)
  then show ?thesis
    using flushed_image_at_rest [OF assms(3,4)] node_of_at_rest [OF assms(3,4), of "\<lambda>_. zero_page" m] assms(5,6)
    by (simp add: at_rest_def)
qed

lemma at_rest_other:
  assumes "at_rest V b h" "g \<in> ps_allocated b" "h \<in> ps_allocated b" "g \<noteq> h"
  shows "at_rest V (ps_write b g p) h"
proof -
  have "offset h \<noteq> offset g" using ps_allocated_eqI [OF assms(2,3)] assms(4) by metis
  then show ?thesis using assms(1) by (simp add: at_rest_def ps_write_def)
qed

text \<open>The pages of \<open>R\<close> look the same in two memories that agree on \<open>R\<close> up to bookkeeping.\<close>

lemma unswz_cong:
  "(swizzled v \<Longrightarrow> remote_address (m' (hide v)) = remote_address (m (hide v))) \<Longrightarrow> unswz m' v = unswz m v"
  by (simp add: unswz_def)

lemma node_of_update_child:
  assumes ok: "page_ok p" "ptype p = BTreeInner" and i: "i \<le> count p"
    and p': "ptype p' = BTreeInner" "level p' = level p" "min_limit p' = min_limit p" "max_limit p' = max_limit p"
      "count p' = count p" "keys p' = keys p" "children p' = (children p)[i := g]"
    and g: "unswz m' g = unswz m (children p ! i)"
    and same: "\<And>j. j \<le> count p \<Longrightarrow> j \<noteq> i \<Longrightarrow> unswz m' (children p ! j) = unswz m (children p ! j)"
  shows "node_of m' p' = node_of m p"
proof -
  have len: "count p < length (children p)" using page_ok_inner [OF ok] by simp
  have "map (unswz m') (inner_children p') = map (unswz m) (inner_children p)"
    using len i g same by (intro nth_equalityI) (auto simp: inner_children_def p' nth_list_update)
  then show ?thesis using ok p' by (simp add: node_of_def inner_keys_def)
qed

lemma residency_demote:
  assumes r: "residency W m b R" and X: "X \<in> R" "bitmap (m X) = 0"
    and P: "P \<in> R" "ptype (m P) = BTreeInner" "i \<le> count (m P)" "children (m P) ! i = swz X"
    and m'P: "m' P = unset_bitmap i ((m P)\<lparr>children := (children (m P))[i := remote_address (m X)]\<rparr>)"
    and m': "\<And>a. a \<in> R \<Longrightarrow> a \<noteq> X \<Longrightarrow> a \<noteq> P \<Longrightarrow> m' a = m a" "m' (vw_super W) = m (vw_super W)"
    and b': "b' = (if dirty (m X) then ps_write b (remote_address (m X)) (flushed_image (m X)) else b)"
  shows "residency W m' b' (R - {X})"
proof -
  note D = residencyD [OF r]
  let ?g = "remote_address (m X)" and ?sr = "vw_super W" and ?V = "vw_nodes W"
  have nsX: "\<not> swizzled X" using D(8) X(1) .
  have gT: "?g \<in> vw_addrs W" using D(11) X(1) .
  have nsg: "\<not> swizzled ?g" by (rule addrs_not_swizzled [OF r gT])
  have gall: "?g \<in> ps_allocated b" using D(3) gT by blast
  have rem: "remote_address (m' a) = remote_address (m a)" if "a \<in> R - {X}" for a
    using that m'(1) m'P by (cases "a = P") (auto simp: unset_bitmap_def)
  have uX: "unswz m (children (m P) ! i) = ?g" using P(4) nsX by (simp add: unswz_def)
  text \<open>No other slot points to the page.\<close>
  have onlyP: "a = P \<and> j = i" if "a \<in> R" "ptype (m a) = BTreeInner" "j \<le> count (m a)" "children (m a) ! j = swz X" for a j
    using kid_unique [OF r that(1-3) P(1-3)] that(4) P(4) by simp
  have PX: "P \<noteq> X"
  proof
    assume "P = X"
    then have "vlevel (?V ?g) + 1 = level (m X)" using resident_kid(3) [OF r P(1-3)] uX by simp
    moreover have "vlevel (?V ?g) = level (m X)" using vlevel_node_of [of "m X" m] D(12) [OF X(1)] P(2) \<open>P = X\<close> by simp
    ultimately show False by simp
  qed
  have parX: "parent_ptr (m X) = P"
    using D(15) [OF P(1-3)] P(4) nsX by (simp add: slot_ok_def)
  have Psr: "P \<noteq> ?sr" using P(1) D(6) by metis
  have root_slot: "children (m ?sr) ! 0 \<noteq> swz X"
    using D(17) parX Psr nsX by (auto simp: slot_ok_def)
  have slots: "slot_ok m' (R - {X}) a v" if s: "slot_ok m R a v" and v: "v \<noteq> swz X" and a: "a \<noteq> X" for a v
  proof (cases "swizzled v")
    case True
    then have h: "hide v \<in> R" "parent_ptr (m (hide v)) = a" using s by (simp_all add: slot_ok_def)
    have hX: "hide v \<noteq> X" using v True by (metis swz_hide)
    have "parent_ptr (m' (hide v)) = a"
      using h hX m'(1) [OF h(1) hX] m'P by (cases "hide v = P") (auto simp: unset_bitmap_def)
    then show ?thesis using True h hX by (simp add: slot_ok_def)
  next
    case False
    then show ?thesis using s rem by (simp add: slot_ok_def)
  qed
  have unsw: "unswz m' v = unswz m v" if "slot_ok m R a v" "v \<noteq> swz X" for a v
  proof (rule unswz_cong)
    assume v: "swizzled v"
    then have "hide v \<in> R - {X}" using that by (auto simp: slot_ok_def)
    then show "remote_address (m' (hide v)) = remote_address (m (hide v))" by (rule rem)
  qed
  have pok: "page_ok (m' P)" unfolding m'P by (rule set_child_page_ok(1) [OF D(10) [OF P(1)] P(2,3) nsg])
  have P': "ptype (m' P) = BTreeInner" "count (m' P) = count (m P)" "parent_ptr (m' P) = parent_ptr (m P)"
    "dirty (m' P) = dirty (m P)" "children (m' P) = (children (m P))[i := ?g]"
    using P(2) by (simp_all add: m'P unset_bitmap_def)
  have ilen: "i < length (children (m P))" using page_ok_inner [OF D(10) [OF P(1)] P(2)] P(3) by simp
  have node: "node_of m' (m' a) = node_of m (m a)" if a: "a \<in> R - {X}" for a
  proof (cases "a = P")
    case True
    show ?thesis unfolding True
    proof (rule node_of_update_child [OF D(10) [OF P(1)] P(2,3)])
      show "unswz m' ?g = unswz m (children (m P) ! i)" using uX nsg by (simp add: unswz_def)
      show "unswz m' (children (m P) ! j) = unswz m (children (m P) ! j)" if "j \<le> count (m P)" "j \<noteq> i" for j
        using unsw [OF D(15) [OF P(1,2) that(1)]] onlyP [OF P(1,2) that(1)] that(2) by blast
    qed (use P(2) in \<open>simp_all add: m'P unset_bitmap_def\<close>)
  next
    case False
    then have eq: "m' a = m a" using m'(1) a by simp
    show ?thesis
    proof (cases "ptype (m a) = BTreeInner")
      case True
      have "map (unswz m') (inner_children (m a)) = map (unswz m) (inner_children (m a))"
      proof (rule map_cong [OF refl])
        fix v assume "v \<in> set (inner_children (m a))"
        then obtain j where j: "j \<le> count (m a)" "v = children (m a) ! j"
          using inner_child_nth [OF D(10) True] a by blast
        then have "v \<noteq> swz X" using onlyP [of a j] a True False by auto
        then show "unswz m' v = unswz m v" using unsw [OF D(15) [of a j]] a True j by simp
      qed
      then show ?thesis by (simp add: eq node_of_def)
    next
      case False
      then show ?thesis by (simp add: eq node_of_def)
    qed
  qed
  show ?thesis
  proof (rule residencyI)
    show "vtree ?V (vw_addrs W) (vw_root W)" by (rule D(1))
    show "ps_ok b'" unfolding b' using ps.inv_wr [OF D(2)] D(2) by simp
    show "vw_addrs W \<subseteq> ps_allocated b'" unfolding b' using D(3) by (simp add: ps.allocated_wr)
    show "level (m' ?sr) = 255" "length (children (m' ?sr)) = max_inner_entries" using D(4,5) m'(2) by simp_all
    show "?sr \<notin> R - {X}" "?sr \<noteq> 0" using D(6,7) by simp_all
    show "\<not> swizzled a" "a \<noteq> 0" if "a \<in> R - {X}" for a using that D(8,9) by auto
    show "page_ok (m' a)" if "a \<in> R - {X}" for a
      using that D(10) m'(1) pok by (cases "a = P") auto
    show "remote_address (m' a) \<in> vw_addrs W" if "a \<in> R - {X}" for a using that D(11) rem by simp
    show "node_of m' (m' a) = ?V (remote_address (m' a))" if "a \<in> R - {X}" for a
      using that D(12) node rem by simp
    show "a = a'" if "a \<in> R - {X}" "a' \<in> R - {X}" "remote_address (m' a) = remote_address (m' a')" for a a'
      using that D(14) rem by simp
    show "points_back m' ?sr (R - {X}) a" if a: "a \<in> R - {X}" for a
    proof -
      have pa: "parent_ptr (m' a) = parent_ptr (m a)" using a m'(1) P'(3) by (cases "a = P") auto
      from D(13) [of a] a consider (sr) "parent_ptr (m a) = ?sr" "children (m ?sr) ! 0 = swz a"
        | (q) j where "parent_ptr (m a) \<in> R" "ptype (m (parent_ptr (m a))) = BTreeInner"
          "j \<le> count (m (parent_ptr (m a)))" "children (m (parent_ptr (m a))) ! j = swz a"
        by (auto simp: points_back_def)
      then show ?thesis
      proof cases
        case sr
        then show ?thesis using pa m'(2) by (simp add: points_back_def)
      next
        case q
        let ?Q = "parent_ptr (m a)"
        have nsa: "\<not> swizzled a" using D(8) a by simp
        have QX: "?Q \<noteq> X" using no_swizzled_kid [OF D(10) [OF X(1)] _ X(2)] q by (metis swizzled_swz)
        show ?thesis
        proof (cases "?Q = P")
          case True
          have "j \<noteq> i" using q(4) P(4) a True nsa nsX swz_inject by auto
          then show ?thesis using q True pa P' P(1) PX by (auto simp: points_back_def intro!: exI [of _ j])
        next
          case False
          then show ?thesis using q QX pa m'(1) by (auto simp: points_back_def)
        qed
      qed
    qed
    show "slot_ok m' (R - {X}) a (children (m' a) ! j)"
      if a: "a \<in> R - {X}" and j: "ptype (m' a) = BTreeInner" "j \<le> count (m' a)" for a j
    proof (cases "a = P \<and> j = i")
      case True
      then show ?thesis using P'(5) ilen nsg rem D(14) X(1) by (auto simp: slot_ok_def)
    next
      case False
      have aj: "ptype (m a) = BTreeInner" "j \<le> count (m a)" "children (m' a) ! j = children (m a) ! j"
        using j a m'(1) P' P(2) False by (cases "a = P"; auto)+
      have "children (m a) ! j \<noteq> swz X" using onlyP [of a j] aj a False by auto
      then show ?thesis using slots [OF D(15) [of a j]] aj a by simp
    qed
    show "at_rest ?V b' h" if h: "h \<in> vw_addrs W"
      and cl: "\<And>a. a \<in> R - {X} \<Longrightarrow> remote_address (m' a) = h \<Longrightarrow> \<not> dirty (m' a)" for h
    proof (cases "h = ?g")
      case True
      show ?thesis
      proof (cases "dirty (m X)")
        case d: True
        show ?thesis unfolding b' True using d at_rest_write [where V = ?V, OF D(2) gall D(10) [OF X(1)] X(2) refl D(12) [OF X(1)]] by simp
      next
        case False
        then have "at_rest ?V b ?g" using D(16) [OF gT] D(14) X(1) by metis
        then show ?thesis using False True by (simp add: b')
      qed
    next
      case False
      have "\<not> dirty (m a)" if "a \<in> R" "remote_address (m a) = h" for a
      proof -
        have "a \<in> R - {X}" using that False by auto
        then show ?thesis using cl [of a] rem [of a] that m'(1) P'(4) by (cases "a = P") auto
      qed
      then have "at_rest ?V b h" using D(16) [OF h] by blast
      then show ?thesis unfolding b' using at_rest_other [OF _ gall _ False [symmetric]] D(3) h by auto
    qed
    show "slot_ok m' (R - {X}) ?sr (children (m' ?sr) ! 0)"
      using slots [OF D(17) root_slot] D(6) X(1) m'(2) by auto
    show "unswz m' (children (m' ?sr) ! 0) = vw_root W"
      using unsw [OF D(17) root_slot] D(18) m'(2) by simp
  qed
qed

subsection \<open>Loading a page\<close>

text \<open>A slot that is not swizzled names a page that is at rest.\<close>

lemma slot_at_rest:
  assumes r: "residency W m b R" and g: "g \<in> vw_addrs W" "\<forall>a \<in> R. remote_address (m a) \<noteq> g"
  shows "at_rest (vw_nodes W) b g" "ps_read b g = Some (ps_page b (offset g))"
proof -
  show "at_rest (vw_nodes W) b g" using residencyD(16) [OF r g(1)] g(2) by blast
  show "ps_read b g = Some (ps_page b (offset g))"
    using ps_allocated_in_bounds [OF residencyD(2) [OF r], of g] residencyD(3) [OF r] g(1) by (auto simp: ps_read_def)
qed

text \<open>The parent of a resident page is resident, so no kid of an absent page is.\<close>

lemma kid_of_absent:
  assumes r: "residency W m b R" and g: "g \<in> vw_addrs W" "\<forall>a \<in> R. remote_address (m a) \<noteq> g"
    and h: "h \<in> set (vkids (vw_nodes W g))"
  shows "(\<forall>c \<in> R. remote_address (m c) \<noteq> h) \<and> h \<noteq> g"
proof -
  note D = residencyD [OF r]
  have t: "vtree (vw_nodes W) (vw_addrs W) (vw_root W)" by (rule D(1))
  have "remote_address (m c) \<noteq> h" if c: "c \<in> R" for c
  proof
    assume rc: "remote_address (m c) = h"
    have nsc: "\<not> swizzled c" using D(8) c .
    from D(13) [OF c] consider (sr) "children (m (vw_super W)) ! 0 = swz c"
      | (q) j where "parent_ptr (m c) \<in> R" "ptype (m (parent_ptr (m c))) = BTreeInner"
        "j \<le> count (m (parent_ptr (m c)))" "children (m (parent_ptr (m c))) ! j = swz c"
      by (auto simp: points_back_def)
    then show False
    proof cases
      case sr
      then have "vw_root W = h" using D(18) rc nsc by (simp add: unswz_def)
      then show False using t g(1) h unfolding vtree_def by blast
    next
      case q
      let ?Q = "parent_ptr (m c)"
      have "unswz m (children (m ?Q) ! j) = h" using q(4) rc nsc by (simp add: unswz_def)
      then have "h \<in> set (vkids (vw_nodes W (remote_address (m ?Q))))" using resident_kid(2) [OF r q(1-3)] by simp
      then have "remote_address (m ?Q) = g" using t g(1) h D(11) [OF q(1)] unfolding vtree_def by blast
      then show False using g(2) q(1) by blast
    qed
  qed
  moreover have "h \<noteq> g"
  proof
    assume "h = g"
    then obtain i where "i < length (vkids (vw_nodes W g))" "vkids (vw_nodes W g) ! i = g" using h by (metis in_set_conv_nth)
    then show False using t g(1) unfolding vtree_def kids_ok_def by (metis Suc_eq_plus1 n_not_Suc_n)
  qed
  ultimately show ?thesis by blast
qed

lemma slot_ok_fresh:
  assumes "slot_ok m R a v" "\<And>x. x \<in> R \<Longrightarrow> remote_address (m' x) = remote_address (m x) \<and> parent_ptr (m' x) = parent_ptr (m x)"
    "\<not> swizzled v \<Longrightarrow> remote_address (m' p) \<noteq> v"
  shows "slot_ok m' (insert p R) a v"
  using assms by (auto simp: slot_ok_def)

lemma image_loaded:
  assumes "page_ok q" "bitmap q = 0" "p' = q\<lparr>pos_state := st, parent_ptr := P\<rparr>"
  shows "page_ok p'" "remote_address p' = remote_address q" "bitmap p' = 0" "parent_ptr p' = P"
    "node_of m p' = node_of (\<lambda>_. zero_page) q"
proof -
  show "page_ok p'" "remote_address p' = remote_address q" "bitmap p' = 0" "parent_ptr p' = P"
    using assms by (simp_all add: page_ok_def inner_ok_def bitmap_ok_def leaf_ok_def leaf_in_limits_def
        inner_keys_def leaf_keys_def leaf_entries_def rangeValid_def cong: if_cong)
  have "node_of m p' = node_of m q"
    by (simp add: assms(3) node_of_def inner_keys_def inner_children_def leaf_entries_def)
  then show "node_of m p' = node_of (\<lambda>_. zero_page) q" using node_of_at_rest [OF assms(1,2)] by simp
qed

lemma loaded_slots:
  assumes r: "residency W m b R" and gT: "g \<in> vw_addrs W" and noR: "\<forall>a \<in> R. remote_address (m a) \<noteq> g"
    and pp: "page_ok (m' p)" "remote_address (m' p) = g" "bitmap (m' p) = 0" "node_of m' (m' p) = vw_nodes W g"
    and same: "\<And>a. a \<in> R \<Longrightarrow> remote_address (m' a) = remote_address (m a)"
    and j: "ptype (m' p) = BTreeInner" "j \<le> count (m' p)"
  shows "slot_ok m' (insert p R) p (children (m' p) ! j)"
proof -
  have ns: "\<not> swizzled (children (m' p) ! j)" by (rule no_swizzled_kid [OF pp(1) j(1) pp(3) j(2)])
  then have u: "unswz m' (children (m' p) ! j) = children (m' p) ! j" by (simp add: unswz_def)
  have "children (m' p) ! j \<in> set (vkids (vw_nodes W g))"
    using vkids_nth [OF pp(1) j, of m'] unfolding pp(4) u by (metis nth_mem)
  from kid_of_absent [OF r gT noR this] ns same pp(2) show ?thesis by (auto simp: slot_ok_def)
qed

lemma residency_load_child:
  assumes r: "residency W m b R" and P: "P \<in> R" "ptype (m P) = BTreeInner" "i \<le> count (m P)"
    "\<not> swizzled (children (m P) ! i)" "g = children (m P) ! i"
    and p: "p \<notin> R" "\<not> swizzled p" "p \<noteq> 0" "p \<noteq> vw_super W"
    and q: "page_ok q" "remote_address q = g" "bitmap q = 0" "node_of (\<lambda>_. zero_page) q = vw_nodes W g"
    and m'p: "m' p = q\<lparr>pos_state := st, parent_ptr := P\<rparr>"
    and m'P: "m' P = set_bitmap i ((m P)\<lparr>children := (children (m P))[i := swz p]\<rparr>)"
    and m': "\<And>a. a \<in> R \<Longrightarrow> a \<noteq> P \<Longrightarrow> m' a = m a" "m' (vw_super W) = m (vw_super W)"
  shows "residency W m' b (insert p R)"
proof -
  note D = residencyD [OF r]
  let ?sr = "vw_super W" and ?V = "vw_nodes W"
  have uP: "unswz m (children (m P) ! i) = g" using P(4,5) by (simp add: unswz_def)
  have gT: "g \<in> vw_addrs W" using resident_kid(1) [OF r P(1-3)] uP by simp
  have noR: "\<forall>a \<in> R. remote_address (m a) \<noteq> g" using D(15) [OF P(1-3)] P(4,5) by (simp add: slot_ok_def)
  note pp = image_loaded [OF q(1,3) m'p, unfolded q(2,4)]
  have P': "ptype (m' P) = BTreeInner" "count (m' P) = count (m P)" "parent_ptr (m' P) = parent_ptr (m P)"
    "dirty (m' P) = dirty (m P)" "children (m' P) = (children (m P))[i := swz p]" "remote_address (m' P) = remote_address (m P)"
    using P(2) by (simp_all add: m'P set_bitmap_def)
  have ilen: "i < length (children (m P))" using page_ok_inner [OF D(10) [OF P(1)] P(2)] P(3) by simp
  have pok: "page_ok (m' P)"
    unfolding m'P by (rule set_child_page_ok(2) [OF D(10) [OF P(1)] P(2,3)]) simp
  have same: "remote_address (m' a) = remote_address (m a) \<and> parent_ptr (m' a) = parent_ptr (m a) \<and> dirty (m' a) = dirty (m a)
      \<and> ptype (m' a) = ptype (m a) \<and> count (m' a) = count (m a)" if "a \<in> R" for a
    using that m'(1) P' P(2) by (cases "a = P") auto
  have unsw: "unswz m' v = unswz m v" if "slot_ok m R a v" for a v
    by (rule unswz_cong) (use that same in \<open>auto simp: slot_ok_def\<close>)
  have only: "children (m a) ! j \<noteq> g" if "a \<in> R" "ptype (m a) = BTreeInner" "j \<le> count (m a)" "\<not> (a = P \<and> j = i)" for a j
  proof
    assume "children (m a) ! j = g"
    then have "unswz m (children (m a) ! j) = unswz m (children (m P) ! i)" using uP P(4,5) by (simp add: unswz_def)
    from kid_unique [OF r that(1-3) P(1-3) this] that(4) show False by simp
  qed
  have root: "children (m ?sr) ! 0 \<noteq> g"
  proof
    assume "children (m ?sr) ! 0 = g"
    then have "vw_root W = g" using D(18) P(4,5) by (simp add: unswz_def)
    then show False using root_not_kid [OF r P(1-3)] uP by simp
  qed
  have node: "node_of m' (m' a) = node_of m (m a)" if a: "a \<in> R" for a
  proof (cases "a = P")
    case True
    show ?thesis unfolding True
    proof (rule node_of_update_child [OF D(10) [OF P(1)] P(2,3)])
      show "unswz m' (swz p) = unswz m (children (m P) ! i)" using uP p(2) pp(2) by (simp add: unswz_def)
      show "unswz m' (children (m P) ! j) = unswz m (children (m P) ! j)" if "j \<le> count (m P)" "j \<noteq> i" for j
        by (rule unsw [OF D(15) [OF P(1,2) that(1)]])
    qed (use P(2) in \<open>simp_all add: m'P set_bitmap_def\<close>)
  next
    case False
    then have eq: "m' a = m a" using m'(1) a by simp
    have "map (unswz m') (inner_children (m a)) = map (unswz m) (inner_children (m a))" if t: "ptype (m a) = BTreeInner"
    proof (rule map_cong [OF refl])
      fix v assume "v \<in> set (inner_children (m a))"
      then obtain j where "j \<le> count (m a)" "v = children (m a) ! j"
        by (rule inner_child_nth [OF D(10) [OF a] t])
      then show "unswz m' v = unswz m v" using unsw [OF D(15) [OF a t]] by simp
    qed
    then show ?thesis by (simp add: eq node_of_def)
  qed
  show ?thesis
  proof (rule residencyI)
    show "vtree ?V (vw_addrs W) (vw_root W)" "ps_ok b" "vw_addrs W \<subseteq> ps_allocated b" by (rule D(1) D(2) D(3))+
    show "level (m' ?sr) = 255" "length (children (m' ?sr)) = max_inner_entries" using D(4,5) m'(2) by simp_all
    show "?sr \<notin> insert p R" "?sr \<noteq> 0" using D(6,7) p(4) by auto
    show "\<not> swizzled a" "a \<noteq> 0" if "a \<in> insert p R" for a using that D(8,9) p by auto
    show "page_ok (m' a)" if "a \<in> insert p R" for a
      using that D(10) m'(1) pok pp(1) by (cases "a = P"; cases "a = p") auto
    show "remote_address (m' a) \<in> vw_addrs W" if "a \<in> insert p R" for a using that D(11) same pp(2) gT by auto
    show "node_of m' (m' a) = ?V (remote_address (m' a))" if "a \<in> insert p R" for a
      using that D(12) node same pp(2,5) by auto
    show "a = a'" if "a \<in> insert p R" "a' \<in> insert p R" "remote_address (m' a) = remote_address (m' a')" for a a'
      using that D(14) same pp(2) noR by (metis insertE)
    show "points_back m' ?sr (insert p R) a" if a: "a \<in> insert p R" for a
    proof (cases "a = p")
      case True
      then show ?thesis using pp(4) P' P ilen by (auto simp: points_back_def intro!: exI [of _ i])
    next
      case False
      then have aR: "a \<in> R" using a by simp
      from D(13) [OF aR] consider (sr) "parent_ptr (m a) = ?sr" "children (m ?sr) ! 0 = swz a"
        | (q) j where "parent_ptr (m a) \<in> R" "ptype (m (parent_ptr (m a))) = BTreeInner"
          "j \<le> count (m (parent_ptr (m a)))" "children (m (parent_ptr (m a))) ! j = swz a"
        by (auto simp: points_back_def)
      then show ?thesis
      proof cases
        case sr
        then show ?thesis using same [OF aR] m'(2) by (simp add: points_back_def)
      next
        case q
        have "parent_ptr (m a) = P \<Longrightarrow> j \<noteq> i" using q(4) P(4) by auto
        then show ?thesis using q same [OF aR] same [OF q(1)] m'(1) P'(5)
          by (cases "parent_ptr (m a) = P") (auto simp: points_back_def intro!: exI [of _ j])
      qed
    qed
    show "slot_ok m' (insert p R) a (children (m' a) ! j)"
      if a: "a \<in> insert p R" and j: "ptype (m' a) = BTreeInner" "j \<le> count (m' a)" for a j
    proof (cases "a = p")
      case True
      then show ?thesis using loaded_slots [where m' = m', OF r gT noR pp(1,2,3,5)] same j by simp
    next
      case False
      then have aR: "a \<in> R" using a by simp
      show ?thesis
      proof (cases "a = P \<and> j = i")
        case True
        then show ?thesis using P'(5) ilen p(2) pp(4) by (simp add: slot_ok_def)
      next
        case ne: False
        have aj: "ptype (m a) = BTreeInner" "j \<le> count (m a)" "children (m' a) ! j = children (m a) ! j"
          using j same [OF aR] m'(1) [OF aR] P'(5) ne by (cases "a = P"; auto)+
        show ?thesis unfolding aj(3)
          by (rule slot_ok_fresh [OF D(15) [OF aR aj(1,2)]]) (use same only [OF aR aj(1,2) ne] pp(2) in auto)
      qed
    qed
    show "at_rest ?V b h" if h: "h \<in> vw_addrs W"
      and cl: "\<And>a. a \<in> insert p R \<Longrightarrow> remote_address (m' a) = h \<Longrightarrow> \<not> dirty (m' a)" for h
      using D(16) [OF h] cl same by (metis insertI2)
    show "slot_ok m' (insert p R) ?sr (children (m' ?sr) ! 0)"
      unfolding m'(2) by (rule slot_ok_fresh [OF D(17)]) (use same root pp(2) in auto)
    show "unswz m' (children (m' ?sr) ! 0) = vw_root W" using unsw [OF D(17)] D(18) m'(2) by simp
  qed
qed

text \<open>Loading the root below the super root, which keeps no bitmap.\<close>

lemma residency_load_root:
  assumes r: "residency W m b R" and sl: "\<not> swizzled (children (m (vw_super W)) ! 0)" "g = children (m (vw_super W)) ! 0"
    and p: "p \<notin> R" "\<not> swizzled p" "p \<noteq> 0" "p \<noteq> vw_super W"
    and q: "page_ok q" "remote_address q = g" "bitmap q = 0" "node_of (\<lambda>_. zero_page) q = vw_nodes W g"
    and m'p: "m' p = q\<lparr>pos_state := st, parent_ptr := vw_super W\<rparr>"
    and m'sr: "m' (vw_super W) = (m (vw_super W))\<lparr>children := (children (m (vw_super W)))[0 := swz p]\<rparr>"
    and m': "\<And>a. a \<in> R \<Longrightarrow> m' a = m a"
  shows "residency W m' b (insert p R)"
proof -
  note D = residencyD [OF r]
  let ?sr = "vw_super W" and ?V = "vw_nodes W"
  have gr: "g = vw_root W" using D(18) sl by (simp add: unswz_def)
  have gT: "g \<in> vw_addrs W" using D(1) gr by (simp add: vtree_def)
  have noR: "\<forall>a \<in> R. remote_address (m a) \<noteq> g" using D(17) sl by (simp add: slot_ok_def)
  note pp = image_loaded [OF q(1,3) m'p, unfolded q(2,4)]
  have unsw: "unswz m' v = unswz m v" if "slot_ok m R a v" for a v
    by (rule unswz_cong) (use that m' in \<open>auto simp: slot_ok_def\<close>)
  have node: "node_of m' (m' a) = node_of m (m a)" if a: "a \<in> R" for a
  proof -
    have "map (unswz m') (inner_children (m a)) = map (unswz m) (inner_children (m a))" if t: "ptype (m a) = BTreeInner"
    proof (rule map_cong [OF refl])
      fix v assume "v \<in> set (inner_children (m a))"
      then obtain j where "j \<le> count (m a)" "v = children (m a) ! j" by (rule inner_child_nth [OF D(10) [OF a] t])
      then show "unswz m' v = unswz m v" using unsw [OF D(15) [OF a t]] by simp
    qed
    then show ?thesis by (simp add: m' [OF a] node_of_def)
  qed
  show ?thesis
  proof (rule residencyI)
    show "vtree ?V (vw_addrs W) (vw_root W)" "ps_ok b" "vw_addrs W \<subseteq> ps_allocated b" by (rule D(1) D(2) D(3))+
    show "level (m' ?sr) = 255" "length (children (m' ?sr)) = max_inner_entries" using D(4,5) m'sr by simp_all
    show "?sr \<notin> insert p R" "?sr \<noteq> 0" using D(6,7) p(4) by auto
    show "\<not> swizzled a" "a \<noteq> 0" if "a \<in> insert p R" for a using that D(8,9) p by auto
    show "page_ok (m' a)" if "a \<in> insert p R" for a using that D(10) m' pp(1) by auto
    show "remote_address (m' a) \<in> vw_addrs W" if "a \<in> insert p R" for a using that D(11) m' pp(2) gT by auto
    show "node_of m' (m' a) = ?V (remote_address (m' a))" if "a \<in> insert p R" for a
      using that D(12) node m' pp(2,5) by auto
    show "a = a'" if "a \<in> insert p R" "a' \<in> insert p R" "remote_address (m' a) = remote_address (m' a')" for a a'
      using that D(14) m' pp(2) noR by (metis insertE)
    show "points_back m' ?sr (insert p R) a" if a: "a \<in> insert p R" for a
    proof (cases "a = p")
      case True
      then show ?thesis using pp(4) m'sr D(5) by (simp add: points_back_def)
    next
      case False
      then have aR: "a \<in> R" using a by simp
      have "children (m ?sr) ! 0 \<noteq> swz a" using sl(1) by auto
      then show ?thesis using D(13) [OF aR] m' aR by (auto simp: points_back_def)
    qed
    show "slot_ok m' (insert p R) a (children (m' a) ! j)"
      if a: "a \<in> insert p R" and j: "ptype (m' a) = BTreeInner" "j \<le> count (m' a)" for a j
    proof (cases "a = p")
      case True
      then show ?thesis using loaded_slots [where m' = m', OF r gT noR pp(1,2,3,5)] m' j by simp
    next
      case False
      then have aR: "a \<in> R" using a by simp
      have aj: "ptype (m a) = BTreeInner" "j \<le> count (m a)" using j m' [OF aR] by simp_all
      have "children (m a) ! j \<noteq> g" if "\<not> swizzled (children (m a) ! j)"
        using root_not_kid [OF r aR aj] that gr by (auto simp: unswz_def)
      then show ?thesis unfolding m' [OF aR]
        by (intro slot_ok_fresh [OF D(15) [OF aR aj]]) (use m' pp(2) in auto)
    qed
    show "at_rest ?V b h" if h: "h \<in> vw_addrs W"
      and cl: "\<And>a. a \<in> insert p R \<Longrightarrow> remote_address (m' a) = h \<Longrightarrow> \<not> dirty (m' a)" for h
      using D(16) [OF h] cl m' by (metis insertI2)
    show "slot_ok m' (insert p R) ?sr (children (m' ?sr) ! 0)"
      using m'sr D(5) p(2) pp(4) by (simp add: slot_ok_def)
    show "unswz m' (children (m' ?sr) ! 0) = vw_root W"
      using m'sr D(5) p(2) pp(2) gr by (simp add: unswz_def)
  qed
qed

subsection \<open>Bookkeeping and changes of content\<close>

text \<open>Changes of \<open>pos_state\<close> do not matter to residency.\<close>

definition upd_pos :: "pos_state \<Rightarrow> page \<Rightarrow> page" where
  "upd_pos st p = p\<lparr>pos_state := st\<rparr>"

lemma upd_pos_simps [simp]:
  "remote_address (upd_pos st p) = remote_address p" "parent_ptr (upd_pos st p) = parent_ptr p"
  "ptype (upd_pos st p) = ptype p" "count (upd_pos st p) = count p" "children (upd_pos st p) = children p"
  "keys (upd_pos st p) = keys p" "dirty (upd_pos st p) = dirty p" "level (upd_pos st p) = level p"
  "bitmap (upd_pos st p) = bitmap p" "page_ok (upd_pos st p) = page_ok p" "node_of m (upd_pos st p) = node_of m p"
  "pos_state (upd_pos st p) = st"
  by (simp_all add: upd_pos_def page_ok_def inner_ok_def bitmap_ok_def leaf_ok_def leaf_in_limits_def node_of_def
      inner_keys_def inner_children_def leaf_keys_def leaf_entries_def rangeValid_def cong: if_cong)

lemma residency_pos:
  assumes r: "residency W m b R" and m': "\<And>a. a \<in> insert (vw_super W) R \<Longrightarrow> \<exists>st. m' a = upd_pos st (m a)"
  shows "residency W m' b R"
proof -
  note D = residencyD [OF r]
  have s: "remote_address (m' a) = remote_address (m a)" "parent_ptr (m' a) = parent_ptr (m a)" "ptype (m' a) = ptype (m a)"
    "count (m' a) = count (m a)" "children (m' a) = children (m a)" "dirty (m' a) = dirty (m a)" "level (m' a) = level (m a)"
    "page_ok (m' a) = page_ok (m a)" "node_of n (m' a) = node_of n (m a)" if "a \<in> insert (vw_super W) R" for a n
    using m' [OF that] by auto
  have sR: "a \<in> R \<Longrightarrow> a \<in> insert (vw_super W) R" for a by simp
  have slot: "slot_ok m' R a v = slot_ok m R a v" for a v
    using s(1,2) [OF sR] by (auto simp: slot_ok_def)
  have unsw: "unswz m' v = unswz m v" if "slot_ok m R a v" for a v
    by (rule unswz_cong) (use that s(1) [OF sR] in \<open>auto simp: slot_ok_def\<close>)
  have node: "node_of m' (m a) = node_of m (m a)" if a: "a \<in> R" for a
  proof -
    have "map (unswz m') (inner_children (m a)) = map (unswz m) (inner_children (m a))" if t: "ptype (m a) = BTreeInner"
    proof (rule map_cong [OF refl])
      fix v assume "v \<in> set (inner_children (m a))"
      then obtain j where "j \<le> count (m a)" "v = children (m a) ! j" by (rule inner_child_nth [OF D(10) [OF a] t])
      then show "unswz m' v = unswz m v" using unsw [OF D(15) [OF a t]] by simp
    qed
    then show ?thesis by (simp add: node_of_def)
  qed
  have pb: "points_back m' (vw_super W) R a = points_back m (vw_super W) R a" if "a \<in> R" for a
    using s [OF sR [OF that]] s [of "vw_super W"] s [OF sR, of "parent_ptr (m a)"] by (auto simp: points_back_def)
  show ?thesis
    by (rule residencyI)
      (use D s [OF sR] s [of "vw_super W"] slot unsw [OF D(17)] node pb in \<open>simp_all\<close>)
qed

text \<open>Changing the entries of a resident leaf.\<close>

definition put_node :: "gaddr \<Rightarrow> lnode \<Rightarrow> view \<Rightarrow> view" where
  "put_node g n W = W\<lparr>vw_nodes := (vw_nodes W)(g := n)\<rparr>"

lemma put_node_simps [simp]:
  "vw_nodes (put_node g n W) = (vw_nodes W)(g := n)" "vw_addrs (put_node g n W) = vw_addrs W"
  "vw_root (put_node g n W) = vw_root W" "vw_super (put_node g n W) = vw_super W"
  by (simp_all add: put_node_def)

lemma vtree_put_leaf:
  assumes t: "vtree V T rg" and n: "vlevel n = vlevel (V g)" "vlo n = vlo (V g)" "vhi n = vhi (V g)" "vkids n = vkids (V g)" "vkeys n = vkeys (V g)"
  shows "vtree (V(g := n)) T rg"
proof -
  have s: "vlevel ((V(g := n)) h) = vlevel (V h)" "vlo ((V(g := n)) h) = vlo (V h)" "vhi ((V(g := n)) h) = vhi (V h)"
    "vkids ((V(g := n)) h) = vkids (V h)" "vkeys ((V(g := n)) h) = vkeys (V h)" for h
    using n by simp_all
  show ?thesis using t unfolding vtree_def kids_ok_def keys_ok_def kid_lo_def kid_hi_def s .
qed

lemma residency_leaf:
  assumes r: "residency W m b R" and a: "a \<in> R" "ptype (m a) = BTreeLeaf"
    and p: "page_ok p" "ptype p = BTreeLeaf" "remote_address p = remote_address (m a)" "parent_ptr p = parent_ptr (m a)"
      "min_limit p = min_limit (m a)" "max_limit p = max_limit (m a)" "dirty p"
    and m': "m' a = p" "\<And>c. c \<in> R \<Longrightarrow> c \<noteq> a \<Longrightarrow> m' c = m c" "m' (vw_super W) = m (vw_super W)"
  shows "residency (put_node (remote_address p) (node_of m p) W) m' b R"
proof -
  note D = residencyD [OF r]
  let ?g = "remote_address (m a)"
  have s: "remote_address (m' c) = remote_address (m c)" "parent_ptr (m' c) = parent_ptr (m c)" "ptype (m' c) = ptype (m c)"
    if "c \<in> R" for c using m' p a that by (cases "c = a"; simp)+
  have inner: "m' c = m c" if "c \<in> R" "ptype (m c) = BTreeInner" for c using that m'(2) a(2) by (cases "c = a") auto
  have slot: "slot_ok m' R c v = slot_ok m R c v" for c v using s by (auto simp: slot_ok_def)
  have unsw: "unswz m' v = unswz m v" if "slot_ok m R c v" for c v
    by (rule unswz_cong) (use that s(1) in \<open>auto simp: slot_ok_def\<close>)
  have nodea: "node_of m' p = node_of m p" "vlevel (node_of m p) = 0" "vkids (node_of m p) = []" "vkeys (node_of m p) = []"
    using p(2) by (simp_all add: node_of_def)
  have va: "vlevel (vw_nodes W ?g) = 0" "vlo (vw_nodes W ?g) = min_limit (m a)" "vhi (vw_nodes W ?g) = max_limit (m a)"
    "vkids (vw_nodes W ?g) = []" "vkeys (vw_nodes W ?g) = []"
    using D(12) [OF a(1), symmetric] a(2) by (simp_all add: node_of_def)
  have node: "node_of m' (m c) = node_of m (m c)" if c: "c \<in> R" for c
  proof -
    have "map (unswz m') (inner_children (m c)) = map (unswz m) (inner_children (m c))" if t: "ptype (m c) = BTreeInner"
    proof (rule map_cong [OF refl])
      fix v assume "v \<in> set (inner_children (m c))"
      then obtain j where "j \<le> count (m c)" "v = children (m c) ! j" by (rule inner_child_nth [OF D(10) [OF c] t])
      then show "unswz m' v = unswz m v" using unsw [OF D(15) [OF c t]] by simp
    qed
    then show ?thesis by (simp add: node_of_def)
  qed
  have pb: "points_back m' (vw_super W) R c" if "c \<in> R" for c
    using D(13) [OF that] s [OF that] m'(3) inner by (auto simp: points_back_def)
  show ?thesis
  proof (rule residencyI)
    show "vtree (vw_nodes (put_node (remote_address p) (node_of m p) W)) (vw_addrs (put_node (remote_address p) (node_of m p) W))
        (vw_root (put_node (remote_address p) (node_of m p) W))"
      unfolding put_node_simps p(3)
      by (rule vtree_put_leaf [OF D(1)]) (use va nodea p(2,5,6) in \<open>simp_all add: node_of_def\<close>)
    show "node_of m' (m' c) = vw_nodes (put_node (remote_address p) (node_of m p) W) (remote_address (m' c))" if c: "c \<in> R" for c
    proof (cases "c = a")
      case False
      then have "remote_address (m c) \<noteq> ?g" using D(14) [OF c a(1)] by blast
      then show ?thesis using D(12) [OF c] node [OF c] m'(2) [OF c False] p(3) by simp
    qed (simp add: m'(1) nodea(1))
    show "at_rest (vw_nodes (put_node (remote_address p) (node_of m p) W)) b h"
      if h: "h \<in> vw_addrs (put_node (remote_address p) (node_of m p) W)"
        and cl: "\<And>c. c \<in> R \<Longrightarrow> remote_address (m' c) = h \<Longrightarrow> \<not> dirty (m' c)" for h
    proof -
      have "h \<noteq> ?g" using cl [OF a(1)] m'(1) p(3,7) by auto
      moreover have "\<not> dirty (m c)" if "c \<in> R" "remote_address (m c) = h" for c
        using cl [OF that(1)] that m'(2) \<open>h \<noteq> ?g\<close> by (cases "c = a") auto
      ultimately show ?thesis using D(16) [of h] h p(3) by (auto simp: at_rest_def)
    qed
    show "page_ok (m' c)" if "c \<in> R" for c using D(10) [OF that] m' p(1) that by (cases "c = a") auto
    show "slot_ok m' R c (children (m' c) ! i)" if "c \<in> R" "ptype (m' c) = BTreeInner" "i \<le> count (m' c)" for c i
      using that D(15) [of c i] inner [of c] s(3) [of c] slot by auto
    show "unswz m' (children (m' (vw_super (put_node (remote_address p) (node_of m p) W))) ! 0) =
        vw_root (put_node (remote_address p) (node_of m p) W)"
      using D(17,18) unsw m'(3) by simp
    show "slot_ok m' R (vw_super (put_node (remote_address p) (node_of m p) W))
        (children (m' (vw_super (put_node (remote_address p) (node_of m p) W))) ! 0)"
      using D(17) slot m'(3) by simp
    show "c = c'" if "c \<in> R" "c' \<in> R" "remote_address (m' c) = remote_address (m' c')" for c c'
      using that D(14) s by simp
  qed (use D pb s m'(3) in simp_all)
qed

subsection \<open>Walks and checks\<close>

lemma resident_level:
  assumes "residency W m b R" "a \<in> R"
  shows "vlevel (vw_nodes W (remote_address (m a))) = level (m a)" "level (m a) < 255"
  using residencyD(10) [OF assms] residencyD(12) [OF assms, symmetric]
  by (auto simp: node_of_def page_ok_def split: if_splits)

lemma hot_walk_closed:
  assumes r: "residency W m b R"
  shows "walk_closed m R"
proof -
  note D = residencyD [OF r]
  have "walk_ok (m a)" if "a \<in> R" for a
    using D(10) [OF that] by (auto simp: page_ok_def walk_ok_def inner_ok_def)
  moreover have "hide (children (m a) ! i) \<in> R \<and> level (m (hide (children (m a) ! i))) < level (m a)"
    if a: "a \<in> R" "ptype (m a) = BTreeInner" "i \<le> count (m a)" "swizzled (children (m a) ! i)" for a i
  proof -
    let ?c = "hide (children (m a) ! i)"
    have c: "?c \<in> R" using D(15) [OF a(1-3)] a(4) by (simp add: slot_ok_def)
    have "vlevel (vw_nodes W (remote_address (m ?c))) + 1 = level (m a)"
      using resident_kid(3) [OF r a(1-3)] a(4) by (simp add: unswz_def)
    then show ?thesis using c resident_level(1) [OF r c] by simp
  qed
  ultimately show ?thesis by (simp add: walk_closed_def)
qed

lemma findIdx_unique:
  assumes "i \<le> count p" "children p ! i = v" "\<And>j. j \<le> count p \<Longrightarrow> children p ! j = v \<Longrightarrow> j = i"
  shows "findIdx p v = int i"
proof (cases "List.find (\<lambda>j. children p ! j = v) [0..<count p + 1]")
  case None
  moreover have "i \<in> set [0..<count p + 1]" using assms(1) by auto
  ultimately show ?thesis using assms(2) unfolding find_None_iff by blast
next
  case (Some j)
  then obtain n where n: "n < count p + 1" "children p ! n = v" "j = n" by (auto simp: find_Some_iff simp del: upt_Suc)
  then show ?thesis using Some assms(3) [of n] by (simp add: findIdx_def)
qed

lemma resident_check:
  assumes r: "residency W m b R" and X: "X \<in> R" and P: "P \<in> R" "ptype (m P) = BTreeInner" "i \<le> count (m P)"
    "children (m P) ! i = swz X"
  shows "findIdx (m P) (swz X) = int i" "check_parent_child_info (m P) X (m X)"
proof -
  note D = residencyD [OF r]
  have nsX: "\<not> swizzled X" using D(8) X .
  have g: "unswz m (children (m P) ! i) = remote_address (m X)" using P(4) nsX by (simp add: unswz_def)
  have "children (m P) ! j = swz X \<Longrightarrow> j \<le> count (m P) \<Longrightarrow> j = i" for j
    using kid_unique [OF r P(1,2) _ P(1-3), of j] P(4) by simp
  then show f: "findIdx (m P) (swz X) = int i" by (intro findIdx_unique P(3,4)) blast
  note k = resident_kid(3,4,5) [OF r P(1-3), unfolded g]
  have lv: "level (m P) = level (m X) + 1" using k(1) resident_level(1) [OF r X] by simp
  have lim: "vlo (vw_nodes W (remote_address (m X))) = min_limit (m X)" "vhi (vw_nodes W (remote_address (m X))) = max_limit (m X)"
    using D(12) [OF X, symmetric] by (simp_all add: node_of_def)
  have lims: "child_min (m P) i = min_limit (m X)" "child_max (m P) i = max_limit (m X)" using k(2,3) lim by simp_all
  have "keys_ok (vw_nodes W (remote_address (m P)))" using D(1) D(11) [OF P(1)] by (simp add: vtree_def)
  then have ks: "\<forall>k \<in> set (inner_keys (m P)). min_limit (m P) \<le> k \<and> k \<le> max_limit (m P)"
    using D(12) [OF P(1), symmetric] P(2) by (simp add: keys_ok_def node_of_def)
  have kin: "j < count (m P) \<Longrightarrow> keys (m P) ! j \<in> set (inner_keys (m P))" for j
    using page_ok_inner(1) [OF D(10) [OF P(1)] P(2)] inner_keys_nth by (metis length_inner_keys nth_mem)
  have "min_limit (m P) \<le> min_limit (m X)"
    using lims(1) ks kin [of "i - 1"] P(3) unfolding child_min_def by (cases "i = 0") auto
  moreover have "max_limit (m X) \<le> max_limit (m P)"
    using lims(2) ks kin [of i] P(3) unfolding child_max_def by (cases "i = count (m P)") auto
  moreover have "check_limit_match (m P) X (m X) True"
    by (simp add: check_limit_match_def f lims)
  ultimately show "check_parent_child_info (m P) X (m X)"
    using lv by (auto simp: check_parent_child_info_def)
qed

end
