(* ===== verification/CacheInv.thy ===== *)
theory CacheInv
  imports Residency "HOL-Library.Multiset"
begin

text \<open>
  The invariant of the whole cache on top of the residency relation, what operations spend of the
  slots of the pool, and demotion, the step by which the sampler moves a page to the cool tier.
\<close>

subsection \<open>The invariant of the cache\<close>

definition pool_set :: "'a cache_st \<Rightarrow> u64 set" where
  "pool_set s = (case pool s of None \<Rightarrow> {} | Some al \<Rightarrow> set (pool_slots al))"

definition in_use :: "pos_state \<Rightarrow> bool" where
  "in_use st \<longleftrightarrow> st = POS_HOT \<or> st = POS_PIN"

definition hot_set :: "'a cache_st \<Rightarrow> u64 set" where
  "hot_set s = {a \<in> pool_set s. in_use (pos_state (mem s a))}"

definition pool_inv :: "'a cache_st \<Rightarrow> bool" where
  "pool_inv s \<longleftrightarrow> (\<exists>al. pool s = Some al \<and> alloc_ok al \<and>
     cstate s = (if head_idx al = page_num al then 1 else 0) \<and>
     (\<forall>i < page_num al. head_idx al \<le> i \<longrightarrow> pos_state (mem s (slot_addr al i)) = POS_REMOTE))"

definition free_inv :: "'a cache_st \<Rightarrow> bool" where
  "free_inv s \<longleftrightarrow> distinct (cool_slots (ht s) @ local_pages s) \<and>
     (\<forall>a \<in> set (cool_slots (ht s)). a \<in> pool_set s \<and> pos_state (mem s a) = POS_COOL \<and> \<not> dirty (mem s a)) \<and>
     (\<forall>a \<in> set (local_pages s). a \<in> pool_set s \<and> pos_state (mem s a) = POS_LOCAL) \<and>
     (\<forall>a \<in> pool_set s. dirty (mem s a) \<longrightarrow> in_use (pos_state (mem s a)))"

definition cache_inv :: "env \<Rightarrow> view \<Rightarrow> 'a cache_st \<Rightarrow> bool" where
  "cache_inv E W s \<longleftrightarrow> pool_inv s \<and> ht_ok (ht s) \<and> table_ok (pt s) \<and> free_inv s \<and>
     vw_super W \<notin> pool_set s \<and> residency W (mem s) (be s) (hot_set s) \<and>
     (\<forall>a \<in> hot_set s. get_with_bucket (hash_of E) (pt s) (remote_address (mem s a)) = a)"

lemma cache_invD:
  assumes "cache_inv E W s"
  shows "pool_inv s" "ht_ok (ht s)" "table_ok (pt s)" "free_inv s" "vw_super W \<notin> pool_set s"
    "residency W (mem s) (be s) (hot_set s)"
    "\<And>a. a \<in> hot_set s \<Longrightarrow> get_with_bucket (hash_of E) (pt s) (remote_address (mem s a)) = a"
  using assms unfolding cache_inv_def by blast+

lemma hot_setI: "a \<in> pool_set s \<Longrightarrow> in_use (pos_state (mem s a)) \<Longrightarrow> a \<in> hot_set s"
  by (simp add: hot_set_def)

lemma hot_pool: "a \<in> hot_set s \<Longrightarrow> a \<in> pool_set s"
  by (simp add: hot_set_def)

lemma pool_slot_facts:
  assumes "pool_inv s" "a \<in> pool_set s"
  shows "a \<noteq> 0" "unat a < 2 ^ 48" "\<not> swizzled a"
proof -
  obtain al i where al: "pool s = Some al" "alloc_ok al" "i < page_num al" "a = slot_addr al i"
    using assms by (auto simp: pool_inv_def pool_set_def pool_slots_iff)
  note b = slot_addr_bounds [OF al(2,3)]
  show "a \<noteq> 0" using b(1) al(4) by auto
  show "unat a < 2 ^ 48" using b(2) al(4) by simp
  show "\<not> swizzled a" using slot_not_swizzled [OF al(2,3)] al(4) by simp
qed

lemma finite_pool_set [simp]: "finite (pool_set s)"
  by (simp add: pool_set_def split: option.split)

lemma finite_hot_set [simp]: "finite (hot_set s)"
  by (simp add: hot_set_def)

text \<open>The slots that the warm-up phase has left.\<close>

definition unused :: "'a cache_st \<Rightarrow> nat" where
  "unused s = (case pool s of None \<Rightarrow> 0 | Some al \<Rightarrow> unat (page_num al) - unat (head_idx al))"

lemma unused_cong: "pool s' = pool s \<Longrightarrow> unused s' = unused s"
  by (simp add: unused_def)

text \<open>The slots that something can still be done with: never used, in use, in the cool tier, on the
  free list.\<close>

definition stock :: "'a cache_st \<Rightarrow> nat" where
  "stock s = unused s + card (hot_set s) + length (cool_slots (ht s)) + length (local_pages s)"

lemma stock_cong: "pool s' = pool s \<Longrightarrow> hot_set s' = hot_set s \<Longrightarrow> ht s' = ht s \<Longrightarrow> local_pages s' = local_pages s \<Longrightarrow> stock s' = stock s"
  by (simp add: stock_def unused_def)

text \<open>What sampling and evicting leave alone; in particular the IO flags in the page table, whose
  top bit no slot of the pool has.\<close>

definition evolves :: "env \<Rightarrow> u64 \<Rightarrow> 'a cache_st \<Rightarrow> 'a cache_st \<Rightarrow> bool" where
  "evolves E sr s s' \<longleftrightarrow> pool_set s' = pool_set s \<and> hot_set s' \<subseteq> hot_set s \<and>
     (\<forall>a. remote_address (mem s' a) = remote_address (mem s a)) \<and>
     (\<forall>a. pos_state (mem s a) = POS_PIN \<longrightarrow> pos_state (mem s' a) = POS_PIN) \<and>
     (\<forall>a \<in> hot_set s'. pos_state (mem s' a) = pos_state (mem s a)) \<and>
     length (ht_table (ht s')) = length (ht_table (ht s)) \<and>
     (\<forall>a. level (mem s' a) = level (mem s a) \<and> ptype (mem s' a) = ptype (mem s a) \<and> page.count (mem s' a) = page.count (mem s a) \<and> keys (mem s' a) = keys (mem s a)) \<and>
     mem s' sr = mem s sr \<and> scratch s' = scratch s \<and> cache.more s' = cache.more s \<and>
     ps_cur (be s') = ps_cur (be s) \<and> ps_capacity (be s') = ps_capacity (be s) \<and> unused s' \<le> unused s \<and>
     (\<forall>k. swizzled (get_with_bucket (hash_of E) (pt s) k) \<longrightarrow> get_with_bucket (hash_of E) (pt s') k = get_with_bucket (hash_of E) (pt s) k)"

lemma evolves_refl [simp]: "evolves E sr s s"
  by (simp add: evolves_def)

lemma evolves_trans: "evolves E sr s s' \<Longrightarrow> evolves E sr s' s'' \<Longrightarrow> evolves E sr s s''"
  unfolding evolves_def by (elim conjE, intro conjI) (auto dest: subsetD)

text \<open>
  What an operation spends of the unused slots. As long as some are left nothing is evicted, and
  every slot that is spent holds one more page in use (\<open>fills\<close>); the search for a slot hands
  out one that is not in use yet (\<open>takes\<close>).
\<close>

definition fills :: "'a cache_st \<Rightarrow> 'a cache_st \<Rightarrow> bool" where
  "fills s s' \<longleftrightarrow> unused s' \<le> unused s \<and> (0 < unused s' \<longrightarrow> unused s + card (hot_set s) \<le> unused s' + card (hot_set s')) \<and>
     stock s \<le> stock s' \<and> pool_set s' = pool_set s \<and> length (ht_table (ht s')) = length (ht_table (ht s))"

definition uses :: "nat \<Rightarrow> 'a cache_st \<Rightarrow> 'a cache_st \<Rightarrow> bool" where
  "uses n s s' \<longleftrightarrow> unused s \<le> unused s' + n \<and> fills s s' \<and> ps_cur (be s') = ps_cur (be s) \<and> ps_capacity (be s') = ps_capacity (be s)"

definition takes :: "'a cache_st \<Rightarrow> 'a cache_st \<Rightarrow> bool" where
  "takes s s' \<longleftrightarrow> unused s \<le> unused s' + 1 \<and> unused s' \<le> unused s \<and>
     (0 < unused s' \<longrightarrow> unused s = Suc (unused s') \<and> hot_set s' = hot_set s) \<and>
     stock s \<le> Suc (stock s') \<and> pool_set s' = pool_set s \<and> length (ht_table (ht s')) = length (ht_table (ht s)) \<and>
     ps_cur (be s') = ps_cur (be s) \<and> ps_capacity (be s') = ps_capacity (be s)"

text \<open>No page is pinned, except \<open>P\<close>; with \<open>P = 0\<close>, no page at all.\<close>

definition calm :: "u64 \<Rightarrow> 'a cache_st \<Rightarrow> bool" where
  "calm P s \<longleftrightarrow> (\<forall>a \<in> hot_set s. a = P \<or> pos_state (mem s a) = POS_HOT)"

lemma fills_refl [simp]: "fills s s"
  by (simp add: fills_def)

lemma fills_trans: "fills s s' \<Longrightarrow> fills s' s'' \<Longrightarrow> fills s s''"
  by (auto simp: fills_def)

lemma fills_same: "pool s' = pool s \<Longrightarrow> hot_set s' = hot_set s \<Longrightarrow> ht s' = ht s \<Longrightarrow> local_pages s' = local_pages s \<Longrightarrow> fills s s'"
  using stock_cong [of s' s] unused_cong [of s' s] by (simp add: fills_def pool_set_def)

lemma uses_trans: "uses n s s' \<Longrightarrow> uses n' s' s'' \<Longrightarrow> n + n' \<le> n'' \<Longrightarrow> uses n'' s s''"
  using fills_trans [of s s' s''] by (simp add: uses_def)

lemma uses_same:
  "pool s' = pool s \<Longrightarrow> be s' = be s \<Longrightarrow> hot_set s' = hot_set s \<Longrightarrow> ht s' = ht s \<Longrightarrow> local_pages s' = local_pages s \<Longrightarrow> uses n s s'"
  using unused_cong [of s' s] fills_same [of s' s] by (simp add: uses_def)

text \<open>An operation of the driver also leaves no page pinned, and the fields of the tree as they are.\<close>

definition spends :: "nat \<Rightarrow> 'a cache_st \<Rightarrow> 'a cache_st \<Rightarrow> bool" where
  "spends n s s' \<longleftrightarrow> uses n s s' \<and> (calm 0 s \<longrightarrow> calm 0 s') \<and> cache.more s' = cache.more s"

lemma spends_refl [simp]: "spends n s s"
  by (simp add: spends_def uses_def)

lemma spends_trans: "spends n s s' \<Longrightarrow> spends n' s' s'' \<Longrightarrow> n + n' \<le> n'' \<Longrightarrow> spends n'' s s''"
  using uses_trans [of n s s' n' s'' n''] by (simp add: spends_def)

lemma spendsD: "spends n s s' \<Longrightarrow> unused s \<le> unused s' + n"
  by (simp add: spends_def uses_def)

text \<open>The slot that was taken comes into use.\<close>

lemma takes_fills:
  assumes "takes s s1" "pool s' = pool s1" "hot_set s' = insert p (hot_set s1)" "p \<notin> hot_set s1" "ht s' = ht s1" "local_pages s' = local_pages s1"
  shows "fills s s'"
proof -
  have c: "card (hot_set s') = Suc (card (hot_set s1))" using assms(3,4) finite_hot_set by simp
  then have "stock s' = Suc (stock s1)" using assms(2,5,6) by (simp add: stock_def unused_def)
  then show ?thesis using assms(1,2,5) c unused_cong [OF assms(2)] by (auto simp: takes_def fills_def pool_set_def)
qed

lemma takes_uses:
  assumes "takes s s1" "pool s' = pool s1" "hot_set s' = insert p (hot_set s1)" "p \<notin> hot_set s1" "ht s' = ht s1" "local_pages s' = local_pages s1" "be s' = be s1"
  shows "uses 1 s s'"
  using takes_fills [OF assms(1-6)] assms(1,7) unused_cong [OF assms(2)] by (simp add: takes_def uses_def)

lemma unused_dynamic:
  assumes "pool_inv s"
  shows "unused s = 0 \<longleftrightarrow> cstate s = 1"
proof -
  obtain al where "pool s = Some al" "alloc_ok al" "cstate s = (if head_idx al = page_num al then 1 else 0)"
    using assms by (auto simp: pool_inv_def)
  then show ?thesis by (auto simp: unused_def alloc_ok_def word_le_nat_alt word_unat_eq_iff)
qed

lemma tables_more_eq:
  "tables.more s' = tables.more s \<Longrightarrow> pool s' = pool s \<and> cstate s' = cstate s \<and> local_pages s' = local_pages s \<and>
    cache.more s' = cache.more (s :: 'a cache_st)"
  by (cases s; cases s') simp

subsection \<open>The cool tier as one collection\<close>

lemma cool_slots_buckets: "cool_slots t = concat (map (cool_bucket t) [0..<length (ht_table t)])"
  unfolding cool_slots_def cool_bucket_def
  by (rule arg_cong [where f = concat], rule nth_equalityI) simp_all

lemma mset_concat_change:
  assumes "i < n" "\<And>j. j < n \<Longrightarrow> j \<noteq> i \<Longrightarrow> f' j = f j"
  shows "mset (concat (map f' [0..<n])) + mset (f i) = mset (concat (map f [0..<n])) + mset (f' i)"
  using assms
proof (induction n)
  case (Suc n)
  show ?case
  proof (cases "i = n")
    case True
    have "map f' [0..<n] = map f [0..<n]" using Suc.prems(2) True by simp
    then have "mset (concat (map f' [0..<n])) = mset (concat (map f [0..<n]))" by (rule arg_cong)
    then show ?thesis using True by simp
  next
    case False
    then have "mset (concat (map f' [0..<n])) + mset (f i) = mset (concat (map f [0..<n])) + mset (f' i)"
      using Suc by simp
    moreover have "f' n = f n" using Suc.prems(2) False by simp
    ultimately show ?thesis by (simp add: ac_simps)
  qed
qed simp

lemma cool_slots_change:
  assumes "length (ht_table t') = length (ht_table t)" "i < length (ht_table t)"
    "\<And>j. j < length (ht_table t) \<Longrightarrow> j \<noteq> i \<Longrightarrow> cool_bucket t' j = cool_bucket t j"
  shows "mset (cool_slots t') + mset (cool_bucket t i) = mset (cool_slots t) + mset (cool_bucket t' i)"
  unfolding cool_slots_buckets assms(1) by (rule mset_concat_change) (use assms in auto)

lemma mset_exchange:
  assumes "a + q = c + t" "t + e = add_mset x q"
  shows "a + e = add_mset x (c :: 'x multiset)"
proof -
  have "(a + e) + q = (a + q) + e" by (simp add: ac_simps)
  also have "\<dots> = c + (t + e)" by (simp add: assms(1) ac_simps)
  also have "\<dots> = add_mset x c + q" by (simp add: assms(2))
  finally show ?thesis by simp
qed

lemma take_push_mset:
  assumes "length q \<le> n" "0 < n"
  shows "mset (take n (x # q)) + (if length q = n then {#last q#} else {#}) = add_mset x (mset q)"
proof (cases "length q = n")
  case True
  then have ne: "q \<noteq> []" using assms(2) by auto
  then have "take n (x # q) = x # butlast q" using True assms(2) by (cases n) (auto simp: butlast_conv_take)
  moreover have "mset q = add_mset (last q) (mset (butlast q))"
    using append_butlast_last_id [OF ne] by (metis mset.simps(2) mset_append union_mset_add_mset_right add_0_right mset.simps(1))
  ultimately show ?thesis using True by simp
next
  case False
  then show ?thesis using assms by (simp add: Suc_le_eq)
qed

subsection \<open>Demotion\<close>

lemma demote_effect:
  assumes ht: "ht_ok (ht s)" and pt: "table_ok (pt s)" and v: "unat cur < 2 ^ 48" "cur \<notin> set (cool_slots (ht s))"
    and clean: "\<forall>a \<in> set (cool_slots (ht s)). a \<noteq> 0 \<and> \<not> dirty (mem s a)"
  shows "\<exists>ev s'. demote E cur s = Inr s' \<and> (ev \<noteq> 0 \<longrightarrow> ev \<in> set (cool_slots (ht s))) \<and>
     ht_ok (ht s') \<and> table_ok (pt s') \<and>
     mset (cool_slots (ht s') @ local_pages s') = add_mset cur (mset (cool_slots (ht s) @ local_pages s)) \<and>
     local_pages s' = (if ev \<noteq> 0 then ev # local_pages s else local_pages s) \<and>
     mem s' = (\<lambda>a. if a = cur then (mem s cur)\<lparr>dirty := False, pos_state := POS_COOL\<rparr>
                   else if a = ev \<and> ev \<noteq> 0 then (mem s a)\<lparr>pos_state := POS_LOCAL\<rparr> else mem s a) \<and>
     be s' = (if dirty (mem s cur) then ps_write (be s) (remote_address (mem s cur)) (flushed_image (mem s cur)) else be s) \<and>
     scratch s' = scratch s \<and> pool s' = pool s \<and> cstate s' = cstate s \<and> cache.more s' = cache.more s \<and>
     length (ht_table (ht s')) = length (ht_table (ht s)) \<and>
     (\<forall>k. get_with_bucket (hash_of E) (pt s') k =
        (if ev \<noteq> 0 \<and> k = remote_address (mem s ev) \<and> get_with_bucket (hash_of E) (pt s) k = ev then 0
         else get_with_bucket (hash_of E) (pt s) k))"
proof -
  define s1 where "s1 = (if dirty (mem s cur) then set_node cur ((mem s cur)\<lparr>dirty := False\<rparr>)
    (s\<lparr>be := ps_write (be s) (remote_address (mem s cur)) (flushed_image (mem s cur))\<rparr>) else s)"
  have w: "(if dirty (mem s cur) then remote_write (remote_address (mem s cur)) cur s else Inr s) = Inr s1"
    by (simp add: s1_def remote_write_eq set_node_def)
  have cl: "(mem s cur)\<lparr>dirty := False\<rparr> = mem s cur" if "\<not> dirty (mem s cur)" using that by (cases "mem s cur") simp
  have m1: "mem s1 = (mem s)(cur := (mem s cur)\<lparr>dirty := False\<rparr>)" by (simp add: s1_def cl)
  have f1: "ht s1 = ht s" "pt s1 = pt s" "scratch s1 = scratch s" "tables.more s1 = tables.more s"
    "be s1 = (if dirty (mem s cur) then ps_write (be s) (remote_address (mem s cur)) (flushed_image (mem s cur)) else be s)"
    by (simp_all add: s1_def set_node_def)
  define i where "i = bucket_idx E (ht s1) (remote_address (mem s1 cur))"
  define q where "q = cool_bucket (ht s1) i"
  define ev where "ev = (if length q = NUM_ENTRIES then last q else 0)"
  have clean1: "\<forall>a \<in> set (cool_slots (ht s1)). a \<noteq> 0 \<and> \<not> dirty (mem s1 a)"
    using clean by (auto simp: f1 m1)
  have il: "i < length (ht_table (ht s))" using bucket_idx_less [OF ht] by (simp add: i_def f1)
  have "ht_ok (ht s1)" "table_ok (pt s1)" "cur \<notin> set (cool_slots (ht s1))" using ht pt v by (simp_all add: f1)
  from ht_insert_effect [OF this(1,2) i_def v(1) this(3) clean1 ev_def [unfolded q_def]]
  obtain s2 where ins: "ht_insert E (remote_address (mem s1 cur)) cur 0 s1 = Inr (ev, s2)"
    "ht_ok (ht s2)" "table_ok (pt s2)" "cool_bucket (ht s2) i = take NUM_ENTRIES (cur # q)"
    "\<forall>j < length (ht_table (ht s)). j \<noteq> i \<longrightarrow> cool_bucket (ht s2) j = cool_bucket (ht s) j"
    "length (ht_table (ht s2)) = length (ht_table (ht s))"
    "mem s2 = (mem s1)(cur := (mem s1 cur)\<lparr>dirty := False, pos_state := POS_COOL\<rparr>)"
    "be s2 = be s1" "scratch s2 = scratch s" "tables.more s2 = tables.more s"
    "\<forall>k. get_with_bucket (hash_of E) (pt s2) k =
        (if ev \<noteq> 0 \<and> k = remote_address (mem s1 ev) \<and> get_with_bucket (hash_of E) (pt s) k = ev then 0
         else get_with_bucket (hash_of E) (pt s) k)"
    by (auto simp: f1 m1 q_def)
  define s' where "s' = (if ev \<noteq> 0 then insert_local_set ev s2 else s2)"
  have eq: "demote E cur s = Inr s'" by (simp add: demote_def w ins(1) s'_def)
  note mo = tables_more_eq [OF ins(10)]
  have lq: "length q \<le> NUM_ENTRIES"
    using ht_ok_nth [OF ht il] by (simp add: q_def f1 cool_bucket_def) (simp add: b_ok_def)
  have evc: "ev \<in> set (cool_slots (ht s))" if "ev \<noteq> 0"
  proof -
    have "length q = NUM_ENTRIES" "ev = last q" using that by (auto simp: ev_def split: if_splits)
    then have "ev \<in> set q" by (metis last_in_set list.size(3) NUM_ENTRIES_def zero_neq_numeral)
    then show ?thesis using cool_bucket_subset [OF il] by (auto simp: q_def f1)
  qed
  have ev0: "ev \<noteq> 0 \<longleftrightarrow> length q = NUM_ENTRIES"
  proof
    assume l: "length q = NUM_ENTRIES"
    then have "last q \<in> set q" by (metis last_in_set list.size(3) NUM_ENTRIES_def zero_neq_numeral)
    then have "last q \<in> set (cool_slots (ht s))" using cool_bucket_subset [OF il] by (auto simp: q_def f1)
    then show "ev \<noteq> 0" using clean l by (auto simp: ev_def)
  qed (auto simp: ev_def split: if_splits)
  have "mset (cool_slots (ht s2)) + mset q = mset (cool_slots (ht s)) + mset (take NUM_ENTRIES (cur # q))"
    using cool_slots_change [of "ht s2" "ht s" i] ins(4-6) il by (simp add: q_def f1)
  moreover have "mset (take NUM_ENTRIES (cur # q)) + (if ev \<noteq> 0 then {#ev#} else {#}) = add_mset cur (mset q)"
  proof -
    have "(if ev \<noteq> 0 then {#ev#} else {#}) = (if length q = NUM_ENTRIES then {#last q#} else {#})"
      using ev0 by (auto simp: ev_def)
    then show ?thesis using take_push_mset [OF lq cool.cap_pos, of cur] by simp
  qed
  ultimately have ms: "mset (cool_slots (ht s2)) + (if ev \<noteq> 0 then {#ev#} else {#}) = add_mset cur (mset (cool_slots (ht s)))"
    by (rule mset_exchange)
  have loc: "local_pages s' = (if ev \<noteq> 0 then ev # local_pages s else local_pages s)"
    using mo by (simp add: s'_def insert_local_set_def)
  have hs: "ht s' = ht s2" "pt s' = pt s2" "be s' = be s2" "scratch s' = scratch s2" "pool s' = pool s2" "cstate s' = cstate s2"
    "cache.more s' = cache.more s2"
    by (simp_all add: s'_def insert_local_set_def set_pos_def set_node_def)
  have ms2: "mset (cool_slots (ht s') @ local_pages s') = add_mset cur (mset (cool_slots (ht s) @ local_pages s))"
    using ms unfolding hs loc by (auto simp: ac_simps split: if_splits)
  have evcur: "ev \<noteq> 0 \<Longrightarrow> ev \<noteq> cur" using evc v(2) by auto
  have mem': "mem s' = (\<lambda>a. if a = cur then (mem s cur)\<lparr>dirty := False, pos_state := POS_COOL\<rparr>
                   else if a = ev \<and> ev \<noteq> 0 then (mem s a)\<lparr>pos_state := POS_LOCAL\<rparr> else mem s a)"
    using evcur by (auto simp: s'_def insert_local_set_def set_pos_def ins(7) m1 fun_eq_iff)
  have rm: "remote_address (mem s1 a) = remote_address (mem s a)" for a by (simp add: m1)
  have be': "be s' = (if dirty (mem s cur) then ps_write (be s) (remote_address (mem s cur)) (flushed_image (mem s cur)) else be s)"
    using hs(3) ins(8) f1(5) by simp
  have pt': "\<forall>k. get_with_bucket (hash_of E) (pt s') k =
        (if ev \<noteq> 0 \<and> k = remote_address (mem s ev) \<and> get_with_bucket (hash_of E) (pt s) k = ev then 0
         else get_with_bucket (hash_of E) (pt s) k)"
    using ins(11) unfolding rm hs(2) .
  have rest: "scratch s' = scratch s" "pool s' = pool s" "cstate s' = cstate s" "cache.more s' = cache.more s"
    "length (ht_table (ht s')) = length (ht_table (ht s))" "ht_ok (ht s')" "table_ok (pt s')"
    using hs ins(2,3,6,9) mo by simp_all
  show ?thesis
    using eq evc ms2 loc mem' be' pt' rest by blast
qed

text \<open>Unlinking a page from its parent and demoting it keeps the invariant and the view.\<close>

lemma mset_eq_distinct: "mset xs = add_mset x (mset ys) \<Longrightarrow> distinct xs \<longleftrightarrow> x \<notin> set ys \<and> distinct ys"
  using mset_eq_imp_distinct_iff [of xs "x # ys"] by simp

lemma free_disjoint_hot:
  assumes "free_inv s"
  shows "a \<in> set (cool_slots (ht s)) \<union> set (local_pages s) \<Longrightarrow> a \<notin> hot_set s"
  using assms by (auto simp: free_inv_def hot_set_def in_use_def)

lemma demote_inv:
  assumes inv: "cache_inv E W s" and X: "X \<in> hot_set s" "pos_state (mem s X) = POS_HOT" "bitmap (mem s X) = 0"
    and P: "P \<in> hot_set s" "ptype (mem s P) = BTreeInner" "i \<le> page.count (mem s P)" "children (mem s P) ! i = swz X"
  shows "\<exists>s'. demote E X (unlink_child P i X s) = Inr s' \<and> cache_inv E W s' \<and> evolves E (vw_super W) s s' \<and>
    hot_set s' = hot_set s - {X} \<and> cstate s' = cstate s \<and> stock s' = stock s"
proof -
  note I = cache_invD [OF inv]
  note r = I(6)
  have XP: "X \<noteq> P"
  proof
    assume "X = P"
    then have "level (mem s P) = level (mem s P) + 1" using resident_check(2) [OF r X(1) P] residencyD(10) [OF r P(1)]
        resident_level(2) [OF r P(1)] by (auto simp: check_parent_child_info_def)
    then show False by simp
  qed
  define u where "u = unlink_child P i X s"
  define g where "g = remote_address (mem s X)"
  have um: "mem u = (mem s)(P := unset_bitmap i ((mem s P)\<lparr>children := (children (mem s P))[i := g]\<rparr>),
      X := (mem s X)\<lparr>parent_ptr := 0\<rparr>)"
    using XP by (simp add: u_def unlink_child_def Let_def g_def)
  have uf: "ht u = ht s" "pt u = pt s" "be u = be s" "scratch u = scratch s" "local_pages u = local_pages s"
    "pool u = pool s" "cstate u = cstate s" "cache.more u = cache.more s"
    by (simp_all add: u_def unlink_child_def Let_def set_node_def)
  have fr: "\<forall>a \<in> set (cool_slots (ht s)). a \<in> pool_set s \<and> a \<notin> hot_set s \<and> pos_state (mem s a) = POS_COOL \<and> \<not> dirty (mem s a)"
    "\<forall>a \<in> set (local_pages s). a \<in> pool_set s \<and> a \<notin> hot_set s \<and> pos_state (mem s a) = POS_LOCAL"
    "distinct (cool_slots (ht s) @ local_pages s)"
    using I(4) free_disjoint_hot [OF I(4)] by (auto simp: free_inv_def)
  have Xp: "X \<in> pool_set s" "P \<in> pool_set s" using X P hot_pool by auto
  note slot = pool_slot_facts [OF I(1)]
  have c1: "X \<notin> set (cool_slots (ht u))" using fr(1) X(1) by (auto simp: uf)
  have c2: "\<forall>a \<in> set (cool_slots (ht u)). a \<noteq> 0 \<and> \<not> dirty (mem u a)"
    using fr(1) slot(1) X(1) P(1) by (auto simp: uf um)
  from demote_effect [of u X E] I(2,3) slot(2) [OF Xp(1)] c1 c2 obtain ev s' where
    d: "demote E X u = Inr s'" "ev \<noteq> 0 \<longrightarrow> ev \<in> set (cool_slots (ht s))" "ht_ok (ht s')" "table_ok (pt s')"
    "mset (cool_slots (ht s') @ local_pages s') = add_mset X (mset (cool_slots (ht s) @ local_pages s))"
    "local_pages s' = (if ev \<noteq> 0 then ev # local_pages s else local_pages s)"
    "mem s' = (\<lambda>a. if a = X then (mem u X)\<lparr>dirty := False, pos_state := POS_COOL\<rparr>
                   else if a = ev \<and> ev \<noteq> 0 then (mem u a)\<lparr>pos_state := POS_LOCAL\<rparr> else mem u a)"
    "be s' = (if dirty (mem u X) then ps_write (be s) (remote_address (mem u X)) (flushed_image (mem u X)) else be s)"
    "scratch s' = scratch s" "pool s' = pool s" "cstate s' = cstate s" "cache.more s' = cache.more s"
    "length (ht_table (ht s')) = length (ht_table (ht s))"
    "\<forall>k. get_with_bucket (hash_of E) (pt s') k =
        (if ev \<noteq> 0 \<and> k = remote_address (mem u ev) \<and> get_with_bucket (hash_of E) (pt s) k = ev then 0
         else get_with_bucket (hash_of E) (pt s) k)"
    unfolding uf by blast
  have evh: "ev \<noteq> 0 \<Longrightarrow> ev \<in> pool_set s \<and> ev \<notin> hot_set s \<and> ev \<noteq> X \<and> ev \<noteq> P \<and> pos_state (mem s ev) = POS_COOL"
    using d(2) fr(1) X(1) P(1) by auto
  have m': "mem s' a = (if a = X then (mem s X)\<lparr>parent_ptr := 0, dirty := False, pos_state := POS_COOL\<rparr>
      else if a = ev \<and> ev \<noteq> 0 then (mem s a)\<lparr>pos_state := POS_LOCAL\<rparr>
      else if a = P then unset_bitmap i ((mem s P)\<lparr>children := (children (mem s P))[i := g]\<rparr>) else mem s a)" for a
    using evh XP by (auto simp: d(7) um)
  have ps: "pool_set s' = pool_set s" by (simp add: pool_set_def d(10))
  have Pp: "pos_state (mem s' P) = pos_state (mem s P)" using XP evh by (auto simp: m' unset_bitmap_def)
  have hot: "hot_set s' = hot_set s - {X}"
  proof -
    have "in_use (pos_state (mem s' a)) \<longleftrightarrow> in_use (pos_state (mem s a)) \<and> a \<noteq> X" if "a \<in> pool_set s" for a
      using evh that Pp hot_setI [of ev s] by (cases "a = P") (auto simp: m' in_use_def)
    then show ?thesis by (auto simp: hot_set_def ps)
  qed
  have srp: "vw_super W \<notin> pool_set s" by (rule I(5))
  have srm: "mem s' (vw_super W) = mem s (vw_super W)" using srp evh Xp by (auto simp: m')
  have mX: "mem u X = (mem s X)\<lparr>parent_ptr := 0\<rparr>" by (simp add: um)
  have fl: "flushed_image (mem u X) = flushed_image (mem s X)" by (simp add: mX flushed_image_def)
  have res: "residency W (mem s') (be s') (hot_set s - {X})"
  proof (rule residency_demote [OF r X(1,3) P])
    show "mem s' P = unset_bitmap i ((mem s P)\<lparr>children := (children (mem s P))[i := remote_address (mem s X)]\<rparr>)"
      using XP evh by (auto simp: m' g_def)
    show "mem s' a = mem s a" if "a \<in> hot_set s" "a \<noteq> X" "a \<noteq> P" for a using that evh by (auto simp: m')
    show "be s' = (if dirty (mem s X) then ps_write (be s) (remote_address (mem s X)) (flushed_image (mem s X)) else be s)"
      unfolding d(8) fl by (simp add: mX)
  qed (rule srm)
  have rem: "remote_address (mem s' a) = remote_address (mem s a)" for a by (simp add: m' unset_bitmap_def)
  have fields: "level (mem s' a) = level (mem s a) \<and> ptype (mem s' a) = ptype (mem s a) \<and>
      page.count (mem s' a) = page.count (mem s a) \<and> keys (mem s' a) = keys (mem s a)" for a
    by (simp add: m' unset_bitmap_def)
  have coolset: "set (cool_slots (ht s')) \<union> set (local_pages s') = insert X (set (cool_slots (ht s)) \<union> set (local_pages s))"
    using arg_cong [OF d(5), of set_mset] by simp
  have dist: "distinct (cool_slots (ht s') @ local_pages s')"
    unfolding mset_eq_distinct [OF d(5)] using fr X(1) by auto
  have cool: "a \<in> insert X (set (cool_slots (ht s))) \<and> (ev \<noteq> 0 \<longrightarrow> a \<noteq> ev)" if a: "a \<in> set (cool_slots (ht s'))" for a
  proof -
    have "set (local_pages s) \<subseteq> set (local_pages s')" "ev \<noteq> 0 \<longrightarrow> ev \<in> set (local_pages s')" by (simp_all add: d(6) subset_insertI)
    moreover have "a \<notin> set (local_pages s')" using a dist by auto
    ultimately show ?thesis using a coolset by blast
  qed
  have fi: "free_inv s'"
    unfolding free_inv_def ps
  proof (intro conjI ballI)
    show "distinct (cool_slots (ht s') @ local_pages s')" by (rule dist)
    fix a assume "a \<in> set (cool_slots (ht s'))"
    note a = cool [OF this]
    show "a \<in> pool_set s" using a fr(1) Xp by auto
    show "pos_state (mem s' a) = POS_COOL" "\<not> dirty (mem s' a)" using a fr(1) P(1) by (auto simp: m')
  next
    fix a assume a: "a \<in> set (local_pages s')"
    have "a = ev \<and> ev \<noteq> 0 \<or> a \<in> set (local_pages s)" using a d(6) by (auto split: if_splits)
    then show "a \<in> pool_set s" "pos_state (mem s' a) = POS_LOCAL" using evh fr(2) X(1) P(1) by (auto simp: m')
  next
    fix a assume a: "a \<in> pool_set s"
    have "a \<noteq> X \<and> dirty (mem s a) \<and> (ev \<noteq> 0 \<longrightarrow> a \<noteq> ev)" if "dirty (mem s' a)"
      using that evh fr(1) d(2) by (auto simp: m' unset_bitmap_def split: if_splits)
    moreover have "in_use (pos_state (mem s a))" if "dirty (mem s a)" using that a I(4) by (simp add: free_inv_def)
    ultimately show "dirty (mem s' a) \<longrightarrow> in_use (pos_state (mem s' a))" by (auto simp: m' unset_bitmap_def)
  qed
  have "pool_inv s'"
  proof -
    obtain al where al: "pool s = Some al" "alloc_ok al" "cstate s = (if head_idx al = page_num al then 1 else 0)"
      "\<forall>i < page_num al. head_idx al \<le> i \<longrightarrow> pos_state (mem s (slot_addr al i)) = POS_REMOTE"
      using I(1) by (auto simp: pool_inv_def)
    have "pos_state (mem s' a) = POS_REMOTE" if "pos_state (mem s a) = POS_REMOTE" for a
      using that X(2) evh Pp by (cases "a = P"; cases "ev = 0") (auto simp: m')
    then show ?thesis using al d(10,11) by (auto simp: pool_inv_def)
  qed
  moreover have "\<forall>a \<in> hot_set s'. get_with_bucket (hash_of E) (pt s') (remote_address (mem s' a)) = a"
    using d(14) I(7) evh by (auto simp: hot rem)
  moreover have "evolves E (vw_super W) s s'"
  proof -
    have "ps_cur (be s') = ps_cur (be s)" "ps_capacity (be s') = ps_capacity (be s)"
      by (simp_all add: d(8) ps_write_def)
    moreover have "\<forall>a. pos_state (mem s a) = POS_PIN \<longrightarrow> pos_state (mem s' a) = POS_PIN"
      using X(2) evh Pp by (auto simp: m' unset_bitmap_def)
    moreover have "\<forall>a \<in> hot_set s - {X}. pos_state (mem s' a) = pos_state (mem s a)"
      using evh Pp by (auto simp: m' unset_bitmap_def)
    moreover have "\<forall>k. swizzled (get_with_bucket (hash_of E) (pt s) k) \<longrightarrow>
        get_with_bucket (hash_of E) (pt s') k = get_with_bucket (hash_of E) (pt s) k"
      using d(14) evh slot(3) by auto
    ultimately show ?thesis
      unfolding evolves_def using ps rem fields srm d(9,12,13) unused_cong [OF d(10)] by (simp add: hot)
  qed
  ultimately have "cache_inv E W s' \<and> evolves E (vw_super W) s s'"
    using d(3,4) fi srp ps res hot by (simp add: cache_inv_def)
  moreover have "stock s' = stock s"
  proof -
    have "card (hot_set s) = Suc (card (hot_set s'))" using X(1) card.remove [OF finite_hot_set X(1)] by (simp add: hot)
    moreover have "length (cool_slots (ht s')) + length (local_pages s') = Suc (length (cool_slots (ht s)) + length (local_pages s))"
      using arg_cong [OF d(5), of size] by simp
    ultimately show ?thesis using unused_cong [OF d(10)] by (simp add: stock_def)
  qed
  ultimately show ?thesis using d(1,11) hot by (auto simp: u_def)
qed

end
