(* ===== verification/Eviction.thy ===== *)
theory Eviction
  imports CacheInv
begin

text \<open>
  Sampling and the search for a free slot in \<open>CacheManager\<close>: they keep the invariant of the cache
  and the view, they end, and with draws that do not stay in a few slots for ever they succeed.
\<close>

lemma evolves_draws [simp]: "evolves E sr s (s\<lparr>draws := n\<rparr>)"
  by (simp add: evolves_def pool_set_def hot_set_def unused_def)

lemma cache_inv_draws [simp]: "cache_inv E W (s\<lparr>draws := n\<rparr>) = cache_inv E W s"
  by (simp add: cache_inv_def pool_inv_def free_inv_def pool_set_def hot_set_def)

lemma hot_set_draws [simp]: "hot_set (s\<lparr>draws := n\<rparr>) = hot_set s"
  by (simp add: hot_set_def pool_set_def)

lemma pool_set_draws [simp]: "pool_set (s\<lparr>draws := n\<rparr>) = pool_set s"
  by (simp add: pool_set_def)

lemma stock_draws [simp]: "stock (s\<lparr>draws := n\<rparr>) = stock s"
  by (simp add: stock_def unused_def)

subsection \<open>Pages that the sampler does not take\<close>

text \<open>
  A walk of the sampler is in vain when it ends at a pinned page or at the root. In a state that is
  \<open>calm P\<close> the pinned page can only be \<open>P\<close>, and it can only be reached from pages above it.
\<close>

primrec climb :: "(u64 \<Rightarrow> page) \<Rightarrow> u64 \<Rightarrow> nat \<Rightarrow> u64" where
  "climb m P 0 = P"
| "climb m P (Suc n) = parent_ptr (m (climb m P n))"

definition above :: "(u64 \<Rightarrow> page) \<Rightarrow> u64 set \<Rightarrow> u64 \<Rightarrow> u64 set" where
  "above m R P = {a. \<exists>n. a = climb m P n \<and> (\<forall>k \<le> n. climb m P k \<in> R)}"

definition spared :: "view \<Rightarrow> u64 \<Rightarrow> 'a cache_st \<Rightarrow> u64 set" where
  "spared W P s = {a \<in> hot_set s. parent_ptr (mem s a) = vw_super W} \<union> above (mem s) (hot_set s) P"

lemma calm_draws [simp]: "calm P (s\<lparr>draws := n\<rparr>) = calm P s"
  by (simp add: calm_def)

lemma spared_draws [simp]: "spared W P (s\<lparr>draws := n\<rparr>) = spared W P s"
  by (simp add: spared_def)

lemma above_subset: "above m R P \<subseteq> R"
  by (auto simp: above_def)

lemma above_self: "P \<in> R \<Longrightarrow> P \<in> above m R P"
  by (auto simp: above_def intro!: exI [of _ 0])

lemma above_parent: "a \<in> above m R P \<Longrightarrow> parent_ptr (m a) \<in> R \<Longrightarrow> parent_ptr (m a) \<in> above m R P"
  unfolding above_def by (clarsimp, rule_tac x = "Suc n" in exI) (auto simp: le_Suc_eq)

text \<open>Levels grow on the way up, so there is at most one such page per level.\<close>

lemma above_card:
  assumes r: "residency W m b R" and fin: "finite R"
  shows "card (above m R P) \<le> 255"
proof -
  have up: "level (m (climb m P n)) = level (m P) + n" if "\<forall>k \<le> n. climb m P k \<in> R" for n
    using that
  proof (induction n)
    case (Suc n)
    let ?a = "climb m P n" and ?q = "parent_ptr (m (climb m P n))"
    have a: "?a \<in> R" "?q \<in> R" using Suc.prems [rule_format, of n] Suc.prems [rule_format, of "Suc n"] by simp_all
    then obtain i where q: "ptype (m ?q) = BTreeInner" "i \<le> page.count (m ?q)" "children (m ?q) ! i = swz ?a"
      using residencyD(6) [OF r] residencyD(13) [OF r a(1)] by (auto simp: points_back_def)
    have "level (m ?q) = level (m ?a) + 1"
      using resident_check(2) [OF r a(1,2) q] resident_level(2) [OF r a(2)] by (auto simp: check_parent_child_info_def)
    then show ?case using Suc by simp
  qed simp
  have "card (above m R P) \<le> card {..<255 :: nat}"
  proof (rule card_inj_on_le)
    show "inj_on (\<lambda>a. level (m a)) (above m R P)"
      using up by (intro inj_onI) (auto simp: above_def)
    show "(\<lambda>a. level (m a)) ` above m R P \<subseteq> {..<255}"
      using resident_level(2) [OF r] above_subset [of m R P] by auto
  qed simp
  then show ?thesis by simp
qed

lemma spared_card:
  assumes "cache_inv E W s"
  shows "card (spared W P s) \<le> 256"
proof -
  note r = cache_invD(6) [OF assms]
  let ?A = "{a \<in> hot_set s. parent_ptr (mem s a) = vw_super W}"
  have root: "children (mem s (vw_super W)) ! 0 = swz a" if "a \<in> ?A" for a
    using that residencyD(6) [OF r] residencyD(13) [OF r, of a] by (auto simp: points_back_def)
  have "a = a'" if "a \<in> ?A" "a' \<in> ?A" for a a'
  proof -
    have "hide (swz a) = hide (swz a')" using root [OF that(1)] root [OF that(2)] by simp
    then show ?thesis using that residencyD(8) [OF r] by simp
  qed
  then have "card ?A \<le> 1" by (intro card_le_Suc0_iff_eq [THEN iffD2, folded One_nat_def]) auto
  then show ?thesis
    using card_Un_le [of ?A "above (mem s) (hot_set s) P"] above_card [OF r finite_hot_set, of P] by (simp add: spared_def)
qed

lemma unspared_closed:
  assumes "cache_inv E W s"
  shows "walk_closed (mem s) (hot_set s - spared W P s)"
  unfolding walk_closed_def
proof (intro ballI conjI impI allI)
  note r = cache_invD(6) [OF assms]
  note h = hot_walk_closed [OF r, unfolded walk_closed_def]
  fix a
  assume a: "a \<in> hot_set s - spared W P s"
  show "walk_ok (mem s a)" using h a by blast
  fix i
  assume i: "ptype (mem s a) = BTreeInner" "i \<le> page.count (mem s a)" "swizzled (children (mem s a) ! i)"
  let ?c = "hide (children (mem s a) ! i)"
  show "level (mem s ?c) < level (mem s a)" using h a i by blast
  have c: "?c \<in> hot_set s" "parent_ptr (mem s ?c) = a" using residencyD(15) [OF r, of a i] a i by (auto simp: slot_ok_def)
  moreover have "?c \<notin> spared W P s"
    using c a residencyD(6) [OF r] above_parent [of ?c "mem s" "hot_set s" P] by (auto simp: spared_def)
  ultimately show "?c \<in> hot_set s - spared W P s" by blast
qed

subsection \<open>Sampling\<close>

text \<open>The slot that the sampler looks at first.\<close>

definition target :: "env \<Rightarrow> 'a cache_st \<Rightarrow> u64" where
  "target E s = (case pool s of None \<Rightarrow> 0 | Some al \<Rightarrow> slot_addr al (of_nat (rnd E (draws s) mod unat (page_num al))))"

lemma of_nat_below:
  assumes "n < unat (y :: u64)"
  shows "unat (of_nat n :: u64) = n" "(of_nat n :: u64) < y"
proof -
  have "unat y < 2 ^ 64" using unsigned_less [of y] by simp
  then have "n < 2 ^ 64" using assms by simp
  then show "unat (of_nat n :: u64) = n" by (simp add: unat_of_nat take_bit_nat_eq_self)
  then show "(of_nat n :: u64) < y" using assms by (simp add: word_less_nat_alt)
qed

lemma random_select_full:
  assumes "alloc_ok al" "head_idx al = page_num al"
  shows "random_select E al s = Inr (slot_addr al (of_nat (rnd E (draws s) mod unat (page_num al))), s\<lparr>draws := draws s + 1\<rparr>)"
    "(of_nat (rnd E (draws s) mod unat (page_num al)) :: u64) < page_num al"
proof -
  have "0 < unat (page_num al)" using assms by (auto simp: alloc_ok_def unat_gt_0)
  then have lt: "rnd E (draws s) mod unat (page_num al) < unat (page_num al)" by simp
  then show "(of_nat (rnd E (draws s) mod unat (page_num al)) :: u64) < page_num al"
    by (rule of_nat_below)
  then have "\<not> (of_nat (rnd E (draws s) mod unat (page_num al)) :: u64) > head_idx al"
    "\<not> (of_nat (rnd E (draws s) mod unat (page_num al)) :: u64) \<ge> page_num al" using assms(2) by simp_all
  then show "random_select E al s = Inr (slot_addr al (of_nat (rnd E (draws s) mod unat (page_num al))), s\<lparr>draws := draws s + 1\<rparr>)"
    unfolding random_select_def draw_below_def select_idx_def by simp
qed

lemma target_slot:
  assumes "cache_inv E W s" "cstate s = 1"
  shows "target E s \<in> pool_set s"
proof -
  obtain al where al: "pool s = Some al" "alloc_ok al" "head_idx al = page_num al"
    using cache_invD(1) [OF assms(1)] assms(2) by (auto simp: pool_inv_def split: if_splits)
  show ?thesis using random_select_full(2) [OF al(2,3), of E s] al(1) by (auto simp: target_def pool_set_def pool_slots_iff)
qed

text \<open>The page that a turn of the sampler demotes when it looks at a slot: the one at which the walk from
  there ends, unless that is pinned or the root, whose parent is the super root.\<close>

definition yields :: "(u64 \<Rightarrow> page) \<Rightarrow> u64 \<Rightarrow> u64 option" where
  "yields m a =
     (if pos_state (m a) = POS_HOT then
        (case recursive_iterate walk_fuel m a (-1) of
           Inr (Some X, ix) \<Rightarrow> if level (m (parent_ptr (m X))) = 255 then None else Some X
         | Inr (None, ix) \<Rightarrow> None
         | Inl e \<Rightarrow> None)
      else None)"

text \<open>In a calm state every page in use that is not spared yields one.\<close>

lemma unspared_yields:
  assumes inv: "cache_inv E W s" and "calm P s" and a: "a \<in> hot_set s - spared W P s"
  shows "yields (mem s) a \<noteq> None"
proof -
  note r = cache_invD(6) [OF inv]
  have hot: "pos_state (mem s a) = POS_HOT" if "a \<in> hot_set s - spared W P s" for a
    using that \<open>calm P s\<close> above_self [of P "hot_set s" "mem s"] by (auto simp: calm_def spared_def)
  have "level (mem s a) < 255" using resident_level(2) [OF r, of a] a by simp
  then have "level (mem s a) < walk_fuel" by (simp add: walk_fuel_def)
  from recursive_iterate_correct [OF unspared_closed [OF inv] a this, of "-1"] hot obtain X ix where
    walk: "recursive_iterate walk_fuel (mem s) a (-1) = Inr (Some X, ix)" and X: "X \<in> hot_set s - spared W P s" by auto
  have "parent_ptr (mem s X) \<in> hot_set s" using residencyD(13) [OF r, of X] X by (auto simp: points_back_def spared_def)
  then have "level (mem s (parent_ptr (mem s X))) \<noteq> 255" using resident_level(2) [OF r] by fastforce
  then show ?thesis using hot [OF a] by (simp add: yields_def walk)
qed

text \<open>In a calm state nearly every page in use lies in a slot that yields one.\<close>

lemma yielding_slots:
  assumes "cache_inv E W s" "calm P s"
  shows "card (hot_set s) \<le> card {a \<in> pool_set s. yields (mem s) a \<noteq> None} + 256"
proof -
  have "card (hot_set s) - card (spared W P s) \<le> card (hot_set s - spared W P s)" by (rule diff_card_le_card_Diff) simp
  also have "\<dots> \<le> card {a \<in> pool_set s. yields (mem s) a \<noteq> None}"
    using unspared_yields [OF assms] by (intro card_mono) (auto simp: hot_set_def)
  finally show ?thesis using spared_card [OF assms(1), of P] by simp
qed

text \<open>
  One turn of the sampler in the dynamic phase never fails: its assertions hold, the walk ends,
  and it demotes the page that the slot yields, or, where the slot yields none, changes nothing but
  the generator. The branches for a null or stale parent pointer are never taken.
\<close>

lemma sample_once_exact:
  assumes inv: "cache_inv E W s" and dyn: "cstate s = 1"
  shows "case yields (mem s) (target E s) of
      None \<Rightarrow> sample_once E s = Inr (False, s\<lparr>draws := draws s + 1\<rparr>)
    | Some X \<Rightarrow> \<exists>s'. sample_once E s = Inr (True, s') \<and> cache_inv E W s' \<and> evolves E (vw_super W) s s' \<and> cstate s' = 1 \<and>
        X \<in> hot_set s \<and> hot_set s' = hot_set s - {X} \<and> stock s' = stock s"
proof -
  define s1 where "s1 = s\<lparr>draws := draws s + 1\<rparr>"
  have m1: "mem s1 = mem s" "hot_set s1 = hot_set s" "pool s1 = pool s" "cstate s1 = cstate s" by (simp_all add: s1_def)
  have inv1: "cache_inv E W s1" using inv by (simp add: s1_def)
  note I = cache_invD [OF inv]
  note r = I(6)
  obtain al where al: "pool s = Some al" "alloc_ok al" "head_idx al = page_num al"
    using I(1) dyn by (auto simp: pool_inv_def split: if_splits)
  define j :: u64 where "j = of_nat (rnd E (draws s) mod unat (page_num al))"
  have sel: "random_select E al s = Inr (slot_addr al j, s1)" and j: "j < page_num al"
    using random_select_full [OF al(2,3), of E s] by (simp_all add: s1_def j_def)
  define page where "page = slot_addr al j"
  have tg: "target E s = page" by (simp add: target_def al(1) page_def j_def)
  have page: "page \<in> pool_set s" using al(1) j by (auto simp: pool_set_def pool_slots_iff page_def)
  show ?thesis
  proof (cases "pos_state (mem s page) = POS_HOT")
    case False
    then have "sample_once E s = Inr (False, s1)" by (simp add: sample_once_def al(1) sel page_def m1)
    then show ?thesis using False by (simp add: s1_def tg yields_def)
  next
    case True
    then have ph: "page \<in> hot_set s" using page by (simp add: hot_set_def in_use_def)
    have "level (mem s page) < walk_fuel" using resident_level(2) [OF r ph] by (simp add: walk_fuel_def)
    from recursive_iterate_correct [OF hot_walk_closed [OF r] ph this, of "-1"] obtain f ix where
      walk: "recursive_iterate walk_fuel (mem s) page (-1) = Inr (f, ix)" and
      f: "\<forall>b. f = Some b \<longrightarrow> b \<in> hot_set s \<and> pos_state (mem s b) = POS_HOT \<and> bitmap (mem s b) = 0 \<and>
        (b = page \<and> ix = -1 \<or> (\<exists>q \<in> hot_set s. \<exists>i \<le> page.count (mem s q). ptype (mem s q) = BTreeInner \<and>
          ix = int i \<and> children (mem s q) ! i = swz b \<and> \<not> swizzled b))" by blast
    have so: "sample_once E s = (case f of None \<Rightarrow> Inr (False, s1) | Some cur \<Rightarrow>
        let parent = parent_ptr (mem s cur)
        in if parent \<noteq> 0 \<and> level (mem s parent) \<noteq> 255 then
             assertR (pos_state (mem s cur) = POS_HOT)
               (let i = (if ix = -1 then findIdx (mem s parent) (swz cur) else ix)
                in if i = -1 then Inr (False, (set_node cur ((mem s cur)\<lparr>parent_ptr := 0\<rparr>) s1)\<lparr>wrong_parent := wrong_parent s1 + 1\<rparr>)
                   else assertR (check_parent_child_info (mem s parent) cur (mem s cur))
                     (bindR (demote E cur (unlink_child parent (nat i) cur s1)) (\<lambda>s2. Inr (True, s2))))
           else if parent = 0 then bindR (demote E cur s1) (\<lambda>s2. Inr (True, s2))
           else Inr (False, s1))"
      unfolding sample_once_def al(1) option.case sel bindR.simps prod.case m1 page_def [symmetric] walk
      using True by simp
    show ?thesis
    proof (cases f)
      case None
      then have "sample_once E s = Inr (False, s1)" using so by simp
      then show ?thesis using True None by (simp add: s1_def tg yields_def walk)
    next
      case (Some X)
      have X: "X \<in> hot_set s" "pos_state (mem s X) = POS_HOT" "bitmap (mem s X) = 0" using f Some by blast+
      define P where "P = parent_ptr (mem s X)"
      have nsX: "\<not> swizzled X" using residencyD(8) [OF r X(1)] .
      from residencyD(13) [OF r X(1)] consider (sr) "P = vw_super W"
        | (q) i where "P \<in> hot_set s" "ptype (mem s P) = BTreeInner" "i \<le> page.count (mem s P)" "children (mem s P) ! i = swz X"
        unfolding points_back_def P_def [symmetric] by blast
      then show ?thesis
      proof cases
        case sr
        have "sample_once E s = Inr (False, s1)"
          using so residencyD(4,7) [OF r] sr by (simp add: Some P_def [symmetric])
        moreover have "level (mem s P) = 255" using residencyD(4) [OF r] sr by simp
        ultimately show ?thesis using True Some by (simp add: s1_def tg yields_def walk P_def [symmetric])
      next
        case q
        have P0: "P \<noteq> 0 \<and> level (mem s P) \<noteq> 255" using residencyD(9) [OF r q(1)] resident_level(2) [OF r q(1)] by simp
        note chk = resident_check [OF r X(1) q]
        have ix: "(if ix = -1 then findIdx (mem s P) (swz X) else ix) = int i"
        proof (cases "ix = -1")
          case False
          then obtain Q j where Q: "Q \<in> hot_set s" "j \<le> page.count (mem s Q)" "ptype (mem s Q) = BTreeInner" "ix = int j"
            "children (mem s Q) ! j = swz X" using f Some by blast
          have "Q = P \<and> j = i" using kid_unique [OF r Q(1,3,2) q(1-3)] Q(5) q(4) by simp
          then show ?thesis using False Q(4) by simp
        qed (use chk(1) in simp)
        have ni: "int i \<noteq> - 1" by simp
        have eq: "sample_once E s = bindR (demote E X (unlink_child P i X s1)) (\<lambda>s2. Inr (True, s2))"
          unfolding so Some option.case Let_def P_def [symmetric] ix using P0 X(2) chk(2) ni by simp
        from demote_inv [OF inv1, of X P i] X q m1 obtain s' where
          "demote E X (unlink_child P i X s1) = Inr s'" "cache_inv E W s'" "evolves E (vw_super W) s1 s'"
          "hot_set s' = hot_set s - {X}" "cstate s' = 1" "stock s' = stock s" using dyn by (auto simp: s1_def)
        then have "\<exists>s'. sample_once E s = Inr (True, s') \<and> cache_inv E W s' \<and> evolves E (vw_super W) s s' \<and> cstate s' = 1 \<and>
          X \<in> hot_set s \<and> hot_set s' = hot_set s - {X} \<and> stock s' = stock s"
          using eq X(1) evolves_trans [of E "vw_super W" s s1 s'] by (auto simp: s1_def)
        moreover have "yields (mem s) (target E s) = Some X" using True Some P0 by (simp add: tg yields_def walk P_def [symmetric])
        ultimately show ?thesis by simp
      qed
    qed
  qed
qed

text \<open>The same with the slots that are spared, for the count.\<close>

lemma sample_once_inv:
  assumes inv: "cache_inv E W s" and dyn: "cstate s = 1"
  shows "sample_once E s = Inr (False, s\<lparr>draws := draws s + 1\<rparr>) \<and> (\<forall>P. calm P s \<longrightarrow> target E s \<notin> hot_set s - spared W P s) \<or>
    (\<exists>s' X. sample_once E s = Inr (True, s') \<and> cache_inv E W s' \<and> evolves E (vw_super W) s s' \<and> cstate s' = 1 \<and>
      X \<in> hot_set s \<and> hot_set s' = hot_set s - {X} \<and> stock s' = stock s)"
  using sample_once_exact [OF assms] unspared_yields [OF inv, of _ "target E s"] by (cases "yields (mem s) (target E s)") auto

text \<open>So \<open>sample_page\<close> demotes the page that the first fruitful draw yields.\<close>

lemma sample_loop_exact:
  assumes "cache_inv E W s" "cstate s = 1"
  shows "case List.find (\<lambda>i. yields (mem s) (target E (s\<lparr>draws := draws s + i\<rparr>)) \<noteq> None) [0..<n] of
      None \<Rightarrow> sample_loop E n s = Inl ExitCall
    | Some i \<Rightarrow> \<exists>s' X. sample_loop E n s = Inr s' \<and> yields (mem s) (target E (s\<lparr>draws := draws s + i\<rparr>)) = Some X \<and>
        cache_inv E W s' \<and> cstate s' = 1 \<and> X \<in> hot_set s \<and> hot_set s' = hot_set s - {X} \<and> stock s' = stock s"
  using assms
proof (induction n arbitrary: s)
  case (Suc n)
  define s1 where "s1 = s\<lparr>draws := draws s + 1\<rparr>"
  have s1: "cache_inv E W s1" "cstate s1 = 1" "hot_set s1 = hot_set s" "stock s1 = stock s" "mem s1 = mem s"
    "\<And>i. s1\<lparr>draws := draws s1 + i\<rparr> = s\<lparr>draws := draws s + Suc i\<rparr>"
    using Suc.prems by (simp_all add: s1_def)
  have up: "[0..<Suc n] = 0 # map Suc [0..<n]" by (simp add: upt_conv_Cons map_Suc_upt del: upt_Suc)
  have find_map: "List.find Q (map Suc xs) = map_option Suc (List.find (\<lambda>i. Q (Suc i)) xs)" for Q xs by (induction xs) simp_all
  have d0: "s\<lparr>draws := draws s + 0\<rparr> = s" by simp
  note once = sample_once_exact [OF Suc.prems]
  show ?case
  proof (cases "yields (mem s) (target E s)")
    case None
    then have "sample_once E s = Inr (False, s1)" using once by (simp add: s1_def)
    then have "sample_loop E (Suc n) s = sample_loop E n s1" by simp
    then show ?thesis using Suc.IH [OF s1(1,2)] None unfolding up s1(3-6)
      by (auto simp: find_map d0 simp del: sample_loop.simps split: option.splits)
  next
    case (Some X)
    then obtain s' where "sample_once E s = Inr (True, s')" "cache_inv E W s'" "cstate s' = 1" "X \<in> hot_set s"
      "hot_set s' = hot_set s - {X}" "stock s' = stock s" using once by auto
    then show ?thesis using Some unfolding up by (auto simp: d0)
  qed
qed simp

text \<open>
  What is asked of the random draws: among 999 in a row, the turns that \<open>sample_page\<close> has before it
  gives up, one falls into each set of \<open>m\<close> of the \<open>n\<close> slots.
\<close>

definition fair_draws :: "env \<Rightarrow> nat \<Rightarrow> nat \<Rightarrow> bool" where
  "fair_draws E n m \<longleftrightarrow> (\<forall>t. \<forall>S \<subseteq> {..<n}. m \<le> card S \<longrightarrow> (\<exists>i < 999. rnd E (t + i) mod n \<in> S))"

lemma sample_loop_inv:
  assumes "cache_inv E W s" "cstate s = 1"
  shows "sample_loop E n s = Inl ExitCall \<and>
      (\<forall>P. calm P s \<longrightarrow> (\<forall>i < n. target E (s\<lparr>draws := draws s + i\<rparr>) \<notin> hot_set s - spared W P s)) \<or>
    (\<exists>s' X. sample_loop E n s = Inr s' \<and> cache_inv E W s' \<and> evolves E (vw_super W) s s' \<and> cstate s' = 1 \<and>
      X \<in> hot_set s \<and> hot_set s' = hot_set s - {X} \<and> stock s' = stock s)"
  using assms
proof (induction n arbitrary: s)
  case (Suc n)
  define s1 where "s1 = s\<lparr>draws := draws s + 1\<rparr>"
  have s1: "cache_inv E W s1" "cstate s1 = 1" "hot_set s1 = hot_set s" "evolves E (vw_super W) s s1" "stock s1 = stock s"
    using Suc.prems by (simp_all add: s1_def)
  from sample_once_inv [OF Suc.prems] consider
    "sample_once E s = Inr (False, s1)" "\<forall>P. calm P s \<longrightarrow> target E s \<notin> hot_set s - spared W P s"
    | s' X where "sample_once E s = Inr (True, s')" "cache_inv E W s'" "evolves E (vw_super W) s s'" "cstate s' = 1"
      "X \<in> hot_set s" "hot_set s' = hot_set s - {X}" "stock s' = stock s" unfolding s1_def by blast
  then show ?case
  proof cases
    case 1
    have eq: "sample_loop E (Suc n) s = sample_loop E n s1" using 1 by simp
    have "target E (s\<lparr>draws := draws s + i\<rparr>) \<notin> hot_set s - spared W P s"
      if h: "calm P s" "i < Suc n" "\<forall>P. calm P s1 \<longrightarrow> (\<forall>i < n. target E (s1\<lparr>draws := draws s1 + i\<rparr>) \<notin> hot_set s1 - spared W P s1)" for P i
    proof (cases i)
      case 0
      then show ?thesis using 1(2) h(1) by simp
    next
      case (Suc j)
      then show ?thesis using h(2,3) h(1) by (simp add: s1_def)
    qed
    then show ?thesis
      using Suc.IH [OF s1(1,2)] unfolding eq s1(3,5) using evolves_trans [OF s1(4)] by blast
  next
    case 2
    then show ?thesis by auto
  qed
qed simp

text \<open>The slots that are not spared are reached by fair draws.\<close>

lemma sample_page_inv:
  assumes inv: "cache_inv E W s" and dyn: "cstate s = 1"
  shows "sample_page E s = Inl ExitCall \<and>
      (\<forall>P m. calm P s \<longrightarrow> fair_draws E (card (pool_set s)) m \<longrightarrow> card (hot_set s) < m + 256) \<or>
    (\<exists>s' X. sample_page E s = Inr s' \<and> cache_inv E W s' \<and> evolves E (vw_super W) s s' \<and> cstate s' = 1 \<and>
      X \<in> hot_set s \<and> hot_set s' = hot_set s - {X} \<and> stock s' = stock s)"
proof -
  obtain al where al: "pool s = Some al" "alloc_ok al" using cache_invD(1) [OF inv] by (auto simp: pool_inv_def)
  define n where "n = unat (page_num al)"
  have inj: "inj_on (\<lambda>j. slot_addr al (of_nat j)) {..<n}"
  proof (rule inj_onI)
    fix i j
    assume h: "i \<in> {..<n}" "j \<in> {..<n}" "slot_addr al (of_nat i) = slot_addr al (of_nat j)"
    have b: "i < unat (page_num al)" "j < unat (page_num al)" using h(1,2) by (simp_all add: n_def)
    have "(of_nat i :: u64) = of_nat j" using slot_addr_inject [OF al(2) of_nat_below(2) [OF b(1)] of_nat_below(2) [OF b(2)]] h(3) by simp
    then have "unat (of_nat i :: u64) = unat (of_nat j :: u64)" by (rule arg_cong)
    then show "i = j" unfolding of_nat_below(1) [OF b(1)] of_nat_below(1) [OF b(2)] .
  qed
  have slots: "pool_set s = (\<lambda>j. slot_addr al (of_nat j)) ` {..<n}"
    by (auto simp: pool_set_def al(1) pool_slots_def n_def)
  then have N: "card (pool_set s) = n" using card_image [OF inj] by simp
  have "card (hot_set s) < m + 256" if h: "calm P s" "fair_draws E n m"
    "\<forall>i < 999. target E (s\<lparr>draws := draws s + i\<rparr>) \<notin> hot_set s - spared W P s" for P m
  proof (rule ccontr)
    assume a: "\<not> card (hot_set s) < m + 256"
    define S where "S = {j \<in> {..<n}. slot_addr al (of_nat j) \<in> hot_set s - spared W P s}"
    have "(\<lambda>j. slot_addr al (of_nat j)) ` S = hot_set s - spared W P s"
      using slots by (auto simp: S_def hot_set_def)
    moreover have "card ((\<lambda>j. slot_addr al (of_nat j)) ` S) = card S"
      by (rule card_image, rule inj_on_subset [OF inj]) (auto simp: S_def)
    moreover have "card (hot_set s) - card (spared W P s) \<le> card (hot_set s - spared W P s)" by (rule diff_card_le_card_Diff) simp
    ultimately have "m \<le> card S" using a spared_card [OF inv, of P] by simp
    then obtain i where "i < 999" "rnd E (draws s + i) mod n \<in> S"
      using h(2) unfolding fair_draws_def by (metis (no_types, lifting) S_def mem_Collect_eq subsetI)
    then show False using h(3) by (auto simp: target_def al(1) S_def n_def)
  qed
  then show ?thesis using sample_loop_inv [OF assms, of 999] unfolding sample_page_def N by blast
qed

lemma calm_evolves: "calm P s \<Longrightarrow> evolves E sr s s' \<Longrightarrow> calm P s'"
  unfolding calm_def evolves_def by (metis subsetD)

lemma sample_multiple_inv:
  assumes "cache_inv E W s" "cstate s = 1"
  shows "sample_multiple_pages E n s = Inl ExitCall \<and>
      (\<forall>P m. calm P s \<longrightarrow> fair_draws E (card (pool_set s)) m \<longrightarrow> card (hot_set s) < m + 256 + n) \<or>
    (\<exists>s'. sample_multiple_pages E n s = Inr s' \<and> cache_inv E W s' \<and> evolves E (vw_super W) s s' \<and> cstate s' = 1 \<and>
      card (hot_set s') + n = card (hot_set s) \<and> stock s' = stock s)"
  using assms
proof (induction n arbitrary: s)
  case (Suc n)
  from sample_page_inv [OF Suc.prems] consider
    "sample_page E s = Inl ExitCall" "\<forall>P m. calm P s \<longrightarrow> fair_draws E (card (pool_set s)) m \<longrightarrow> card (hot_set s) < m + 256"
    | s1 X where "sample_page E s = Inr s1" "cache_inv E W s1" "evolves E (vw_super W) s s1" "cstate s1 = 1"
      "X \<in> hot_set s" "hot_set s1 = hot_set s - {X}" "stock s1 = stock s" by blast
  then show ?case
  proof cases
    case 1
    then show ?thesis by fastforce
  next
    case 2
    have "0 < card (hot_set s)" using 2(5) by (metis card_gt_0_iff empty_iff finite_hot_set)
    then have c: "card (hot_set s1) + 1 = card (hot_set s)" using 2(5,6) by simp
    have eq: "sample_multiple_pages E (Suc n) s = sample_multiple_pages E n s1" using 2(1) by simp
    have ps: "pool_set s1 = pool_set s" using 2(3) by (simp add: evolves_def)
    from Suc.IH [OF 2(2,4)] show ?thesis
    proof (elim disjE exE conjE)
      fix s'
      assume "sample_multiple_pages E n s1 = Inr s'" "cache_inv E W s'" "evolves E (vw_super W) s1 s'" "cstate s' = 1"
        "card (hot_set s') + n = card (hot_set s1)" "stock s' = stock s1"
      then show ?thesis using eq c 2(7) evolves_trans [OF 2(3)] by auto
    next
      assume "sample_multiple_pages E n s1 = Inl ExitCall"
        "\<forall>P m. calm P s1 \<longrightarrow> fair_draws E (card (pool_set s1)) m \<longrightarrow> card (hot_set s1) < m + 256 + n"
      then show ?thesis using eq c calm_evolves [OF _ 2(3)] unfolding ps by fastforce
    qed
  qed
qed simp

text \<open>
  A state in which the search for a slot cannot fail: with all slots of the cool tier taken, enough
  pages are in use to find one that can be demoted.
\<close>

definition live :: "env \<Rightarrow> u64 \<Rightarrow> 'a cache_st \<Rightarrow> bool" where
  "live E P s \<longleftrightarrow> calm P s \<and> (\<exists>m. fair_draws E (card (pool_set s)) m \<and> m + 258 + 6 * length (ht_table (ht s)) \<le> stock s)"

lemma cool_slots_bound:
  assumes "ht_ok t"
  shows "length (cool_slots t) \<le> 6 * length (ht_table t)"
proof -
  have "length (concat (map (\<lambda>b. map frame_slot (b_items b)) bs)) \<le> 6 * length bs" if "\<forall>b \<in> set bs. b_ok b" for bs
    using that by (induction bs) (auto simp: b_ok_def NUM_ENTRIES_def)
  then show ?thesis using assms unfolding cool_slots_def ht_ok_def by (metis in_set_conv_nth)
qed

lemma live_hot:
  assumes inv: "cache_inv E W s" and l: "live E P s" and dyn: "cstate s = 1" "local_pages s = []"
  obtains m where "calm P s" "fair_draws E (card (pool_set s)) m" "m + 258 \<le> card (hot_set s)"
proof -
  obtain m where m: "calm P s" "fair_draws E (card (pool_set s)) m" "m + 258 + 6 * length (ht_table (ht s)) \<le> stock s"
    using l by (auto simp: live_def)
  have "unused s = 0" using unused_dynamic [OF cache_invD(1) [OF inv]] dyn(1) by simp
  then show ?thesis using m cool_slots_bound [OF cache_invD(2) [OF inv]] dyn(2) by (intro that [of m]) (simp_all add: stock_def)
qed

lemma live_evolves: "live E P s \<Longrightarrow> evolves E sr s s' \<Longrightarrow> stock s \<le> stock s' \<Longrightarrow> live E P s'"
  using calm_evolves [of P s E sr s'] unfolding live_def evolves_def by (metis order_trans)

lemma spends_live: "spends n s s' \<Longrightarrow> live E 0 s \<Longrightarrow> live E 0 s'"
  unfolding live_def spends_def uses_def fills_def by (metis order_trans)

lemma live_fills: "live E P s \<Longrightarrow> fills s s' \<Longrightarrow> calm Q s' \<Longrightarrow> live E Q s'"
  unfolding live_def fills_def by (metis order_trans)

subsection \<open>Free slots\<close>

text \<open>A slot that belongs to nobody: not in use, not waiting, not on the free list, not fresh.\<close>

definition in_hand :: "u64 \<Rightarrow> 'a cache_st \<Rightarrow> bool" where
  "in_hand p s \<longleftrightarrow> p \<in> pool_set s \<and> p \<notin> hot_set s \<and> p \<notin> set (cool_slots (ht s)) \<and> p \<notin> set (local_pages s) \<and>
     (\<forall>al. pool s = Some al \<longrightarrow> (\<forall>i < page_num al. head_idx al \<le> i \<longrightarrow> slot_addr al i \<noteq> p))"

lemma forget_page_cache [simp]:
  "pool (forget_page E a s) = pool s" "cstate (forget_page E a s) = cstate s"
  "local_pages (forget_page E a s) = local_pages s" "cache.more (forget_page E a s) = cache.more s"
  by (simp_all add: forget_page_def)

lemma random_evict_inv:
  assumes inv: "cache_inv E W s" and dyn: "cstate s = 1"
  shows "random_evict_to_remote E L s = Inr (None, s\<lparr>draws := draws s + 1\<rparr>) \<or>
    (\<exists>p s'. random_evict_to_remote E L s = Inr (Some p, s') \<and> p \<noteq> 0 \<and> in_hand p s' \<and> cache_inv E W s' \<and>
      evolves E (vw_super W) s s' \<and> cstate s' = 1 \<and> stock s = Suc (stock s'))"
proof -
  note I = cache_invD [OF inv]
  have cl: "\<forall>a \<in> set (cool_slots (ht s)). \<not> dirty (mem s a)" using I(4) by (simp add: free_inv_def)
  define s1 where "s1 = s\<lparr>draws := draws s + 1\<rparr>"
  define idx where "idx = rnd E (draws s) mod unat (ht_bucket_num (ht s))"
  define lim where "lim = unat (min (ht_bucket_num (ht s)) (of_nat idx + L))"
  note ev = random_evict_correct [OF I(2) cl idx_def s1_def lim_def]
  show ?thesis
  proof (cases "List.find (\<lambda>i. cool_bucket (ht s) i \<noteq> []) [idx..<lim]")
    case None
    then show ?thesis using ev by (simp add: s1_def)
  next
    case (Some i)
    then have "i \<in> set [idx..<lim]" and ne: "cool_bucket (ht s) i \<noteq> []" by (auto simp: find_Some_iff)
    then have il: "i < length (ht_table (ht s))" using ev by simp
    define p where "p = last (cool_bucket (ht s) i)"
    define b where "b = (ht_table (ht s) ! i)\<lparr>b_count := b_count (ht_table (ht s) ! i) - 1\<rparr>"
    define s2 where "s2 = s1\<lparr>ht := set_bucket i b (ht s)\<rparr>"
    define s' where "s' = forget_page E p s2"
    have eq: "random_evict_to_remote E L s = Inr (Some p, s')" using ev Some by (simp add: p_def s'_def s2_def b_def)
    have f: "mem s' = mem s" "be s' = be s" "ht s' = set_bucket i b (ht s)" "scratch s' = scratch s" "pool s' = pool s"
      "cstate s' = cstate s" "local_pages s' = local_pages s" "cache.more s' = cache.more s"
      by (simp_all add: s'_def s2_def s1_def)
    have sets: "pool_set s' = pool_set s" "hot_set s' = hot_set s" by (simp_all add: pool_set_def hot_set_def f)
    have bok: "b_ok (ht_table (ht s) ! i)" by (rule ht_ok_nth [OF I(2) il])
    have bne: "b_items (ht_table (ht s) ! i) \<noteq> []" using ne by (auto simp: cool_bucket_def)
    note pop = b_pop_items [OF bok bne, folded b_def]
    have cb: "cool_bucket (ht s') j = (if j = i then butlast (cool_bucket (ht s) i) else cool_bucket (ht s) j)" for j
      using pop il by (simp add: f cool_bucket_set) (simp add: cool_bucket_def map_butlast)
    have "mset (cool_slots (ht s')) + mset (cool_bucket (ht s) i) = mset (cool_slots (ht s)) + mset (butlast (cool_bucket (ht s) i))"
      using cool_slots_change [of "ht s'" "ht s" i] il cb by (simp add: f)
    moreover have "mset (butlast (cool_bucket (ht s) i)) + {#p#} = mset (cool_bucket (ht s) i)"
      using append_butlast_last_id [OF ne] unfolding p_def by (metis mset.simps(1) mset.simps(2) mset_append)
    ultimately have ms: "add_mset p (mset (cool_slots (ht s'))) = mset (cool_slots (ht s))"
    proof -
      assume a: "mset (cool_slots (ht s')) + mset (cool_bucket (ht s) i) = mset (cool_slots (ht s)) + mset (butlast (cool_bucket (ht s) i))"
        and b: "mset (butlast (cool_bucket (ht s) i)) + {#p#} = mset (cool_bucket (ht s) i)"
      show ?thesis using a unfolding b [symmetric] by simp
    qed
    have cs: "insert p (set (cool_slots (ht s'))) = set (cool_slots (ht s))"
      using arg_cong [OF ms, of set_mset] by simp
    have dist: "p \<notin> set (cool_slots (ht s')) \<and> distinct (cool_slots (ht s'))"
      using mset_eq_distinct [OF ms [symmetric]] I(4) by (simp add: free_inv_def)
    have pc: "p \<in> set (cool_slots (ht s))" using cs by blast
    have pp: "p \<in> pool_set s" "pos_state (mem s p) = POS_COOL" "p \<notin> hot_set s" "p \<notin> set (local_pages s)"
      using I(4) pc free_disjoint_hot [OF I(4)] by (auto simp: free_inv_def)
    have p0: "p \<noteq> 0" by (rule pool_slot_facts(1) [OF I(1) pp(1)])
    have fi: "free_inv s'" using I(4) cs dist by (auto simp: free_inv_def f sets)
    have pt: "table_ok (pt s')" "\<And>k. get_with_bucket (hash_of E) (pt s') k =
      (if k = remote_address (mem s p) \<and> get_with_bucket (hash_of E) (pt s) k = p then 0 else get_with_bucket (hash_of E) (pt s) k)"
    proof -
      have s2: "pt s2 = pt s" "mem s2 = mem s" by (simp_all add: s2_def s1_def)
      note fp = forget_page_table [of s2 p E, unfolded s2, OF I(3) p0]
      show "table_ok (pt s')" unfolding s'_def by (rule fp(1))
      show "get_with_bucket (hash_of E) (pt s') k =
        (if k = remote_address (mem s p) \<and> get_with_bucket (hash_of E) (pt s) k = p then 0 else get_with_bucket (hash_of E) (pt s) k)" for k
        unfolding s'_def by (rule fp(2))
    qed
    have "cache_inv E W s'"
      unfolding cache_inv_def sets f
    proof (intro conjI ballI)
      show "pool_inv s'" using I(1) by (simp add: pool_inv_def f)
      show "ht_ok (set_bucket i b (ht s))" using ht_ok_set_bucket [OF I(2)] pop by blast
      show "get_with_bucket (hash_of E) (pt s') (remote_address (mem s a)) = a" if "a \<in> hot_set s" for a
        using pt(2) I(7) [OF that] that pp(3) by auto
    qed (rule pt fi I(5,6))+
    moreover have "in_hand p s'"
      unfolding in_hand_def sets using pp dist I(1) by (auto simp: f pool_inv_def)
    moreover have "evolves E (vw_super W) s s'"
      unfolding evolves_def sets f using pt(2) pool_slot_facts(3) [OF I(1) pp(1)] unused_cong [OF f(5)] by (auto simp: set_bucket_def)
    moreover have "stock s = Suc (stock s')"
      using arg_cong [OF ms, of size] unused_cong [OF f(5)] by (simp add: stock_def sets f(7))
    ultimately show ?thesis using eq p0 dyn f(6)
      by (intro disjI2 exI [of _ p] exI [of _ s'] conjI) simp_all
  qed
qed

lemma pop_local_inv:
  assumes inv: "cache_inv E W s" and l: "local_pages s = p # ls"
  shows "get_local_page_set s = (p, s\<lparr>local_pages := ls\<rparr>) \<and> p \<noteq> 0 \<and> in_hand p (s\<lparr>local_pages := ls\<rparr>) \<and>
    cache_inv E W (s\<lparr>local_pages := ls\<rparr>) \<and> evolves E (vw_super W) s (s\<lparr>local_pages := ls\<rparr>) \<and>
    stock s = Suc (stock (s\<lparr>local_pages := ls\<rparr>))"
proof -
  note I = cache_invD [OF inv]
  let ?s = "s\<lparr>local_pages := ls\<rparr>"
  have sets: "pool_set ?s = pool_set s" "hot_set ?s = hot_set s" by (simp_all add: pool_set_def hot_set_def)
  have p: "p \<in> pool_set s" "pos_state (mem s p) = POS_LOCAL" "p \<notin> hot_set s"
    using I(4) free_disjoint_hot [OF I(4)] l by (auto simp: free_inv_def)
  have "cache_inv E W ?s"
    using inv l by (simp add: cache_inv_def sets pool_inv_def) (auto simp: free_inv_def sets)
  moreover have "in_hand p ?s"
    using p I(1,4) l unfolding in_hand_def sets by (auto simp: free_inv_def pool_inv_def)
  moreover have "evolves E (vw_super W) s ?s" by (simp add: evolves_def sets unused_def)
  moreover have "stock s = Suc (stock ?s)" using l by (simp add: stock_def sets unused_def)
  ultimately show ?thesis using pool_slot_facts(1) [OF I(1) p(1)] l by (simp add: get_local_page_set_def)
qed

text \<open>In the warm-up phase the pool always has a slot left.\<close>

lemma allocate_inv:
  assumes inv: "cache_inv E W s" and warm: "cstate s \<noteq> 1"
  shows "\<exists>p s'. try_get_empty_page E s = Inr (p, s') \<and> p \<noteq> 0 \<and> in_hand p s' \<and> cache_inv E W s' \<and>
    evolves E (vw_super W) s s' \<and> hot_set s' = hot_set s \<and> unused s = Suc (unused s') \<and> stock s = Suc (stock s')"
proof -
  note I = cache_invD [OF inv]
  obtain al where al: "pool s = Some al" "alloc_ok al" "cstate s = (if head_idx al = page_num al then 1 else 0)"
    "\<forall>i < page_num al. head_idx al \<le> i \<longrightarrow> pos_state (mem s (slot_addr al i)) = POS_REMOTE"
    using I(1) by (auto simp: pool_inv_def)
  have lt: "head_idx al < page_num al" using al(2,3) warm by (auto simp: alloc_ok_def split: if_splits)
  define al' where "al' = al\<lparr>head_idx := head_idx al + 1\<rparr>"
  define p where "p = slot_addr al (head_idx al)"
  define s' where "s' = s\<lparr>pool := Some al', cstate := (if head_idx al + 1 = page_num al then 1 else cstate s)\<rparr>"
  from allocate_correct [OF al(2)] lt have a: "allocate (Some al) = (p, head_idx al + 1 = page_num al, Some al')"
    "alloc_ok al'" "unat (head_idx al + 1) = unat (head_idx al) + 1" by (simp_all add: al'_def p_def)
  have p: "p \<in> pool_set s" "pos_state (mem s p) = POS_REMOTE" using al(1,4) lt by (auto simp: pool_set_def pool_slots_iff p_def)
  have p0: "p \<noteq> 0" by (rule pool_slot_facts(1) [OF I(1) p(1)])
  have eq: "try_get_empty_page E s = Inr (p, s')" using warm a(1) p0 by (simp add: try_get_empty_page_def al(1) s'_def Let_def)
  have al'f: "page_num al' = page_num al" "head_idx al' = head_idx al + 1" "slot_addr al' = slot_addr al" "pool_slots al' = pool_slots al"
    by (simp_all add: al'_def slot_addr_def fun_eq_iff pool_slots_def)
  have sets: "pool_set s' = pool_set s" "hot_set s' = hot_set s" by (simp_all add: pool_set_def hot_set_def s'_def al(1) al'f)
  have le: "head_idx al \<le> i" "i \<noteq> head_idx al" if "head_idx al + 1 \<le> i" for i
    using that a(3) by (auto simp: word_le_nat_alt)
  have "cstate s = 0" using al(3) warm by (auto split: if_splits)
  then have "pool_inv s'"
    unfolding pool_inv_def using a(2) al(4) le by (intro exI [of _ al']) (auto simp: s'_def al'f)
  then have "cache_inv E W s'"
    using inv unfolding cache_inv_def sets by (simp add: free_inv_def sets) (simp add: s'_def)
  moreover have "in_hand p s'"
  proof -
    have "slot_addr al i \<noteq> p" if "i < page_num al" "head_idx al + 1 \<le> i" for i
      using slot_addr_inject [OF al(2) that(1) lt] le(2) [OF that(2)] by (simp add: p_def)
    moreover have "p \<notin> set (cool_slots (ht s))" "p \<notin> set (local_pages s)" using I(4) p(2) by (auto simp: free_inv_def)
    ultimately show ?thesis using p unfolding in_hand_def sets
      by (simp add: s'_def al'f hot_set_def in_use_def)
  qed
  moreover have un: "unused s = Suc (unused s')"
    using lt a(3) by (simp add: unused_def s'_def al(1) al'f word_less_nat_alt)
  moreover have "evolves E (vw_super W) s s'" using un by (simp add: evolves_def sets) (simp add: s'_def)
  moreover have "stock s = Suc (stock s')" using un by (simp add: stock_def sets) (simp add: s'_def)
  ultimately show ?thesis using eq p0 sets by blast
qed

lemma try_get_empty_inv:
  assumes inv: "cache_inv E W s"
  shows "try_get_empty_page E s = Inl ExitCall \<and> cstate s = 1 \<and> (\<forall>P. \<not> live E P s) \<or>
    (\<exists>p s'. try_get_empty_page E s = Inr (p, s') \<and> cache_inv E W s' \<and> evolves E (vw_super W) s s' \<and>
      (if p = 0 then cstate s = 1 \<and> card (hot_set s') < card (hot_set s) \<and> stock s' = stock s
       else in_hand p s' \<and> stock s = Suc (stock s')))"
proof (cases "cstate s = 1")
  case False
  then show ?thesis using allocate_inv [OF inv] by auto
next
  case dyn: True
  show ?thesis
  proof (cases "local_pages s")
    case (Cons p ls)
    have "try_get_empty_page E s = Inr (p, s\<lparr>local_pages := ls\<rparr>)"
      using pop_local_inv [OF inv Cons] dyn Cons by (simp add: try_get_empty_page_def)
    then show ?thesis using pop_local_inv [OF inv Cons] by auto
  next
    case Nil
    define s1 where "s1 = s\<lparr>draws := draws s + 1\<rparr>"
    have s1: "cache_inv E W s1" "cstate s1 = 1" "hot_set s1 = hot_set s" "evolves E (vw_super W) s s1" "stock s1 = stock s"
      "pool_set s1 = pool_set s" "\<And>P. calm P s1 = calm P s"
      using inv dyn by (simp_all add: s1_def)
    from random_evict_inv [OF inv dyn, of probing_length] consider
      (ev) p s' where "random_evict_to_remote E probing_length s = Inr (Some p, s')" "p \<noteq> 0" "in_hand p s'" "cache_inv E W s'"
        "evolves E (vw_super W) s s'" "stock s = Suc (stock s')"
      | (none) "random_evict_to_remote E probing_length s = Inr (None, s1)" unfolding s1_def by blast
    then show ?thesis
    proof cases
      case ev
      then have "try_get_empty_page E s = Inr (p, s')" using dyn Nil by (simp add: try_get_empty_page_def)
      then show ?thesis using ev by auto
    next
      case none
      from sample_multiple_inv [OF s1(1,2), of num_pages_to_sample] consider
        (exit) "sample_multiple_pages E num_pages_to_sample s1 = Inl ExitCall"
          "\<forall>P m. calm P s \<longrightarrow> fair_draws E (card (pool_set s)) m \<longrightarrow> card (hot_set s) < m + 256 + num_pages_to_sample"
        | (ok) s2 where "sample_multiple_pages E num_pages_to_sample s1 = Inr s2" "cache_inv E W s2"
          "evolves E (vw_super W) s1 s2" "card (hot_set s2) + num_pages_to_sample = card (hot_set s1)" "stock s2 = stock s1"
        unfolding s1(3,6,7) by blast
      then show ?thesis
      proof cases
        case exit
        have "\<not> live E P s" for P
        proof
          assume "live E P s"
          then obtain m where "calm P s" "fair_draws E (card (pool_set s)) m" "m + 258 \<le> card (hot_set s)"
            using live_hot [OF inv _ dyn Nil] by blast
          then show False using exit(2) [rule_format, of P m] by (simp add: num_pages_to_sample_def)
        qed
        then show ?thesis using none dyn Nil exit(1) by (simp add: try_get_empty_page_def)
      next
        case ok
        have e2: "evolves E (vw_super W) s s2" by (rule evolves_trans [OF s1(4) ok(3)])
        have c: "card (hot_set s2) < card (hot_set s)" using ok(4) s1(3) by (simp add: num_pages_to_sample_def)
        have st: "stock s2 = stock s" using ok(5) s1(5) by simp
        show ?thesis
        proof (cases "local_pages s2")
          case n2: Nil
          then have "try_get_empty_page E s = Inr (0, s2)" using none ok(1) dyn Nil by (simp add: try_get_empty_page_def)
          then show ?thesis using ok(2) e2 c dyn st by auto
        next
          case (Cons p ls)
          note pop = pop_local_inv [OF ok(2) Cons]
          have "try_get_empty_page E s = Inr (p, s2\<lparr>local_pages := ls\<rparr>)"
            using none ok(1) dyn Nil Cons pop by (simp add: try_get_empty_page_def)
          then show ?thesis using pop evolves_trans [OF e2] st by auto
        qed
      qed
    qed
  qed
qed

lemma get_empty_loop_inv:
  assumes "cache_inv E W s" "card (hot_set s) < n"
  shows "get_empty_loop E n s = Inl ExitCall \<and> (\<forall>P. \<not> live E P s) \<or>
    (\<exists>p s'. get_empty_loop E n s = Inr (p, s') \<and> p \<noteq> 0 \<and> cache_inv E W s' \<and> evolves E (vw_super W) s s' \<and> in_hand p s' \<and>
      stock s = Suc (stock s'))"
  using assms
proof (induction n arbitrary: s)
  case (Suc n)
  from try_get_empty_inv [OF Suc.prems(1)] consider "try_get_empty_page E s = Inl ExitCall" "\<forall>P. \<not> live E P s"
    | p s' where "try_get_empty_page E s = Inr (p, s')" "cache_inv E W s'" "evolves E (vw_super W) s s'" "p \<noteq> 0" "in_hand p s'"
      "stock s = Suc (stock s')"
    | s' where "try_get_empty_page E s = Inr (0, s')" "cache_inv E W s'" "evolves E (vw_super W) s s'"
      "card (hot_set s') < card (hot_set s)" "stock s' = stock s" by (auto split: if_splits)
  then show ?case
  proof cases
    case 3
    have "card (hot_set s') < n" using 3(4) Suc.prems(2) by simp
    note ih = Suc.IH [OF 3(2) this]
    have "live E P s \<Longrightarrow> live E P s'" for P using live_evolves [OF _ 3(3)] 3(5) by simp
    then show ?thesis using ih 3(1,5) evolves_trans [OF 3(3)] by auto
  qed auto
qed simp

lemma get_empty_warm:
  assumes inv: "cache_inv E W s" and warm: "cstate s \<noteq> 1"
  shows "\<exists>p s'. get_empty_page E s = Inr (p, s') \<and> p \<noteq> 0 \<and> cache_inv E W s' \<and> evolves E (vw_super W) s s' \<and>
    in_hand p s' \<and> hot_set s' = hot_set s \<and> unused s = Suc (unused s') \<and> stock s = Suc (stock s')"
proof -
  obtain n where n: "get_empty_fuel s = Suc n" by (cases "get_empty_fuel s") (auto simp: get_empty_fuel_def split: option.splits)
  have "get_empty_page E s = Inr (p, s')" if "try_get_empty_page E s = Inr (p, s')" "p \<noteq> 0" for p s'
    using that by (simp add: get_empty_page_def n)
  then show ?thesis using allocate_inv [OF assms] by blast
qed

lemma get_empty_page_inv:
  assumes inv: "cache_inv E W s"
  shows "get_empty_page E s = Inl ExitCall \<and> cstate s = 1 \<and> (\<forall>P. \<not> live E P s) \<or>
    (\<exists>p s'. get_empty_page E s = Inr (p, s') \<and> p \<noteq> 0 \<and> cache_inv E W s' \<and> evolves E (vw_super W) s s' \<and> in_hand p s' \<and> takes s s')"
proof (cases "cstate s = 1")
  case False
  from get_empty_warm [OF inv this] obtain p s' where "get_empty_page E s = Inr (p, s')" "p \<noteq> 0" "cache_inv E W s'"
    "evolves E (vw_super W) s s'" "in_hand p s'" "hot_set s' = hot_set s" "unused s = Suc (unused s')" "stock s = Suc (stock s')" by blast
  then show ?thesis by (simp add: takes_def evolves_def)
next
  case True
  obtain al where al: "pool s = Some al" using cache_invD(1) [OF inv] by (auto simp: pool_inv_def)
  have "card (hot_set s) \<le> card (pool_set s)" by (rule card_mono) (auto simp: hot_set_def)
  also have "\<dots> \<le> unat (page_num al)"
    using card_length [of "pool_slots al"] by (simp add: pool_set_def al pool_slots_def)
  finally have "card (hot_set s) < get_empty_fuel s" by (simp add: get_empty_fuel_def al)
  from get_empty_loop_inv [OF inv this] have l: "get_empty_page E s = Inl ExitCall \<and> (\<forall>P. \<not> live E P s) \<or>
    (\<exists>p s'. get_empty_page E s = Inr (p, s') \<and> p \<noteq> 0 \<and> cache_inv E W s' \<and> evolves E (vw_super W) s s' \<and> in_hand p s' \<and>
      stock s = Suc (stock s'))"
    unfolding get_empty_page_def .
  have "unused s = 0" using unused_dynamic [OF cache_invD(1) [OF inv]] True by simp
  then have "takes s s'" if "evolves E (vw_super W) s s'" "stock s = Suc (stock s')" for s'
    using that by (simp add: takes_def evolves_def)
  with l True show ?thesis by blast
qed

end
