(* ===== verification/Growth.thy ===== *)
theory Growth
  imports Eviction Tree
begin

text \<open>
  How much a tree grows over many operations. Pages are split when they are full and never merged,
  so the number of pages is not bounded by the number of keys; a potential, the weighted sum over
  the nodes of what they hold beyond half, pays for the splits: a split does not raise it, an
  insertion into a leaf raises it by one. It bounds the number of pages by the number of insertions
  and the level of the root by their logarithm.
\<close>

subsection \<open>The potential of a view\<close>

text \<open>What a node holds beyond the smaller half of a full node.\<close>

fun excess :: "lnode \<Rightarrow> nat" where
  "excess (LLeaf lo hi es) = length es - 29" | "excess (LInner l lo hi ks cs) = length ks - 28"

definition weight :: "(nat \<Rightarrow> nat) \<Rightarrow> (nat \<Rightarrow> nat) \<Rightarrow> lnode \<Rightarrow> nat" where
  "weight a b n = a (vlevel n) + b (vlevel n) * excess n"

definition potential :: "(nat \<Rightarrow> nat) \<Rightarrow> (nat \<Rightarrow> nat) \<Rightarrow> view \<Rightarrow> nat" where
  "potential a b W = (\<Sum>g \<in> vw_addrs W. weight a b (vw_nodes W g))"

text \<open>Weights per level for which a split pays for the new node and for the key that goes up, into
  the parent or into a new root.\<close>

definition fair :: "(nat \<Rightarrow> nat) \<Rightarrow> (nat \<Rightarrow> nat) \<Rightarrow> bool" where
  "fair a b \<longleftrightarrow> b 0 = 1 \<and> (\<forall>l. a l + b (Suc l) \<le> 29 * b l \<and> a l + a (Suc l) \<le> 29 * b l)"

definition grows :: "nat \<Rightarrow> view \<Rightarrow> view \<Rightarrow> bool" where
  "grows n W W' \<longleftrightarrow> (\<forall>a b. fair a b \<longrightarrow> potential a b W' \<le> potential a b W + n)"

lemma growsD: "grows n W W' \<Longrightarrow> fair a b \<Longrightarrow> potential a b W' \<le> potential a b W + n"
  by (simp add: grows_def)

lemma grows_refl [simp]: "grows n W W"
  by (simp add: grows_def)

lemma grows_mono: "grows m W W' \<Longrightarrow> m \<le> n \<Longrightarrow> grows n W W'"
  unfolding grows_def by (meson add_left_mono order_trans)

lemma grows_trans: "grows n W W' \<Longrightarrow> grows m W' W'' \<Longrightarrow> grows (n + m) W W''"
  unfolding grows_def by (metis add.assoc add_le_mono1 order_trans)

lemma weight_put: "vlevel n' = vlevel n \<Longrightarrow> excess n' \<le> excess n + d \<Longrightarrow> weight a b n' \<le> weight a b n + b (vlevel n) * d"
  by (metis add.assoc add_le_cancel_left add_mult_distrib2 mult_le_mono2 weight_def)

text \<open>A leaf that receives entries.\<close>

lemma put_leaf_grows:
  assumes "g \<in> vw_addrs W" "vlevel (vw_nodes W g) = 0" "vlevel n' = 0" "excess n' \<le> excess (vw_nodes W g) + d"
  shows "grows d W (put_node g n' W)"
  unfolding grows_def
proof (intro allI impI)
  fix a b
  assume f: "fair a b"
  let ?R = "\<Sum>x \<in> vw_addrs W - {g}. weight a b (vw_nodes W x)"
  have "potential a b (put_node g n' W) = weight a b n' + ?R"
    using sum.remove [OF finite assms(1), of "\<lambda>x. weight a b (vw_nodes (put_node g n' W) x)"] by (simp add: potential_def)
  moreover have "potential a b W = weight a b (vw_nodes W g) + ?R"
    using sum.remove [OF finite assms(1), of "\<lambda>x. weight a b (vw_nodes W x)"] by (simp add: potential_def)
  ultimately show "potential a b (put_node g n' W) \<le> potential a b W + d"
    using weight_put [of n' "vw_nodes W g" d a b] assms(2-4) f by (simp add: fair_def)
qed

subsection \<open>What the potential bounds\<close>

abbreviation root_level :: "view \<Rightarrow> nat" where
  "root_level W \<equiv> vlevel (vw_nodes W (vw_root W))"

abbreviation page_pot :: "view \<Rightarrow> nat" where
  "page_pot \<equiv> potential (\<lambda>_. 14) (\<lambda>_. 1)"

abbreviation level_pot :: "view \<Rightarrow> nat" where
  "level_pot \<equiv> potential (\<lambda>l. 28 ^ l) (\<lambda>l. 28 ^ l)"

lemma fair_weights: "fair (\<lambda>_. 14) (\<lambda>_. 1)" "fair (\<lambda>l. 28 ^ l) (\<lambda>l. 28 ^ l)"
  by (simp_all add: fair_def)

lemma page_pot_card: "14 * card (vw_addrs W) \<le> page_pot W"
  using sum_mono [of "vw_addrs W" "\<lambda>_. 14" "\<lambda>g. weight (\<lambda>_. 14) (\<lambda>_. 1) (vw_nodes W g)"]
  by (simp add: potential_def weight_def mult.commute)

lemma level_pot_root:
  assumes "vw_root W \<in> vw_addrs W"
  shows "28 ^ root_level W \<le> level_pot W"
proof -
  have "28 ^ root_level W \<le> weight (\<lambda>l. 28 ^ l) (\<lambda>l. 28 ^ l) (vw_nodes W (vw_root W))" by (simp add: weight_def)
  also have "\<dots> \<le> level_pot W"
    using member_le_sum [OF assms, of "\<lambda>g. weight (\<lambda>l. 28 ^ l) (\<lambda>l. 28 ^ l) (vw_nodes W g)"] by (simp add: potential_def)
  finally show ?thesis .
qed

lemma root_level_bound:
  assumes "vw_root W \<in> vw_addrs W" "level_pot W < 28 ^ n"
  shows "root_level W < n"
  using level_pot_root [OF assms(1)] assms(2) by (metis le_less_trans power_less_imp_less_exp one_less_numeral_iff semiring_norm(76))

subsection \<open>States and views together\<close>

lemma cache_more_tree:
  "cache.more s' = cache.more s \<Longrightarrow> super_root s' = super_root (s :: 'a tree_st) \<and> root_addr s' = root_addr s \<and>
    height s' = height s \<and> leaf_num s' = leaf_num s \<and> inner_num s' = inner_num s"
  by (cases s; cases s') simp

text \<open>The numbers that the driver keeps of its tree.\<close>

definition leaves :: "view \<Rightarrow> gaddr set" where
  "leaves W = {g \<in> vw_addrs W. vlevel (vw_nodes W g) = 0}"

definition census :: "view \<Rightarrow> 'a tree_st \<Rightarrow> bool" where
  "census W s \<longleftrightarrow> root_addr s = vw_root W \<and> height s = Suc (root_level W) \<and> leaf_num s = card (leaves W) \<and>
     leaf_num s + inner_num s = card (vw_addrs W)"

lemma census_more: "cache.more s' = cache.more s \<Longrightarrow> census W s' = census W s"
  using cache_more_tree [of s' s] by (simp add: census_def)

lemma census_shape:
  "vw_addrs W' = vw_addrs W \<Longrightarrow> vw_root W' = vw_root W \<Longrightarrow> \<forall>g. vlevel (vw_nodes W' g) = vlevel (vw_nodes W g) \<Longrightarrow> census W' s = census W s"
  by (simp add: census_def leaves_def)

text \<open>An operation that inserts \<open>d\<close> entries: the pages it takes from the backend are the new nodes,
  and it keeps the numbers right.\<close>

definition tally :: "nat \<Rightarrow> view \<Rightarrow> 'a tree_st \<Rightarrow> view \<Rightarrow> 'a tree_st \<Rightarrow> bool" where
  "tally d W s W' s' \<longleftrightarrow> grows d W W' \<and> fills s s' \<and> (calm 0 s \<longrightarrow> calm 0 s') \<and> (census W s \<longrightarrow> census W' s') \<and>
     unat (ps_cur (be s')) + 1024 * card (vw_addrs W) = unat (ps_cur (be s)) + 1024 * card (vw_addrs W')"

lemma tally_trans: "tally d W s W' s' \<Longrightarrow> tally e W' s' W'' s'' \<Longrightarrow> tally (d + e) W s W'' s''"
  unfolding tally_def by (auto intro: grows_trans fills_trans)

lemma tally_0_trans: "tally 0 W s W' s' \<Longrightarrow> tally d W' s' W'' s'' \<Longrightarrow> tally d W s W'' s''"
  using tally_trans by fastforce

lemma tally_spends:
  "spends n s s' \<Longrightarrow> grows d W W' \<Longrightarrow> vw_addrs W' = vw_addrs W \<Longrightarrow> vw_root W' = vw_root W \<Longrightarrow>
    \<forall>g. vlevel (vw_nodes W' g) = vlevel (vw_nodes W g) \<Longrightarrow> tally d W s W' s'"
  using census_more [of s' s W'] census_shape [of W' W s] by (simp add: tally_def spends_def uses_def)

lemma tally_refl [simp]: "tally d W s W s"
  by (simp add: tally_def)

lemma tally_same: "spends n s s' \<Longrightarrow> tally d W s W s'"
  by (rule tally_spends) simp_all

lemma tally_live: "tally d W s W' s' \<Longrightarrow> live E 0 s \<Longrightarrow> live E 0 s'"
  using live_fills [of E 0 s s' 0] by (simp add: tally_def live_def)

lemma hot_card:
  assumes "cache_inv E W s"
  shows "card (hot_set s) \<le> card (vw_addrs W)"
proof (rule card_inj_on_le)
  note r = cache_invD(6) [OF assms]
  show "inj_on (\<lambda>a. remote_address (mem s a)) (hot_set s)" using residencyD(14) [OF r] by (auto intro: inj_onI)
  show "(\<lambda>a. remote_address (mem s a)) ` hot_set s \<subseteq> vw_addrs W" using residencyD(11) [OF r] by auto
qed simp

end
