(* ===== verification/TreeOps.thy ===== *)
theory TreeOps
  imports Tree Growth
begin

text \<open>
  The driver over the evicting cache: loading a child keeps the view, the descent ends at the
  leaf that the view routes the key to, and \<open>lookup\<close>, \<open>update\<close>, \<open>remove\<close> and
  \<open>range_scan\<close> act on the map that the view stands for, whatever is evicted on the way.
\<close>

subsection \<open>Loading a child\<close>

lemma set_pos_fields [simp]:
  "mem (set_pos a st w) = (mem w)(a := upd_pos st (mem w a))" "be (set_pos a st w) = be w"
  "scratch (set_pos a st w) = scratch w" "draws (set_pos a st w) = draws w"
  by (simp_all add: set_pos_def upd_pos_def)

lemma set_node_cache [simp]:
  "ht (set_node a p s) = ht s" "pt (set_node a p s) = pt s" "pool (set_node a p s) = pool (s :: 'a cache_st)"
  "cstate (set_node a p s) = cstate s" "local_pages (set_node a p s) = local_pages s"
  "cache.more (set_node a p s) = cache.more s" "pool_set (set_node a p s) = pool_set s"
  by (simp_all add: set_node_def pool_set_def)

lemma set_pos_cache [simp]:
  "ht (set_pos a st s) = ht s" "pt (set_pos a st s) = pt s" "pool (set_pos a st s) = pool (s :: 'a cache_st)"
  "cstate (set_pos a st s) = cstate s" "local_pages (set_pos a st s) = local_pages s"
  "cache.more (set_pos a st s) = cache.more s" "pool_set (set_pos a st s) = pool_set s"
  by (simp_all add: set_pos_def)

lemma super_root_set [simp]:
  "super_root (set_node a p s) = super_root s" "super_root (set_pos a st s) = super_root s"
  by (simp_all add: set_node_def set_pos_def)

lemma set_pos_inv:
  assumes inv: "cache_inv E W s" and a: "a \<in> hot_set s" and st: "in_use st"
  shows "cache_inv E W (set_pos a st s)" "hot_set (set_pos a st s) = hot_set s"
proof -
  note I = cache_invD [OF inv]
  show hot: "hot_set (set_pos a st s) = hot_set s"
    using a st by (auto simp: hot_set_def)
  have ap: "in_use (pos_state (mem s a))" using a by (simp add: hot_set_def)
  have "pool_inv (set_pos a st s)" using I(1) ap by (auto simp: pool_inv_def in_use_def)
  moreover have "free_inv (set_pos a st s)"
    using I(4) ap st by (auto simp: free_inv_def in_use_def)
  moreover have "residency W (mem (set_pos a st s)) (be (set_pos a st s)) (hot_set s)"
    unfolding set_pos_fields
  proof (rule residency_pos [OF I(6)])
    fix c
    show "\<exists>st'. ((mem s)(a := upd_pos st (mem s a))) c = upd_pos st' (mem s c)"
      by (cases "c = a") (auto intro: exI [of _ "pos_state (mem s c)"] simp: upd_pos_def)
  qed
  ultimately show "cache_inv E W (set_pos a st s)"
    using I by (simp add: cache_inv_def hot)
qed

text \<open>Putting a page into a slot in hand and linking it.\<close>

lemma attach_inv:
  assumes inv: "cache_inv E W s" and p: "in_hand p s" "p \<noteq> 0"
    and m': "\<And>a. a \<in> pool_set s \<Longrightarrow> a \<noteq> p \<Longrightarrow> in_use (pos_state (mem s' a)) = in_use (pos_state (mem s a))"
      "\<And>a. a \<in> pool_set s \<Longrightarrow> a \<notin> hot_set s \<Longrightarrow> a \<noteq> p \<Longrightarrow> mem s' a = mem s a"
      "pos_state (mem s' p) = POS_HOT"
      "\<And>a. a \<in> hot_set s \<Longrightarrow> remote_address (mem s' a) = remote_address (mem s a)"
    and f: "ht s' = ht s" "local_pages s' = local_pages s" "pool s' = pool s" "cstate s' = cstate s"
    and pt: "table_ok (pt s')"
      "\<And>k. get_with_bucket (hash_of E) (pt s') k = (if k = remote_address (mem s' p) then p else get_with_bucket (hash_of E) (pt s) k)"
    and res: "residency W' (mem s') (be s') (insert p (hot_set s))" and sup: "vw_super W' = vw_super W"
  shows "cache_inv E W' s'" "hot_set s' = insert p (hot_set s)"
proof -
  note I = cache_invD [OF inv]
  have ps: "pool_set s' = pool_set s" by (simp add: pool_set_def f)
  have ph: "p \<in> pool_set s" "p \<notin> hot_set s" using p by (simp_all add: in_hand_def)
  show hot: "hot_set s' = insert p (hot_set s)"
    using m'(1,3) ph by (auto simp: hot_set_def ps in_use_def)
  have fr: "a \<in> pool_set s \<and> a \<notin> hot_set s \<and> a \<noteq> p" if "a \<in> set (cool_slots (ht s)) \<union> set (local_pages s)" for a
    using that I(4) p(1) free_disjoint_hot [OF I(4) that] by (auto simp: free_inv_def in_hand_def)
  have dy: "in_use (pos_state (mem s' a))" if a: "a \<in> pool_set s" "dirty (mem s' a)" for a
  proof (cases "a \<in> insert p (hot_set s)")
    case True
    then show ?thesis using hot by (auto simp: hot_set_def)
  next
    case False
    then show ?thesis using I(4) m'(2) [OF a(1)] a by (auto simp: free_inv_def hot_set_def)
  qed
  have eq: "mem s' a = mem s a" if "a \<in> set (cool_slots (ht s)) \<union> set (local_pages s)" for a
    using fr [OF that] m'(2) by blast
  have fi: "free_inv s'"
    using I(4) eq dy by (auto simp: free_inv_def ps f)
  have pi: "pool_inv s'"
  proof -
    obtain al where al: "pool s = Some al" "alloc_ok al" "cstate s = (if head_idx al = page_num al then 1 else 0)"
      "\<forall>i < page_num al. head_idx al \<le> i \<longrightarrow> pos_state (mem s (slot_addr al i)) = POS_REMOTE"
      using I(1) by (auto simp: pool_inv_def)
    have "pos_state (mem s' (slot_addr al i)) = POS_REMOTE" if i: "i < page_num al" "head_idx al \<le> i" for i
    proof -
      have "slot_addr al i \<in> pool_set s" using al(1) i(1) by (auto simp: pool_set_def pool_slots_iff)
      moreover have "slot_addr al i \<noteq> p" using p(1) al(1) i by (simp add: in_hand_def)
      moreover have "slot_addr al i \<notin> hot_set s" using al(4) i by (simp add: hot_set_def in_use_def)
      ultimately show ?thesis using m'(2) al(4) i by simp
    qed
    then show ?thesis using al f by (auto simp: pool_inv_def)
  qed
  have gets: "get_with_bucket (hash_of E) (pt s') (remote_address (mem s' a)) = a" if a: "a \<in> hot_set s'" for a
  proof (cases "a = p")
    case False
    then have ah: "a \<in> hot_set s" using a hot by simp
    have "remote_address (mem s' a) \<noteq> remote_address (mem s' p)"
      using residencyD(14) [OF res, of a p] ah False by auto
    then show ?thesis using I(7) [OF ah] m'(4) [OF ah] pt(2) by simp
  qed (simp add: pt(2))
  show "cache_inv E W' s'"
    using I(2,5) pt(1) fi pi res gets by (simp add: cache_inv_def f ps hot sup)
qed

lemma upsert_spec:
  assumes "table_ok t" "v \<noteq> 0" "ra v = k"
  shows "\<exists>r w t'. upsert_with_lock H ra t k v = Inr (r, w, t') \<and> table_ok t' \<and>
    (\<forall>k'. get_with_bucket H t' k' = (if k' = k then v else get_with_bucket H t k'))"
  using upsert_is_put [OF assms(1,2), of ra k H] assms(3) pages.put_ok [OF assms(1,2)] pages.put_slot [OF assms(1,2)] by blast

text \<open>The state in which a missing child has been read, and the state after it is linked.\<close>

definition read_child :: "gaddr \<Rightarrow> 'a tree_st \<Rightarrow> page \<times> 'a tree_st" where
  "read_child g s =
     (case raw_remote_read g s of
        (buf, s2) \<Rightarrow>
          (buf, if ptype buf = BTreeLeaf then s2\<lparr>leaf_miss := leaf_miss s2 + 1\<rparr>
                else s2\<lparr>inner_miss := inner_miss s2 + 1\<rparr>))"

lemma read_child_fields:
  assumes "read_child g s = (buf, s')"
  shows "mem s' = mem s" "be s' = be s" "ht s' = ht s" "pt s' = pt s" "pool s' = pool s" "cstate s' = cstate s"
    "local_pages s' = local_pages s" "cache.more s' = cache.more s" "super_root s' = super_root s"
    "buf = (case ps_read (be s) g of Some p \<Rightarrow> p | None \<Rightarrow> scratch s)"
    "cache_inv E W s' = cache_inv E W s" "hot_set s' = hot_set s" "pool_set s' = pool_set s"
proof -
  from assms have b: "buf = (case ps_read (be s) g of Some p \<Rightarrow> p | None \<Rightarrow> scratch s)"
    and s': "s' = s\<lparr>scratch := buf, leaf_miss := leaf_miss s + 1\<rparr> \<or> s' = s\<lparr>scratch := buf, inner_miss := inner_miss s + 1\<rparr>"
    by (auto simp: read_child_def raw_remote_read_def Let_def split: if_splits)
  show "buf = (case ps_read (be s) g of Some p \<Rightarrow> p | None \<Rightarrow> scratch s)" by (rule b)
  from s' show f: "mem s' = mem s" "be s' = be s" "ht s' = ht s" "pt s' = pt s" "pool s' = pool s" "cstate s' = cstate s"
    "local_pages s' = local_pages s" "cache.more s' = cache.more s" "super_root s' = super_root s"
    by auto
  show g: "pool_set s' = pool_set s" by (simp add: pool_set_def f)
  show h: "hot_set s' = hot_set s" by (simp add: hot_set_def f g)
  show "cache_inv E W s' = cache_inv E W s" by (simp add: cache_inv_def pool_inv_def free_inv_def f g h)
qed

definition link_child :: "slot_ref \<Rightarrow> u64 \<Rightarrow> u64 \<Rightarrow> page \<Rightarrow> page_table \<Rightarrow> 'a tree_st \<Rightarrow> 'a tree_st" where
  "link_child slot parent p buf t s =
     set_pos p POS_HOT ((set_slot slot (swz p) (set_node p (buf\<lparr>pos_state := POS_PIN, parent_ptr := parent\<rparr>) s))\<lparr>pt := t\<rparr>)"

lemma load_child_hit:
  "swizzled (slot_val slot s) \<Longrightarrow> load_child E slot parent i s = Inr (hide (slot_val slot s), s)"
  by (simp add: load_child_def)

lemma load_child_miss:
  assumes v: "\<not> swizzled (slot_val slot s)" and pin: "pin = (parent \<noteq> 0 \<and> parent \<noteq> super_root s)"
    and s1: "s1 = (if pin then set_pos parent POS_PIN s else s)"
    and rd: "read_child (slot_val slot s1) s1 = (buf, s3)"
  shows "get_empty_page E s3 = Inl e \<Longrightarrow> load_child E slot parent i s = Inl e"
    and "get_empty_page E s3 = Inr (p, s4) \<Longrightarrow>
      s5 = set_slot slot (swz p) (set_node p (buf\<lparr>pos_state := POS_PIN, parent_ptr := parent\<rparr>) s4) \<Longrightarrow>
      upsert_with_lock (hash_of E) (\<lambda>a. remote_address (mem s5 a)) (pt s5)
        (slot_val slot (set_node p (buf\<lparr>pos_state := POS_PIN, parent_ptr := parent\<rparr>) s4)) p = Inr (r, w, t) \<Longrightarrow>
      s6 = link_child slot parent p buf t s4 \<Longrightarrow>
      s7 = (if parent \<noteq> 0 \<and> level (mem s6 parent) \<noteq> 255 \<and> ptype (mem s6 parent) = BTreeInner
            then set_node parent (set_bitmap i (mem s6 parent)) s6 else s6) \<Longrightarrow>
      load_child E slot parent i s = Inr (p, if pin then set_pos parent (pos_state (mem s parent)) s7 else s7)"
proof -
  have rd': "(case raw_remote_read (slot_val slot s1) s1 of (buf, s2) \<Rightarrow>
      F buf (if ptype buf = BTreeLeaf then s2\<lparr>leaf_miss := leaf_miss s2 + 1\<rparr> else s2\<lparr>inner_miss := inner_miss s2 + 1\<rparr>)) = F buf s3" for F
    using rd by (auto simp: read_child_def split: prod.splits)
  have lc: "load_child E slot parent i s =
    bindR (cache_insert E slot buf parent True s3) (\<lambda>(cached, _, s4).
                     let s5 = set_pos cached POS_HOT s4;
                         s6 = (if parent \<noteq> 0 \<and> level (mem s5 parent) \<noteq> 255 \<and> ptype (mem s5 parent) = BTreeInner
                               then set_node parent (set_bitmap i (mem s5 parent)) s5 else s5);
                         s7 = (if pin then set_pos parent (pos_state (mem s parent)) s6 else s6)
                     in Inr (cached, s7))"
    unfolding load_child_def Let_def pin [symmetric] s1 [symmetric]
    using v rd' [of "\<lambda>buf s3. bindR (cache_insert E slot buf parent True s3) (\<lambda>(cached, _, s4).
                     let s5 = set_pos cached POS_HOT s4;
                         s6 = (if parent \<noteq> 0 \<and> level (mem s5 parent) \<noteq> 255 \<and> ptype (mem s5 parent) = BTreeInner
                               then set_node parent (set_bitmap i (mem s5 parent)) s5 else s5);
                         s7 = (if pin then set_pos parent (pos_state (mem s parent)) s6 else s6)
                     in Inr (cached, s7))"] by (simp add: Let_def)
  show "load_child E slot parent i s = Inl e" if "get_empty_page E s3 = Inl e"
    unfolding lc cache_insert_def that by simp
  show "load_child E slot parent i s = Inr (p, if pin then set_pos parent (pos_state (mem s parent)) s7 else s7)"
    if "get_empty_page E s3 = Inr (p, s4)"
      "s5 = set_slot slot (swz p) (set_node p (buf\<lparr>pos_state := POS_PIN, parent_ptr := parent\<rparr>) s4)"
      "upsert_with_lock (hash_of E) (\<lambda>a. remote_address (mem s5 a)) (pt s5)
        (slot_val slot (set_node p (buf\<lparr>pos_state := POS_PIN, parent_ptr := parent\<rparr>) s4)) p = Inr (r, w, t)"
      "s6 = link_child slot parent p buf t s4"
      "s7 = (if parent \<noteq> 0 \<and> level (mem s6 parent) \<noteq> 255 \<and> ptype (mem s6 parent) = BTreeInner
            then set_node parent (set_bitmap i (mem s6 parent)) s6 else s6)"
    unfolding lc cache_insert_def that(1) bindR.simps prod.case Let_def
    using that(3) unfolding that(2) that(4,5) link_child_def by (simp add: Let_def)
qed

text \<open>A child of a resident inner node.\<close>

lemma load_child_inv:
  assumes inv: "cache_inv E W s" and sr: "super_root s = vw_super W"
    and P: "P \<in> hot_set s" "ptype (mem s P) = BTreeInner" "i \<le> page.count (mem s P)"
  shows "load_child E (ChildSlot P i) P i s = Inl ExitCall \<and> cstate s = 1 \<and> \<not> live E 0 s \<or>
    (\<exists>c s'. load_child E (ChildSlot P i) P i s = Inr (c, s') \<and> cache_inv E W s' \<and> super_root s' = vw_super W \<and>
      c \<in> hot_set s' \<and> remote_address (mem s' c) = vkids (vw_nodes W (remote_address (mem s P))) ! i \<and>
      P \<in> hot_set s' \<and> remote_address (mem s' P) = remote_address (mem s P) \<and> spends 1 s s')"
proof -
  note I = cache_invD [OF inv]
  note r = I(6)
  let ?v = "children (mem s P) ! i"
  have kid: "vkids (vw_nodes W (remote_address (mem s P))) ! i = unswz (mem s) ?v"
    using vkids_nth(2) [OF residencyD(10) [OF r P(1)] P(2,3), of "mem s"] residencyD(12) [OF r P(1)] by simp
  show ?thesis
  proof (cases "swizzled ?v")
    case True
    have "hide ?v \<in> hot_set s" using residencyD(15) [OF r P] True by (simp add: slot_ok_def)
    then show ?thesis using load_child_hit [of "ChildSlot P i" s E P i] True inv sr kid P(1) by (auto simp: unswz_def)
  next
    case False
    have P0: "P \<noteq> 0" "P \<noteq> super_root s" using residencyD(9,6) [OF r] P(1) sr by auto
    define s1 where "s1 = set_pos P POS_PIN s"
    have s1: "cache_inv E W s1" "hot_set s1 = hot_set s"
      unfolding s1_def by (rule set_pos_inv [OF inv P(1)], simp add: in_use_def)+
    define g where "g = ?v"
    have g1: "slot_val (ChildSlot P i) s1 = g" by (simp add: s1_def g_def)
    obtain buf s3 where rd: "read_child g s1 = (buf, s3)" by (cases "read_child g s1")
    note rf = read_child_fields [OF rd]
    have gV: "g = vkids (vw_nodes W (remote_address (mem s P))) ! i" using False kid by (simp add: g_def unswz_def)
    have gT: "g \<in> vw_addrs W" using resident_kid(1) [OF r P] False by (simp add: unswz_def g_def)
    have noR: "\<forall>a \<in> hot_set s. remote_address (mem s a) \<noteq> g"
      using residencyD(15) [OF r P] False by (simp add: slot_ok_def g_def)
    have bf: "buf = ps_page (be s) (offset g)" using rf(10) slot_at_rest(2) [OF r gT noR] by (simp add: s1_def)
    have brest: "at_rest (vw_nodes W) (be s) g" by (rule slot_at_rest(1) [OF r gT noR])
    have bfr: "remote_address buf = g" using brest bf by (simp add: at_rest_def Let_def)
    have v: "\<not> swizzled (slot_val (ChildSlot P i) s)" using False by simp
    have pin: "True = (P \<noteq> 0 \<and> P \<noteq> super_root s)" using P0 by simp
    have s1': "s1 = (if True then set_pos P POS_PIN s else s)" by (simp add: s1_def)
    have rd': "read_child (slot_val (ChildSlot P i) s1) s1 = (buf, s3)" unfolding g1 by (rule rd)
    note miss = load_child_miss [OF v pin s1' rd']
    have inv3: "cache_inv E W s3" using rf(11) s1(1) by simp
    have uses3: "uses 0 s s3" by (rule uses_same) (use s1(2) in \<open>simp_all add: rf(2,3,5,7,12) s1_def\<close>)
    have pos3: "pos_state (mem s3 a) = (if a = P then POS_PIN else pos_state (mem s a))" for a by (simp add: rf(1) s1_def)
    have live3: "live E P s3" if "live E 0 s"
    proof (rule live_fills [OF that])
      show "fills s s3" using uses3 by (simp add: uses_def)
      have "0 \<notin> hot_set s" using residencyD(9) [OF r] by blast
      then show "calm P s3" using that s1(2) pos3 rf(12) by (auto simp: live_def calm_def)
    qed
    from get_empty_page_inv [OF inv3] consider (exit) "get_empty_page E s3 = Inl ExitCall" "cstate s3 = 1" "\<not> live E P s3"
      | (ok) p s4 where "get_empty_page E s3 = Inr (p, s4)" "p \<noteq> 0" "cache_inv E W s4" "evolves E (vw_super W) s3 s4" "in_hand p s4"
        "takes s3 s4" by blast
    then show ?thesis
    proof cases
      case exit
      then show ?thesis using miss(1) rf(6) live3 by (auto simp: s1_def)
    next
      case ok
      note I4 = cache_invD [OF ok(3)]
      note r4 = I4(6)
      have ev: "hot_set s4 \<subseteq> hot_set s" "pool_set s4 = pool_set s" "\<And>a. remote_address (mem s4 a) = remote_address (mem s a)"
        "page.count (mem s4 P) = page.count (mem s P)" "ptype (mem s4 P) = BTreeInner" "pos_state (mem s4 P) = POS_PIN"
        "cache.more s4 = cache.more s" "level (mem s4 P) = level (mem s P)"
        using ok(4) s1(2) P(2) unfolding evolves_def rf s1_def by auto
      have P4: "P \<in> hot_set s4" using ev(2,6) hot_pool [OF P(1)] by (simp add: hot_set_def in_use_def)
      have i4: "i \<le> page.count (mem s4 P)" using P(3) ev(4) by simp
      have pP: "p \<noteq> P" using P4 ok(5) by (auto simp: in_hand_def)
      have noR4: "\<forall>a \<in> hot_set s4. remote_address (mem s4 a) \<noteq> g" using noR ev(1,3) by auto
      have c4: "unswz (mem s4) (children (mem s4 P) ! i) = g"
        using vkids_nth(2) [OF residencyD(10) [OF r4 P4] ev(5) i4, of "mem s4"] residencyD(12) [OF r4 P4] ev(3) gV by simp
      have g4: "children (mem s4 P) ! i = g"
        using c4 noR4 residencyD(15) [OF r4 P4 ev(5) i4] by (auto simp: slot_ok_def unswz_def split: if_splits)
      have ng: "\<not> swizzled g" using False by (simp add: g_def)
      define sp where "sp = set_node p (buf\<lparr>pos_state := POS_PIN, parent_ptr := P\<rparr>) s4"
      define s5 where "s5 = set_slot (ChildSlot P i) (swz p) sp"
      have snap: "slot_val (ChildSlot P i) sp = g" using pP g4 by (simp add: sp_def)
      have "(\<lambda>a. remote_address (mem s5 a)) p = g" using pP bfr by (simp add: s5_def sp_def)
      from upsert_spec [where ra = "\<lambda>a. remote_address (mem s5 a)" and H = "hash_of E" and t = "pt s4", OF I4(3) ok(2) this]
      obtain rr w t where up: "upsert_with_lock (hash_of E) (\<lambda>a. remote_address (mem s5 a)) (pt s4) g p = Inr (rr, w, t)"
        "table_ok t" "\<forall>k'. get_with_bucket (hash_of E) t k' = (if k' = g then p else get_with_bucket (hash_of E) (pt s4) k')"
        by blast
      have pt5: "pt s5 = pt s4" by (simp add: s5_def sp_def)
      define s6 where "s6 = link_child (ChildSlot P i) P p buf t s4"
      define s7 where "s7 = set_node P (set_bitmap i (mem s6 P)) s6"
      have m6: "mem s6 = (mem s4)(p := upd_pos POS_HOT (buf\<lparr>pos_state := POS_PIN, parent_ptr := P\<rparr>),
          P := (mem s4 P)\<lparr>children := (children (mem s4 P))[i := swz p]\<rparr>)"
        using pP by (auto simp: s6_def link_child_def fun_eq_iff)
      have lv: "level (mem s4 P) \<noteq> 255" using resident_level(2) [OF r4 P4] by simp
      have s7': "s7 = (if P \<noteq> 0 \<and> level (mem s6 P) \<noteq> 255 \<and> ptype (mem s6 P) = BTreeInner
            then set_node P (set_bitmap i (mem s6 P)) s6 else s6)"
        using P0(1) lv ev(5) by (simp add: s7_def m6)
      define s8 where "s8 = set_pos P (pos_state (mem s P)) s7"
      have eq: "load_child E (ChildSlot P i) P i s = Inr (p, s8)"
        using miss(2) [OF ok(1) s5_def [unfolded sp_def] _ s6_def s7'] up(1)
        unfolding pt5 snap [unfolded sp_def] by (simp add: s8_def)
      have f8: "be s8 = be s4" "ht s8 = ht s4" "local_pages s8 = local_pages s4" "pool s8 = pool s4" "cstate s8 = cstate s4"
        "pt s8 = t" "cache.more s8 = cache.more s4"
        by (simp_all add: s8_def s7_def s6_def link_child_def set_pos_def set_node_def)
      define mP where "mP = set_bitmap i ((mem s4 P)\<lparr>children := (children (mem s4 P))[i := swz p]\<rparr>)"
      have m8: "mem s8 a = (if a = P then upd_pos (pos_state (mem s P)) mP
          else if a = p then buf\<lparr>pos_state := POS_HOT, parent_ptr := P\<rparr> else mem s4 a)" for a
        using pP by (simp add: s8_def s7_def m6 mP_def upd_pos_def)
      define m7 where "m7 = (mem s8)(P := mP)"
      have srp: "vw_super W \<notin> pool_set s4" by (rule I4(5))
      have pp: "p \<in> pool_set s4" "p \<notin> hot_set s4" using ok(5) by (simp_all add: in_hand_def)
      have nP: "vw_super W \<noteq> P" "vw_super W \<noteq> p" using srp hot_pool [OF P4] pp by auto
      have res7: "residency W m7 (be s4) (insert p (hot_set s4))"
      proof (rule residency_load_child [OF r4 P4 ev(5) i4])
        show "page_ok buf" "bitmap buf = 0" "node_of (\<lambda>_. zero_page) buf = vw_nodes W g" "remote_address buf = g"
          using brest bf by (simp_all add: at_rest_def Let_def)
        show "m7 p = buf\<lparr>pos_state := POS_HOT, parent_ptr := P\<rparr>" using pP by (simp add: m7_def m8)
        show "m7 P = set_bitmap i ((mem s4 P)\<lparr>children := (children (mem s4 P))[i := swz p]\<rparr>)" by (simp add: m7_def mP_def)
        show "m7 a = mem s4 a" if "a \<in> hot_set s4" "a \<noteq> P" for a using that pp(2) by (auto simp: m7_def m8)
        show "m7 (vw_super W) = mem s4 (vw_super W)" using nP by (simp add: m7_def m8)
        show "\<not> swizzled p" by (rule pool_slot_facts(3) [OF I4(1) pp(1)])
      qed (use g4 ng pp nP ok(2) in simp_all)
      have res8: "residency W (mem s8) (be s8) (insert p (hot_set s4))"
        unfolding f8
      proof (rule residency_pos [OF res7])
        show "\<exists>st. mem s8 a = upd_pos st (m7 a)" for a
          by (cases "a = P") (auto simp: m7_def m8 upd_pos_def intro: exI [of _ "pos_state (mem s8 a)"])
      qed
      have use: "in_use (pos_state (mem s P))" using P(1) by (simp add: hot_set_def)
      have useP4: "in_use (pos_state (mem s4 P))" using P4 by (simp add: hot_set_def)
      have rem8: "remote_address (mem s8 a) = remote_address (mem s4 a)" if "a \<noteq> p" for a
        using that by (simp add: m8 mP_def set_bitmap_def)
      have remp: "remote_address (mem s8 p) = g" using pP bfr by (simp add: m8)
      have "in_use (pos_state (mem s8 a)) = in_use (pos_state (mem s4 a))" if "a \<in> pool_set s4" "a \<noteq> p" for a
        using that use useP4 by (simp add: m8)
      moreover have "mem s8 a = mem s4 a" if "a \<in> pool_set s4" "a \<notin> hot_set s4" "a \<noteq> p" for a
        using that P4 by (auto simp: m8)
      moreover have "pos_state (mem s8 p) = POS_HOT" using pP by (simp add: m8)
      moreover have "remote_address (mem s8 a) = remote_address (mem s4 a)" if "a \<in> hot_set s4" for a
        by (rule rem8) (use that pp(2) in auto)
      moreover have "table_ok (pt s8)" "\<And>k. get_with_bucket (hash_of E) (pt s8) k =
          (if k = remote_address (mem s8 p) then p else get_with_bucket (hash_of E) (pt s4) k)"
        using up(2,3) unfolding remp f8 by blast+
      ultimately have inv8: "cache_inv E W s8" "hot_set s8 = insert p (hot_set s4)"
        using attach_inv [OF ok(3,5,2) _ _ _ _ f8(2-5) _ _ res8 refl] by blast+
      have "super_root s8 = vw_super W" using cache_more_tree [of s8 s] f8(7) ev(7) sr by simp
      moreover have "spends 1 s s8"
        unfolding spends_def
      proof (intro conjI impI)
        show "uses 1 s s8"
          by (rule uses_trans [OF uses3 takes_uses [OF ok(6) _ inv8(2) pp(2)]]) (simp_all add: f8)
        show "calm 0 s8" if "calm 0 s"
          using that ev(1) P(1) ok(4) pos3 by (auto simp: calm_def inv8(2) m8 evolves_def)
        show "cache.more s8 = cache.more s" using f8(7) ev(7) by simp
      qed
      moreover have "P \<in> hot_set s8" "remote_address (mem s8 P) = remote_address (mem s P)"
        using inv8(2) P4 rem8 [OF pP [symmetric]] ev(3) by simp_all
      ultimately show ?thesis using eq inv8 remp gV by auto
    qed
  qed
qed

text \<open>The root, whose parent is the super root outside the pool.\<close>

lemma load_root_inv:
  assumes inv: "cache_inv E W s" and sr: "super_root s = vw_super W"
  shows "load_root E s = Inl ExitCall \<and> cstate s = 1 \<and> \<not> live E 0 s \<or>
    (\<exists>c s'. load_root E s = Inr (c, s') \<and> cache_inv E W s' \<and> super_root s' = vw_super W \<and>
      c \<in> hot_set s' \<and> remote_address (mem s' c) = vw_root W \<and> spends 1 s s')"
proof -
  note I = cache_invD [OF inv]
  note r = I(6)
  define R where "R = vw_super W"
  let ?v = "children (mem s R) ! 0"
  have lr: "load_root E s = load_child E (ChildSlot R 0) R 0 s" by (simp add: load_root_def sr R_def)
  have root: "unswz (mem s) ?v = vw_root W" using residencyD(18) [OF r] by (simp add: R_def)
  show ?thesis
  proof (cases "swizzled ?v")
    case True
    have "hide ?v \<in> hot_set s" using residencyD(17) [OF r] True by (simp add: slot_ok_def R_def)
    then show ?thesis unfolding lr using load_child_hit [of "ChildSlot R 0" s E R 0] True inv sr root by (auto simp: unswz_def)
  next
    case False
    define g where "g = ?v"
    have gr: "g = vw_root W" using False root by (simp add: g_def unswz_def)
    have gT: "g \<in> vw_addrs W" using residencyD(1) [OF r] gr by (simp add: vtree_def)
    have noR: "\<forall>a \<in> hot_set s. remote_address (mem s a) \<noteq> g"
      using residencyD(17) [OF r] False by (simp add: slot_ok_def g_def R_def)
    obtain buf s3 where rd: "read_child g s = (buf, s3)" by (cases "read_child g s")
    note rf = read_child_fields [OF rd]
    have brest: "at_rest (vw_nodes W) (be s) g" by (rule slot_at_rest(1) [OF r gT noR])
    have bf: "buf = ps_page (be s) (offset g)" using rf(10) slot_at_rest(2) [OF r gT noR] by simp
    have bfr: "remote_address buf = g" using brest bf by (simp add: at_rest_def Let_def)
    have v: "\<not> swizzled (slot_val (ChildSlot R 0) s)" using False by simp
    have pin: "False = (R \<noteq> 0 \<and> R \<noteq> super_root s)" by (simp add: sr R_def)
    have s1: "s = (if False then set_pos R POS_PIN s else s)" by simp
    have rd': "read_child (slot_val (ChildSlot R 0) s) s = (buf, s3)" using rd by (simp add: g_def)
    note miss = load_child_miss [OF v pin s1 rd']
    have inv3: "cache_inv E W s3" using rf(11) inv by simp
    have uses3: "uses 0 s s3" by (rule uses_same) (simp_all add: rf(2,3,5,7,12))
    have live3: "live E 0 s3" if "live E 0 s"
      using live_fills [OF that, of s3 0] that uses3 by (simp add: uses_def live_def calm_def rf(1,12))
    from get_empty_page_inv [OF inv3] consider (exit) "get_empty_page E s3 = Inl ExitCall" "cstate s3 = 1" "\<not> live E 0 s3"
      | (ok) p s4 where "get_empty_page E s3 = Inr (p, s4)" "p \<noteq> 0" "cache_inv E W s4" "evolves E (vw_super W) s3 s4" "in_hand p s4"
        "takes s3 s4" by blast
    then show ?thesis
    proof cases
      case exit
      then show ?thesis using miss(1) rf(6) live3 unfolding lr by auto
    next
      case ok
      note I4 = cache_invD [OF ok(3)]
      note r4 = I4(6)
      have ev: "mem s4 R = mem s R" "cache.more s4 = cache.more s"
        using ok(4) unfolding evolves_def rf R_def by auto
      have pp: "p \<in> pool_set s4" "p \<notin> hot_set s4" using ok(5) by (simp_all add: in_hand_def)
      have pR: "p \<noteq> R" using I4(5) pp by (auto simp: R_def)
      have hR: "a \<noteq> R" if "a \<in> pool_set s4" for a using I4(5) that by (auto simp: R_def)
      define sp where "sp = set_node p (buf\<lparr>pos_state := POS_PIN, parent_ptr := R\<rparr>) s4"
      define s5 where "s5 = set_slot (ChildSlot R 0) (swz p) sp"
      have snap: "slot_val (ChildSlot R 0) sp = g" using pR ev by (simp add: sp_def g_def)
      have "(\<lambda>a. remote_address (mem s5 a)) p = g" using pR bfr by (simp add: s5_def sp_def)
      from upsert_spec [where ra = "\<lambda>a. remote_address (mem s5 a)" and H = "hash_of E" and t = "pt s4", OF I4(3) ok(2) this]
      obtain rr w t where up: "upsert_with_lock (hash_of E) (\<lambda>a. remote_address (mem s5 a)) (pt s4) g p = Inr (rr, w, t)"
        "table_ok t" "\<forall>k'. get_with_bucket (hash_of E) t k' = (if k' = g then p else get_with_bucket (hash_of E) (pt s4) k')"
        by blast
      have pt5: "pt s5 = pt s4" by (simp add: s5_def sp_def)
      define s6 where "s6 = link_child (ChildSlot R 0) R p buf t s4"
      have m6: "mem s6 a = (if a = p then buf\<lparr>pos_state := POS_HOT, parent_ptr := R\<rparr>
          else if a = R then (mem s4 R)\<lparr>children := (children (mem s4 R))[0 := swz p]\<rparr> else mem s4 a)" for a
        using pR by (auto simp: s6_def link_child_def upd_pos_def)
      have "level (mem s6 R) = 255" using pR residencyD(4) [OF r4] by (simp add: m6 R_def)
      then have s7: "s6 = (if R \<noteq> 0 \<and> level (mem s6 R) \<noteq> 255 \<and> ptype (mem s6 R) = BTreeInner
            then set_node R (set_bitmap 0 (mem s6 R)) s6 else s6)" by simp
      have eq: "load_child E (ChildSlot R 0) R 0 s = Inr (p, s6)"
        using miss(2) [OF ok(1) s5_def [unfolded sp_def] _ s6_def s7] up(1)
        unfolding pt5 snap [unfolded sp_def] by simp
      have f6: "be s6 = be s4" "ht s6 = ht s4" "local_pages s6 = local_pages s4" "pool s6 = pool s4" "cstate s6 = cstate s4"
        "pt s6 = t" "cache.more s6 = cache.more s4"
        by (simp_all add: s6_def link_child_def set_pos_def set_node_def)
      have res6: "residency W (mem s6) (be s6) (insert p (hot_set s4))"
        unfolding f6
      proof (rule residency_load_root [OF r4])
        show "\<not> swizzled (children (mem s4 (vw_super W)) ! 0)" "g = children (mem s4 (vw_super W)) ! 0"
          using False ev by (simp_all add: g_def R_def)
        show "page_ok buf" "bitmap buf = 0" "node_of (\<lambda>_. zero_page) buf = vw_nodes W g" "remote_address buf = g"
          using brest bf by (simp_all add: at_rest_def Let_def)
        show "mem s6 p = buf\<lparr>pos_state := POS_HOT, parent_ptr := vw_super W\<rparr>" by (simp add: m6 R_def)
        show "mem s6 (vw_super W) = (mem s4 (vw_super W))\<lparr>children := (children (mem s4 (vw_super W)))[0 := swz p]\<rparr>"
          using pR by (simp add: m6 R_def)
        show "mem s6 a = mem s4 a" if "a \<in> hot_set s4" for a
          using that pp(2) hR [OF hot_pool [OF that]] by (auto simp: m6)
        show "\<not> swizzled p" by (rule pool_slot_facts(3) [OF I4(1) pp(1)])
        show "p \<noteq> vw_super W" using pR by (simp add: R_def)
      qed (use pp ok(2) in simp_all)
      have same: "mem s6 a = mem s4 a" if "a \<in> pool_set s4" "a \<noteq> p" for a using that hR by (simp add: m6)
      have remp: "remote_address (mem s6 p) = g" using bfr by (simp add: m6)
      have "remote_address (mem s6 a) = remote_address (mem s4 a)" if "a \<in> hot_set s4" for a
      proof -
        have "a \<noteq> p" "a \<in> pool_set s4" using that pp(2) hot_pool by auto
        then show ?thesis using same by simp
      qed
      moreover have "pos_state (mem s6 p) = POS_HOT" by (simp add: m6)
      moreover have "table_ok (pt s6)" "\<And>k. get_with_bucket (hash_of E) (pt s6) k =
          (if k = remote_address (mem s6 p) then p else get_with_bucket (hash_of E) (pt s4) k)"
        using up(2,3) unfolding remp f6 by blast+
      ultimately have inv6: "cache_inv E W s6" "hot_set s6 = insert p (hot_set s4)"
        using attach_inv [OF ok(3,5,2) _ _ _ _ f6(2-5) _ _ res6 refl] same by simp_all
      have "super_root s6 = vw_super W" using cache_more_tree [of s6 s] f6(7) ev(2) sr by simp
      moreover have "spends 1 s s6"
        unfolding spends_def
      proof (intro conjI impI)
        show "uses 1 s s6"
          by (rule uses_trans [OF uses3 takes_uses [OF ok(6) _ inv6(2) pp(2)]]) (simp_all add: f6)
        have h: "mem s6 a = mem s4 a" if "a \<in> hot_set s4" for a using that pp(2) same [OF hot_pool] by metis
        show "calm 0 s6" if "calm 0 s"
          using that calm_evolves [OF _ ok(4), of 0] h by (auto simp: calm_def inv6(2) m6 rf(1,12))
        show "cache.more s6 = cache.more s" using f6(7) ev(2) by simp
      qed
      ultimately show ?thesis unfolding lr using eq inv6 remp gr by auto
    qed
  qed
qed

subsection \<open>The descent\<close>

text \<open>The address of the leaf to which the view routes a key.\<close>

definition vroute :: "lnode \<Rightarrow> u64 \<Rightarrow> nat" where
  "vroute n k = lower_bound_loop (\<lambda>i. vkeys n ! i) k 0 (length (vkeys n))"

fun vpath :: "(gaddr \<Rightarrow> lnode) \<Rightarrow> nat \<Rightarrow> u64 \<Rightarrow> gaddr \<Rightarrow> gaddr" where
  "vpath V 0 k g = g"
| "vpath V (Suc n) k g = vpath V n k (vkids (V g) ! vroute (V g) k)"

definition vleaf :: "view \<Rightarrow> u64 \<Rightarrow> gaddr" where
  "vleaf W k = vpath (vw_nodes W) (vlevel (vw_nodes W (vw_root W))) k (vw_root W)"

fun vmap :: "lnode \<Rightarrow> u64 \<rightharpoonup> u64" where
  "vmap (LLeaf lo hi es) = map_of es"
| "vmap (LInner l lo hi ks cs) = Map.empty"

text \<open>The map that the whole view stands for: what a lookup finds in the leaf of a key.\<close>

definition abs_map :: "view \<Rightarrow> u64 \<rightharpoonup> u64" where
  "abs_map W k = vmap (vw_nodes W (vleaf W k)) k"

lemma lower_bound_loop_cong:
  assumes "\<And>i. i < upper \<Longrightarrow> key i = key' i"
  shows "lower_bound_loop key k lower upper = lower_bound_loop key' k lower upper"
  using assms
proof (induction key k lower upper rule: lower_bound_loop.induct)
  case (1 key k lower upper)
  show ?case
  proof (cases "lower < upper")
    case True
    define mid where "mid = (upper - lower) div 2 + lower"
    have mid: "mid < upper" "lower \<le> mid" using True by (auto simp: mid_def)
    have km: "key mid = key' mid" using "1.prems" mid by simp
    show ?thesis
      unfolding lower_bound_loop.simps [of key k lower upper] lower_bound_loop.simps [of key' k lower upper] Let_def
        mid_def [symmetric] km [symmetric]
      using True "1.IH" [OF True mid_def] "1.prems" mid by auto
  qed (simp add: lower_bound_loop.simps [of _ k lower upper])
qed

lemma vroute_node_of:
  assumes "page_ok p" "ptype p = BTreeInner"
  shows "vroute (node_of m p) k = inner_lowerBound p k" "inner_lowerBound p k \<le> page.count p"
proof -
  note ok = page_ok_inner(1) [OF assms]
  have l: "length (vkeys (node_of m p)) = page.count p" by (rule vkids_length(2) [OF assms])
  show "vroute (node_of m p) k = inner_lowerBound p k"
    unfolding vroute_def inner_lowerBound_def l
    by (rule lower_bound_loop_cong) (use ok assms(2) in \<open>simp add: vkeys_node_of inner_keys_nth\<close>)
  show "inner_lowerBound p k \<le> page.count p" using inner_lowerBound_rank [OF ok, of k] by simp
qed

lemma descend_inv:
  assumes "cache_inv E W s" "super_root s = vw_super W" "cur \<in> hot_set s" "level (mem s cur) < fuel"
  shows "descend E fuel k cur s = Inl ExitCall \<and> unused s < level (mem s cur) \<and> \<not> live E 0 s \<or>
    (\<exists>c s'. descend E fuel k cur s = Inr (c, s') \<and> cache_inv E W s' \<and> super_root s' = vw_super W \<and>
      c \<in> hot_set s' \<and> ptype (mem s' c) = BTreeLeaf \<and>
      remote_address (mem s' c) = vpath (vw_nodes W) (level (mem s cur)) k (remote_address (mem s cur)) \<and>
      spends (level (mem s cur)) s s')"
  using assms
proof (induction fuel arbitrary: cur s)
  case (Suc fuel)
  note r = cache_invD(6) [OF Suc.prems(1)]
  have ok: "page_ok (mem s cur)" by (rule residencyD(10) [OF r Suc.prems(3)])
  show ?case
  proof (cases "ptype (mem s cur) = BTreeInner")
    case False
    then have "ptype (mem s cur) = BTreeLeaf" "level (mem s cur) = 0" using ok by (simp_all add: page_ok_def)
    then show ?thesis using Suc.prems by simp
  next
    case True
    let ?i = "inner_lowerBound (mem s cur) k" and ?g = "remote_address (mem s cur)"
    have n: "vw_nodes W ?g = node_of (mem s) (mem s cur)" using residencyD(12) [OF r Suc.prems(3)] by simp
    have i: "?i \<le> page.count (mem s cur)" "vroute (vw_nodes W ?g) k = ?i"
      unfolding n using vroute_node_of [OF ok True] by simp_all
    from load_child_inv [OF Suc.prems(1,2,3) True i(1)] consider
      "load_child E (ChildSlot cur ?i) cur ?i s = Inl ExitCall" "cstate s = 1" "\<not> live E 0 s"
      | c s' where "load_child E (ChildSlot cur ?i) cur ?i s = Inr (c, s')" "cache_inv E W s'" "super_root s' = vw_super W"
        "c \<in> hot_set s'" "remote_address (mem s' c) = vkids (vw_nodes W ?g) ! ?i" "spends 1 s s'" by blast
    then show ?thesis
    proof cases
      case 1
      have "unused s = 0" using unused_dynamic [OF cache_invD(1) [OF Suc.prems(1)]] 1(2) by simp
      moreover have "0 < level (mem s cur)" by (rule page_ok_inner(3) [OF ok True])
      ultimately show ?thesis using True 1 by (simp add: Let_def)
    next
      case 2
      note r' = cache_invD(6) [OF 2(2)]
      have h: "vkids (vw_nodes W ?g) ! ?i = unswz (mem s) (children (mem s cur) ! ?i)"
        unfolding n by (rule vkids_nth(2) [OF ok True i(1)])
      have lv: "level (mem s cur) = Suc (level (mem s' c))"
        using resident_kid(3) [OF r Suc.prems(3) True i(1)] resident_level(1) [OF r' 2(4)] 2(5) h by simp
      then have "level (mem s' c) < fuel" using Suc.prems(4) by simp
      from Suc.IH [OF 2(2,3,4) this] consider
        "descend E fuel k c s' = Inl ExitCall" "unused s' < level (mem s' c)" "\<not> live E 0 s'"
        | l s'' where "descend E fuel k c s' = Inr (l, s'')" "cache_inv E W s''" "super_root s'' = vw_super W" "l \<in> hot_set s''"
          "ptype (mem s'' l) = BTreeLeaf" "remote_address (mem s'' l) = vpath (vw_nodes W) (level (mem s' c)) k (remote_address (mem s' c))"
          "spends (level (mem s' c)) s' s''" by blast
      then show ?thesis
      proof cases
        case 1
        then show ?thesis using 2(1) spendsD [OF 2(6)] spends_live [OF 2(6), of E] True lv by (auto simp: Let_def)
      next
        case l: 2
        have "spends (level (mem s cur)) s s''" by (rule spends_trans [OF 2(6) l(7)]) (simp add: lv)
        then show ?thesis using l 2(1,5) True i(2) lv by (simp add: Let_def)
      qed
    qed
  qed
qed simp

lemma find_leaf_inv:
  assumes inv: "cache_inv E W s" and sr: "super_root s = vw_super W"
  shows "find_leaf E k s = Inl ExitCall \<and> unused s \<le> root_level W \<and> \<not> live E 0 s \<or>
    (\<exists>c s'. find_leaf E k s = Inr (c, s') \<and> cache_inv E W s' \<and> super_root s' = vw_super W \<and>
      c \<in> hot_set s' \<and> ptype (mem s' c) = BTreeLeaf \<and> remote_address (mem s' c) = vleaf W k \<and>
      spends (Suc (root_level W)) s s')"
proof -
  from load_root_inv [OF inv sr] consider "load_root E s = Inl ExitCall" "cstate s = 1" "\<not> live E 0 s"
    | c s' where "load_root E s = Inr (c, s')" "cache_inv E W s'" "super_root s' = vw_super W" "c \<in> hot_set s'"
      "remote_address (mem s' c) = vw_root W" "spends 1 s s'" by blast
  then show ?thesis
  proof cases
    case 2
    note r = cache_invD(6) [OF 2(2)]
    have "level (mem s' c) < walk_fuel" using resident_level(2) [OF r 2(4)] by (simp add: walk_fuel_def)
    note d = descend_inv [OF 2(2-4) this, of k]
    have lv: "level (mem s' c) = root_level W" using 2(5) resident_level(1) [OF r 2(4)] by simp
    from d consider
      "descend E walk_fuel k c s' = Inl ExitCall" "unused s' < level (mem s' c)" "\<not> live E 0 s'"
      | l s'' where "descend E walk_fuel k c s' = Inr (l, s'')" "cache_inv E W s''" "super_root s'' = vw_super W" "l \<in> hot_set s''"
        "ptype (mem s'' l) = BTreeLeaf" "remote_address (mem s'' l) = vpath (vw_nodes W) (level (mem s' c)) k (remote_address (mem s' c))"
        "spends (level (mem s' c)) s' s''" by blast
    then show ?thesis
    proof cases
      case 1
      then show ?thesis using 2(1) spendsD [OF 2(6)] spends_live [OF 2(6), of E] lv by (auto simp: find_leaf_def)
    next
      case l: 2
      have "spends (Suc (level (mem s' c))) s s''" by (rule spends_trans [OF 2(6) l(7)]) simp
      then show ?thesis using l 2(1,5) lv by (simp add: find_leaf_def vleaf_def)
    qed
  next
    case 1
    then show ?thesis using unused_dynamic [OF cache_invD(1) [OF inv]] by (simp add: find_leaf_def)
  qed
qed

subsection \<open>Changing a leaf\<close>

lemma vpath_put:
  assumes "vkeys n = vkeys (V g)" "vkids n = vkids (V g)"
  shows "vpath (V(g := n)) m k h = vpath V m k h"
proof (induction m arbitrary: h)
  case (Suc m)
  have "vkeys ((V(g := n)) h) = vkeys (V h)" "vkids ((V(g := n)) h) = vkids (V h)" using assms by simp_all
  then show ?case using Suc by (simp add: vroute_def)
qed simp

lemma abs_map_put:
  assumes "vkeys n = vkeys (vw_nodes W g)" "vkids n = vkids (vw_nodes W g)" "vlevel n = vlevel (vw_nodes W g)"
  shows "vleaf (put_node g n W) k = vleaf W k"
    and "abs_map (put_node g n W) k = (if vleaf W k = g then vmap n k else abs_map W k)"
proof -
  have lv: "vlevel (((vw_nodes W)(g := n)) (vw_root W)) = vlevel (vw_nodes W (vw_root W))" using assms(3) by simp
  show l: "vleaf (put_node g n W) k = vleaf W k"
    unfolding vleaf_def put_node_simps lv by (rule vpath_put) (rule assms)+
  show "abs_map (put_node g n W) k = (if vleaf W k = g then vmap n k else abs_map W k)"
    by (simp add: abs_map_def l)
qed

text \<open>A leaf page with new entries, its header kept, is dirty and in the pool.\<close>

definition leaf_change :: "page \<Rightarrow> page \<Rightarrow> bool" where
  "leaf_change p p' \<longleftrightarrow> leaf_ok p' \<and> leaf_in_limits p' \<and> (\<exists>ds c. p' = p\<lparr>dirty := True, data := ds, count := c\<rparr>)"

lemma change_leaf_inv:
  assumes inv: "cache_inv E W s" and c: "c \<in> hot_set s" "ptype (mem s c) = BTreeLeaf" and p: "leaf_change (mem s c) p"
  defines "g \<equiv> remote_address (mem s c)"
  shows "cache_inv E (put_node g (node_of (mem s) p) W) (set_node c p s)"
    and "hot_set (set_node c p s) = hot_set s"
    and "abs_map (put_node g (node_of (mem s) p) W) k = (if vleaf W k = g then leaf_map p k else abs_map W k)"
proof -
  note I = cache_invD [OF inv]
  note r = I(6)
  obtain ds n where p': "p = (mem s c)\<lparr>dirty := True, data := ds, count := n\<rparr>" using p by (auto simp: leaf_change_def)
  have pf: "ptype p = BTreeLeaf" "remote_address p = g" "parent_ptr p = parent_ptr (mem s c)" "min_limit p = min_limit (mem s c)"
    "max_limit p = max_limit (mem s c)" "dirty p" "pos_state p = pos_state (mem s c)"
    using c(2) by (simp_all add: p' g_def)
  have ok: "page_ok (mem s c)" by (rule residencyD(10) [OF r c(1)])
  have pok: "page_ok p" using ok p c(2) by (simp add: page_ok_def leaf_change_def) (simp add: p')
  show hot: "hot_set (set_node c p s) = hot_set s" using pf(7) by (auto simp: hot_set_def)
  have use: "in_use (pos_state (mem s c))" using c(1) by (simp add: hot_set_def)
  have srp: "vw_super W \<noteq> c" using I(5) hot_pool [OF c(1)] by auto
  have res: "residency (put_node g (node_of (mem s) p) W) (mem (set_node c p s)) (be s) (hot_set s)"
    using residency_leaf [OF r c pok pf(1) pf(2) [unfolded g_def] pf(3-6), of "(mem s)(c := p)"] srp by (simp add: pf(2))
  have pi: "pool_inv (set_node c p s)" using I(1) use pf(7) by (auto simp: pool_inv_def in_use_def)
  have fi: "free_inv (set_node c p s)"
    using I(4) free_disjoint_hot [OF I(4)] c(1) use pf(7) by (auto simp: free_inv_def)
  show "cache_inv E (put_node g (node_of (mem s) p) W) (set_node c p s)"
    using I(2,3,5,7) pi fi res pf(2) by (auto simp: cache_inv_def hot g_def)
  have "vkeys (vw_nodes W g) = []" "vkids (vw_nodes W g) = []" "vlevel (vw_nodes W g) = 0"
    using residencyD(12) [OF r c(1), symmetric] c(2) by (simp_all add: g_def node_of_def)
  then show "abs_map (put_node g (node_of (mem s) p) W) k = (if vleaf W k = g then leaf_map p k else abs_map W k)"
    using pf(1) abs_map_put(2) [of "node_of (mem s) p" W g k] by (simp add: node_of_def leaf_map_def)
qed

lemma resident_leaf:
  assumes inv: "cache_inv E W s" and c: "c \<in> hot_set s" "ptype (mem s c) = BTreeLeaf" "remote_address (mem s c) = vleaf W k"
  shows "leaf_ok (mem s c)" "leaf_in_limits (mem s c)" "abs_map W k = leaf_map (mem s c) k"
proof -
  note r = cache_invD(6) [OF inv]
  show "leaf_ok (mem s c)" "leaf_in_limits (mem s c)" using residencyD(10) [OF r c(1)] c(2) by (simp_all add: page_ok_def)
  have "vw_nodes W (vleaf W k) = node_of (mem s) (mem s c)" using residencyD(12) [OF r c(1)] c(3) by simp
  then show "abs_map W k = leaf_map (mem s c) k" using c(2) by (simp add: abs_map_def node_of_def leaf_map_def)
qed

subsection \<open>The operations on the map\<close>

text \<open>The level of the root, and views that differ in the entries of leaves only.\<close>

definition same_shape :: "view \<Rightarrow> view \<Rightarrow> bool" where
  "same_shape W W' \<longleftrightarrow> vw_addrs W' = vw_addrs W \<and> vw_root W' = vw_root W \<and> vw_super W' = vw_super W \<and>
     (\<forall>g. vlevel (vw_nodes W' g) = vlevel (vw_nodes W g) \<and> vlo (vw_nodes W' g) = vlo (vw_nodes W g) \<and>
        vhi (vw_nodes W' g) = vhi (vw_nodes W g) \<and> vkeys (vw_nodes W' g) = vkeys (vw_nodes W g))"

lemma same_shape_refl [simp]: "same_shape W W"
  by (simp add: same_shape_def)

text \<open>The root takes every key.\<close>

definition root_range :: "view \<Rightarrow> bool" where
  "root_range W \<longleftrightarrow> vlo (vw_nodes W (vw_root W)) = KEY_MIN \<and> vhi (vw_nodes W (vw_root W)) = KEY_MAX"

lemma same_shape_root: "same_shape W W' \<Longrightarrow> root_range W' = root_range W \<and> root_level W' = root_level W"
  by (simp add: same_shape_def root_range_def)

lemma tree_lookup_correct:
  assumes "cache_inv E W s" "super_root s = vw_super W"
  shows "tree_lookup E k s = Inl ExitCall \<and> unused s \<le> root_level W \<and> \<not> live E 0 s \<or>
    (\<exists>s'. tree_lookup E k s = Inr (abs_map W k, s') \<and> cache_inv E W s' \<and> super_root s' = vw_super W \<and>
      spends (Suc (root_level W)) s s')"
proof -
  from find_leaf_inv [OF assms, of k] consider "find_leaf E k s = Inl ExitCall" "unused s \<le> root_level W" "\<not> live E 0 s"
    | c s' where "find_leaf E k s = Inr (c, s')" "cache_inv E W s'" "super_root s' = vw_super W" "c \<in> hot_set s'"
      "ptype (mem s' c) = BTreeLeaf" "remote_address (mem s' c) = vleaf W k" "spends (Suc (root_level W)) s s'" by blast
  then show ?thesis
  proof cases
    case 2
    show ?thesis using resident_leaf [OF 2(2,4,5,6)] 2 by (simp add: tree_lookup_def leaf_find_map)
  qed (simp add: tree_lookup_def)
qed

fun ventries :: "lnode \<Rightarrow> (u64 \<times> u64) list" where
  "ventries (LLeaf lo hi es) = es" | "ventries (LInner l lo hi ks cs) = []"

lemma filter_from_key:
  assumes "sorted_keys (map fst es)" "i < length es" "fst (es ! i) = k"
  shows "filter (\<lambda>e. k \<le> fst e) es = drop i es"
proof -
  have m: "\<And>a b. a < b \<Longrightarrow> b < length es \<Longrightarrow> fst (es ! a) < fst (es ! b)"
    using assms(1) by (simp add: sorted_wrt_iff_nth_less)
  have "filter (\<lambda>e. k \<le> fst e) (take i es) = []"
    using m [of _ i] assms(2,3) by (force simp: filter_empty_conv in_set_conv_nth not_le)
  moreover have "filter (\<lambda>e. k \<le> fst e) (drop i es) = drop i es"
  proof (rule filter_True, rule ballI)
    fix e
    assume "e \<in> set (drop i es)"
    then obtain j where "j < length es - i" "e = es ! (i + j)" by (auto simp: in_set_conv_nth)
    then show "k \<le> fst e" using m [of i "i + j"] assms(2,3) by (cases "j = 0") (auto intro: less_imp_le)
  qed
  ultimately show ?thesis by (metis append_take_drop_id filter_append append_Nil)
qed

lemma tree_range_scan_correct:
  assumes "cache_inv E W s" "super_root s = vw_super W"
  shows "tree_range_scan E k num s = Inl ExitCall \<and> unused s \<le> root_level W \<and> \<not> live E 0 s \<or>
    (\<exists>s'. tree_range_scan E k num s = Inr (if abs_map W k = None then []
          else take num (filter (\<lambda>e. k \<le> fst e) (ventries (vw_nodes W (vleaf W k)))), s') \<and>
      cache_inv E W s' \<and> super_root s' = vw_super W \<and>
      spends (Suc (root_level W)) s s')"
proof -
  from find_leaf_inv [OF assms, of k] consider "find_leaf E k s = Inl ExitCall" "unused s \<le> root_level W" "\<not> live E 0 s"
    | c s' where "find_leaf E k s = Inr (c, s')" "cache_inv E W s'" "super_root s' = vw_super W" "c \<in> hot_set s'"
      "ptype (mem s' c) = BTreeLeaf" "remote_address (mem s' c) = vleaf W k" "spends (Suc (root_level W)) s s'" by blast
  then show ?thesis
  proof cases
    case 2
    note L = resident_leaf [OF 2(2,4,5,6)]
    let ?p = "mem s' c"
    have eq: "tree_range_scan E k num s = Inr (leaf_rangeScan ?p k num, s')" using 2(1) by (simp add: tree_range_scan_def)
    have n: "ventries (vw_nodes W (vleaf W k)) = leaf_entries ?p"
      using residencyD(12) [OF cache_invD(6) [OF 2(2)] 2(4), symmetric] 2(5,6) by (simp add: node_of_def)
    show ?thesis
    proof (cases "abs_map W k")
      case None
      then have "leaf_rangeScan ?p k num = []" using leaf_rangeScan_miss [OF L(1)] L(3) by simp
      then show ?thesis using eq 2 None by simp
    next
      case (Some v)
      then have m: "leaf_map ?p k = Some v" using L(3) by simp
      then have "k \<in> set (leaf_keys ?p)" by (force simp: leaf_map_def leaf_keys_def dest: map_of_SomeD)
      then obtain i where i: "i < length (leaf_keys ?p)" "leaf_keys ?p ! i = k" by (auto simp: in_set_conv_nth)
      have cnt: "length (leaf_keys ?p) = page.count ?p" "length (leaf_entries ?p) = page.count ?p"
        using L(1) by (simp_all add: leaf_ok_def leaf_keys_def leaf_entries_def)
      have sc: "leaf_rangeScan ?p k num = take num (drop i (leaf_entries ?p))"
        using leaf_rangeScan_hit [OF L(1) _ i(2)] i(1) cnt by simp
      have "filter (\<lambda>e. k \<le> fst e) (leaf_entries ?p) = drop i (leaf_entries ?p)"
        by (rule filter_from_key) (use L(1) i cnt in \<open>auto simp: leaf_ok_def leaf_keys_def\<close>)
      then show ?thesis using eq 2(2,3,7) Some sc n by simp
    qed
  qed (simp add: tree_range_scan_def)
qed

lemma leaf_change_dirty: "leaf_ok (p\<lparr>dirty := d\<rparr>) = leaf_ok p" "leaf_in_limits (p\<lparr>dirty := d\<rparr>) = leaf_in_limits p"
  "leaf_map (p\<lparr>dirty := d\<rparr>) = leaf_map p"
  by (simp_all add: leaf_ok_def leaf_in_limits_def leaf_map_def leaf_keys_def leaf_entries_def rangeValid_def)

lemma leaf_update_change:
  assumes "leaf_ok p" "leaf_in_limits p"
  shows "leaf_change p ((snd (leaf_update p k v))\<lparr>dirty := True\<rparr>)"
proof -
  let ?q = "snd (leaf_update p k v)"
  have ks: "set (leaf_keys ?q) = set (leaf_keys p)" and ok: "leaf_ok ?q"
    using leaf_update_correct [OF assms(1), of k v] by (auto split: if_splits)
  have "rangeValid ?q = rangeValid p" by (rule rangeValid_limits) (subst leaf_update_frame, simp)+
  then have "leaf_in_limits ?q" using assms(2) ks by (simp add: leaf_in_limits_def)
  moreover have "?q\<lparr>dirty := True\<rparr> = p\<lparr>dirty := True, data := data ?q, count := page.count p\<rparr>"
    by (subst leaf_update_frame) simp
  ultimately show ?thesis using ok unfolding leaf_change_def leaf_change_dirty by blast
qed

lemma leaf_remove_change:
  assumes "leaf_ok p" "leaf_in_limits p"
  shows "leaf_change p ((snd (leaf_remove p k))\<lparr>dirty := True\<rparr>)"
proof -
  let ?q = "snd (leaf_remove p k)"
  have "?q\<lparr>dirty := True\<rparr> = p\<lparr>dirty := True, data := data ?q, count := page.count ?q\<rparr>"
    by (subst leaf_remove_frame) simp
  then show ?thesis
    using leaf_remove_correct [OF assms(1), of k] leaf_remove_limits [OF assms, of k]
    unfolding leaf_change_def leaf_change_dirty by blast
qed

lemma leaf_insert_change:
  assumes "leaf_ok p" "leaf_in_limits p" "rangeValid p k"
  shows "leaf_change p ((snd (leaf_insert p k v))\<lparr>dirty := True\<rparr>)"
proof -
  let ?q = "snd (leaf_insert p k v)"
  have "?q\<lparr>dirty := True\<rparr> = p\<lparr>dirty := True, data := data ?q, count := page.count ?q\<rparr>"
    by (subst leaf_insert_frame) simp
  then show ?thesis
    using leaf_insert_correct [OF assms(1), of k v] leaf_insert_limits [OF assms, of v]
    unfolding leaf_change_def leaf_change_dirty by blast
qed

lemma leaf_change_count:
  assumes "leaf_ok p"
  shows "page.count (snd (leaf_remove p k)) \<le> page.count p" "page.count (snd (leaf_insert p k v)) \<le> page.count p + 1"
proof -
  have "page.count p \<le> 59" using assms by (simp add: leaf_ok_def)
  then have "u8 (int (page.count p) - 1) \<le> page.count p \<or> page.count p = 0" "u8 (int (page.count p) + 1) = page.count p + 1"
    using u8_pred [of "page.count p"] u8_Suc [of "page.count p"] by auto
  then show "page.count (snd (leaf_remove p k)) \<le> page.count p" "page.count (snd (leaf_insert p k v)) \<le> page.count p + 1"
    by (auto simp: leaf_remove_def leaf_insert_def Let_def)
qed

text \<open>A change of the leaf of a key, as the operations make it.\<close>

lemma write_leaf_inv:
  assumes inv: "cache_inv E W s" and sr: "super_root s = vw_super W"
    and c: "c \<in> hot_set s" "ptype (mem s c) = BTreeLeaf" "remote_address (mem s c) = vleaf W k"
    and p: "leaf_change (mem s c) p" and m: "leaf_map p = (leaf_map (mem s c))(k := r)" and d: "page.count p \<le> page.count (mem s c) + d"
  shows "\<exists>W'. cache_inv E W' (set_node c p s) \<and> super_root (set_node c p s) = vw_super W' \<and> same_shape W W' \<and>
    abs_map W' = (abs_map W)(k := r) \<and> tally d W s W' (set_node c p s) \<and> spends 0 s (set_node c p s)"
proof -
  define W' where "W' = put_node (vleaf W k) (node_of (mem s) p) W"
  note ch = change_leaf_inv [OF inv c(1,2) p, unfolded c(3), folded W'_def]
  have "abs_map W' j = ((abs_map W)(k := r)) j" for j
  proof (cases "vleaf W j = vleaf W k")
    case True
    then have "abs_map W j = leaf_map (mem s c) j" using resident_leaf(3) [OF inv c(1,2), of j] c(3) by simp
    then show ?thesis using ch(3) [of j] True m by auto
  next
    case False
    then show ?thesis using ch(3) [of j] by auto
  qed
  moreover have n: "vw_nodes W (vleaf W k) = node_of (mem s) (mem s c)"
    using residencyD(12) [OF cache_invD(6) [OF inv] c(1)] c(3) by simp
  then have sh: "same_shape W W'" using p c(2) by (auto simp: same_shape_def W'_def leaf_change_def node_of_def)
  moreover have sp: "spends 0 s (set_node c p s)"
    unfolding spends_def
  proof (intro conjI impI)
    show "uses 0 s (set_node c p s)" by (rule uses_same [OF _ _ ch(2)]) simp_all
    show "calm 0 s \<Longrightarrow> calm 0 (set_node c p s)" using p c(1) unfolding calm_def ch(2) by (auto simp: leaf_change_def)
  qed simp
  moreover have "tally d W s W' (set_node c p s)"
  proof -
    have "vleaf W k \<in> vw_addrs W" using residencyD(11) [OF cache_invD(6) [OF inv] c(1)] c(3) by simp
    moreover have "excess (node_of (mem s) p) \<le> excess (vw_nodes W (vleaf W k)) + d"
      using p c(2) d resident_leaf(1) [OF inv c] unfolding n
      by (auto simp: leaf_change_def node_of_def leaf_entries_def leaf_ok_def)
    moreover have "ptype p = BTreeLeaf" using p c(2) by (auto simp: leaf_change_def)
    ultimately have "grows d W W'" using n c(2) unfolding W'_def by (intro put_leaf_grows) (simp_all add: node_of_def)
    then show ?thesis by (rule tally_spends [OF sp]) (use sh in \<open>simp_all add: same_shape_def\<close>)
  qed
  ultimately show ?thesis using sh ch(1) sr by (intro exI [of _ W']) (simp add: W'_def fun_eq_iff)
qed

lemma write_leaf_after:
  assumes "spends n s s'" "spends 0 s' s''" "tally d W s' W' s''"
  shows "spends n s s''" "tally d W s W' s''"
  using spends_trans [OF assms(1,2)] tally_0_trans [OF tally_same [OF assms(1)] assms(3)] by simp_all

lemma tree_update_correct:
  assumes inv: "cache_inv E W s" and sr: "super_root s = vw_super W"
  shows "tree_update E k v s = Inl ExitCall \<and> unused s \<le> root_level W \<and> \<not> live E 0 s \<or>
    (\<exists>W' s'. tree_update E k v s = Inr (abs_map W k \<noteq> None, s') \<and> cache_inv E W' s' \<and> super_root s' = vw_super W' \<and>
      same_shape W W' \<and> spends (Suc (root_level W)) s s' \<and> tally 0 W s W' s' \<and> abs_map W' = (if abs_map W k = None then abs_map W else (abs_map W)(k \<mapsto> v)))"
proof -
  from find_leaf_inv [OF assms, of k] consider "find_leaf E k s = Inl ExitCall" "unused s \<le> root_level W" "\<not> live E 0 s"
    | c s' where "find_leaf E k s = Inr (c, s')" "cache_inv E W s'" "super_root s' = vw_super W" "c \<in> hot_set s'"
      "ptype (mem s' c) = BTreeLeaf" "remote_address (mem s' c) = vleaf W k" "spends (Suc (root_level W)) s s'" by blast
  then show ?thesis
  proof cases
    case 2
    note L = resident_leaf [OF 2(2,4,5,6)]
    note u = leaf_update_correct [OF L(1), of k v]
    have eq: "tree_update E k v s = Inr (fst (leaf_update (mem s' c) k v), set_node c
        (if fst (leaf_update (mem s' c) k v) then (snd (leaf_update (mem s' c) k v))\<lparr>dirty := True\<rparr> else snd (leaf_update (mem s' c) k v)) s')"
      using 2(1) by (simp add: tree_update_def split: prod.splits)
    show ?thesis
    proof (cases "abs_map W k")
      case None
      then have "leaf_update (mem s' c) k v = (False, mem s' c)" using u L(3) by (auto simp: domIff split: if_splits)
      then have "tree_update E k v s = Inr (False, s')" using eq by (simp add: set_node_def)
      then show ?thesis using None 2(2,3,7) tally_same [OF 2(7)] by (auto intro!: exI [of _ W])
    next
      case (Some w)
      then have f: "fst (leaf_update (mem s' c) k v)" "leaf_map (snd (leaf_update (mem s' c) k v)) = (leaf_map (mem s' c))(k \<mapsto> v)"
        using u L(3) by (auto simp: domIff split: if_splits)
      have "page.count (snd (leaf_update (mem s' c) k v)) = page.count (mem s' c)" by (subst leaf_update_frame) simp
      with write_leaf_inv [OF 2(2-6) leaf_update_change [OF L(1,2)], of k v "Some v" 0]
      show ?thesis using eq f Some write_leaf_after [OF 2(7)] by (auto simp: leaf_change_dirty)
    qed
  qed (simp add: tree_update_def)
qed

lemma tree_remove_correct:
  assumes inv: "cache_inv E W s" and sr: "super_root s = vw_super W"
  shows "tree_remove E k s = Inl ExitCall \<and> unused s \<le> root_level W \<and> \<not> live E 0 s \<or>
    (\<exists>W' s'. tree_remove E k s = Inr (abs_map W k \<noteq> None, s') \<and> cache_inv E W' s' \<and> super_root s' = vw_super W' \<and>
      same_shape W W' \<and> spends (Suc (root_level W)) s s' \<and> tally 0 W s W' s' \<and> abs_map W' = (abs_map W)(k := None))"
proof -
  from find_leaf_inv [OF assms, of k] consider "find_leaf E k s = Inl ExitCall" "unused s \<le> root_level W" "\<not> live E 0 s"
    | c s' where "find_leaf E k s = Inr (c, s')" "cache_inv E W s'" "super_root s' = vw_super W" "c \<in> hot_set s'"
      "ptype (mem s' c) = BTreeLeaf" "remote_address (mem s' c) = vleaf W k" "spends (Suc (root_level W)) s s'" by blast
  then show ?thesis
  proof cases
    case 2
    note L = resident_leaf [OF 2(2,4,5,6)]
    note u = leaf_remove_correct [OF L(1), of k]
    have eq: "tree_remove E k s = Inr (fst (leaf_remove (mem s' c) k), set_node c
        (if fst (leaf_remove (mem s' c) k) then (snd (leaf_remove (mem s' c) k))\<lparr>dirty := True\<rparr> else snd (leaf_remove (mem s' c) k)) s')"
      using 2(1) by (simp add: tree_remove_def split: prod.splits)
    show ?thesis
    proof (cases "abs_map W k")
      case None
      then have f: "\<not> fst (leaf_remove (mem s' c) k)" "snd (leaf_remove (mem s' c) k) = mem s' c"
        using u L(3) by (auto simp: domIff)
      then have "tree_remove E k s = Inr (False, s')" using eq by (simp add: set_node_def)
      moreover have "(abs_map W)(k := None) = abs_map W" using None by (simp add: fun_upd_idem)
      ultimately show ?thesis using None 2(2,3,7) tally_same [OF 2(7)] by (auto intro!: exI [of _ W])
    next
      case (Some w)
      then have f: "fst (leaf_remove (mem s' c) k)" "leaf_map (snd (leaf_remove (mem s' c) k)) = (leaf_map (mem s' c))(k := None)"
        using u L(3) by (auto simp: domIff)
      from write_leaf_inv [OF 2(2-6) leaf_remove_change [OF L(1,2)], of k None 0]
      show ?thesis using eq f Some write_leaf_after [OF 2(7)] leaf_change_count(1) [OF L(1), of k] by (auto simp: leaf_change_dirty)
    qed
  qed (simp add: tree_remove_def)
qed

end
