(* ===== verification/TreeView.thy ===== *)
theory TreeView
  imports TreeOps
begin

text \<open>
  Routing in a view: every node of a view is well formed, the interval of a node contains those
  of its kids, and two keys are routed to the same leaf when the interval of that leaf contains
  both. So the map that a view stands for can be read off its leaves.
\<close>

subsection \<open>Well-formed views\<close>

text \<open>\<open>rangeValid\<close> on logical nodes.\<close>

definition in_range :: "u64 \<Rightarrow> u64 \<Rightarrow> u64 \<Rightarrow> bool" where
  "in_range lo hi k \<longleftrightarrow> (KEY_MIN = k \<and> k = lo) \<or> (lo < k \<and> k \<le> hi)"

definition vrange :: "lnode \<Rightarrow> u64 \<Rightarrow> bool" where
  "vrange n k \<longleftrightarrow> in_range (vlo n) (vhi n) k"

fun node_ok :: "lnode \<Rightarrow> bool" where
  "node_ok (LLeaf lo hi es) \<longleftrightarrow> sorted_keys (map fst es) \<and> (\<forall>k \<in> set (map fst es). in_range lo hi k) \<and> length es \<le> max_leaf_entries"
| "node_ok (LInner l lo hi ks cs) \<longleftrightarrow> 0 < l \<and> l < 255 \<and> sorted_keys ks \<and> length cs = length ks + 1 \<and> length ks < max_inner_entries"

definition view_ok :: "view \<Rightarrow> bool" where
  "view_ok W \<longleftrightarrow> vtree (vw_nodes W) (vw_addrs W) (vw_root W) \<and> (\<forall>g \<in> vw_addrs W. node_ok (vw_nodes W g))"

lemma KEY_MIN_0: "KEY_MIN = 0" by (simp add: KEY_MIN_def)

lemma rangeValid_in_range: "rangeValid p k = in_range (min_limit p) (max_limit p) k"
  by (auto simp: rangeValid_def in_range_def KEY_MIN_def)

lemma node_ok_node_of: "page_ok p \<Longrightarrow> node_ok (node_of m p)"
  by (auto simp: page_ok_def node_of_def leaf_ok_def leaf_in_limits_def leaf_keys_def inner_ok_def rangeValid_in_range
      inner_keys_def inner_children_def leaf_entries_def split: if_splits)

lemma residency_view_ok:
  assumes r: "residency W m b R"
  shows "view_ok W"
  unfolding view_ok_def
proof (intro conjI ballI)
  show "vtree (vw_nodes W) (vw_addrs W) (vw_root W)" by (rule residencyD(1) [OF r])
  fix g
  assume g: "g \<in> vw_addrs W"
  show "node_ok (vw_nodes W g)"
  proof (cases "\<exists>a \<in> R. remote_address (m a) = g")
    case True
    then obtain a where a: "a \<in> R" "remote_address (m a) = g" by blast
    show ?thesis using node_ok_node_of [OF residencyD(10) [OF r a(1)], of m] residencyD(12) [OF r a(1)] a(2) by simp
  next
    case False
    then have "at_rest (vw_nodes W) b g" using residencyD(16) [OF r g] by blast
    then show ?thesis using node_ok_node_of [of "ps_page b (offset g)" "\<lambda>_. zero_page"] by (simp add: at_rest_def Let_def)
  qed
qed

lemma view_okD:
  assumes "view_ok W" "g \<in> vw_addrs W"
  shows "node_ok (vw_nodes W g)" "keys_ok (vw_nodes W g)" "kids_ok (vw_nodes W) (vw_addrs W) (vw_nodes W g)"
    "distinct (vkids (vw_nodes W g))" "vw_root W \<notin> set (vkids (vw_nodes W g))"
  using assms by (simp_all add: view_ok_def vtree_def)

subsection \<open>Routing\<close>

lemma node_ok_inner:
  assumes "node_ok n" "vlevel n \<noteq> 0"
  shows "sorted_keys (vkeys n)" "length (vkids n) = length (vkeys n) + 1"
  using assms by (cases n; simp)+

lemma vroute_bounds:
  assumes "sorted_keys (vkeys n)"
  shows "vroute n k \<le> length (vkeys n)" "i < vroute n k \<Longrightarrow> vkeys n ! i < k"
    "vroute n k \<le> i \<Longrightarrow> i < length (vkeys n) \<Longrightarrow> k \<le> vkeys n ! i"
  using lower_bound_loop_correct [of "length (vkeys n)" "\<lambda>i. vkeys n ! i" 0 "length (vkeys n)" k] assms
  by (auto simp: vroute_def sorted_wrt_iff_nth_less)

lemma vroute_eqI:
  assumes "sorted_keys (vkeys n)" "i \<le> length (vkeys n)" "0 < i \<Longrightarrow> vkeys n ! (i - 1) < k" "i < length (vkeys n) \<Longrightarrow> k \<le> vkeys n ! i"
  shows "vroute n k = i"
proof (rule ccontr)
  note b = vroute_bounds [OF assms(1)]
  assume "vroute n k \<noteq> i"
  then consider "vroute n k < i" | "i < vroute n k" by linarith
  then show False
  proof cases
    case 1
    then have "k \<le> vkeys n ! (i - 1)" using b(3) [of k "i - 1"] assms(2) by simp
    then show False using assms(3) 1 by simp
  next
    case 2
    then have "vkeys n ! i < k" "i < length (vkeys n)" using b(1) [of k] b(2) [of i k] by simp_all
    then show False using assms(4) by simp
  qed
qed

lemma vroute_range:
  assumes "sorted_keys (vkeys n)" "vrange n k"
  shows "in_range (kid_lo n (vroute n k)) (kid_hi n (vroute n k)) k"
proof -
  note b = vroute_bounds [OF assms(1)]
  let ?i = "vroute n k"
  have hi: "k \<le> kid_hi n ?i \<or> (k = KEY_MIN \<and> vlo n = KEY_MIN)"
    using b(1) [of k] b(3) [of k ?i] assms(2) by (auto simp: kid_hi_def vrange_def in_range_def)
  show ?thesis
  proof (cases "?i = 0")
    case True
    then show ?thesis using hi assms(2) by (auto simp: in_range_def vrange_def kid_lo_def)
  next
    case False
    then have "vkeys n ! (?i - 1) < k" using b(2) [of "?i - 1" k] by simp
    then show ?thesis using hi False by (auto simp: in_range_def kid_lo_def KEY_MIN_def)
  qed
qed

lemma vroute_unique:
  assumes "sorted_keys (vkeys n)" "i \<le> length (vkeys n)" "kid_lo n i < k" "k \<le> kid_hi n i"
  shows "vroute n k = i"
  by (rule vroute_eqI [OF assms(1,2)]) (use assms(3,4) in \<open>auto simp: kid_lo_def kid_hi_def split: if_splits\<close>)

text \<open>The interval of a node contains those of its kids.\<close>

lemma kid_in_node:
  assumes "keys_ok n" "i \<le> length (vkeys n)" "vlo n \<le> vhi n"
  shows "vlo n \<le> kid_lo n i" "kid_hi n i \<le> vhi n"
  using assms by (auto simp: keys_ok_def kid_lo_def kid_hi_def)

lemma kid_facts:
  assumes ok: "view_ok W" and g: "g \<in> vw_addrs W" "vlevel (vw_nodes W g) = Suc n" and i: "i \<le> length (vkeys (vw_nodes W g))"
  defines "h \<equiv> vkids (vw_nodes W g) ! i"
  shows "h \<in> vw_addrs W" "vlevel (vw_nodes W h) = n" "vlo (vw_nodes W h) = kid_lo (vw_nodes W g) i"
    "vhi (vw_nodes W h) = kid_hi (vw_nodes W g) i" "h \<in> set (vkids (vw_nodes W g))"
proof -
  note v = view_okD [OF ok g(1)]
  have "i < length (vkids (vw_nodes W g))" using node_ok_inner [OF v(1)] g(2) i by simp
  then show "h \<in> vw_addrs W" "vlevel (vw_nodes W h) = n" "vlo (vw_nodes W h) = kid_lo (vw_nodes W g) i"
    "vhi (vw_nodes W h) = kid_hi (vw_nodes W g) i" "h \<in> set (vkids (vw_nodes W g))"
    using v(3) g(2) by (auto simp: kids_ok_def h_def)
qed

lemma vpath_range:
  assumes ok: "view_ok W" and g: "g \<in> vw_addrs W" "vlevel (vw_nodes W g) = n" and k: "vrange (vw_nodes W g) k"
  shows "vpath (vw_nodes W) n k g \<in> vw_addrs W \<and> vlevel (vw_nodes W (vpath (vw_nodes W) n k g)) = 0 \<and>
    vrange (vw_nodes W (vpath (vw_nodes W) n k g)) k"
  using g k
proof (induction n arbitrary: g)
  case (Suc n)
  let ?i = "vroute (vw_nodes W g) k"
  have s: "sorted_keys (vkeys (vw_nodes W g))" using node_ok_inner [OF view_okD(1) [OF ok Suc.prems(1)]] Suc.prems(2) by simp
  note f = kid_facts [OF ok Suc.prems(1,2) vroute_bounds(1) [OF s, of k]]
  have "vrange (vw_nodes W (vkids (vw_nodes W g) ! ?i)) k"
    using vroute_range [OF s Suc.prems(3)] f(3,4) by (simp add: vrange_def)
  from Suc.IH [OF f(1,2) this] show ?case by simp
qed simp

lemma vpath_nested:
  assumes ok: "view_ok W" and g: "g \<in> vw_addrs W" "vlevel (vw_nodes W g) = n" and k: "vrange (vw_nodes W g) k"
    and le: "vlo (vw_nodes W g) \<le> vhi (vw_nodes W g)"
  shows "vlo (vw_nodes W g) \<le> vlo (vw_nodes W (vpath (vw_nodes W) n k g)) \<and>
    vhi (vw_nodes W (vpath (vw_nodes W) n k g)) \<le> vhi (vw_nodes W g)"
  using g k le
proof (induction n arbitrary: g)
  case (Suc n)
  let ?n = "vw_nodes W g"
  let ?i = "vroute ?n k"
  have s: "sorted_keys (vkeys ?n)" using node_ok_inner [OF view_okD(1) [OF ok Suc.prems(1)]] Suc.prems(2) by simp
  note i = vroute_bounds(1) [OF s, of k]
  note f = kid_facts [OF ok Suc.prems(1,2) i]
  have rg: "in_range (kid_lo ?n ?i) (kid_hi ?n ?i) k" by (rule vroute_range [OF s Suc.prems(3)])
  then have vr: "vrange (vw_nodes W (vkids ?n ! ?i)) k" using f(3,4) by (simp add: vrange_def)
  have le': "vlo (vw_nodes W (vkids ?n ! ?i)) \<le> vhi (vw_nodes W (vkids ?n ! ?i))"
    using rg f(3,4) by (auto simp: in_range_def KEY_MIN_def)
  from Suc.IH [OF f(1,2) vr le'] kid_in_node [OF view_okD(2) [OF ok Suc.prems(1)] i Suc.prems(4)] show ?case
    using f(3,4) by auto
qed simp

text \<open>Keys other than the smallest that lie in the interval of a leaf are routed to it.\<close>

lemma vpath_same:
  assumes ok: "view_ok W" and g: "g \<in> vw_addrs W" "vlevel (vw_nodes W g) = n" and k: "vrange (vw_nodes W g) k"
    and le: "vlo (vw_nodes W g) \<le> vhi (vw_nodes W g)"
    and j: "vlo (vw_nodes W (vpath (vw_nodes W) n k g)) < j" "j \<le> vhi (vw_nodes W (vpath (vw_nodes W) n k g))"
  shows "vpath (vw_nodes W) n j g = vpath (vw_nodes W) n k g"
  using g k le j
proof (induction n arbitrary: g)
  case (Suc n)
  let ?n = "vw_nodes W g"
  let ?i = "vroute ?n k"
  have s: "sorted_keys (vkeys ?n)" using node_ok_inner [OF view_okD(1) [OF ok Suc.prems(1)]] Suc.prems(2) by simp
  note i = vroute_bounds(1) [OF s, of k]
  note f = kid_facts [OF ok Suc.prems(1,2) i]
  have rg: "in_range (kid_lo ?n ?i) (kid_hi ?n ?i) k" by (rule vroute_range [OF s Suc.prems(3)])
  then have vr: "vrange (vw_nodes W (vkids ?n ! ?i)) k" using f(3,4) by (simp add: vrange_def)
  have le': "vlo (vw_nodes W (vkids ?n ! ?i)) \<le> vhi (vw_nodes W (vkids ?n ! ?i))"
    using rg f(3,4) by (auto simp: in_range_def KEY_MIN_def)
  note ne = vpath_nested [OF ok f(1,2) vr le']
  have "kid_lo ?n ?i < j" "j \<le> kid_hi ?n ?i"
    using ne Suc.prems(5,6) f(3,4) by auto
  then have "vroute ?n j = ?i" by (rule vroute_unique [OF s i])
  with Suc.IH [OF f(1,2) vr le'] Suc.prems(5,6) show ?case by simp
qed simp

subsection \<open>Reading the map off the leaves\<close>

lemma vleaf_range:
  assumes "view_ok W" "root_range W"
  shows "vleaf W k \<in> vw_addrs W" "vlevel (vw_nodes W (vleaf W k)) = 0" "vrange (vw_nodes W (vleaf W k)) k"
proof -
  have r: "vw_root W \<in> vw_addrs W" using assms(1) by (simp add: view_ok_def vtree_def)
  have "k = 0 \<or> 0 < k" by (auto simp: word_gt_0)
  then have "vrange (vw_nodes W (vw_root W)) k"
    using assms(2) by (auto simp: root_range_def vrange_def in_range_def KEY_MIN_def KEY_MAX_def)
  from vpath_range [OF assms(1) r refl this]
  show "vleaf W k \<in> vw_addrs W" "vlevel (vw_nodes W (vleaf W k)) = 0" "vrange (vw_nodes W (vleaf W k)) k"
    by (simp_all add: vleaf_def)
qed

lemma vleaf_same:
  assumes ok: "view_ok W" "root_range W" and j: "k \<le> j" "j \<le> vhi (vw_nodes W (vleaf W k))"
  shows "vleaf W j = vleaf W k"
proof (cases "j = k")
  case False
  have r: "vw_root W \<in> vw_addrs W" using ok(1) by (simp add: view_ok_def vtree_def)
  have k0: "k = 0 \<or> 0 < k" by (auto simp: word_gt_0)
  then have vr: "vrange (vw_nodes W (vw_root W)) k"
    using ok(2) by (auto simp: root_range_def vrange_def in_range_def KEY_MIN_def KEY_MAX_def)
  have le: "vlo (vw_nodes W (vw_root W)) \<le> vhi (vw_nodes W (vw_root W))" using ok(2) by (simp add: root_range_def KEY_MIN_def)
  have "vlo (vw_nodes W (vleaf W k)) < j"
    using vleaf_range(3) [OF ok, of k] j(1) False by (auto simp: vrange_def in_range_def)
  from vpath_same [OF ok(1) r refl vr le this [unfolded vleaf_def] j(2) [unfolded vleaf_def]]
  show ?thesis by (simp add: vleaf_def)
qed simp

lemma vleaf_entries:
  assumes "view_ok W" "root_range W"
  obtains lo hi where "vw_nodes W (vleaf W k) = LLeaf lo hi (ventries (vw_nodes W (vleaf W k)))"
    "sorted_keys (map fst (ventries (vw_nodes W (vleaf W k))))"
    "\<And>e. e \<in> set (ventries (vw_nodes W (vleaf W k))) \<Longrightarrow> in_range lo hi (fst e)"
    "length (ventries (vw_nodes W (vleaf W k))) \<le> max_leaf_entries"
  using vleaf_range(2) [OF assms, of k] view_okD(1) [OF assms(1) vleaf_range(1) [OF assms, of k]] that
  by (cases "vw_nodes W (vleaf W k)") auto

text \<open>What a scan from a present key returns: the entries of the map from the key on, without gaps.\<close>

lemma scan_entries:
  fixes num :: nat
  assumes ok: "view_ok W" "root_range W" and k: "abs_map W k = Some v"
  defines "kvs \<equiv> take num (filter (\<lambda>e. k \<le> fst e) (ventries (vw_nodes W (vleaf W k))))"
  shows "length kvs \<le> min num max_leaf_entries" "sorted_keys (map fst kvs)"
    "e \<in> set kvs \<Longrightarrow> k \<le> fst e \<and> abs_map W (fst e) = Some (snd e)"
    "0 < num \<Longrightarrow> kvs \<noteq> [] \<and> hd kvs = (k, v)"
    "kvs \<noteq> [] \<Longrightarrow> k \<le> j \<Longrightarrow> j \<le> fst (last kvs) \<Longrightarrow> abs_map W j \<noteq> None \<Longrightarrow> j \<in> fst ` set kvs"
proof -
  define es where "es = ventries (vw_nodes W (vleaf W k))"
  define fs where "fs = filter (\<lambda>e. k \<le> fst e) es"
  obtain lo hi where L: "vw_nodes W (vleaf W k) = LLeaf lo hi es" "sorted_keys (map fst es)"
    "\<And>e. e \<in> set es \<Longrightarrow> in_range lo hi (fst e)" "length es \<le> max_leaf_entries"
    using vleaf_entries [OF ok, of k] unfolding es_def by blast
  have kv: "kvs = take num fs" by (simp add: kvs_def fs_def es_def)
  have d: "distinct (map fst es)" by (rule sorted_keys_distinct [OF L(2)])
  have same: "abs_map W j = map_of es j" if "k \<le> j" "j \<le> hi" for j
    using vleaf_same [OF ok that(1)] that(2) L(1) by (simp add: abs_map_def)
  have mk: "map_of es k = Some v" using k L(1) by (simp add: abs_map_def)
  have khi: "k \<le> hi" using L(3) [OF map_of_SomeD [OF mk]] by (auto simp: in_range_def KEY_MIN_def)
  have ehi: "fst e \<le> hi" if "e \<in> set es" "k \<le> fst e" for e
    using L(3) [OF that(1)] that(2) khi by (auto simp: in_range_def KEY_MIN_def)
  show "length kvs \<le> min num max_leaf_entries"
    using order_trans [OF length_filter_le L(4)] by (simp add: kv fs_def min_le_iff_disj)
  have sfs: "sorted_keys (map fst fs)" using L(2) unfolding fs_def sorted_wrt_map by (rule sorted_wrt_filter)
  show skv: "sorted_keys (map fst kvs)" using sorted_wrt_take [OF sfs, of num] by (simp add: kv take_map)
  show "k \<le> fst e \<and> abs_map W (fst e) = Some (snd e)" if "e \<in> set kvs"
  proof -
    have e: "e \<in> set es" "k \<le> fst e" using that by (auto simp: kv fs_def dest: in_set_takeD)
    then show ?thesis using same [OF e(2) ehi [OF e]] d by simp
  qed
  obtain i where i: "i < length es" "es ! i = (k, v)" using map_of_SomeD [OF mk] by (auto simp: in_set_conv_nth)
  have "fs = drop i es" unfolding fs_def by (rule filter_from_key [OF L(2) i(1)]) (simp add: i(2))
  then have fs: "fs = (k, v) # drop (Suc i) es" using i by (metis Cons_nth_drop_Suc)
  show "kvs \<noteq> [] \<and> hd kvs = (k, v)" if "0 < num" using that by (cases num) (simp_all add: kv fs)
  show "j \<in> fst ` set kvs" if ne: "kvs \<noteq> []" and j: "k \<le> j" "j \<le> fst (last kvs)" "abs_map W j \<noteq> None"
  proof -
    have l: "last kvs \<in> set fs" using last_in_set [OF ne] by (auto simp: kv dest: in_set_takeD)
    then have "fst (last kvs) \<le> hi" using ehi by (auto simp: fs_def)
    then have "map_of es j \<noteq> None" using same [OF j(1)] j by auto
    then obtain w where "(j, w) \<in> set es" by (auto dest: map_of_SomeD)
    then have "(j, w) \<in> set fs" using j(1) by (simp add: fs_def)
    then obtain m where m: "m < length fs" "fs ! m = (j, w)" by (auto simp: in_set_conv_nth)
    have "m < num"
    proof (rule ccontr)
      assume "\<not> m < num"
      then have len: "length kvs = num" "num \<le> m" "0 < num" using m(1) ne by (auto simp: kv)
      then have "last kvs = fs ! (num - 1)" using ne m(1) by (simp add: last_conv_nth kv)
      moreover have "fst (fs ! (num - 1)) < fst (fs ! m)"
        using sfs len m(1) by (simp add: sorted_wrt_iff_nth_less)
      ultimately show False using j(2) m(2) by simp
    qed
    then have "kvs ! m = (j, w)" "m < length kvs" using m by (simp_all add: kv)
    then show ?thesis by (metis fst_conv image_eqI nth_mem)
  qed
qed

end
