(* ===== verification/SplitView.thy ===== *)
theory SplitView
  imports TreeView
begin

text \<open>
  Splitting a node, on views. A node is cut in two around a separator, and the second half is
  entered into the parent behind the first, or both get a new root above them. The view stays
  well formed and stands for the same map.
\<close>

subsection \<open>The two halves of a node\<close>

fun splits :: "lnode \<Rightarrow> u64 \<Rightarrow> lnode \<Rightarrow> lnode \<Rightarrow> bool" where
  "splits (LLeaf lo hi es) sep (LLeaf lo1 hi1 es1) (LLeaf lo2 hi2 es2) \<longleftrightarrow>
     es = es1 @ es2 \<and> lo1 = lo \<and> hi1 = sep \<and> lo2 = sep \<and> hi2 = hi \<and> lo < sep \<and> sep < hi \<and>
     (\<forall>e \<in> set es1. fst e \<le> sep) \<and> (\<forall>e \<in> set es2. sep < fst e)"
| "splits (LInner l lo hi ks cs) sep (LInner l1 lo1 hi1 ks1 cs1) (LInner l2 lo2 hi2 ks2 cs2) \<longleftrightarrow>
     l1 = l \<and> l2 = l \<and> ks = ks1 @ sep # ks2 \<and> cs = cs1 @ cs2 \<and> length cs1 = Suc (length ks1) \<and>
     lo1 = lo \<and> hi1 = sep \<and> lo2 = sep \<and> hi2 = hi \<and> lo < sep \<and> sep < hi"
| "splits _ _ _ _ \<longleftrightarrow> False"

fun ins_kid :: "nat \<Rightarrow> u64 \<Rightarrow> gaddr \<Rightarrow> lnode \<Rightarrow> lnode" where
  "ins_kid i sep new (LInner l lo hi ks cs) =
     LInner l lo hi (take i ks @ sep # drop i ks) (take (Suc i) cs @ new # drop (Suc i) cs)"
| "ins_kid i sep new (LLeaf lo hi es) = LLeaf lo hi es"

lemma splits_cases:
  assumes "splits n sep nl nr"
  obtains (leaf) lo hi es1 es2 where "n = LLeaf lo hi (es1 @ es2)" "nl = LLeaf lo sep es1" "nr = LLeaf sep hi es2"
      "lo < sep" "sep < hi" "\<forall>e \<in> set es1. fst e \<le> sep" "\<forall>e \<in> set es2. sep < fst e"
    | (inner) l lo hi ks1 ks2 cs1 cs2 where "n = LInner l lo hi (ks1 @ sep # ks2) (cs1 @ cs2)" "nl = LInner l lo sep ks1 cs1"
      "nr = LInner l sep hi ks2 cs2" "length cs1 = Suc (length ks1)" "lo < sep" "sep < hi"
  using assms by (cases n; cases nl; cases nr) auto

lemma splits_fields:
  assumes "splits n sep nl nr"
  shows "vlevel nl = vlevel n" "vlevel nr = vlevel n" "vlo nl = vlo n" "vhi nl = sep" "vlo nr = sep" "vhi nr = vhi n"
    "vlo n < sep" "sep < vhi n" "vkids n = vkids nl @ vkids nr"
  using assms by (cases rule: splits_cases; simp)+

lemma splits_node_ok:
  assumes "splits n sep nl nr" "node_ok n"
  shows "node_ok nl \<and> node_ok nr"
  using assms(1)
proof (cases rule: splits_cases)
  case (leaf lo hi es1 es2)
  have "in_range lo sep (fst e)" if "e \<in> set es1" for e
    using assms(2) leaf that by (auto simp: in_range_def)
  moreover have "in_range sep hi (fst e)" if "e \<in> set es2" for e
  proof -
    have "sep < fst e" "in_range lo hi (fst e)" using assms(2) leaf that by simp_all
    then show ?thesis by (auto simp: in_range_def KEY_MIN_def)
  qed
  ultimately show ?thesis using assms(2) leaf(1-3) by (simp add: sorted_wrt_append)
next
  case (inner l lo hi ks1 ks2 cs1 cs2)
  then show ?thesis using assms(2) by (simp add: sorted_wrt_append)
qed

lemma splits_keys_ok:
  assumes "splits n sep nl nr" "node_ok n" "keys_ok n"
  shows "keys_ok nl \<and> keys_ok nr"
  using assms(1)
proof (cases rule: splits_cases)
  case (leaf lo hi es1 es2)
  then show ?thesis by (simp add: keys_ok_def)
next
  case (inner l lo hi ks1 ks2 cs1 cs2)
  then have "\<forall>x \<in> set ks1. x < sep" "\<forall>x \<in> set ks2. sep < x" using assms(2) by (simp_all add: sorted_wrt_append)
  then show ?thesis using assms(3) inner(1-3) by (auto simp: keys_ok_def less_imp_le)
qed

text \<open>Where a key goes in the halves.\<close>

lemma splits_leaf_map:
  assumes "splits n sep nl nr" "vlevel n = 0" "node_ok n"
  shows "vmap n k = (if k \<le> sep then vmap nl k else vmap nr k)"
  using assms
proof (cases rule: splits_cases)
  case (leaf lo hi es1 es2)
  have "map_of es2 k = None" if "k \<le> sep" using leaf(7) that by (auto simp: map_of_eq_None_iff)
  moreover have "map_of es1 k = None" if "\<not> k \<le> sep" using leaf(6) that by (auto simp: map_of_eq_None_iff)
  ultimately show ?thesis using leaf(1-3) by (auto simp: map_add_def split: option.splits)
qed simp

lemma splits_route:
  assumes sp: "splits n sep nl nr" and lv: "vlevel n \<noteq> 0" and ok: "node_ok n"
  shows "vkids n ! vroute n k = (if k \<le> sep then vkids nl ! vroute nl k else vkids nr ! vroute nr k)"
  using sp
proof (cases rule: splits_cases)
  case (leaf lo hi es1 es2)
  then show ?thesis using lv by simp
next
  case (inner l lo hi ks1 ks2 cs1 cs2)
  have s: "sorted_keys (vkeys n)" "sorted_keys (vkeys nl)" "sorted_keys (vkeys nr)"
    using node_ok_inner(1) [OF ok lv] inner(1-3) by (simp_all add: sorted_wrt_append)
  have lt: "x < sep" if "x \<in> set ks1" for x using s(1) inner(1) that by (simp add: sorted_wrt_append)
  have gt: "sep < x" if "x \<in> set ks2" for x using s(1) inner(1) that by (simp add: sorted_wrt_append)
  show ?thesis
  proof (cases "k \<le> sep")
    case True
    note b = vroute_bounds [where k = k, OF s(2)]
    let ?i = "vroute nl k"
    have "vroute n k = ?i"
    proof (rule vroute_eqI [OF s(1)])
      show "?i \<le> length (vkeys n)" using b(1) inner(1,2) by simp
      show "vkeys n ! (?i - 1) < k" if "0 < ?i"
      proof -
        have "?i - 1 < length ks1" using b(1) that inner(2) by simp
        then show ?thesis using b(2) [of "?i - 1"] that inner(1,2) by (simp add: nth_append)
      qed
      show "k \<le> vkeys n ! ?i" if "?i < length (vkeys n)"
        using b(1) b(3) [of ?i] True inner(1,2) by (auto simp: nth_append)
    qed
    moreover have "?i < length cs1" using b(1) inner(2,4) by simp
    ultimately show ?thesis using True inner(1,2) by (simp add: nth_append)
  next
    case False
    note b = vroute_bounds [where k = k, OF s(3)]
    let ?i = "vroute nr k"
    have "vroute n k = Suc (length ks1) + ?i"
    proof (rule vroute_eqI [OF s(1)])
      show "Suc (length ks1) + ?i \<le> length (vkeys n)" using b(1) inner(1,3) by simp
      show "vkeys n ! (Suc (length ks1) + ?i - 1) < k"
        using b(1) b(2) [of "?i - 1"] False inner(1,3) by (cases ?i) (simp_all add: nth_append)
      show "k \<le> vkeys n ! (Suc (length ks1) + ?i)" if "Suc (length ks1) + ?i < length (vkeys n)"
        using b(3) [of ?i] that inner(1,3) by (simp add: nth_append)
    qed
    then show ?thesis using False inner(1-4) by (simp add: nth_append)
  qed
qed

subsection \<open>The parent\<close>

lemma ins_kid_fields:
  "vlevel (ins_kid i sep new n) = vlevel n" "vlo (ins_kid i sep new n) = vlo n" "vhi (ins_kid i sep new n) = vhi n"
  by (cases n; simp)+

lemma ins_kid_route:
  assumes ok: "node_ok n" and lv: "vlevel n \<noteq> 0" and i: "i \<le> length (vkeys n)"
    and sep: "kid_lo n i < sep" "sep < kid_hi n i"
  shows "sorted_keys (vkeys (ins_kid i sep new n))"
    and "vkids (ins_kid i sep new n) ! vroute (ins_kid i sep new n) k =
      (if vroute n k = i \<and> sep < k then new else vkids n ! vroute n k)"
proof -
  obtain l lo hi ks cs where n: "n = LInner l lo hi ks cs" using lv by (cases n) auto
  have s: "sorted_keys ks" and len: "length cs = Suc (length ks)" using ok n by simp_all
  have i: "i \<le> length ks" using i n by simp
  have lo: "x < sep" if "x \<in> set (take i ks)" for x
  proof -
    from that obtain j where j: "j < i" "x = ks ! j" using i by (auto simp: in_set_conv_nth)
    then have "x \<le> ks ! (i - 1)" using s i by (cases "j = i - 1") (auto simp: sorted_wrt_iff_nth_less less_imp_le)
    also have "\<dots> < sep" using sep(1) j n by (simp add: kid_lo_def)
    finally show ?thesis .
  qed
  have hi: "sep < x" if "x \<in> set (drop i ks)" for x
  proof -
    from that obtain d where "d < length ks - i" "x = ks ! (i + d)" by (auto simp: in_set_conv_nth)
    then obtain j where j: "i \<le> j" "j < length ks" "x = ks ! j" by (metis le_add1 less_diff_conv add.commute)
    have "sep < ks ! i" using sep(2) j n by (simp add: kid_hi_def)
    also have "\<dots> \<le> x" using s j by (cases "i = j") (auto simp: sorted_wrt_iff_nth_less less_imp_le)
    finally show ?thesis .
  qed
  have s2: "sorted_keys (take i ks @ drop i ks)" using s by simp
  show s': "sorted_keys (vkeys (ins_kid i sep new n))"
    using s2 lo hi less_trans by (simp add: n sorted_wrt_append del: append_take_drop_id)
  let ?n = "ins_kid i sep new n" and ?r = "vroute n k"
  have sn: "sorted_keys (vkeys n)" using s n by simp
  note b = vroute_bounds [where k = k, OF sn, unfolded n, simplified, folded n]
  have ks': "vkeys ?n ! j = (if j < i then ks ! j else if j = i then sep else ks ! (j - 1))" if "j \<le> length ks" for j
    using that i by (auto simp: n nth_append min_def nth_Cons' Suc_diff_Suc)
  have kl: "vkeys ?n ! j = ks ! j" if "j < i" for j using ks' [of j] that i by simp
  have ke: "vkeys ?n ! i = sep" using ks' [of i] i by simp
  have kg: "vkeys ?n ! j = ks ! (j - 1)" if "i < j" "j \<le> length ks" for j using ks' [of j] that by simp
  have len': "length (vkeys ?n) = Suc (length ks)" using i by (simp add: n)
  have cs': "vkids ?n ! j = (if j \<le> i then cs ! j else if j = Suc i then new else cs ! (j - 1))" if "j \<le> Suc (length ks)" for j
  proof -
    have "Suc (j - 2) = j - 1" if "j \<noteq> Suc i" "\<not> j \<le> i" using that by arith
    then show ?thesis using that i len by (auto simp: n nth_append min_def nth_Cons' Suc_diff_Suc)
  qed
  consider "?r < i" | "?r = i" "k \<le> sep" | "?r = i" "sep < k" | "i < ?r" by fastforce
  then show "vkids ?n ! vroute ?n k = (if ?r = i \<and> sep < k then new else vkids n ! ?r)"
  proof cases
    case 1
    have "vroute ?n k = ?r"
    proof (rule vroute_eqI [OF s'])
      show "?r \<le> length (vkeys ?n)" using b(1) len' by simp
      show "vkeys ?n ! (?r - 1) < k" if "0 < ?r" using kl [of "?r - 1"] b(2) [of "?r - 1"] that 1 by simp
      show "k \<le> vkeys ?n ! ?r" using kl [OF 1] b(3) [of ?r] 1 i by simp
    qed
    then show ?thesis using cs' [of ?r] b(1) 1 by (simp add: n)
  next
    case 2
    have "vroute ?n k = i"
    proof (rule vroute_eqI [OF s'])
      show "i \<le> length (vkeys ?n)" using i len' by simp
      show "vkeys ?n ! (i - 1) < k" if "0 < i" using kl [of "i - 1"] b(2) [of "i - 1"] that 2 by simp
      show "k \<le> vkeys ?n ! i" using ke 2 by simp
    qed
    then show ?thesis using cs' [of i] 2(1) leD [OF 2(2)] i by (simp add: n)
  next
    case 3
    have "vroute ?n k = Suc i"
    proof (rule vroute_eqI [OF s'])
      show "Suc i \<le> length (vkeys ?n)" using i len' by simp
      show "vkeys ?n ! (Suc i - 1) < k" using ke 3 by simp
      show "k \<le> vkeys ?n ! Suc i" if "Suc i < length (vkeys ?n)"
        using kg [of "Suc i"] b(3) [of i] that len' 3 by simp
    qed
    then show ?thesis using cs' [of "Suc i"] 3 i by (simp add: n)
  next
    case 4
    have "vroute ?n k = Suc ?r"
    proof (rule vroute_eqI [OF s'])
      show "Suc ?r \<le> length (vkeys ?n)" using b(1) len' by simp
      show "vkeys ?n ! (Suc ?r - 1) < k" using kg [OF 4 b(1)] b(2) [of "?r - 1"] 4 by simp
      show "k \<le> vkeys ?n ! Suc ?r" if "Suc ?r < length (vkeys ?n)"
        using kg [of "Suc ?r"] b(3) [of ?r] that len' 4 by simp
    qed
    then show ?thesis using cs' [of "Suc ?r"] b(1) 4 by (simp add: n)
  qed
qed

subsection \<open>Looking a key up after the split\<close>

text \<open>
  A view \<open>V'\<close> in which \<open>h\<close> has become the first half, \<open>new\<close> is the second one, and the
  parent \<open>p\<close> of \<open>h\<close>, if there is one, has received \<open>new\<close>. All other nodes are as they were.
\<close>

definition split_at :: "view \<Rightarrow> (gaddr \<Rightarrow> lnode) \<Rightarrow> gaddr \<Rightarrow> gaddr \<Rightarrow> gaddr \<Rightarrow> nat \<Rightarrow> u64 \<Rightarrow> bool" where
  "split_at W V' p h new i sep \<longleftrightarrow>
     h \<in> vw_addrs W \<and> new \<notin> vw_addrs W \<and> splits (vw_nodes W h) sep (V' h) (V' new) \<and>
     (\<forall>g \<in> vw_addrs W. g \<noteq> h \<longrightarrow> g \<noteq> p \<longrightarrow> V' g = vw_nodes W g) \<and>
     (\<forall>g \<in> vw_addrs W. h \<in> set (vkids (vw_nodes W g)) \<longrightarrow> g = p) \<and>
     (p \<in> vw_addrs W \<longrightarrow> i \<le> length (vkeys (vw_nodes W p)) \<and> vkids (vw_nodes W p) ! i = h \<and>
        vlevel (vw_nodes W p) = Suc (vlevel (vw_nodes W h)) \<and> V' p = ins_kid i sep new (vw_nodes W p))"

lemma split_atD:
  assumes "split_at W V' p h new i sep"
  shows "h \<in> vw_addrs W" "new \<notin> vw_addrs W" "splits (vw_nodes W h) sep (V' h) (V' new)"
    "\<And>g. g \<in> vw_addrs W \<Longrightarrow> g \<noteq> h \<Longrightarrow> g \<noteq> p \<Longrightarrow> V' g = vw_nodes W g"
    "\<And>g. g \<in> vw_addrs W \<Longrightarrow> h \<in> set (vkids (vw_nodes W g)) \<Longrightarrow> g = p"
    "p \<in> vw_addrs W \<Longrightarrow> i \<le> length (vkeys (vw_nodes W p))" "p \<in> vw_addrs W \<Longrightarrow> vkids (vw_nodes W p) ! i = h"
    "p \<in> vw_addrs W \<Longrightarrow> vlevel (vw_nodes W p) = Suc (vlevel (vw_nodes W h))"
    "p \<in> vw_addrs W \<Longrightarrow> V' p = ins_kid i sep new (vw_nodes W p)"
  using assms unfolding split_at_def by blast+

lemma split_at_sep:
  assumes ok: "view_ok W" and sp: "split_at W V' p h new i sep" and p: "p \<in> vw_addrs W"
  shows "kid_lo (vw_nodes W p) i < sep" "sep < kid_hi (vw_nodes W p) i"
    "vlo (vw_nodes W h) = kid_lo (vw_nodes W p) i" "vhi (vw_nodes W h) = kid_hi (vw_nodes W p) i"
proof -
  note D = split_atD [OF sp]
  note f = kid_facts [OF ok p D(8) [OF p] D(6) [OF p], unfolded D(7) [OF p]]
  show "kid_lo (vw_nodes W p) i < sep" "sep < kid_hi (vw_nodes W p) i"
    "vlo (vw_nodes W h) = kid_lo (vw_nodes W p) i" "vhi (vw_nodes W h) = kid_hi (vw_nodes W p) i"
    using splits_fields(7,8) [OF D(3)] f(3,4) by simp_all
qed

lemma split_lookup:
  assumes ok: "view_ok W" and sp: "split_at W V' p h new i sep" and g: "g \<in> vw_addrs W" "vlevel (vw_nodes W g) = n"
  shows "(g \<noteq> h \<longrightarrow> vmap (V' (vpath V' n k g)) k = vmap (vw_nodes W (vpath (vw_nodes W) n k g)) k) \<and>
    (g = h \<longrightarrow> vmap (V' (vpath V' n k (if k \<le> sep then h else new))) k = vmap (vw_nodes W (vpath (vw_nodes W) n k g)) k)"
  using g
proof (induction n arbitrary: g)
  case 0
  note D = split_atD [OF sp]
  have "g \<noteq> p" using D(8) 0 by auto
  then show ?case using D(4) [OF 0(1)] splits_leaf_map [OF D(3) _ view_okD(1) [OF ok D(1)], of k] 0 by auto
next
  case (Suc n)
  note D = split_atD [OF sp]
  let ?N = "vw_nodes W g"
  have nok: "node_ok ?N" "vlevel ?N \<noteq> 0" using view_okD(1) [OF ok Suc.prems(1)] Suc.prems(2) by simp_all
  have r: "vroute ?N k \<le> length (vkeys ?N)" by (rule vroute_bounds(1) [OF node_ok_inner(1) [OF nok]])
  note c = kid_facts [OF ok Suc.prems r]
  let ?c = "vkids ?N ! vroute ?N k"
  show ?case
  proof (cases "g = h")
    case True
    have "?c \<noteq> h" using c(2) True Suc.prems(2) by auto
    then have "vmap (V' (vpath V' n k ?c)) k = vmap (vw_nodes W (vpath (vw_nodes W) n k ?c)) k"
      using Suc.IH [OF c(1,2)] by simp
    then show ?thesis using True splits_route [OF D(3) _ view_okD(1) [OF ok D(1)], of k] nok(2) by auto
  next
    case nh: False
    show ?thesis
    proof (cases "g = p")
      case True
      then have pT: "p \<in> vw_addrs W" using Suc.prems(1) by simp
      note s = split_at_sep [OF ok sp pT]
      have pok: "node_ok (vw_nodes W p)" "vlevel (vw_nodes W p) \<noteq> 0" using nok True by simp_all
      note rt = ins_kid_route(2) [OF pok D(6) [OF pT] s(1,2), of new k]
      have u: "vroute (vw_nodes W p) k = i \<longleftrightarrow> ?c = h"
      proof
        assume "?c = h"
        moreover have "distinct (vkids (vw_nodes W p))" by (rule view_okD(4) [OF ok pT])
        moreover have "vroute (vw_nodes W p) k < length (vkids (vw_nodes W p))" "i < length (vkids (vw_nodes W p))"
          using r D(6) [OF pT] node_ok_inner(2) [OF pok] True by simp_all
        ultimately show "vroute (vw_nodes W p) k = i" using D(7) [OF pT] True by (simp add: nth_eq_iff_index_eq [symmetric])
      qed (use D(7) [OF pT] True in simp)
      have "vpath V' (Suc n) k g = vpath V' n k (if ?c = h \<and> sep < k then new else ?c)"
        using True D(9) [OF pT] rt u by simp
      then show ?thesis using Suc.IH [OF c(1,2)] nh
        by (cases "k \<le> sep"; cases "?c = h") (simp_all add: leD not_le)
    next
      case False
      have "?c \<noteq> h" using D(5) [OF Suc.prems(1)] c(5) False by auto
      then show ?thesis using Suc.IH [OF c(1,2)] D(4) [OF Suc.prems(1) nh False] nh by simp
    qed
  qed
qed

subsection \<open>The view after the split\<close>

definition split_child_view :: "gaddr \<Rightarrow> gaddr \<Rightarrow> gaddr \<Rightarrow> nat \<Rightarrow> u64 \<Rightarrow> lnode \<Rightarrow> lnode \<Rightarrow> view \<Rightarrow> view" where
  "split_child_view p h new i sep nl nr W =
     W\<lparr>vw_nodes := (vw_nodes W)(h := nl, new := nr, p := ins_kid i sep new (vw_nodes W p)),
       vw_addrs := insert new (vw_addrs W)\<rparr>"

definition split_root_view :: "gaddr \<Rightarrow> gaddr \<Rightarrow> gaddr \<Rightarrow> u64 \<Rightarrow> lnode \<Rightarrow> lnode \<Rightarrow> view \<Rightarrow> view" where
  "split_root_view r h new sep nl nr W =
     W\<lparr>vw_nodes := (vw_nodes W)(h := nl, new := nr, r := LInner (Suc (vlevel nl)) (vlo nl) (vhi nr) [sep] [h, new]),
       vw_addrs := insert r (insert new (vw_addrs W)), vw_root := r\<rparr>"

lemma split_view_simps [simp]:
  "vw_nodes (split_child_view p h new i sep nl nr W) = (vw_nodes W)(h := nl, new := nr, p := ins_kid i sep new (vw_nodes W p))"
  "vw_addrs (split_child_view p h new i sep nl nr W) = insert new (vw_addrs W)"
  "vw_root (split_child_view p h new i sep nl nr W) = vw_root W" "vw_super (split_child_view p h new i sep nl nr W) = vw_super W"
  "vw_nodes (split_root_view r h new sep nl nr W) =
     (vw_nodes W)(h := nl, new := nr, r := LInner (Suc (vlevel nl)) (vlo nl) (vhi nr) [sep] [h, new])"
  "vw_addrs (split_root_view r h new sep nl nr W) = insert r (insert new (vw_addrs W))"
  "vw_root (split_root_view r h new sep nl nr W) = r" "vw_super (split_root_view r h new sep nl nr W) = vw_super W"
  by (simp_all add: split_child_view_def split_root_view_def)

lemma kids_ok_nth:
  assumes "kids_ok V T n" "i < length (vkids n)"
  shows "vkids n ! i \<in> T" "vlevel (V (vkids n ! i)) + 1 = vlevel n" "vlo (V (vkids n ! i)) = kid_lo n i" "vhi (V (vkids n ! i)) = kid_hi n i"
  using assms by (simp_all add: kids_ok_def)

text \<open>The kids of the two halves fit where they are.\<close>

lemma splits_kids_ok:
  assumes sp: "splits n sep nl nr" and ok: "node_ok n" and k: "kids_ok V T n"
    and T: "T \<subseteq> T'" and same: "\<And>c. c \<in> set (vkids n) \<Longrightarrow> vlevel (V' c) = vlevel (V c) \<and> vlo (V' c) = vlo (V c) \<and> vhi (V' c) = vhi (V c)"
  shows "kids_ok V' T' nl \<and> kids_ok V' T' nr"
  using sp
proof (cases rule: splits_cases)
  case (leaf lo hi es1 es2)
  then show ?thesis by (simp add: kids_ok_def)
next
  case (inner l lo hi ks1 ks2 cs1 cs2)
  have len: "length cs2 = Suc (length ks2)" using ok inner(1,4) by simp
  have "kids_ok V' T' nl"
    unfolding kids_ok_def
  proof (intro allI impI)
    fix j
    assume j: "j < length (vkids nl)"
    have jn: "j < length (vkids n)" "vkids n ! j = vkids nl ! j" using j inner(1,2) by (simp_all add: nth_append)
    have "kid_lo n j = kid_lo nl j" "kid_hi n j = kid_hi nl j"
      using j inner(1,2,4) by (auto simp: kid_lo_def kid_hi_def nth_append)
    then show "vkids nl ! j \<in> T' \<and> vlevel (V' (vkids nl ! j)) + 1 = vlevel nl \<and>
        vlo (V' (vkids nl ! j)) = kid_lo nl j \<and> vhi (V' (vkids nl ! j)) = kid_hi nl j"
      using kids_ok_nth [OF k jn(1)] same [OF nth_mem [OF jn(1)]] T splits_fields(1) [OF sp] jn(2) by auto
  qed
  moreover have "kids_ok V' T' nr"
    unfolding kids_ok_def
  proof (intro allI impI)
    fix j
    assume j: "j < length (vkids nr)"
    let ?j = "length cs1 + j"
    have jn: "?j < length (vkids n)" "vkids n ! ?j = vkids nr ! j" using j inner(1,3) by (simp_all add: nth_append)
    have "kid_lo n ?j = kid_lo nr j" "kid_hi n ?j = kid_hi nr j"
      using j inner(1,3,4) len by (cases j; auto simp: kid_lo_def kid_hi_def nth_append)+
    then show "vkids nr ! j \<in> T' \<and> vlevel (V' (vkids nr ! j)) + 1 = vlevel nr \<and>
        vlo (V' (vkids nr ! j)) = kid_lo nr j \<and> vhi (V' (vkids nr ! j)) = kid_hi nr j"
      using kids_ok_nth [OF k jn(1)] same [OF nth_mem [OF jn(1)]] T splits_fields(2) [OF sp] jn(2) by auto
  qed
  ultimately show ?thesis ..
qed

lemma ins_kid_nth:
  assumes "node_ok n" "vlevel n \<noteq> 0" "i \<le> length (vkeys n)"
  shows "length (vkids (ins_kid i sep new n)) = Suc (length (vkids n))" "length (vkeys (ins_kid i sep new n)) = Suc (length (vkeys n))"
    "j \<le> length (vkids n) \<Longrightarrow> vkids (ins_kid i sep new n) ! j =
      (if j \<le> i then vkids n ! j else if j = Suc i then new else vkids n ! (j - 1))"
    "j \<le> length (vkids n) \<Longrightarrow> kid_lo (ins_kid i sep new n) j = (if j \<le> i then kid_lo n j else if j = Suc i then sep else kid_lo n (j - 1))"
    "j \<le> length (vkids n) \<Longrightarrow> kid_hi (ins_kid i sep new n) j = (if j < i then kid_hi n j else if j = i then sep else kid_hi n (j - 1))"
    "set (vkids (ins_kid i sep new n)) = insert new (set (vkids n))"
proof -
  obtain l lo hi ks cs where n: "n = LInner l lo hi ks cs" using assms(2) by (cases n) auto
  have len: "length cs = Suc (length ks)" "i \<le> length ks" using assms(1,3) n by simp_all
  show "length (vkids (ins_kid i sep new n)) = Suc (length (vkids n))" "length (vkeys (ins_kid i sep new n)) = Suc (length (vkeys n))"
    using len by (simp_all add: n)
  have a2: "Suc (j - 2) = j - 1" if "j \<noteq> Suc i" "\<not> j \<le> i" for j using that by arith
  show "vkids (ins_kid i sep new n) ! j = (if j \<le> i then vkids n ! j else if j = Suc i then new else vkids n ! (j - 1))"
    if "j \<le> length (vkids n)" for j
    using that len a2 [of j] by (auto simp: n nth_append min_def nth_Cons' Suc_diff_Suc)
  have kn: "(take i ks @ sep # drop i ks) ! j = (if j < i then ks ! j else if j = i then sep else ks ! (j - 1))" if "j \<le> length ks" for j
    using that len(2) by (auto simp: nth_append min_def nth_Cons' Suc_diff_Suc)
  show "kid_lo (ins_kid i sep new n) j = (if j \<le> i then kid_lo n j else if j = Suc i then sep else kid_lo n (j - 1))"
    if "j \<le> length (vkids n)" for j
  proof (cases j)
    case (Suc m)
    then have "m \<le> length ks" using that len n by simp
    then show ?thesis using kn [of m] Suc by (auto simp: n kid_lo_def)
  qed (simp add: n kid_lo_def)
  show "kid_hi (ins_kid i sep new n) j = (if j < i then kid_hi n j else if j = i then sep else kid_hi n (j - 1))"
    if "j \<le> length (vkids n)" for j
  proof (cases "j \<le> length ks")
    case True
    then have "kid_hi (ins_kid i sep new n) j = (if j < i then ks ! j else if j = i then sep else ks ! (j - 1))"
      using kn [OF True] len(2) by (simp add: n kid_hi_def)
    then show ?thesis using True len(2) by (auto simp: n kid_hi_def)
  next
    case False
    then have "j = Suc (length ks)" using that len n by simp
    then show ?thesis using len(2) by (simp add: n kid_hi_def)
  qed
  have "set cs = set (take (Suc i) cs) \<union> set (drop (Suc i) cs)" by (metis append_take_drop_id set_append)
  then show "set (vkids (ins_kid i sep new n)) = insert new (set (vkids n))" by (simp add: n)
qed

lemma ins_kid_node_ok:
  assumes "node_ok n" "vlevel n \<noteq> 0" "i \<le> length (vkeys n)" "kid_lo n i < sep" "sep < kid_hi n i"
    "length (vkeys n) + 1 < max_inner_entries"
  shows "node_ok (ins_kid i sep new n)"
proof -
  obtain l lo hi ks cs where n: "n = LInner l lo hi ks cs" using assms(2) by (cases n) auto
  show ?thesis using ins_kid_route(1) [OF assms(1-5), of new] ins_kid_nth(1,2) [OF assms(1-3), of sep new] assms(1,6)
    by (simp add: n)
qed

lemma ins_kid_keys_ok:
  assumes "keys_ok n" "vlo n \<le> vhi n" "i \<le> length (vkeys n)" "kid_lo n i < sep" "sep < kid_hi n i"
  shows "keys_ok (ins_kid i sep new n)"
proof (cases n)
  case (LLeaf lo hi es)
  then show ?thesis by (simp add: keys_ok_def)
next
  case (LInner l lo hi ks cs)
  have "vlo n \<le> sep" "sep \<le> vhi n" using kid_in_node [OF assms(1,3,2)] assms(4,5) by simp_all
  then show ?thesis using assms(1) by (auto simp: LInner keys_ok_def dest: in_set_takeD in_set_dropD)
qed

lemma ins_kid_kids_ok:
  assumes ok: "node_ok n" "vlevel n \<noteq> 0" "i \<le> length (vkeys n)" and k: "kids_ok V T n" and d: "distinct (vkids n)"
    and T: "T \<subseteq> T'" "new \<in> T'"
    and same: "\<And>c. c \<in> set (vkids n) \<Longrightarrow> c \<noteq> vkids n ! i \<Longrightarrow> vlevel (V' c) = vlevel (V c) \<and> vlo (V' c) = vlo (V c) \<and> vhi (V' c) = vhi (V c)"
    and h: "vlevel (V' (vkids n ! i)) + 1 = vlevel n" "vlo (V' (vkids n ! i)) = kid_lo n i" "vhi (V' (vkids n ! i)) = sep"
    and nw: "vlevel (V' new) + 1 = vlevel n" "vlo (V' new) = sep" "vhi (V' new) = kid_hi n i"
  shows "kids_ok V' T' (ins_kid i sep new n)"
  unfolding kids_ok_def ins_kid_fields
proof (intro allI impI)
  fix j
  assume "j < length (vkids (ins_kid i sep new n))"
  then have j: "j \<le> length (vkids n)" using ins_kid_nth(1) [OF ok] by simp
  have len: "length (vkids n) = Suc (length (vkeys n))" using node_ok_inner(2) [OF ok(1,2)] by simp
  note I = ins_kid_nth(3-5) [OF ok j, of sep new]
  have old: "vkids n ! m \<in> T' \<and> vlevel (V' (vkids n ! m)) + 1 = vlevel n \<and> vlo (V' (vkids n ! m)) = kid_lo n m \<and>
      vhi (V' (vkids n ! m)) = kid_hi n m" if m: "m < length (vkids n)" "m \<noteq> i" for m
  proof -
    have "vkids n ! m \<noteq> vkids n ! i" using d m ok(3) len by (simp add: nth_eq_iff_index_eq)
    then show ?thesis using kids_ok_nth [OF k m(1)] same [OF nth_mem [OF m(1)]] T(1) by auto
  qed
  consider "j < i" | "j = i" | "j = Suc i" | "Suc i < j" by linarith
  then show "vkids (ins_kid i sep new n) ! j \<in> T' \<and> vlevel (V' (vkids (ins_kid i sep new n) ! j)) + 1 = vlevel n \<and>
      vlo (V' (vkids (ins_kid i sep new n) ! j)) = kid_lo (ins_kid i sep new n) j \<and>
      vhi (V' (vkids (ins_kid i sep new n) ! j)) = kid_hi (ins_kid i sep new n) j"
  proof cases
    case 1
    then show ?thesis using I old [of j] ok(3) len by simp
  next
    case 2
    have "vkids n ! i \<in> T" using kids_ok_nth(1) [OF k, of i] ok(3) len by simp
    then show ?thesis using I 2 h T(1) by auto
  next
    case 3
    then show ?thesis using I nw T(2) by simp
  next
    case 4
    then show ?thesis using I old [of "j - 1"] j by simp
  qed
qed

lemma view_ok_disjoint:
  assumes "view_ok W" "g \<in> vw_addrs W" "g' \<in> vw_addrs W" "x \<in> set (vkids (vw_nodes W g))" "x \<in> set (vkids (vw_nodes W g'))"
  shows "g = g'"
  using assms unfolding view_ok_def vtree_def by blast

lemma view_ok_kid: "view_ok W \<Longrightarrow> g \<in> vw_addrs W \<Longrightarrow> c \<in> set (vkids (vw_nodes W g)) \<Longrightarrow> c \<in> vw_addrs W"
  using view_okD(3) by (auto simp: kids_ok_def in_set_conv_nth)

lemma view_ok_kid_level:
  "view_ok W \<Longrightarrow> g \<in> vw_addrs W \<Longrightarrow> c \<in> set (vkids (vw_nodes W g)) \<Longrightarrow> vlevel (vw_nodes W c) + 1 = vlevel (vw_nodes W g)"
  using view_okD(3) by (auto simp: kids_ok_def in_set_conv_nth)

lemma view_ok_root: "view_ok W \<Longrightarrow> vw_root W \<in> vw_addrs W"
  by (simp add: view_ok_def vtree_def)

text \<open>A view is well formed when each node is and no two nodes share a kid.\<close>

lemma view_okI:
  assumes "vw_root W \<in> vw_addrs W"
    "\<And>g. g \<in> vw_addrs W \<Longrightarrow> node_ok (vw_nodes W g) \<and> keys_ok (vw_nodes W g) \<and> kids_ok (vw_nodes W) (vw_addrs W) (vw_nodes W g) \<and>
       distinct (vkids (vw_nodes W g)) \<and> vw_root W \<notin> set (vkids (vw_nodes W g))"
    "\<And>g g' x. g \<in> vw_addrs W \<Longrightarrow> g' \<in> vw_addrs W \<Longrightarrow> x \<in> set (vkids (vw_nodes W g)) \<Longrightarrow> x \<in> set (vkids (vw_nodes W g')) \<Longrightarrow> g = g'"
  shows "view_ok W"
  using assms unfolding view_ok_def vtree_def by blast

lemma split_child_ok:
  assumes ok: "view_ok W" and p: "p \<in> vw_addrs W" "vlevel (vw_nodes W p) \<noteq> 0" "i \<le> length (vkeys (vw_nodes W p))"
      "length (vkeys (vw_nodes W p)) + 1 < max_inner_entries"
    and h: "h = vkids (vw_nodes W p) ! i" and new: "new \<notin> vw_addrs W" and sp: "splits (vw_nodes W h) sep nl nr"
  defines "W' \<equiv> split_child_view p h new i sep nl nr W"
  shows "view_ok W'" "abs_map W' = abs_map W" "root_range W' = root_range W"
proof -
  let ?V = "vw_nodes W" and ?T = "vw_addrs W"
  obtain lv where lv: "vlevel (?V p) = Suc lv" using p(2) by (cases "vlevel (?V p)") auto
  note f = kid_facts [OF ok p(1) lv p(3), folded h]
  have ne: "h \<noteq> p" "new \<noteq> p" "new \<noteq> h" using f(1,2) lv p(1) new by auto
  note P = view_okD [OF ok p(1)]
  note H = view_okD [OF ok f(1)]
  note S = splits_fields [OF sp]
  have V': "vw_nodes W' h = nl" "vw_nodes W' new = nr" "vw_nodes W' p = ins_kid i sep new (?V p)"
    "g \<noteq> h \<Longrightarrow> g \<noteq> new \<Longrightarrow> g \<noteq> p \<Longrightarrow> vw_nodes W' g = ?V g" for g
    using ne by (simp_all add: W'_def)
  have T': "vw_addrs W' = insert new ?T" "vw_root W' = vw_root W" by (simp_all add: W'_def)
  have lvl: "vlevel (vw_nodes W' g) = vlevel (?V g) \<and> vlo (vw_nodes W' g) = vlo (?V g) \<and> (g \<noteq> h \<longrightarrow> vhi (vw_nodes W' g) = vhi (?V g))"
    if "g \<in> ?T" for g
  proof -
    have "g \<noteq> new" using that new by auto
    then show ?thesis using V'(1,3) V'(4) [of g] S(1,3) ins_kid_fields by (cases "g = h"; cases "g = p") auto
  qed
  have onlyp: "g = p" if "g \<in> ?T" "h \<in> set (vkids (?V g))" for g using view_ok_disjoint [OF ok that(1) p(1) that(2) f(5)] .
  have hr: "h \<noteq> vw_root W" using f(5) P(5) by auto
  have pos: "kid_lo (?V p) i < sep" "sep < kid_hi (?V p) i" using S(7,8) f(3,4) by simp_all
  have at: "split_at W (vw_nodes W') p h new i sep"
    unfolding split_at_def
  proof (intro conjI ballI impI)
    show "h \<in> ?T" "new \<notin> ?T" by (rule f(1), rule new)
    show "splits (?V h) sep (vw_nodes W' h) (vw_nodes W' new)" unfolding V'(1,2) by (rule sp)
    show "vw_nodes W' g = ?V g" if "g \<in> ?T" "g \<noteq> h" "g \<noteq> p" for g
      by (rule V'(4)) (use that new in auto)
    show "vkids (?V p) ! i = h" by (rule h [symmetric])
    show "vlevel (?V p) = Suc (vlevel (?V h))" using lv f(2) by simp
  qed (rule onlyp p(3) V'(3); assumption?)+
  have ins: "set (vkids (ins_kid i sep new (?V p))) = insert new (set (vkids (?V p)))" by (rule ins_kid_nth(6) [OF P(1) p(2,3)])
  have nT: "new \<notin> set (vkids (?V g))" if "g \<in> ?T" for g using view_ok_kid [OF ok that] new by auto
  have kids: "set (vkids (vw_nodes W' g)) \<subseteq> set (vkids (?V (if g = new then h else g))) \<union> (if g = p then {new} else {})"
    if "g \<in> vw_addrs W'" for g
    using V'(1-3) V'(4) [of g] S(9) ins ne by (cases "g = h"; cases "g = new"; cases "g = p") auto
  have dj: "set (vkids nl) \<inter> set (vkids nr) = {}" "distinct (vkids nl)" "distinct (vkids nr)" using H(4) S(9) by auto
  have le: "vlo (?V p) \<le> vhi (?V p)"
  proof (cases "vkeys (?V p)")
    case Nil
    then have "vlo (?V p) < vhi (?V p)" using pos p(3) by (auto simp: kid_lo_def kid_hi_def intro: less_trans)
    then show ?thesis by simp
  next
    case (Cons x xs)
    then have "vlo (?V p) \<le> x" "x \<le> vhi (?V p)" using P(2) by (simp_all add: keys_ok_def)
    then show ?thesis by (rule order_trans)
  qed
  show "view_ok W'"
  proof (rule view_okI)
    show "vw_root W' \<in> vw_addrs W'" using view_ok_root [OF ok] T' by simp
  next
    fix g
    assume g: "g \<in> vw_addrs W'"
    have halves: "kids_ok (vw_nodes W') (vw_addrs W') nl \<and> kids_ok (vw_nodes W') (vw_addrs W') nr"
    proof (rule splits_kids_ok [OF sp H(1,3)])
      show "vlevel (vw_nodes W' c) = vlevel (?V c) \<and> vlo (vw_nodes W' c) = vlo (?V c) \<and> vhi (vw_nodes W' c) = vhi (?V c)"
        if "c \<in> set (vkids (?V h))" for c
        using lvl [OF view_ok_kid [OF ok f(1) that]] view_ok_kid_level [OF ok f(1) that] by auto
    qed (simp add: T' subset_insertI)
    have root: "vw_root W' \<notin> set (vkids (vw_nodes W' g))"
      using kids [OF g] view_okD(5) [OF ok, of "if g = new then h else g"] view_ok_root [OF ok] new g f(1) T' by (auto split: if_splits)
    consider "g = h" | "g = new" | "g = p" | "g \<in> ?T" "g \<noteq> h" "g \<noteq> new" "g \<noteq> p" using g T' by auto
    then show "node_ok (vw_nodes W' g) \<and> keys_ok (vw_nodes W' g) \<and> kids_ok (vw_nodes W') (vw_addrs W') (vw_nodes W' g) \<and>
       distinct (vkids (vw_nodes W' g)) \<and> vw_root W' \<notin> set (vkids (vw_nodes W' g))"
    proof cases
      case 1
      then show ?thesis using splits_node_ok [OF sp H(1)] splits_keys_ok [OF sp H(1,2)] halves dj root V'(1) by simp
    next
      case 2
      then show ?thesis using splits_node_ok [OF sp H(1)] splits_keys_ok [OF sp H(1,2)] halves dj root V'(2) by simp
    next
      case 3
      have "kids_ok (vw_nodes W') (vw_addrs W') (ins_kid i sep new (?V p))"
      proof (rule ins_kid_kids_ok [OF P(1) p(2,3) P(3,4)])
        show "vlevel (vw_nodes W' c) = vlevel (?V c) \<and> vlo (vw_nodes W' c) = vlo (?V c) \<and> vhi (vw_nodes W' c) = vhi (?V c)"
          if "c \<in> set (vkids (?V p))" "c \<noteq> vkids (?V p) ! i" for c
          using lvl [OF view_ok_kid [OF ok p(1) that(1)]] that(2) h by auto
      qed (use T' V'(1,2) S f(2-4) lv h in \<open>auto simp: subset_insertI\<close>)
      moreover have "distinct (vkids (ins_kid i sep new (?V p)))"
      proof -
        have "distinct (take (Suc i) (vkids (?V p)) @ drop (Suc i) (vkids (?V p)))" using P(4) by simp
        then show ?thesis using nT [OF p(1)] p(2)
          by (cases "?V p") (auto simp: dest: in_set_takeD in_set_dropD simp del: append_take_drop_id)
      qed
      ultimately show ?thesis
        using 3 V'(3) root ins_kid_node_ok [OF P(1) p(2,3) pos p(4)] ins_kid_keys_ok [OF P(2) le p(3) pos] by simp
    next
      case 4
      note G = view_okD [OF ok 4(1)]
      have "kids_ok (vw_nodes W') (vw_addrs W') (?V g)"
        unfolding kids_ok_def
      proof (intro allI impI)
        fix j
        assume j: "j < length (vkids (?V g))"
        have c: "vkids (?V g) ! j \<in> ?T" "vkids (?V g) ! j \<noteq> h"
          using view_ok_kid [OF ok 4(1) nth_mem [OF j]] onlyp [OF 4(1)] nth_mem [OF j] 4(4) by auto
        show "vkids (?V g) ! j \<in> vw_addrs W' \<and> vlevel (vw_nodes W' (vkids (?V g) ! j)) + 1 = vlevel (?V g) \<and>
          vlo (vw_nodes W' (vkids (?V g) ! j)) = kid_lo (?V g) j \<and> vhi (vw_nodes W' (vkids (?V g) ! j)) = kid_hi (?V g) j"
          using kids_ok_nth [OF G(3) j] lvl [OF c(1)] c T' by simp
      qed
      then show ?thesis using 4 V'(4) [of g] G(1,2,4) root by simp
    qed
  next
    fix g g' x
    assume g: "g \<in> vw_addrs W'" "g' \<in> vw_addrs W'" and x: "x \<in> set (vkids (vw_nodes W' g))" "x \<in> set (vkids (vw_nodes W' g'))"
    let ?o = "\<lambda>g. if g = new then h else g"
    have o: "?o g \<in> ?T" "?o g' \<in> ?T" using g T' f(1) by auto
    show "g = g'"
    proof (cases "x = new")
      case True
      then have "g = p" "g' = p" using kids [OF g(1)] kids [OF g(2)] x nT [OF o(1)] nT [OF o(2)] by (auto split: if_splits)
      then show ?thesis by simp
    next
      case False
      then have "x \<in> set (vkids (?V (?o g)))" "x \<in> set (vkids (?V (?o g')))"
        using kids [OF g(1)] kids [OF g(2)] x by (auto split: if_splits)
      then have "?o g = ?o g'" by (rule view_ok_disjoint [OF ok o])
      moreover have "\<not> (g = new \<and> g' = h)" "\<not> (g = h \<and> g' = new)" using x dj(1) V'(1,2) by auto
      ultimately show ?thesis by (auto split: if_splits)
    qed
  qed
  have rT: "vw_root W \<in> ?T" by (rule view_ok_root [OF ok])
  show "abs_map W' = abs_map W"
  proof
    fix k
    show "abs_map W' k = abs_map W k"
      using split_lookup [OF ok at rT refl, of k] hr lvl [OF rT] T'(2) by (simp add: abs_map_def vleaf_def)
  qed
  show "root_range W' = root_range W" using lvl [OF rT] hr T'(2) by (simp add: root_range_def)
qed

lemma split_root_ok:
  assumes ok: "view_ok W" and h: "h = vw_root W" and new: "new \<notin> vw_addrs W" "r \<notin> vw_addrs W" "r \<noteq> new"
    and sp: "splits (vw_nodes W h) sep nl nr" and lv: "vlevel (vw_nodes W h) + 1 < 255" and rr: "root_range W"
  defines "W' \<equiv> split_root_view r h new sep nl nr W"
  shows "view_ok W'" "abs_map W' = abs_map W" "root_range W'"
proof -
  let ?V = "vw_nodes W" and ?T = "vw_addrs W"
  have hT: "h \<in> ?T" using view_ok_root [OF ok] h by simp
  have ne: "h \<noteq> r" "new \<noteq> h" "r \<noteq> new" using hT new by auto
  note H = view_okD [OF ok hT]
  note S = splits_fields [OF sp]
  have range: "vlo (?V h) = KEY_MIN" "vhi (?V h) = KEY_MAX" using rr h by (simp_all add: root_range_def)
  let ?R = "LInner (Suc (vlevel nl)) (vlo nl) (vhi nr) [sep] [h, new]"
  have V': "vw_nodes W' h = nl" "vw_nodes W' new = nr" "vw_nodes W' r = ?R"
    "g \<noteq> h \<Longrightarrow> g \<noteq> new \<Longrightarrow> g \<noteq> r \<Longrightarrow> vw_nodes W' g = ?V g" for g
    using ne by (auto simp: W'_def)
  have T': "vw_addrs W' = insert r (insert new ?T)" "vw_root W' = r" by (simp_all add: W'_def)
  have noh: "h \<notin> set (vkids (?V g))" if "g \<in> ?T" for g using view_okD(5) [OF ok that] h by simp
  have same: "vw_nodes W' g = ?V g" if "g \<in> ?T" "g \<noteq> h" for g using that new V'(4) by auto
  have at: "split_at W (vw_nodes W') r h new 0 sep"
    unfolding split_at_def
  proof (intro conjI ballI impI)
    show "h \<in> ?T" "new \<notin> ?T" by (rule hT, rule new(1))
    show "splits (?V h) sep (vw_nodes W' h) (vw_nodes W' new)" unfolding V'(1,2) by (rule sp)
    show "vw_nodes W' g = ?V g" if "g \<in> ?T" "g \<noteq> h" for g by (rule same [OF that])
  qed (use noh new(2) in auto)
  have kT: "c \<in> ?T" "c \<noteq> h" if "g \<in> ?T" "c \<in> set (vkids (?V g))" for g c
    using view_ok_kid [OF ok that] noh [OF that(1)] that(2) by auto
  have dj: "set (vkids nl) \<inter> set (vkids nr) = {}" "distinct (vkids nl)" "distinct (vkids nr)" using H(4) S(9) by auto
  have kids: "set (vkids (vw_nodes W' g)) \<subseteq> set (vkids (?V (if g = new then h else g)))"
    if "g \<in> insert new ?T" for g
    using V'(1,2) same [of g] S(9) that new by (cases "g = h"; cases "g = new") auto
  show "view_ok W'"
  proof (rule view_okI)
    show "vw_root W' \<in> vw_addrs W'" using T' by simp
  next
    fix g
    assume g: "g \<in> vw_addrs W'"
    have halves: "kids_ok (vw_nodes W') (vw_addrs W') nl \<and> kids_ok (vw_nodes W') (vw_addrs W') nr"
      by (rule splits_kids_ok [OF sp H(1,3)]) (use same kT [OF hT] T' in auto)
    consider "g = h" | "g = new" | "g = r" | "g \<in> ?T" "g \<noteq> h" using g T' by auto
    then show "node_ok (vw_nodes W' g) \<and> keys_ok (vw_nodes W' g) \<and> kids_ok (vw_nodes W') (vw_addrs W') (vw_nodes W' g) \<and>
       distinct (vkids (vw_nodes W' g)) \<and> vw_root W' \<notin> set (vkids (vw_nodes W' g))"
    proof cases
      case 1
      then show ?thesis
        using splits_node_ok [OF sp H(1)] splits_keys_ok [OF sp H(1,2)] halves dj V'(1) T' S(9) kT [OF hT] new(2) by auto
    next
      case 2
      then show ?thesis
        using splits_node_ok [OF sp H(1)] splits_keys_ok [OF sp H(1,2)] halves dj V'(2) T' S(9) kT [OF hT] new(2) by auto
    next
      case 3
      have "kids_ok (vw_nodes W') (vw_addrs W') ?R"
        using V'(1,2) S hT T' by (auto simp: kids_ok_def less_Suc_eq kid_lo_def kid_hi_def nth_Cons')
      moreover have "keys_ok ?R" using S by (simp add: keys_ok_def less_imp_le)
      ultimately show ?thesis using 3 V'(3) S lv ne T' by simp
    next
      case 4
      note G = view_okD [OF ok 4(1)]
      have "kids_ok (vw_nodes W') (vw_addrs W') (?V g)"
        unfolding kids_ok_def
      proof (intro allI impI)
        fix j
        assume j: "j < length (vkids (?V g))"
        show "vkids (?V g) ! j \<in> vw_addrs W' \<and> vlevel (vw_nodes W' (vkids (?V g) ! j)) + 1 = vlevel (?V g) \<and>
          vlo (vw_nodes W' (vkids (?V g) ! j)) = kid_lo (?V g) j \<and> vhi (vw_nodes W' (vkids (?V g) ! j)) = kid_hi (?V g) j"
          using kids_ok_nth [OF G(3) j] same [OF kT [OF 4(1) nth_mem [OF j]]] T' by simp
      qed
      then show ?thesis using 4 same [OF 4] G(1,2,4) kT [OF 4(1)] new(2) T' by auto
    qed
  next
    fix g g' x
    assume g: "g \<in> vw_addrs W'" "g' \<in> vw_addrs W'" and x: "x \<in> set (vkids (vw_nodes W' g))" "x \<in> set (vkids (vw_nodes W' g'))"
    let ?o = "\<lambda>g. if g = new then h else g"
    have inT: "x \<noteq> h \<and> x \<in> ?T" if "g \<in> insert new ?T" "x \<in> set (vkids (vw_nodes W' g))" for g
      using kids [OF that(1)] that kT [of "?o g" x] hT by (auto split: if_splits)
    show "g = g'"
    proof (cases "g = r \<or> g' = r")
      case True
      then show ?thesis using x V'(3) inT [of g] inT [of g'] g T' new(1) by auto
    next
      case False
      then have g2: "g \<in> insert new ?T" "g' \<in> insert new ?T" using g T' by auto
      have "x \<in> set (vkids (?V (?o g)))" "x \<in> set (vkids (?V (?o g')))" using kids [OF g2(1)] kids [OF g2(2)] x by auto
      moreover have "?o g \<in> ?T" "?o g' \<in> ?T" using g2 hT by auto
      ultimately have "?o g = ?o g'" using view_ok_disjoint [OF ok] by blast
      moreover have "\<not> (g = new \<and> g' = h)" "\<not> (g = h \<and> g' = new)" using x dj(1) V'(1,2) by auto
      ultimately show ?thesis by (auto split: if_splits)
    qed
  qed
  show "abs_map W' = abs_map W"
  proof
    fix k
    have "vroute ?R k = (if k \<le> sep then 0 else 1)"
      by (rule vroute_eqI) (auto split: if_splits)
    then have "vleaf W' k = vpath (vw_nodes W') (vlevel (?V h)) k (if k \<le> sep then h else new)"
      using V'(3) S(1) T'(2) by (simp add: vleaf_def)
    then show "abs_map W' k = abs_map W k"
      using split_lookup [OF ok at hT refl, of k] h by (simp add: abs_map_def vleaf_def)
  qed
  show "root_range W'" using V'(3) T'(2) S range by (simp add: root_range_def)
qed

end
