(* ===== verification/SplitResidency.thy ===== *)
theory SplitResidency
  imports SplitView
begin

text \<open>
  Splitting in the pool: how residency survives the changes that a split makes to pages, to the
  pool and to the backend. One lemma covers a change of a set of pages together with the admission
  of new ones; the cases of \<open>split_child\<close> and \<open>make_new_root\<close> are its instances.
\<close>

subsection \<open>Slots of an inner page as a set\<close>

lemma inner_slots_ex:
  assumes "page_ok p" "ptype p = BTreeInner"
  shows "(\<exists>i \<le> page.count p. children p ! i = v) \<longleftrightarrow> v \<in> set (inner_children p)"
proof
  assume "\<exists>i \<le> page.count p. children p ! i = v"
  then obtain i where i: "i \<le> page.count p" "children p ! i = v" by blast
  then have "inner_children p ! i = v" "i < length (inner_children p)"
    using page_ok_inner(1) [OF assms] by (simp_all add: inner_children_nth)
  then show "v \<in> set (inner_children p)" by (metis nth_mem)
qed (metis inner_child_nth [OF assms])

lemma parent_cases:
  assumes r: "residency W m b R" and a: "a \<in> R"
  obtains (super) "parent_ptr (m a) = vw_super W" "children (m (vw_super W)) ! 0 = swz a"
  | (inner) "parent_ptr (m a) \<in> R" "ptype (m (parent_ptr (m a))) = BTreeInner" "swz a \<in> set (inner_children (m (parent_ptr (m a))))"
proof -
  note ok = residencyD(10) [OF r, of "parent_ptr (m a)"]
  show thesis using residencyD(13) [OF r a] that inner_slots_ex [OF ok] unfolding points_back_def by blast
qed

lemma points_back_super: "parent_ptr (m a) = sr \<Longrightarrow> children (m sr) ! 0 = swz a \<Longrightarrow> points_back m sr R a"
  by (simp add: points_back_def)

lemma points_back_inner:
  assumes "parent_ptr (m a) = q" "q \<in> R" "ptype (m q) = BTreeInner" "page_ok (m q)" "swz a \<in> set (inner_children (m q))"
  shows "points_back m sr R a"
  using inner_slots_ex [OF assms(4,3)] assms unfolding points_back_def by blast

lemma inner_children_parent [simp]: "inner_children (p\<lparr>parent_ptr := q\<rparr>) = inner_children p"
  by (simp add: inner_children_def)

lemma page_ok_parent [simp]: "page_ok (p\<lparr>parent_ptr := q\<rparr>) = page_ok p" "node_of m (p\<lparr>parent_ptr := q\<rparr>) = node_of m p"
  by (simp_all add: page_ok_def node_of_def inner_ok_def bitmap_ok_def leaf_in_limits_def rangeValid_def
      inner_keys_def inner_children_def cong: if_cong)

lemma node_of_cong:
  assumes "ptype p = BTreeInner \<Longrightarrow> \<forall>v \<in> set (inner_children p). unswz m' v = unswz m v"
  shows "node_of m' p = node_of m p"
  using assms by (simp add: node_of_def)

subsection \<open>Changing pages and admitting new ones\<close>

lemma residency_change:
  assumes r: "residency W m b R"
    and W': "vtree (vw_nodes W') (vw_addrs W') (vw_root W')" "vw_super W' = vw_super W" "vw_addrs W \<subseteq> vw_addrs W'"
    and b': "ps_ok b'" "vw_addrs W' \<subseteq> ps_allocated b'"
    and A: "A \<subseteq> R" and N: "\<And>a. a \<in> N \<Longrightarrow> a \<notin> R \<and> \<not> swizzled a \<and> a \<noteq> 0 \<and> a \<noteq> vw_super W"
    and sr: "level (m' (vw_super W)) = 255" "length (children (m' (vw_super W))) = max_inner_entries"
      "slot_ok m' (R \<union> N) (vw_super W) (children (m' (vw_super W)) ! 0)"
      "unswz m' (children (m' (vw_super W)) ! 0) = vw_root W'"
    and same: "\<And>a. a \<in> R \<Longrightarrow> a \<notin> A \<Longrightarrow> \<exists>q. m' a = (m a)\<lparr>parent_ptr := q\<rparr>"
      "\<And>a. a \<in> R \<Longrightarrow> a \<notin> A \<Longrightarrow> vw_nodes W' (remote_address (m a)) = vw_nodes W (remote_address (m a))"
    and ch: "\<And>a. a \<in> A \<union> N \<Longrightarrow> page_ok (m' a) \<and> dirty (m' a) \<and> remote_address (m' a) \<in> vw_addrs W' \<and>
        node_of m' (m' a) = vw_nodes W' (remote_address (m' a))"
    and remA: "\<And>a. a \<in> A \<Longrightarrow> remote_address (m' a) = remote_address (m a)"
    and remN: "\<And>a. a \<in> N \<Longrightarrow> remote_address (m' a) \<notin> vw_addrs W" "inj_on (\<lambda>a. remote_address (m' a)) N"
    and slots: "\<And>a v. a \<in> A \<union> N \<Longrightarrow> ptype (m' a) = BTreeInner \<Longrightarrow> v \<in> set (inner_children (m' a)) \<Longrightarrow> slot_ok m' (R \<union> N) a v"
    and keep: "\<And>c. c \<in> R \<Longrightarrow> parent_ptr (m c) \<in> R \<Longrightarrow> parent_ptr (m c) \<notin> A \<Longrightarrow> parent_ptr (m' c) = parent_ptr (m c)"
    and pback: "\<And>c. c \<in> R \<union> N \<Longrightarrow> \<not> (c \<in> R \<and> parent_ptr (m c) \<in> R \<and> parent_ptr (m c) \<notin> A) \<Longrightarrow>
        points_back m' (vw_super W) (R \<union> N) c"
    and rest: "\<And>g. g \<in> vw_addrs W' \<Longrightarrow> (\<And>a. a \<in> A \<union> N \<Longrightarrow> remote_address (m' a) \<noteq> g) \<Longrightarrow>
        g \<in> vw_addrs W \<and> vw_nodes W' g = vw_nodes W g \<and> ps_page b' (offset g) = ps_page b (offset g) \<or> at_rest (vw_nodes W') b' g"
  shows "residency W' m' b' (R \<union> N)"
proof -
  note D = residencyD [OF r]
  have rem: "remote_address (m' a) = remote_address (m a)" if "a \<in> R" for a
    using same(1) [OF that] remA that by (cases "a \<in> A") force+
  have unch: "ptype (m' a) = ptype (m a)" "page.count (m' a) = page.count (m a)" "children (m' a) = children (m a)"
    "dirty (m' a) = dirty (m a)" "page_ok (m' a) = page_ok (m a)" "node_of n (m' a) = node_of n (m a)"
    "inner_children (m' a) = inner_children (m a)" if "a \<in> R" "a \<notin> A" for a n
    using same(1) [OF that] by auto
  have kid: "v \<in> set (inner_children (m a)) \<Longrightarrow> \<not> swizzled v \<Longrightarrow> v \<in> vw_addrs W" if a: "a \<in> R" "ptype (m a) = BTreeInner" for a v
  proof -
    assume v: "v \<in> set (inner_children (m a))" "\<not> swizzled v"
    then obtain j where "j \<le> page.count (m a)" "v = children (m a) ! j" by (elim inner_child_nth [OF D(10) [OF a(1)] a(2)])
    then show "v \<in> vw_addrs W" using resident_kid(1) [OF r a, of j] v(2) by (simp add: unswz_def)
  qed
  have slot: "slot_ok m R a v" if "a \<in> R" "ptype (m a) = BTreeInner" "v \<in> set (inner_children (m a))" for a v
    using D(15) [OF that(1,2)] inner_child_nth [OF D(10) [OF that(1)] that(2,3)] by metis
  have unsw: "unswz m' v = unswz m v" if "slot_ok m R a v" for a v
    by (rule unswz_cong) (use that rem in \<open>auto simp: slot_ok_def\<close>)
  have node: "node_of m' (m a) = node_of m (m a)" if "a \<in> R" for a
    by (rule node_of_cong) (use unsw slot that in blast)
  show ?thesis
  proof (rule residencyI)
    show "vtree (vw_nodes W') (vw_addrs W') (vw_root W')" "ps_ok b'" "vw_addrs W' \<subseteq> ps_allocated b'" by (rule W' b')+
    show "level (m' (vw_super W')) = 255" "length (children (m' (vw_super W'))) = max_inner_entries" using sr W'(2) by simp_all
    show "vw_super W' \<notin> R \<union> N" "vw_super W' \<noteq> 0" using D(6,7) N W'(2) by auto
    show "\<not> swizzled a" "a \<noteq> 0" if "a \<in> R \<union> N" for a using that D(8,9) N by auto
    show "page_ok (m' a)" if "a \<in> R \<union> N" for a using that ch unch(5) D(10) by (cases "a \<in> A \<union> N") auto
    show "remote_address (m' a) \<in> vw_addrs W'" if "a \<in> R \<union> N" for a
      using that ch rem D(11) W'(3) by (cases "a \<in> A \<union> N") auto
    show "node_of m' (m' a) = vw_nodes W' (remote_address (m' a))" if "a \<in> R \<union> N" for a
    proof (cases "a \<in> A \<union> N")
      case False
      then have aR: "a \<in> R" "a \<notin> A" using that by auto
      show ?thesis using unch(6) [OF aR] node [OF aR(1)] D(12) [OF aR(1)] same(2) [OF aR] rem [OF aR(1)] by simp
    qed (use ch in blast)
    show "points_back m' (vw_super W') (R \<union> N) c" if c: "c \<in> R \<union> N" for c
    proof (cases "c \<in> R \<and> parent_ptr (m c) \<in> R \<and> parent_ptr (m c) \<notin> A")
      case True
      then have p: "parent_ptr (m' c) = parent_ptr (m c)" using keep by blast
      have "parent_ptr (m c) \<noteq> vw_super W" using True D(6) by metis
      then show ?thesis using D(13) [of c] True unch(1-3) [of "parent_ptr (m c)"] by (auto simp: points_back_def p)
    qed (use pback [OF c] W'(2) in simp)
    show "a = a'" if a: "a \<in> R \<union> N" "a' \<in> R \<union> N" and eq: "remote_address (m' a) = remote_address (m' a')" for a a'
    proof -
      have o: "remote_address (m' a) \<in> vw_addrs W" if "a \<in> R" for a using D(11) [OF that] rem [OF that] by simp
      consider "a \<in> R" "a' \<in> R" | "a \<in> N" "a' \<in> N" | "a \<in> R" "a' \<in> N" | "a \<in> N" "a' \<in> R" using a by blast
      then show ?thesis
      proof cases
        case 1
        then show ?thesis using D(14) rem eq by simp
      next
        case 2
        then show ?thesis using remN(2) eq by (auto dest: inj_onD)
      qed (use o remN(1) eq in metis)+
    qed
    show "slot_ok m' (R \<union> N) a (children (m' a) ! i)"
      if a: "a \<in> R \<union> N" and t: "ptype (m' a) = BTreeInner" and i: "i \<le> page.count (m' a)" for a i
    proof (cases "a \<in> A \<union> N")
      case True
      have "page_ok (m' a)" using ch [OF True] by blast
      from inner_slots_ex [OF this t, of "children (m' a) ! i"] i have "children (m' a) ! i \<in> set (inner_children (m' a))" by blast
      then show ?thesis by (rule slots [OF True t])
    next
      case False
      then have aR: "a \<in> R" "a \<notin> A" using a by auto
      note u = unch [OF aR]
      have s: "slot_ok m R a (children (m a) ! i)" using D(15) [OF aR(1)] t i u(1,2) by simp
      have "hide (children (m a) ! i) \<in> R \<and> parent_ptr (m' (hide (children (m a) ! i))) = a" if "swizzled (children (m a) ! i)"
        using s that keep [of "hide (children (m a) ! i)"] aR by (auto simp: slot_ok_def)
      moreover have "remote_address (m' c) \<noteq> children (m a) ! i" if v: "\<not> swizzled (children (m a) ! i)" and c: "c \<in> R \<union> N" for c
      proof (cases "c \<in> R")
        case True
        then show ?thesis using s v rem by (simp add: slot_ok_def)
      next
        case False
        have "children (m a) ! i \<in> vw_addrs W" using resident_kid(1) [OF r aR(1), of i] t i u(1,2) v by (simp add: unswz_def)
        moreover have "c \<in> N" using False c by simp
        ultimately show ?thesis using remN(1) [of c] by auto
      qed
      ultimately show ?thesis unfolding u(3) by (simp add: slot_ok_def)
    qed
    show "at_rest (vw_nodes W') b' g" if g: "g \<in> vw_addrs W'"
      and cl: "\<And>a. a \<in> R \<union> N \<Longrightarrow> remote_address (m' a) = g \<Longrightarrow> \<not> dirty (m' a)" for g
    proof -
      have no: "remote_address (m' a) \<noteq> g" if "a \<in> A \<union> N" for a
        using ch [OF that] cl [of a] that A by blast
      have "at_rest (vw_nodes W) b g" if gW: "g \<in> vw_addrs W"
      proof (rule D(16) [OF gW])
        fix a
        assume a: "a \<in> R" "remote_address (m a) = g"
        then have "a \<notin> A" using no rem by auto
        then show "\<not> dirty (m a)" using cl [of a] a rem unch(4) by simp
      qed
      then show ?thesis using rest [OF g no] by (auto simp: at_rest_def)
    qed
    show "slot_ok m' (R \<union> N) (vw_super W') (children (m' (vw_super W')) ! 0)"
      "unswz m' (children (m' (vw_super W')) ! 0) = vw_root W'" using sr W'(2) by simp_all
  qed
qed

subsection \<open>The pages that a split produces\<close>

lemma leaf_split_node:
  assumes ok: "page_ok p" "ptype p = BTreeLeaf" and n: "4 \<le> page.count p" and sp: "leaf_split p (mk_BTreeLeaf g) = (sep, l, r)"
  shows "page_ok l" "page_ok r" "splits (node_of m p) sep (node_of m l) (node_of m r)"
    "remote_address l = remote_address p" "parent_ptr l = parent_ptr p" "pos_state l = pos_state p" "ptype l = BTreeLeaf"
    "remote_address r = g" "bitmap r = 0" "ptype r = BTreeLeaf" "page.count l < max_leaf_entries" "page.count r < max_leaf_entries"
    "pos_state r = POS_REMOTE" "parent_ptr r = 0" "page.count l = page.count p div 2" "page.count r = page.count p - page.count p div 2"
proof -
  have p: "leaf_ok p" "leaf_in_limits p" "bitmap p = 0" "level p = 0" using ok by (simp_all add: page_ok_def)
  have new: "length (data (mk_BTreeLeaf g)) = max_leaf_entries" by (simp add: mk_BTreeLeaf_def zero_page_def)
  have n2: "2 \<le> page.count p" using n by simp
  note parts = leaf_split_parts [OF p(1) new n2 sp]
  note c = leaf_split_correct [OF p(1,2) new n2 sp]
  have lf: "remote_address l = remote_address p" "parent_ptr l = parent_ptr p" "pos_state l = pos_state p" "ptype l = BTreeLeaf"
    "bitmap l = 0" "level l = 0" "min_limit l = min_limit p" "max_limit l = sep"
    by (subst parts(6), simp add: ok(2) p)+
  have rf: "remote_address r = g" "bitmap r = 0" "ptype r = BTreeLeaf" "level r = 0" "min_limit r = sep" "max_limit r = max_limit p"
    "pos_state r = POS_REMOTE" "parent_ptr r = 0"
    by (subst parts(7), simp add: mk_BTreeLeaf_def zero_page_def)+
  show "remote_address l = remote_address p" "parent_ptr l = parent_ptr p" "pos_state l = pos_state p" "ptype l = BTreeLeaf"
    "remote_address r = g" "bitmap r = 0" "ptype r = BTreeLeaf" "pos_state r = POS_REMOTE" "parent_ptr r = 0" by (rule lf rf)+
  show "page_ok l" "page_ok r" using c lf rf by (simp_all add: page_ok_def)
  have "leaf_entries p = leaf_entries l @ leaf_entries r" using c by simp
  then show "splits (node_of m p) sep (node_of m l) (node_of m r)"
    using c n lf rf ok(2) by (simp add: node_of_def leaf_keys_def)
  show "page.count l = page.count p div 2" "page.count r = page.count p - page.count p div 2" by (rule parts(3,4))+
  have "page.count p \<le> 59" using p(1) by (simp add: leaf_ok_def)
  then show "page.count l < max_leaf_entries" "page.count r < max_leaf_entries" using parts(3,4) n by simp_all
qed

lemma inner_insert_node:
  assumes ok: "page_ok p" "ptype p = BTreeInner" and nf: "\<not> inner_isFull p" and i: "i \<le> page.count p"
    and sep: "kid_lo (node_of m p) i < sep" "sep < kid_hi (node_of m p) i"
  obtains p' where "inner_insert p sep g = Inr p'" "page_ok p'" "ptype p' = BTreeInner"
    "inner_children p' = take (Suc i) (inner_children p) @ g # drop (Suc i) (inner_children p)"
    "\<And>n. node_of n p' = ins_kid i sep (unswz n g) (node_of n p)" "page.count p' = Suc (page.count p)"
    "remote_address p' = remote_address p" "parent_ptr p' = parent_ptr p" "pos_state p' = pos_state p" "level p' = level p"
proof -
  note o = page_ok_inner [OF ok]
  let ?n = "node_of m p"
  have ks: "vkeys ?n = inner_keys p" using ok(2) by (simp add: node_of_def)
  have srt: "sorted_keys (vkeys ?n)" using o(1) ks by (simp add: inner_ok_def)
  have il: "i \<le> length (vkeys ?n)" using i o(1) ks by simp
  have "vroute ?n sep = i" by (rule vroute_unique [OF srt il sep(1)]) (use sep(2) in simp)
  then have lb: "inner_lowerBound p sep = i" using vroute_node_of(1) [OF ok, of m sep] by simp
  have n: "page.count p < max_inner_entries - 1" using o(5) nf by (simp add: inner_isFull_def)
  have new: "sep \<notin> set (inner_keys p)"
  proof
    assume "sep \<in> set (inner_keys p)"
    then obtain j where j: "j < length (vkeys ?n)" "vkeys ?n ! j = sep" unfolding ks by (auto simp: in_set_conv_nth)
    note b = vroute_bounds [where k = sep, OF srt, unfolded \<open>vroute ?n sep = i\<close>]
    have "vkeys ?n ! i \<noteq> sep \<or> i = length (vkeys ?n)" using sep(2) by (auto simp: kid_hi_def split: if_splits)
    then show False
    proof (cases "j = i")
      case False
      then consider "j < i" | "i < j" by linarith
      then show False
      proof cases
        case 2
        then have "vkeys ?n ! i < vkeys ?n ! j" using srt j(1) by (simp add: sorted_wrt_iff_nth_less)
        moreover have "sep \<le> vkeys ?n ! i" using b(3) [of i] 2 j(1) by simp
        ultimately show False using j(2) by simp
      qed (use b(2) [of j] j in simp)
    qed (use j in auto)
  qed
  from inner_insert_parts [OF o(1) n lb [symmetric], of g] obtain p' where ins: "inner_insert p sep g = Inr p'"
    and fr: "p' = p\<lparr>keys := keys p', children := children p', bitmap := bitmap p', page.count := page.count p', dirty := True\<rparr>"
    by metis
  note c = inner_insert_correct [OF o(1) nf new o(2) ins, unfolded lb]
  have f: "ptype p' = BTreeInner" "level p' = level p" "min_limit p' = min_limit p" "max_limit p' = max_limit p"
    "remote_address p' = remote_address p" "parent_ptr p' = parent_ptr p" "pos_state p' = pos_state p"
    by (subst fr, simp add: ok(2))+
  have "page_ok p'" using c f o(3,4) by (simp add: page_ok_def)
  moreover have "node_of n' p' = ins_kid i sep (unswz n' g) (node_of n' p)" for n'
    using c f ok(2) by (simp add: node_of_def take_map drop_map)
  ultimately show ?thesis using ins c f by (intro that [of p']) simp_all
qed

lemma inner_split_node:
  assumes ok: "page_ok p" "ptype p = BTreeInner" "keys_ok (node_of m p)" and n: "4 \<le> page.count p"
    and sp: "inner_split p (mk_BTreeInner (level p) g) = (sep, l, r)"
  shows "page_ok l" "page_ok r" "splits (node_of m p) sep (node_of m l) (node_of m r)"
    "inner_children p = inner_children l @ inner_children r"
    "remote_address l = remote_address p" "parent_ptr l = parent_ptr p" "pos_state l = pos_state p" "ptype l = BTreeInner"
    "remote_address r = g" "ptype r = BTreeInner" "level l = level p" "level r = level p"
    "page.count l = page.count p div 2 - 1" "page.count r = page.count p - page.count p div 2"
proof -
  note o = page_ok_inner [OF ok(1,2)]
  have new: "length (keys (mk_BTreeInner (level p) g)) = max_inner_entries" "length (children (mk_BTreeInner (level p) g)) = max_inner_entries"
    by (simp_all add: mk_BTreeInner_def zero_page_def)
  have n2: "2 \<le> page.count p" using n by simp
  note parts = inner_split_parts [OF o(1) new n2 sp]
  note c = inner_split_correct [OF o(1,2) new n2 sp]
  have lf: "remote_address l = remote_address p" "parent_ptr l = parent_ptr p" "pos_state l = pos_state p" "ptype l = BTreeInner"
    "level l = level p" "min_limit l = min_limit p" "max_limit l = sep"
    by (subst parts(7), simp add: ok(2))+
  have rf: "remote_address r = g" "ptype r = BTreeInner" "level r = level p" "min_limit r = sep" "max_limit r = max_limit p"
    by (subst parts(8), simp add: mk_BTreeInner_def)+
  show "remote_address l = remote_address p" "parent_ptr l = parent_ptr p" "pos_state l = pos_state p" "ptype l = BTreeInner"
    "remote_address r = g" "ptype r = BTreeInner" "level l = level p" "level r = level p" by (rule lf rf)+
  show "page.count l = page.count p div 2 - 1" "page.count r = page.count p - page.count p div 2" by (rule parts(3,4))+
  show "page_ok l" "page_ok r" using c lf rf o(3,4) by (simp_all add: page_ok_def)
  show ch: "inner_children p = inner_children l @ inner_children r" using parts(2) by simp
  have k: "inner_keys p = inner_keys l @ sep # inner_keys r" using parts(1) by simp
  have len: "length (inner_keys l) = page.count l" "length (inner_keys r) = page.count r" "length (inner_children l) = Suc (page.count l)"
    using c by simp_all
  have b: "\<forall>x \<in> set (inner_keys p). min_limit p \<le> x \<and> x \<le> max_limit p" using ok(2,3) by (simp add: keys_ok_def node_of_def)
  have "inner_keys l \<noteq> []" "inner_keys r \<noteq> []" using len parts(3,4) n by auto
  then obtain x y where xy: "x \<in> set (inner_keys l)" "y \<in> set (inner_keys r)" using hd_in_set by blast
  have "min_limit p \<le> x" "y \<le> max_limit p" using b k xy by auto
  moreover have "x < sep" "sep < y" using c xy by auto
  ultimately have "min_limit p < sep" "sep < max_limit p" by (auto intro: le_less_trans less_le_trans)
  then show "splits (node_of m p) sep (node_of m l) (node_of m r)"
    using lf rf ok(2) k ch len by (simp add: node_of_def)
qed

subsection \<open>The invariant of the cache\<close>

text \<open>
  A state that differs from one with the invariant in pages in use, in the backend, and in the
  slots \<open>N\<close> newly put into use has the invariant for a new view.
\<close>

lemma rebuild_inv:
  assumes inv: "cache_inv E W s"
    and pool: "pool_inv s'" "pool_set s' = pool_set s"
    and f: "ht s' = ht s" "local_pages s' = local_pages s"
    and hot: "hot_set s' = hot_set s \<union> N"
    and N: "\<And>a. a \<in> N \<Longrightarrow> pos_state (mem s a) = POS_REMOTE"
    and frame: "\<And>a. a \<in> pool_set s \<Longrightarrow> a \<notin> hot_set s \<Longrightarrow> a \<notin> N \<Longrightarrow> mem s' a = mem s a"
    and pt: "table_ok (pt s')"
      "\<And>a. a \<in> N \<Longrightarrow> get_with_bucket (hash_of E) (pt s') (remote_address (mem s' a)) = a"
      "\<And>k. (\<And>a. a \<in> N \<Longrightarrow> remote_address (mem s' a) \<noteq> k) \<Longrightarrow>
        get_with_bucket (hash_of E) (pt s') k = get_with_bucket (hash_of E) (pt s) k"
    and rem: "\<And>a. a \<in> hot_set s \<Longrightarrow> remote_address (mem s' a) = remote_address (mem s a)"
    and res: "residency W' (mem s') (be s') (hot_set s \<union> N)" and sup: "vw_super W' = vw_super W"
  shows "cache_inv E W' s'"
proof -
  note I = cache_invD [OF inv]
  have eq: "mem s' a = mem s a" if "a \<in> set (cool_slots (ht s)) \<union> set (local_pages s)" for a
    using that I(4) free_disjoint_hot [OF I(4) that] N [of a] by (intro frame) (auto simp: free_inv_def)
  have dy: "in_use (pos_state (mem s' a))" if a: "a \<in> pool_set s" "dirty (mem s' a)" for a
  proof (cases "a \<in> hot_set s \<union> N")
    case True
    then show ?thesis using hot by (auto simp: hot_set_def)
  next
    case False
    then show ?thesis using I(4) frame [OF a(1)] a by (auto simp: free_inv_def hot_set_def)
  qed
  have fi: "free_inv s'" using I(4) eq dy unfolding free_inv_def pool f by simp
  have nN: "a \<notin> N" if "a \<in> hot_set s" for a using N [of a] that by (auto simp: hot_set_def in_use_def)
  have "get_with_bucket (hash_of E) (pt s') (remote_address (mem s' a)) = a" if a: "a \<in> hot_set s \<union> N" for a
  proof (cases "a \<in> N")
    case False
    then have ah: "a \<in> hot_set s" using a by simp
    have "remote_address (mem s' c) \<noteq> remote_address (mem s a)" if "c \<in> N" for c
      using residencyD(14) [OF res, of c a] that ah rem [OF ah] False by auto
    then show ?thesis using pt(3) [of "remote_address (mem s a)"] I(7) [OF ah] rem [OF ah] by simp
  qed (rule pt(2))
  then show ?thesis using I(2,5) pool pt(1) fi res sup by (simp add: cache_inv_def f hot)
qed

lemma pool_inv_cong:
  assumes "pool_inv s" "pool s' = pool s" "cstate s' = cstate s"
    "\<And>a. a \<in> pool_set s \<Longrightarrow> pos_state (mem s a) = POS_REMOTE \<Longrightarrow> pos_state (mem s' a) = POS_REMOTE"
  shows "pool_inv s'"
proof -
  obtain al where al: "pool s = Some al" "alloc_ok al" "cstate s = (if head_idx al = page_num al then 1 else 0)"
    "\<forall>i < page_num al. head_idx al \<le> i \<longrightarrow> pos_state (mem s (slot_addr al i)) = POS_REMOTE"
    using assms(1) by (auto simp: pool_inv_def)
  have "slot_addr al i \<in> pool_set s" if "i < page_num al" for i using al(1) that by (auto simp: pool_set_def pool_slots_iff)
  then show ?thesis using al assms(2-4) by (auto simp: pool_inv_def)
qed

text \<open>Taking a slot in the warm-up phase looks at the pool only.\<close>

definition fresh_slot :: "u64 \<Rightarrow> 'a cache_st \<Rightarrow> bool" where
  "fresh_slot p s \<longleftrightarrow> (\<exists>al i. pool s = Some al \<and> i < page_num al \<and> head_idx al \<le> i \<and> p = slot_addr al i)"

lemma take_slot:
  assumes inv: "pool_inv s" and u: "unused s \<noteq> 0"
  obtains p inst c where "get_empty_page E s = Inr (p, s\<lparr>pool := inst, cstate := c\<rparr>)" "p \<in> pool_set s" "p \<noteq> 0"
    "pos_state (mem s p) = POS_REMOTE" "pool_inv (s\<lparr>pool := inst, cstate := c\<rparr>)"
    "\<And>t :: 'a cache_st. pool t = inst \<Longrightarrow> \<not> fresh_slot p t \<and> pool_set t = pool_set s \<and> unused s = Suc (unused t)"
proof -
  have warm: "cstate s \<noteq> 1" using unused_dynamic [OF inv] u by simp
  obtain al where al: "pool s = Some al" "alloc_ok al" "cstate s = (if head_idx al = page_num al then 1 else 0)"
    "\<forall>i < page_num al. head_idx al \<le> i \<longrightarrow> pos_state (mem s (slot_addr al i)) = POS_REMOTE"
    using inv by (auto simp: pool_inv_def)
  have lt: "head_idx al < page_num al" using al(2,3) warm by (auto simp: alloc_ok_def split: if_splits)
  define al' where "al' = al\<lparr>head_idx := head_idx al + 1\<rparr>"
  define p where "p = slot_addr al (head_idx al)"
  define c where "c = (if head_idx al + 1 = page_num al then 1 else cstate s)"
  from allocate_correct [OF al(2)] lt have a: "allocate (Some al) = (p, head_idx al + 1 = page_num al, Some al')"
    "alloc_ok al'" "unat (head_idx al + 1) = unat (head_idx al) + 1" by (simp_all add: al'_def p_def)
  have p: "p \<in> pool_set s" "pos_state (mem s p) = POS_REMOTE" using al(1,4) lt by (auto simp: pool_set_def pool_slots_iff p_def)
  have p0: "p \<noteq> 0" by (rule pool_slot_facts(1) [OF inv p(1)])
  obtain n where "get_empty_fuel s = Suc n" by (cases "get_empty_fuel s") (auto simp: get_empty_fuel_def split: option.splits)
  then have eq: "get_empty_page E s = Inr (p, s\<lparr>pool := Some al', cstate := c\<rparr>)"
    using warm a(1) p0 by (simp add: get_empty_page_def try_get_empty_page_def al(1) Let_def c_def)
  have al'f: "page_num al' = page_num al" "head_idx al' = head_idx al + 1" "slot_addr al' = slot_addr al" "pool_slots al' = pool_slots al"
    by (simp_all add: al'_def slot_addr_def fun_eq_iff pool_slots_def)
  have le: "head_idx al \<le> i" "i \<noteq> head_idx al" if "head_idx al + 1 \<le> i" for i
    using that a(3) by (auto simp: word_le_nat_alt)
  have "cstate s = 0" using al(3) warm by (auto split: if_splits)
  then have pi: "pool_inv (s\<lparr>pool := Some al', cstate := c\<rparr>)"
    unfolding pool_inv_def using a(2) al(4) le by (intro exI [of _ al']) (auto simp: al'f c_def)
  have nf: "\<not> fresh_slot p t" if "pool t = Some al'" for t :: "'a cache_st"
    using that le slot_addr_inject [OF al(2) lt] by (fastforce simp: fresh_slot_def al'f p_def)
  have "pool_set t = pool_set s \<and> unused s = Suc (unused t)" if "pool t = Some al'" for t :: "'a cache_st"
    using that lt a(3) by (simp add: pool_set_def unused_def al(1) al'f word_less_nat_alt)
  with nf show ?thesis by (intro that [OF eq p(1) p0 p(2) pi]) blast
qed

subsection \<open>A leaf below an inner page\<close>

lemma alloc_facts:
  assumes r: "residency W m b0 R" and al: "ps_alloc b0 = (g, b)" "g \<noteq> ga_Null"
  shows "g \<notin> vw_addrs W" "ps_ok b" "insert g (vw_addrs W) \<subseteq> ps_allocated b" "ps_page b = ps_page b0" "\<not> swizzled g"
    "a \<in> R \<Longrightarrow> remote_address (m a) \<noteq> g"
proof -
  note f = ps_alloc_fresh [OF residencyD(2) [OF r] al]
  show n: "g \<notin> vw_addrs W" using f residencyD(3) [OF r] by blast
  show "ps_ok b" "insert g (vw_addrs W) \<subseteq> ps_allocated b" using f residencyD(3) [OF r] by auto
  show "ps_page b = ps_page b0" using ps_alloc_cases [OF residencyD(2) [OF r]] al by auto
  show "\<not> swizzled g" using ps_allocated_not_swizzled [of b g] f by blast
  show "remote_address (m a) \<noteq> g" if "a \<in> R" using residencyD(11) [OF r that] n by auto
qed

lemma at_rest_new:
  assumes "ps_ok b" "g \<in> ps_allocated b" "page_ok p" "bitmap p = 0" "remote_address p = g" "node_of m p = V g"
    "pos_state p = POS_REMOTE" "parent_ptr p = 0"
  shows "at_rest V (ps_write b g p) g"
proof -
  have "ps_page (ps_write b g p) (offset g) = p"
    using ps_allocated_in_bounds [OF assms(1,2)] by (simp add: ps_write_def)
  then show ?thesis using node_of_at_rest [OF assms(3,4), of "\<lambda>_. zero_page" m] assms(3-8) by (simp add: at_rest_def)
qed

lemma ps_page_other:
  assumes "h \<in> ps_allocated b" "g \<in> ps_allocated b" "g \<noteq> h"
  shows "ps_page (ps_write b g p) (offset h) = ps_page b (offset h)"
  using ps_allocated_eqI [OF assms(1,2)] assms(3) by (auto simp: ps_write_def)

text \<open>What a page in use and its slot in the parent are in the view.\<close>

lemma child_in_view:
  assumes r: "residency W m b R" and P: "P \<in> R" "ptype (m P) = BTreeInner" "i \<le> page.count (m P)" "children (m P) ! i = swz c"
  defines "p \<equiv> remote_address (m P)"
  shows "p \<in> vw_addrs W" "vlevel (vw_nodes W p) \<noteq> 0" "i \<le> length (vkeys (vw_nodes W p))"
    "length (vkeys (vw_nodes W p)) = page.count (m P)" "\<not> swizzled c \<Longrightarrow> remote_address (m c) = vkids (vw_nodes W p) ! i"
    "vw_nodes W p = node_of m (m P)" "page_ok (m P)"
proof -
  show n: "vw_nodes W p = node_of m (m P)" using residencyD(12) [OF r P(1)] by (simp add: p_def)
  show ok: "page_ok (m P)" by (rule residencyD(10) [OF r P(1)])
  show "p \<in> vw_addrs W" using residencyD(11) [OF r P(1)] by (simp add: p_def)
  show "vlevel (vw_nodes W p) \<noteq> 0" using page_ok_inner(3) [OF ok P(2)] P(2) by (simp add: n vlevel_node_of)
  show "i \<le> length (vkeys (vw_nodes W p))" "length (vkeys (vw_nodes W p)) = page.count (m P)"
    using vkids_length(2) [OF ok P(2)] P(3) by (simp_all add: n)
  show "remote_address (m c) = vkids (vw_nodes W p) ! i" if "\<not> swizzled c"
    using vkids_nth(2) [OF ok P(2,3), of m] P(4) that by (simp add: n unswz_def)
qed

lemma residency_split_leaf:
  assumes r: "residency W m b0 R"
    and P: "P \<in> R" "ptype (m P) = BTreeInner" "i \<le> page.count (m P)" "children (m P) ! i = swz c" "\<not> inner_isFull (m P)"
    and c: "c \<in> R" "ptype (m c) = BTreeLeaf" "4 \<le> page.count (m c)"
    and al: "ps_alloc b0 = (g, b)" "g \<noteq> ga_Null" and sp: "leaf_split (m c) (mk_BTreeLeaf g) = (sep, l, nr)"
    and ins: "inner_insert (m P) sep g = Inr p'"
    and m': "m' = m(c := l\<lparr>dirty := True\<rparr>, P := p'\<lparr>dirty := True\<rparr>)" and b': "b' = ps_write b g nr"
  defines "W' \<equiv> split_child_view (remote_address (m P)) (remote_address (m c)) g i sep (node_of m l) (node_of m nr) W"
  shows "residency W' m' b' R" "view_ok W'" "abs_map W' = abs_map W" "root_range W' = root_range W"
    "a \<in> R \<Longrightarrow> remote_address (m' a) = remote_address (m a) \<and> parent_ptr (m' a) = parent_ptr (m a) \<and> pos_state (m' a) = pos_state (m a)"
proof -
  note D = residencyD [OF r]
  have ok: "view_ok W" by (rule residency_view_ok [OF r])
  have nsc: "\<not> swizzled c" by (rule D(8) [OF c(1)])
  note V = child_in_view [OF r P(1-4)]
  let ?p = "remote_address (m P)" and ?h = "remote_address (m c)"
  have h: "?h = vkids (vw_nodes W ?p) ! i" by (rule V(5) [OF nsc])
  have okc: "page_ok (m c)" and nc: "vw_nodes W ?h = node_of m (m c)" using D(10,12) [OF c(1)] by simp_all
  note L = leaf_split_node [OF okc c(2,3) sp]
  have spl: "splits (vw_nodes W ?h) sep (node_of m l) (node_of m nr)" unfolding nc by (rule L(3))
  note F = alloc_facts [OF r al]
  have room: "length (vkeys (vw_nodes W ?p)) + 1 < max_inner_entries"
    using page_ok_inner(5) [OF V(7) P(2)] P(5) by (simp add: V(4) inner_isFull_def)
  note S = split_child_ok [OF ok V(1,2,3) room h F(1) spl, folded W'_def]
  show "view_ok W'" "abs_map W' = abs_map W" "root_range W' = root_range W" by (rule S)+
  obtain lv where lv: "vlevel (vw_nodes W ?p) = Suc lv" using V(2) by (cases "vlevel (vw_nodes W ?p)") auto
  have seps: "kid_lo (node_of m (m P)) i < sep" "sep < kid_hi (node_of m (m P)) i"
    using kid_facts(3,4) [OF ok V(1) lv V(3)] splits_fields(7,8) [OF spl] by (simp_all add: h V(6))
  from inner_insert_node [OF V(7) P(2,5,3) seps, of g] ins obtain p'' where
    I: "p' = p''" "page_ok p''" "ptype p'' = BTreeInner"
    "inner_children p'' = take (Suc i) (inner_children (m P)) @ g # drop (Suc i) (inner_children (m P))"
    "\<And>n. node_of n p'' = ins_kid i sep (unswz n g) (node_of n (m P))"
    "remote_address p'' = ?p" "parent_ptr p'' = parent_ptr (m P)" "pos_state p'' = pos_state (m P)" by (metis Inr_inject)
  have Pc: "P \<noteq> c" using P(2) c(2) by auto
  have ph: "?p \<noteq> ?h" using D(14) [OF P(1) c(1)] Pc by auto
  have mP: "m' P = p''\<lparr>dirty := True\<rparr>" and mc: "m' c = l\<lparr>dirty := True\<rparr>"
    and mo: "a \<noteq> P \<Longrightarrow> a \<noteq> c \<Longrightarrow> m' a = m a" for a using Pc by (simp_all add: m' I(1))
  show same: "remote_address (m' a) = remote_address (m a) \<and> parent_ptr (m' a) = parent_ptr (m a) \<and> pos_state (m' a) = pos_state (m a)" for a
    using mo [of a] mP mc I(6-8) L(4-6) by (cases "a = P"; cases "a = c") auto
  have srPc: "vw_super W \<noteq> P" "vw_super W \<noteq> c" using D(6) P(1) c(1) by auto
  have msr: "m' (vw_super W) = m (vw_super W)" by (rule mo [OF srPc])
  have slot: "slot_ok m' R a v = slot_ok m R a v" for a v using same by (auto simp: slot_ok_def)
  have unsw: "unswz m' v = unswz m v" for v by (rule unswz_cong) (simp add: same)
  have node: "node_of m' q = node_of m q" for q using unsw by (intro node_of_cong) simp
  have dirt: "page_ok (q\<lparr>dirty := d\<rparr>) = page_ok q" "node_of n (q\<lparr>dirty := d\<rparr>) = node_of n q"
    "inner_children (q\<lparr>dirty := d\<rparr>) = inner_children q" for q d n
    by (simp_all add: page_ok_def node_of_def inner_ok_def bitmap_ok_def leaf_in_limits_def rangeValid_def
        inner_keys_def inner_children_def cong: if_cong)
  have kids: "set (inner_children p'') = insert g (set (inner_children (m P)))"
    unfolding I(4) by (metis append_take_drop_id list.simps(15) set_append Un_insert_right)
  have "residency W' m' b' (R \<union> {})"
  proof (rule residency_change [where A = "{c, P}", OF r])
    show "vtree (vw_nodes W') (vw_addrs W') (vw_root W')" using S(1) by (simp add: view_ok_def)
    show "ps_ok b'" "vw_addrs W' \<subseteq> ps_allocated b'"
      unfolding b' using ps.inv_wr [OF F(2)] F(3) by (simp_all add: W'_def ps.allocated_wr)
    show "level (m' (vw_super W)) = 255" "length (children (m' (vw_super W))) = max_inner_entries" using D(4,5) msr by simp_all
    show "slot_ok m' (R \<union> {}) (vw_super W) (children (m' (vw_super W)) ! 0)" using D(17) slot msr by simp
    show "unswz m' (children (m' (vw_super W)) ! 0) = vw_root W'" using D(18) unsw msr by (simp add: W'_def)
    show "\<exists>q. m' a = (m a)\<lparr>parent_ptr := q\<rparr>" if "a \<in> R" "a \<notin> {c, P}" for a
      using that mo by (intro exI [of _ "parent_ptr (m a)"]) simp
    show "vw_nodes W' (remote_address (m a)) = vw_nodes W (remote_address (m a))" if "a \<in> R" "a \<notin> {c, P}" for a
      using that D(14) [OF that(1)] P(1) c(1) F(6) [OF that(1)] by (auto simp: W'_def)
    show "page_ok (m' a) \<and> dirty (m' a) \<and> remote_address (m' a) \<in> vw_addrs W' \<and> node_of m' (m' a) = vw_nodes W' (remote_address (m' a))"
      if "a \<in> {c, P} \<union> {}" for a
    proof -
      have "node_of m' p'' = ins_kid i sep g (node_of m (m P))" using I(5) [of m'] unsw F(5) node by (simp add: unswz_def)
      then show ?thesis
        using that mP mc I(2,6) L(1,4) D(11) [OF P(1)] D(11) [OF c(1)] ph F(6) [OF P(1)] F(6) [OF c(1)]
        by (auto simp: W'_def dirt node V(6))
    qed
    show "slot_ok m' (R \<union> {}) a v" if "a \<in> {c, P} \<union> {}" "ptype (m' a) = BTreeInner" "v \<in> set (inner_children (m' a))" for a v
    proof -
      have "ptype (m' c) = BTreeLeaf" using mc L(7) by simp
      then have aP: "a = P" using that(1,2) by auto
      have "v \<in> set (inner_children p'')" using that(3) by (simp add: aP mP dirt)
      then consider "v = g" | "v \<in> set (inner_children (m P))" unfolding kids by blast
      then show ?thesis
      proof cases
        case 1
        then show ?thesis using F(5,6) same by (simp add: slot_ok_def)
      next
        case 2
        from inner_child_nth [OF V(7) P(2) this] obtain j where "j \<le> page.count (m P)" "v = children (m P) ! j" .
        then show ?thesis using D(15) [OF P(1,2)] aP by (simp add: slot)
      qed
    qed
    show "points_back m' (vw_super W) (R \<union> {}) x" if x: "x \<in> R \<union> {}" for x
    proof -
      have xR: "x \<in> R" using x by simp
      from r xR show ?thesis
      proof (cases rule: parent_cases)
        case super
        then show ?thesis using same msr by (intro points_back_super) simp_all
      next
        case inner
        let ?q = "parent_ptr (m x)"
        have "?q \<noteq> c" using inner(2) c(2) by auto
        then have "ptype (m' ?q) = BTreeInner \<and> page_ok (m' ?q) \<and> swz x \<in> set (inner_children (m' ?q))"
          using inner D(10) mo [of ?q] I(2,3) kids by (cases "?q = P") (auto simp: mP dirt)
        then show ?thesis using inner(1) same by (intro points_back_inner [of _ _ ?q]) simp_all
      qed
    qed
    show "g' \<in> vw_addrs W \<and> vw_nodes W' g' = vw_nodes W g' \<and> ps_page b' (offset g') = ps_page b0 (offset g') \<or> at_rest (vw_nodes W') b' g'"
      if g': "g' \<in> vw_addrs W'" and no: "\<And>a. a \<in> {c, P} \<union> {} \<Longrightarrow> remote_address (m' a) \<noteq> g'" for g'
    proof (cases "g' = g")
      case True
      have "vw_nodes W' g = node_of m nr" using F(6) [OF P(1)] by (simp add: W'_def)
      then have "at_rest (vw_nodes W') b' g"
        unfolding b' using at_rest_new [OF F(2) _ L(2,9,8), of m "vw_nodes W'"] F(3) L(13,14) by simp
      then show ?thesis using True by simp
    next
      case False
      then have gW: "g' \<in> vw_addrs W" using g' by (simp add: W'_def)
      have "g' \<noteq> ?h" "g' \<noteq> ?p" using no [of c] no [of P] same by auto
      then have "vw_nodes W' g' = vw_nodes W g'" using False by (simp add: W'_def)
      moreover have "ps_page b' (offset g') = ps_page b0 (offset g')"
        unfolding b' F(4) [symmetric] by (rule ps_page_other) (use F(3) gW False in auto)
      ultimately show ?thesis using gW by simp
    qed
  qed (use P(1) c(1) same in \<open>auto simp: W'_def\<close>)
  then show "residency W' m' b' R" by simp
qed

subsection \<open>A leaf that is the root\<close>

lemma residency_alloc:
  assumes r: "residency W m b R" and al: "ps_alloc b = (g, b')" "g \<noteq> ga_Null"
  shows "residency W m b' R"
proof -
  note D = residencyD [OF r]
  note F = alloc_facts [OF r al]
  have "at_rest (vw_nodes W) b' h" if "at_rest (vw_nodes W) b h" for h using that F(4) by (simp add: at_rest_def)
  then show ?thesis by (intro residencyI) (use D F(2,3) in auto)
qed

text \<open>The view in which the right half exists, but nothing leads to it yet.\<close>

definition below_root :: "gaddr \<Rightarrow> view \<Rightarrow> view" where
  "below_root h W = W\<lparr>vw_addrs := vw_addrs W - {vw_root W}, vw_root := h\<rparr>"

lemma below_root_simps [simp]:
  "vw_nodes (below_root h W) = vw_nodes W" "vw_addrs (below_root h W) = vw_addrs W - {vw_root W}"
  "vw_root (below_root h W) = h" "vw_super (below_root h W) = vw_super W"
  by (simp_all add: below_root_def)

lemma below_root_ok:
  assumes ok: "view_ok W" and h: "h \<in> set (vkids (vw_nodes W (vw_root W)))"
  shows "view_ok (below_root h W)"
proof (rule view_okI)
  have rT: "vw_root W \<in> vw_addrs W" by (rule view_ok_root [OF ok])
  have hr: "h \<noteq> vw_root W" using view_okD(5) [OF ok rT] h by auto
  then show "vw_root (below_root h W) \<in> vw_addrs (below_root h W)" using view_ok_kid [OF ok rT h] by simp
  fix g
  assume "g \<in> vw_addrs (below_root h W)"
  then have g: "g \<in> vw_addrs W" "g \<noteq> vw_root W" by simp_all
  note G = view_okD [OF ok g(1)]
  have "kids_ok (vw_nodes W) (vw_addrs W - {vw_root W}) (vw_nodes W g)"
    unfolding kids_ok_def
  proof (intro allI impI)
    fix j
    assume j: "j < length (vkids (vw_nodes W g))"
    have "vkids (vw_nodes W g) ! j \<noteq> vw_root W" using G(5) nth_mem [OF j] by auto
    then show "vkids (vw_nodes W g) ! j \<in> vw_addrs W - {vw_root W} \<and> vlevel (vw_nodes W (vkids (vw_nodes W g) ! j)) + 1 = vlevel (vw_nodes W g) \<and>
      vlo (vw_nodes W (vkids (vw_nodes W g) ! j)) = kid_lo (vw_nodes W g) j \<and> vhi (vw_nodes W (vkids (vw_nodes W g) ! j)) = kid_hi (vw_nodes W g) j"
      using kids_ok_nth [OF G(3) j] by simp
  qed
  moreover have "h \<notin> set (vkids (vw_nodes W g))" using view_ok_disjoint [OF ok g(1) rT _ h] g(2) by blast
  ultimately show "node_ok (vw_nodes (below_root h W) g) \<and> keys_ok (vw_nodes (below_root h W) g) \<and>
      kids_ok (vw_nodes (below_root h W)) (vw_addrs (below_root h W)) (vw_nodes (below_root h W) g) \<and>
      distinct (vkids (vw_nodes (below_root h W) g)) \<and> vw_root (below_root h W) \<notin> set (vkids (vw_nodes (below_root h W) g))"
    using G by simp
next
  fix g g' x
  assume "g \<in> vw_addrs (below_root h W)" "g' \<in> vw_addrs (below_root h W)" "x \<in> set (vkids (vw_nodes (below_root h W) g))"
    "x \<in> set (vkids (vw_nodes (below_root h W) g'))"
  then show "g = g'" using view_ok_disjoint [OF ok] by simp
qed

text \<open>The root slot of the super root when the root is in the pool.\<close>

lemma root_slot:
  assumes r: "residency W m b R" and c: "c \<in> R" "remote_address (m c) = vw_root W"
  shows "children (m (vw_super W)) ! 0 = swz c" "parent_ptr (m c) = vw_super W"
proof -
  note D = residencyD [OF r]
  let ?v = "children (m (vw_super W)) ! 0"
  have "swizzled ?v"
  proof (rule ccontr)
    assume "\<not> swizzled ?v"
    then have "remote_address (m c) \<noteq> ?v" "?v = vw_root W" using D(17,18) c(1) by (auto simp: slot_ok_def unswz_def)
    then show False using c(2) by simp
  qed
  then have h: "hide ?v \<in> R" "parent_ptr (m (hide ?v)) = vw_super W" "remote_address (m (hide ?v)) = vw_root W"
    using D(17,18) by (simp_all add: slot_ok_def unswz_def)
  have "hide ?v = c" by (rule D(14) [OF h(1) c(1)]) (simp add: h(3) c(2))
  then show "?v = swz c" "parent_ptr (m c) = vw_super W" using h(2) swz_hide [OF \<open>swizzled ?v\<close>] by auto
qed

lemma page_dirty [simp]:
  "page_ok (q\<lparr>dirty := d\<rparr>) = page_ok q" "node_of n (q\<lparr>dirty := d\<rparr>) = node_of n q" "inner_children (q\<lparr>dirty := d\<rparr>) = inner_children q"
  by (simp_all add: page_ok_def node_of_def inner_ok_def bitmap_ok_def leaf_in_limits_def rangeValid_def
      inner_keys_def inner_children_def cong: if_cong)

lemma residency_split_root_leaf:
  assumes r: "residency W m b0 R" and rr: "root_range W"
    and c: "c \<in> R" "ptype (m c) = BTreeLeaf" "4 \<le> page.count (m c)" "remote_address (m c) = vw_root W"
    and al: "ps_alloc b0 = (g, b)" "g \<noteq> ga_Null" and rg: "rg \<notin> vw_addrs W" "rg \<noteq> g"
    and sp: "leaf_split (m c) (mk_BTreeLeaf g) = (sep, l, nr)"
    and m': "m' = m(c := l\<lparr>dirty := True\<rparr>)"
  defines "W' \<equiv> split_root_view rg (vw_root W) g sep (node_of m l) (node_of m nr) W"
  shows "residency (below_root (vw_root W) W') m' (ps_write b g nr) R" "view_ok W'" "abs_map W' = abs_map W" "root_range W'"
    "remote_address (m' a) = remote_address (m a) \<and> parent_ptr (m' a) = parent_ptr (m a) \<and> pos_state (m' a) = pos_state (m a)"
proof -
  note D = residencyD [OF r]
  have ok: "view_ok W" by (rule residency_view_ok [OF r])
  let ?h = "vw_root W"
  have okc: "page_ok (m c)" and nc: "vw_nodes W ?h = node_of m (m c)" using D(10,12) [OF c(1)] c(4) by simp_all
  note L = leaf_split_node [OF okc c(2,3) sp]
  have spl: "splits (vw_nodes W ?h) sep (node_of m l) (node_of m nr)" unfolding nc by (rule L(3))
  note F = alloc_facts [OF r al]
  have lv: "vlevel (vw_nodes W ?h) + 1 < 255" using c(2) by (simp add: nc node_of_def)
  note S = split_root_ok [OF ok refl F(1) rg spl lv rr, folded W'_def]
  show "view_ok W'" "abs_map W' = abs_map W" "root_range W'" by (rule S)+
  show same: "remote_address (m' a) = remote_address (m a) \<and> parent_ptr (m' a) = parent_ptr (m a) \<and> pos_state (m' a) = pos_state (m a)" for a
    using L(4-6) by (simp add: m')
  let ?W = "below_root ?h W'"
  have okW: "view_ok ?W" by (rule below_root_ok [OF S(1)]) (simp add: W'_def)
  have hT: "?h \<in> vw_addrs W" by (rule view_ok_root [OF ok])
  have gh: "g \<noteq> ?h" "rg \<noteq> ?h" using F(1) rg(1) hT by auto
  have V': "vw_nodes W' ?h = node_of m l" "vw_nodes W' g = node_of m nr"
    "\<And>a. a \<in> vw_addrs W \<Longrightarrow> a \<noteq> ?h \<Longrightarrow> vw_nodes W' a = vw_nodes W a"
    using gh rg F(1) by (auto simp: W'_def)
  have T': "vw_addrs ?W = insert g (vw_addrs W)" using rg by (auto simp: W'_def)
  have msr: "m' (vw_super W) = m (vw_super W)" using D(6) c(1) by (auto simp: m')
  have slot: "slot_ok m' R a v = slot_ok m R a v" for a v using same by (auto simp: slot_ok_def)
  have unsw: "unswz m' v = unswz m v" for v by (rule unswz_cong) (simp add: same)
  have node: "node_of m' q = node_of m q" for q using unsw by (intro node_of_cong) simp
  have "residency ?W m' (ps_write b g nr) (R \<union> {})"
  proof (rule residency_change [where A = "{c}", OF r])
    show "vtree (vw_nodes ?W) (vw_addrs ?W) (vw_root ?W)" using okW by (simp add: view_ok_def)
    show "ps_ok (ps_write b g nr)" "vw_addrs ?W \<subseteq> ps_allocated (ps_write b g nr)"
      unfolding T' using ps.inv_wr [OF F(2)] F(3) by (simp_all add: ps.allocated_wr)
    show "level (m' (vw_super W)) = 255" "length (children (m' (vw_super W))) = max_inner_entries" using D(4,5) msr by simp_all
    show "slot_ok m' (R \<union> {}) (vw_super W) (children (m' (vw_super W)) ! 0)" using D(17) slot msr by simp
    show "unswz m' (children (m' (vw_super W)) ! 0) = vw_root ?W" using D(18) unsw msr by simp
    show "\<exists>q. m' a = (m a)\<lparr>parent_ptr := q\<rparr>" if "a \<in> R" "a \<notin> {c}" for a
      using that by (intro exI [of _ "parent_ptr (m a)"]) (simp add: m')
    show "vw_nodes ?W (remote_address (m a)) = vw_nodes W (remote_address (m a))" if "a \<in> R" "a \<notin> {c}" for a
    proof -
      have "remote_address (m a) \<noteq> ?h" using that D(14) [OF that(1) c(1)] c(4) by auto
      then show ?thesis using V'(3) [OF D(11) [OF that(1)]] by simp
    qed
    show "page_ok (m' a) \<and> dirty (m' a) \<and> remote_address (m' a) \<in> vw_addrs ?W \<and> node_of m' (m' a) = vw_nodes ?W (remote_address (m' a))"
      if "a \<in> {c} \<union> {}" for a
      using that L(1,4) c(4) hT V'(1) gh unfolding T' by (simp add: m' node [unfolded m'])
    show "slot_ok m' (R \<union> {}) a v" if "a \<in> {c} \<union> {}" "ptype (m' a) = BTreeInner" "v \<in> set (inner_children (m' a))" for a v
      using that L(7) by (simp add: m')
    show "points_back m' (vw_super W) (R \<union> {}) x" if x: "x \<in> R \<union> {}" for x
    proof -
      have xR: "x \<in> R" using x by simp
      from r xR show ?thesis
      proof (cases rule: parent_cases)
        case super
        then show ?thesis using same msr by (intro points_back_super) simp_all
      next
        case inner
        then have "parent_ptr (m x) \<noteq> c" using c(2) by auto
        then show ?thesis using inner same D(10) [OF inner(1)]
          by (intro points_back_inner [of _ _ "parent_ptr (m x)"]) (simp_all add: m')
      qed
    qed
    show "g' \<in> vw_addrs W \<and> vw_nodes ?W g' = vw_nodes W g' \<and> ps_page (ps_write b g nr) (offset g') = ps_page b0 (offset g') \<or>
        at_rest (vw_nodes ?W) (ps_write b g nr) g'"
      if g': "g' \<in> vw_addrs ?W" and no: "\<And>a. a \<in> {c} \<union> {} \<Longrightarrow> remote_address (m' a) \<noteq> g'" for g'
    proof (cases "g' = g")
      case True
      then show ?thesis using at_rest_new [OF F(2) _ L(2,9,8), of m "vw_nodes ?W"] F(3) V'(2) L(13,14) by simp
    next
      case False
      then have gW: "g' \<in> vw_addrs W" using g' unfolding T' by simp
      have "g' \<noteq> ?h" using no [of c] same c(4) by auto
      moreover have "ps_page (ps_write b g nr) (offset g') = ps_page b0 (offset g')"
        unfolding F(4) [symmetric] by (rule ps_page_other) (use F(3) gW False in auto)
      ultimately show ?thesis using gW V'(3) [OF gW] by simp
    qed
  qed (use c(1) same T' in \<open>auto simp: W'_def\<close>)
  then show "residency ?W m' (ps_write b g nr) R" by simp
qed

text \<open>A new root in the pool above the old one, of which the right half is at rest.\<close>

lemma residency_new_root:
  assumes r: "residency (below_root h W) m b R" and ok: "view_ok W" and b: "vw_root W \<in> ps_allocated b"
    and h: "vw_nodes W (vw_root W) = LInner L lo hi [sep] [h, g]" and g: "\<not> swizzled g" "\<And>a. a \<in> R \<Longrightarrow> remote_address (m a) \<noteq> g"
    and c: "c \<in> R" "remote_address (m c) = h" and p: "p \<notin> R" "\<not> swizzled p" "p \<noteq> 0" "p \<noteq> vw_super W"
    and pg: "page_ok pg" "remote_address pg = vw_root W" "parent_ptr pg = vw_super W" "dirty pg" "ptype pg = BTreeInner"
      "inner_children pg = [swz c, g]" "inner_keys pg = [sep]" "level pg = L" "min_limit pg = lo" "max_limit pg = hi"
    and m'p: "m' p = pg" "m' c = (m c)\<lparr>parent_ptr := p\<rparr>"
      "m' (vw_super W) = (m (vw_super W))\<lparr>children := (children (m (vw_super W)))[0 := swz p], bitmap := 0, count := 0\<rparr>"
    and m': "\<And>a. a \<in> R \<Longrightarrow> a \<noteq> c \<Longrightarrow> m' a = m a"
  shows "residency W m' b (insert p R)"
proof -
  note D = residencyD [OF r, simplified]
  have rT: "vw_root W \<in> vw_addrs W" by (rule view_ok_root [OF ok])
  have nsc: "\<not> swizzled c" by (rule D(8) [OF c(1)])
  note rs = root_slot [OF r c(1), simplified, OF c(2)]
  have same: "remote_address (m' a) = remote_address (m a)" "ptype (m' a) = ptype (m a)" "page_ok (m' a) = page_ok (m a)"
    "inner_children (m' a) = inner_children (m a)" if "a \<in> R" for a
    using that m' m'p(2) by (cases "a = c"; simp)+
  have gp: "g \<noteq> vw_root W" using view_okD(5) [OF ok rT] h by auto
  have "residency W m' b (R \<union> {p})"
  proof (rule residency_change [where A = "{}", OF r])
    show "vtree (vw_nodes W) (vw_addrs W) (vw_root W)" using ok by (simp add: view_ok_def)
    show "ps_ok b" by (rule D(2))
    show "vw_addrs W \<subseteq> ps_allocated b" using D(3) b by auto
    show "a \<notin> R \<and> \<not> swizzled a \<and> a \<noteq> 0 \<and> a \<noteq> vw_super (below_root h W)" if "a \<in> {p}" for a using that p by simp
    show "slot_ok m' (R \<union> {p}) (vw_super (below_root h W)) (children (m' (vw_super (below_root h W))) ! 0)"
      using D(5) p(2) pg(3) by (simp add: m'p slot_ok_def)
    show "unswz m' (children (m' (vw_super (below_root h W))) ! 0) = vw_root W"
      using D(5) p(2) pg(2) by (simp add: m'p unswz_def)
    show "\<exists>q. m' a = (m a)\<lparr>parent_ptr := q\<rparr>" if "a \<in> R" "a \<notin> {}" for a
    proof (cases "a = c")
      case False
      then show ?thesis using m' [OF that(1)] by (intro exI [of _ "parent_ptr (m a)"]) simp
    qed (use m'p(2) in blast)
    show "page_ok (m' a) \<and> dirty (m' a) \<and> remote_address (m' a) \<in> vw_addrs W \<and> node_of m' (m' a) = vw_nodes W (remote_address (m' a))"
      if "a \<in> {} \<union> {p}" for a
    proof -
      have "unswz m' (swz c) = h" "unswz m' g = g" using nsc g(1) same(1) [OF c(1)] c(2) by (simp_all add: unswz_def)
      then have "node_of m' pg = LInner L lo hi [sep] [h, g]" using pg by (simp add: node_of_def)
      then show ?thesis using that pg rT h by (simp add: m'p)
    qed
    show "slot_ok m' (R \<union> {p}) a v" if "a \<in> {} \<union> {p}" "ptype (m' a) = BTreeInner" "v \<in> set (inner_children (m' a))" for a v
    proof -
      have "v = swz c \<or> v = g" "a = p" using that pg(6) by (auto simp: m'p)
      then show ?thesis using nsc c(1) m'p(1,2) g same(1) pg(2) gp by (auto simp: slot_ok_def)
    qed
    show "parent_ptr (m' x) = parent_ptr (m x)" if "x \<in> R" "parent_ptr (m x) \<in> R" "parent_ptr (m x) \<notin> {}" for x
      using that m' [OF that(1)] rs(2) D(6) by (cases "x = c") auto
    show "points_back m' (vw_super (below_root h W)) (R \<union> {p}) x"
      if x: "x \<in> R \<union> {p}" "\<not> (x \<in> R \<and> parent_ptr (m x) \<in> R \<and> parent_ptr (m x) \<notin> {})" for x
    proof (cases "x = p")
      case True
      then show ?thesis using D(5) pg(3) by (intro points_back_super) (simp_all add: m'p)
    next
      case False
      then have xR: "x \<in> R" "parent_ptr (m x) \<notin> R" using x by auto
      then have "children (m (vw_super W)) ! 0 = swz x" using D(13) [OF xR(1)] by (auto simp: points_back_def)
      then have "x = c" using rs(1) nsc D(8) [OF xR(1)] swz_inject by simp
      then show ?thesis using pg(1,5,6) by (intro points_back_inner [of _ _ p]) (simp_all add: m'p)
    qed
    show "g' \<in> vw_addrs (below_root h W) \<and> vw_nodes W g' = vw_nodes (below_root h W) g' \<and> ps_page b (offset g') = ps_page b (offset g') \<or>
        at_rest (vw_nodes W) b g'"
      if "g' \<in> vw_addrs W" "\<And>a. a \<in> {} \<union> {p} \<Longrightarrow> remote_address (m' a) \<noteq> g'" for g'
      using that(1) that(2) [of p] pg(2) by (auto simp: m'p)
  qed (use D(4,5) pg in \<open>auto simp: m'p\<close>)
  then show ?thesis by simp
qed

subsection \<open>An inner page\<close>

text \<open>The halves of an inner page: their slots and the pages that point back to them.\<close>

lemma inner_halves:
  assumes r: "residency W m b R" and c: "c \<in> R" "ptype (m c) = BTreeInner"
    and ch: "inner_children (m c) = inner_children l @ inner_children nr"
    and R': "R \<subseteq> R'" "q \<in> R'"
    and mc: "page_ok (m' c)" "ptype (m' c) = BTreeInner" "inner_children (m' c) = inner_children l"
    and mq: "page_ok (m' q)" "ptype (m' q) = BTreeInner" "inner_children (m' q) = inner_children nr"
    and par: "\<And>x. x \<in> R \<Longrightarrow> parent_ptr (m x) = c \<Longrightarrow> parent_ptr (m' x) = (if swz x \<in> set (inner_children nr) then q else c)"
    and rem: "\<And>x. x \<in> R \<Longrightarrow> remote_address (m' x) = remote_address (m x)"
      "\<And>x. x \<in> R' \<Longrightarrow> x \<notin> R \<Longrightarrow> remote_address (m' x) \<notin> vw_addrs W"
  shows "v \<in> set (inner_children l) \<Longrightarrow> slot_ok m' R' c v" "v \<in> set (inner_children nr) \<Longrightarrow> slot_ok m' R' q v"
    "x \<in> R \<Longrightarrow> parent_ptr (m x) = c \<Longrightarrow> points_back m' sr R' x"
proof -
  note D = residencyD [OF r]
  have okc: "page_ok (m c)" by (rule D(10) [OF c(1)])
  have "distinct (vkids (vw_nodes W (remote_address (m c))))"
    using D(1) D(11) [OF c(1)] by (simp add: vtree_def)
  then have "distinct (map (unswz m) (inner_children (m c)))"
    using D(12) [OF c(1), symmetric] c(2) by (simp add: vkids_node_of)
  then have dj: "v \<notin> set (inner_children nr)" if "v \<in> set (inner_children l)" for v
    using that ch by (auto simp: distinct_map)
  have old: "slot_ok m R c v \<and> (\<not> swizzled v \<longrightarrow> v \<in> vw_addrs W)" if "v \<in> set (inner_children (m c))" for v
  proof -
    from inner_child_nth [OF okc c(2) that] obtain j where j: "j \<le> page.count (m c)" "v = children (m c) ! j" .
    then show ?thesis using D(15) [OF c j(1)] resident_kid(1) [OF r c j(1)] by (auto simp: unswz_def)
  qed
  have new: "slot_ok m' R' (if v \<in> set (inner_children nr) then q else c) v" if v: "v \<in> set (inner_children (m c))" for v
  proof (cases "swizzled v")
    case True
    then have "hide v \<in> R" "parent_ptr (m (hide v)) = c" using old [OF v] by (simp_all add: slot_ok_def)
    then show ?thesis using par [of "hide v"] R'(1) True by (auto simp: slot_ok_def)
  next
    case False
    then have "v \<in> vw_addrs W" "\<forall>x \<in> R. remote_address (m x) \<noteq> v" using old [OF v] by (simp_all add: slot_ok_def)
    then have "remote_address (m' x) \<noteq> v" if "x \<in> R'" for x using that rem by (cases "x \<in> R") auto
    then show ?thesis using False by (simp add: slot_ok_def)
  qed
  show "slot_ok m' R' c v" if "v \<in> set (inner_children l)" using new [of v] dj [OF that] that ch by simp
  show "slot_ok m' R' q v" if "v \<in> set (inner_children nr)" using new [of v] that ch by simp
  show "points_back m' sr R' x" if x: "x \<in> R" "parent_ptr (m x) = c"
  proof -
    have "swz x \<in> set (inner_children (m c))"
      using r x(1)
    proof (cases rule: parent_cases)
      case super
      then show ?thesis using x(2) D(6) c(1) by auto
    qed (use x(2) in simp)
    then show ?thesis using par [OF x] mc mq c(1) R' ch
      by (cases "swz x \<in> set (inner_children nr)")
        (auto intro: points_back_inner [where q = q] points_back_inner [where q = c])
  qed
qed

text \<open>Who points back to the page that is split: nobody it is the parent of, and not its parent.\<close>

lemma parent_distinct:
  assumes r: "residency W m b R" and P: "P \<in> R" "ptype (m P) = BTreeInner" "i \<le> page.count (m P)" "children (m P) ! i = swz c" and c: "c \<in> R"
  shows "P \<noteq> c" "parent_ptr (m c) = P" "parent_ptr (m P) \<noteq> c"
proof -
  note D = residencyD [OF r]
  have nsc: "\<not> swizzled c" by (rule D(8) [OF c])
  show pc: "parent_ptr (m c) = P" using D(15) [OF P(1-3)] P(4) nsc by (simp add: slot_ok_def)
  have lv: "level (m c) + 1 = level (m P)"
    using resident_kid(3) [OF r P(1-3)] P(4) nsc resident_level(1) [OF r c] by (simp add: unswz_def)
  then show "P \<noteq> c" by auto
  show "parent_ptr (m P) \<noteq> c"
    using r P(1)
  proof (cases rule: parent_cases)
    case super
    then show ?thesis using c D(6) by auto
  next
    case inner
    let ?q = "parent_ptr (m P)"
    from inner_child_nth [OF D(10) [OF inner(1)] inner(2,3)] obtain j where j: "j \<le> page.count (m ?q)" "swz P = children (m ?q) ! j" .
    have "level (m P) + 1 = level (m ?q)"
      using resident_kid(3) [OF r inner(1,2) j(1)] j(2) [symmetric] D(8) [OF P(1)] resident_level(1) [OF r P(1)] by (simp add: unswz_def)
    then show ?thesis using lv by auto
  qed
qed

text \<open>The memory after the split: the left half in place, the right half at \<open>q\<close> with its kids in
  the pool, and then what is above them.\<close>

definition split_mem :: "(u64 \<Rightarrow> page) \<Rightarrow> u64 \<Rightarrow> page \<Rightarrow> u64 \<Rightarrow> page \<Rightarrow> u64 \<Rightarrow> page" where
  "split_mem m c l q nr x =
     (if x = c then l else if x = q then nr
      else if swz x \<in> set (inner_children nr) \<and> \<not> swizzled x then (m x)\<lparr>parent_ptr := q\<rparr> else m x)"

lemma residency_split_inner:
  assumes r: "residency W m b0 R"
    and P: "P \<in> R" "ptype (m P) = BTreeInner" "i \<le> page.count (m P)" "children (m P) ! i = swz c" "\<not> inner_isFull (m P)"
    and c: "c \<in> R" "ptype (m c) = BTreeInner" "4 \<le> page.count (m c)"
    and al: "ps_alloc b0 = (g, b)" "g \<noteq> ga_Null" and sp: "inner_split (m c) (mk_BTreeInner (level (m c)) g) = (sep, l, nr)"
    and q: "q \<notin> R" "\<not> swizzled q" "q \<noteq> 0" "q \<noteq> vw_super W"
    and ins: "inner_insert (m P) sep (swz q) = Inr p'"
    and m': "m' = (split_mem m c (l\<lparr>dirty := True\<rparr>) q (nr\<lparr>parent_ptr := P, pos_state := st, dirty := True\<rparr>))(P := p'\<lparr>dirty := True\<rparr>)"
  defines "W' \<equiv> split_child_view (remote_address (m P)) (remote_address (m c)) g i sep (node_of m l) (node_of m nr) W"
  shows "residency W' m' b (insert q R)" "view_ok W'" "abs_map W' = abs_map W" "root_range W' = root_range W"
    "a \<in> R \<Longrightarrow> remote_address (m' a) = remote_address (m a) \<and> pos_state (m' a) = pos_state (m a)" "remote_address (m' q) = g"
    "a \<noteq> q \<Longrightarrow> a \<notin> R \<Longrightarrow> m' a = m a" "pos_state (m' q) = st"
proof -
  note D = residencyD [OF r]
  have ok: "view_ok W" by (rule residency_view_ok [OF r])
  have nsc: "\<not> swizzled c" by (rule D(8) [OF c(1)])
  note V = child_in_view [OF r P(1-4)]
  let ?p = "remote_address (m P)" and ?h = "remote_address (m c)"
  have h: "?h = vkids (vw_nodes W ?p) ! i" by (rule V(5) [OF nsc])
  have okc: "page_ok (m c)" and nc: "vw_nodes W ?h = node_of m (m c)" using D(10,12) [OF c(1)] by simp_all
  have kc: "keys_ok (node_of m (m c))" using view_okD(2) [OF ok D(11) [OF c(1)]] nc by simp
  note L = inner_split_node [OF okc c(2) kc c(3) sp]
  have spl: "splits (vw_nodes W ?h) sep (node_of m l) (node_of m nr)" unfolding nc by (rule L(3))
  note F = alloc_facts [OF r al]
  have room: "length (vkeys (vw_nodes W ?p)) + 1 < max_inner_entries"
    using page_ok_inner(5) [OF V(7) P(2)] P(5) by (simp add: V(4) inner_isFull_def)
  note S = split_child_ok [OF ok V(1,2,3) room h F(1) spl, folded W'_def]
  show "view_ok W'" "abs_map W' = abs_map W" "root_range W' = root_range W" by (rule S)+
  obtain lv where lv: "vlevel (vw_nodes W ?p) = Suc lv" using V(2) by (cases "vlevel (vw_nodes W ?p)") auto
  have seps: "kid_lo (node_of m (m P)) i < sep" "sep < kid_hi (node_of m (m P)) i"
    using kid_facts(3,4) [OF ok V(1) lv V(3)] splits_fields(7,8) [OF spl] by (simp_all add: h V(6))
  from inner_insert_node [OF V(7) P(2,5,3) seps, of "swz q"] ins obtain p'' where
    I: "p' = p''" "page_ok p''" "ptype p'' = BTreeInner"
    "inner_children p'' = take (Suc i) (inner_children (m P)) @ swz q # drop (Suc i) (inner_children (m P))"
    "\<And>n. node_of n p'' = ins_kid i sep (unswz n (swz q)) (node_of n (m P))"
    "remote_address p'' = ?p" "parent_ptr p'' = parent_ptr (m P)" "pos_state p'' = pos_state (m P)" by (metis Inr_inject)
  note pd = parent_distinct [OF r P(1-4) c(1)]
  have ne: "P \<noteq> c" "P \<noteq> q" "c \<noteq> q" using pd(1) P(1) c(1) q(1) by auto
  have ph: "?p \<noteq> ?h" using D(14) [OF P(1) c(1)] ne(1) by auto
  have mP: "m' P = p''\<lparr>dirty := True\<rparr>" and mc: "m' c = l\<lparr>dirty := True\<rparr>"
    and mq: "m' q = nr\<lparr>parent_ptr := P, pos_state := st, dirty := True\<rparr>"
    and mo: "\<And>a. a \<noteq> P \<Longrightarrow> a \<noteq> c \<Longrightarrow> a \<noteq> q \<Longrightarrow> m' a = (if swz a \<in> set (inner_children nr) \<and> \<not> swizzled a then (m a)\<lparr>parent_ptr := q\<rparr> else m a)"
    using ne by (simp_all add: m' I(1) split_mem_def inner_children_def)
  have inR: "a \<in> R \<and> parent_ptr (m a) = c" if "swz a \<in> set (inner_children nr)" "\<not> swizzled a" for a
  proof -
    have "swz a \<in> set (inner_children (m c))" using that(1) L(4) by simp
    from inner_child_nth [OF okc c(2) this] obtain j where j: "j \<le> page.count (m c)" "swz a = children (m c) ! j" .
    show ?thesis using D(15) [OF c(1,2) j(1)] that(2) unfolding j(2) [symmetric] by (simp add: slot_ok_def)
  qed
  show out: "m' a = m a" if "a \<noteq> q" "a \<notin> R" for a
  proof -
    have "a \<noteq> P" "a \<noteq> c" using that(2) P(1) c(1) by auto
    then show ?thesis using mo [of a] that inR [of a] by auto
  qed
  have nq: "a \<noteq> q" if "a \<in> R" for a using that q(1) by auto
  show same: "remote_address (m' a) = remote_address (m a) \<and> pos_state (m' a) = pos_state (m a)" if "a \<in> R" for a
    using that nq [OF that] mo [of a] mP mc I(6,8) L(5,7) by (cases "a = P"; cases "a = c") auto
  show rq: "remote_address (m' q) = g" "pos_state (m' q) = st" using mq L(9) by simp_all
  have par: "parent_ptr (m' a) = (if parent_ptr (m a) = c \<and> swz a \<in> set (inner_children nr) then q else parent_ptr (m a))" if "a \<in> R" for a
    using D(8) [OF that] nq [OF that] mo [of a] mP mc I(7) L(6) pd ne inR [of a] by (cases "a = P"; cases "a = c") auto
  have msr: "m' (vw_super W) = m (vw_super W)" by (rule out) (use D(6) q(4) in auto)
  have gn: "remote_address (m a) \<noteq> g" if "a \<in> R" for a by (rule F(6) [OF that])
  have unsw: "unswz m' v = unswz m v" if "swizzled v \<Longrightarrow> hide v \<in> R" for v
    by (rule unswz_cong) (use same that in blast)
  have slotR: "swizzled v \<Longrightarrow> hide v \<in> R" if "a \<in> R" "ptype (m a) = BTreeInner" "v \<in> set (inner_children (m a))" for a v
    using inner_child_nth [OF D(10) [OF that(1)] that(2,3)] D(15) [OF that(1,2)] by (metis slot_ok_def)
  have nodes: "node_of m' l = node_of m l" "node_of m' nr = node_of m nr" "node_of m' (m P) = node_of m (m P)"
    using slotR [OF c(1,2)] slotR [OF P(1,2)] L(4) by (auto intro!: node_of_cong unsw)
  have kids: "set (inner_children p'') = insert (swz q) (set (inner_children (m P)))"
    unfolding I(4) by (metis append_take_drop_id list.simps(15) set_append Un_insert_right)
  have mcq: "page_ok (m' c)" "ptype (m' c) = BTreeInner" "inner_children (m' c) = inner_children l"
    "page_ok (m' q)" "ptype (m' q) = BTreeInner" "inner_children (m' q) = inner_children nr"
    using L(1,2,8,10) by (simp_all add: mc mq upd_pos_simps(10) [unfolded upd_pos_def] inner_children_def)
  note H = inner_halves [where R' = "R \<union> {q}" and m' = m' and q = q, OF r c(1,2) L(4) _ _ mcq]
  have Hp: "x \<in> R \<Longrightarrow> parent_ptr (m x) = c \<Longrightarrow> parent_ptr (m' x) = (if swz x \<in> set (inner_children nr) then q else c)" for x
    using par by simp
  have "residency W' m' b (R \<union> {q})"
  proof (rule residency_change [where A = "{c, P}", OF r])
    show "vtree (vw_nodes W') (vw_addrs W') (vw_root W')" using S(1) by (simp add: view_ok_def)
    show "ps_ok b" "vw_addrs W' \<subseteq> ps_allocated b" using F(2,3) by (simp_all add: W'_def)
    show "level (m' (vw_super W)) = 255" "length (children (m' (vw_super W))) = max_inner_entries" using D(4,5) msr by simp_all
    show "slot_ok m' (R \<union> {q}) (vw_super W) (children (m' (vw_super W)) ! 0)"
    proof (cases "swizzled (children (m (vw_super W)) ! 0)")
      case True
      have "vw_super W \<noteq> c" using D(6) c(1) by auto
      then show ?thesis using D(17) True par by (auto simp: slot_ok_def msr)
    next
      case False
      then have "children (m (vw_super W)) ! 0 \<in> vw_addrs W" using D(18) view_ok_root [OF ok] by (simp add: unswz_def)
      then show ?thesis using D(17) False same rq F(1) by (auto simp: slot_ok_def msr)
    qed
    show "unswz m' (children (m' (vw_super W)) ! 0) = vw_root W'"
      using D(17,18) unsw by (auto simp: W'_def msr slot_ok_def)
    show "\<exists>q. m' a = (m a)\<lparr>parent_ptr := q\<rparr>" if "a \<in> R" "a \<notin> {c, P}" for a
    proof (cases "swz a \<in> set (inner_children nr) \<and> \<not> swizzled a")
      case True
      then show ?thesis using that nq [OF that(1)] mo [of a] by (intro exI [of _ q]) simp
    next
      case False
      then show ?thesis using that nq [OF that(1)] mo [of a] by (intro exI [of _ "parent_ptr (m a)"]) auto
    qed
    show "vw_nodes W' (remote_address (m a)) = vw_nodes W (remote_address (m a))" if "a \<in> R" "a \<notin> {c, P}" for a
      using that D(14) [OF that(1)] P(1) c(1) gn [OF that(1)] by (auto simp: W'_def)
    show "page_ok (m' a) \<and> dirty (m' a) \<and> remote_address (m' a) \<in> vw_addrs W' \<and> node_of m' (m' a) = vw_nodes W' (remote_address (m' a))"
      if a: "a \<in> {c, P} \<union> {q}" for a
    proof -
      have "unswz m' (swz q) = g" using q(2) rq by (simp add: unswz_def)
      then have "node_of m' p'' = ins_kid i sep g (node_of m (m P))" using I(5) [of m'] nodes(3) by simp
      then have "node_of m' (m' P) = vw_nodes W' ?p" "node_of m' (m' c) = vw_nodes W' ?h" "node_of m' (m' q) = vw_nodes W' g"
        using ph gn [OF P(1)] gn [OF c(1)] nodes by (auto simp: W'_def mP mc mq V(6) upd_pos_simps(11) [unfolded upd_pos_def])
      moreover have "dirty (m' P)" "dirty (m' c)" "dirty (m' q)" by (simp_all add: mP mc mq)
      moreover have "page_ok (m' P)" using I(2) by (simp add: mP)
      moreover have "remote_address (m' P) = ?p" "remote_address (m' c) = ?h" using same [OF P(1)] same [OF c(1)] by simp_all
      moreover have "?p \<in> vw_addrs W'" "?h \<in> vw_addrs W'" "g \<in> vw_addrs W'"
        using D(11) [OF P(1)] D(11) [OF c(1)] by (simp_all add: W'_def)
      moreover have "a = c \<or> a = P \<or> a = q" using a by auto
      ultimately show ?thesis using mcq(1,4) rq(1) by (elim disjE) simp_all
    qed
    show "slot_ok m' (R \<union> {q}) a v" if a: "a \<in> {c, P} \<union> {q}" and v: "v \<in> set (inner_children (m' a))" for a v
    proof -
      have outer: "slot_ok m' (R \<union> {q}) P v" if "v \<in> set (inner_children (m P))"
      proof -
        from inner_child_nth [OF V(7) P(2) that] obtain j where j: "j \<le> page.count (m P)" "v = children (m P) ! j" .
        note s = D(15) [OF P(1,2) j(1)]
        have "\<not> swizzled v \<Longrightarrow> v \<in> vw_addrs W" using resident_kid(1) [OF r P(1,2) j(1)] j(2) by (simp add: unswz_def)
        then show ?thesis using s j(2) par same rq(1) ne(1) F(1) by (auto simp: slot_ok_def)
      qed
      have "slot_ok m' (R \<union> {q}) P (swz q)" using q(2) mq by (simp add: slot_ok_def)
      moreover have "v \<in> insert (swz q) (set (inner_children (m P)))" if "a = P" using v that kids by (simp add: mP)
      ultimately have "slot_ok m' (R \<union> {q}) P v" if "a = P" using that outer by auto
      moreover have "slot_ok m' (R \<union> {q}) c v" if "a = c"
        by (rule H(1)) (use v that mcq(3) Hp same rq(1) F(1) in auto)
      moreover have "slot_ok m' (R \<union> {q}) q v" if "a = q"
        by (rule H(2)) (use v that mcq(6) Hp same rq(1) F(1) in auto)
      ultimately show ?thesis using a by auto
    qed
    show "parent_ptr (m' x) = parent_ptr (m x)" if "x \<in> R" "parent_ptr (m x) \<in> R" "parent_ptr (m x) \<notin> {c, P}" for x
      using par [OF that(1)] that(3) by auto
    show "points_back m' (vw_super W) (R \<union> {q}) x"
      if x: "x \<in> R \<union> {q}" "\<not> (x \<in> R \<and> parent_ptr (m x) \<in> R \<and> parent_ptr (m x) \<notin> {c, P})" for x
    proof -
      have okP: "ptype (m' P) = BTreeInner" "page_ok (m' P)" "inner_children (m' P) = inner_children p''" using I(2,3) by (simp_all add: mP)
      consider "x = q" | "x \<in> R" "parent_ptr (m x) = c" | "x \<in> R" "parent_ptr (m x) = P" | "x \<in> R" "parent_ptr (m x) \<notin> R" using x by auto
      then show ?thesis
      proof cases
        case 1
        then show ?thesis using mq okP kids P(1) by (intro points_back_inner [where q = P]) auto
      next
        case 2
        show ?thesis by (rule H(3)) (use 2 Hp same rq(1) F(1) in auto)
      next
        case 3
        have "swz x \<in> set (inner_children (m P))"
          using r 3(1)
        proof (cases rule: parent_cases)
          case super
          then show ?thesis using 3(2) D(6) P(1) by auto
        qed (use 3(2) in simp)
        then show ?thesis using par [OF 3(1)] 3 ne(1) okP kids P(1) by (intro points_back_inner [where q = P]) auto
      next
        case 4
        then have "parent_ptr (m x) = vw_super W" "children (m (vw_super W)) ! 0 = swz x"
          using D(13) [OF 4(1)] by (auto simp: points_back_def)
        then show ?thesis using par [OF 4(1)] D(6) c(1) by (intro points_back_super) (auto simp: msr)
      qed
    qed
    show "g' \<in> vw_addrs W \<and> vw_nodes W' g' = vw_nodes W g' \<and> ps_page b (offset g') = ps_page b0 (offset g') \<or> at_rest (vw_nodes W') b g'"
      if g': "g' \<in> vw_addrs W'" and no: "\<And>a. a \<in> {c, P} \<union> {q} \<Longrightarrow> remote_address (m' a) \<noteq> g'" for g'
    proof -
      have "g' \<noteq> ?h" "g' \<noteq> ?p" "g' \<noteq> g" using no [of c] no [of P] no [of q] same P(1) c(1) rq(1) by auto
      then show ?thesis using g' F(4) by (simp add: W'_def)
    qed
  qed (use P(1) c(1) q same rq(1) F(1) in \<open>auto simp: W'_def\<close>)
  then show "residency W' m' b (insert q R)" by simp
qed

lemma residency_split_root_inner:
  assumes r: "residency W m b0 R" and rr: "root_range W"
    and c: "c \<in> R" "ptype (m c) = BTreeInner" "4 \<le> page.count (m c)" "remote_address (m c) = vw_root W" "level (m c) + 1 < 255"
    and al: "ps_alloc b0 = (g, b1)" "g \<noteq> ga_Null" "ps_alloc b1 = (rg, b)" "rg \<noteq> ga_Null"
    and sp: "inner_split (m c) (mk_BTreeInner (level (m c)) g) = (sep, l, nr)"
    and q: "q \<notin> R" "\<not> swizzled q" "q \<noteq> 0" "q \<noteq> vw_super W" and p: "p \<notin> R" "\<not> swizzled p" "p \<noteq> 0" "p \<noteq> vw_super W" "p \<noteq> q"
    and pg: "page_ok pg" "remote_address pg = rg" "parent_ptr pg = vw_super W" "dirty pg" "ptype pg = BTreeInner"
      "inner_children pg = [swz c, swz q]" "inner_keys pg = [sep]" "level pg = level (m c) + 1" "min_limit pg = KEY_MIN" "max_limit pg = KEY_MAX"
    and m': "m' = (split_mem m c (l\<lparr>parent_ptr := p, dirty := True\<rparr>) q (nr\<lparr>parent_ptr := p, pos_state := st, dirty := True\<rparr>))
        (p := pg, vw_super W := (m (vw_super W))\<lparr>children := (children (m (vw_super W)))[0 := swz p], bitmap := 0, count := 0\<rparr>)"
  defines "W' \<equiv> split_root_view rg (vw_root W) g sep (node_of m l) (node_of m nr) W"
  shows "residency W' m' b (R \<union> {q, p})" "view_ok W'" "abs_map W' = abs_map W" "root_range W'"
    "a \<in> R \<Longrightarrow> remote_address (m' a) = remote_address (m a) \<and> pos_state (m' a) = pos_state (m a)" "remote_address (m' q) = g"
    "remote_address (m' p) = rg" "a \<noteq> q \<Longrightarrow> a \<noteq> p \<Longrightarrow> a \<noteq> vw_super W \<Longrightarrow> a \<notin> R \<Longrightarrow> m' a = m a" "pos_state (m' q) = st"
    "pos_state (m' p) = pos_state pg"
proof -
  note D = residencyD [OF r]
  have ok: "view_ok W" by (rule residency_view_ok [OF r])
  let ?h = "vw_root W" and ?sr = "vw_super W"
  have okc: "page_ok (m c)" and nc: "vw_nodes W ?h = node_of m (m c)" using D(10,12) [OF c(1)] c(4) by simp_all
  have hT: "?h \<in> vw_addrs W" by (rule view_ok_root [OF ok])
  have kc: "keys_ok (node_of m (m c))" using view_okD(2) [OF ok hT] nc by simp
  note L = inner_split_node [OF okc c(2) kc c(3) sp]
  have spl: "splits (vw_nodes W ?h) sep (node_of m l) (node_of m nr)" unfolding nc by (rule L(3))
  note F = alloc_facts [OF r al(1,2)]
  note F2 = alloc_facts [OF residency_alloc [OF r al(1,2)] al(3,4)]
  have fresh: "rg \<noteq> g" "insert g (vw_addrs W) \<subseteq> ps_allocated b"
    using ps_alloc_fresh [OF F(2) al(3,4)] F(3) by auto
  have lv: "vlevel (vw_nodes W ?h) + 1 < 255" using c(2,5) by (simp add: nc vlevel_node_of)
  note S = split_root_ok [OF ok refl F(1) F2(1) fresh(1) spl lv rr, folded W'_def]
  show "view_ok W'" "abs_map W' = abs_map W" "root_range W'" by (rule S)+
  note rs = root_slot [OF r c(1,4)]
  have nsc: "\<not> swizzled c" by (rule D(8) [OF c(1)])
  have ne: "c \<noteq> q" "c \<noteq> p" "c \<noteq> ?sr" using c(1) q(1) p(1) D(6) by auto
  have mp: "m' p = pg" and mc: "m' c = l\<lparr>parent_ptr := p, dirty := True\<rparr>"
    and mq: "m' q = nr\<lparr>parent_ptr := p, pos_state := st, dirty := True\<rparr>"
    and msr: "m' ?sr = (m ?sr)\<lparr>children := (children (m ?sr))[0 := swz p], bitmap := 0, count := 0\<rparr>"
    and mo: "\<And>a. a \<noteq> p \<Longrightarrow> a \<noteq> c \<Longrightarrow> a \<noteq> q \<Longrightarrow> a \<noteq> ?sr \<Longrightarrow>
      m' a = (if swz a \<in> set (inner_children nr) \<and> \<not> swizzled a then (m a)\<lparr>parent_ptr := q\<rparr> else m a)"
    using ne p(4,5) q(4) by (simp_all add: m' split_mem_def inner_children_def)
  have inR: "a \<in> R \<and> parent_ptr (m a) = c" if "swz a \<in> set (inner_children nr)" "\<not> swizzled a" for a
  proof -
    have "swz a \<in> set (inner_children (m c))" using that(1) L(4) by simp
    from inner_child_nth [OF okc c(2) this] obtain j where j: "j \<le> page.count (m c)" "swz a = children (m c) ! j" .
    show ?thesis using D(15) [OF c(1,2) j(1)] that(2) unfolding j(2) [symmetric] by (simp add: slot_ok_def)
  qed
  have nqp: "a \<noteq> q" "a \<noteq> p" "a \<noteq> ?sr" if "a \<in> R" for a using that q(1) p(1) D(6) by auto
  show "m' a = m a" if "a \<noteq> q" "a \<noteq> p" "a \<noteq> ?sr" "a \<notin> R" for a
  proof -
    have "a \<noteq> c" using that(4) c(1) by auto
    then show ?thesis using mo [of a] that inR [of a] by auto
  qed
  show same: "remote_address (m' a) = remote_address (m a) \<and> pos_state (m' a) = pos_state (m a)" if "a \<in> R" for a
    using that nqp [OF that] mo [of a] mc L(5,7) by (cases "a = c") auto
  show rq: "remote_address (m' q) = g" "remote_address (m' p) = rg" "pos_state (m' q) = st" "pos_state (m' p) = pos_state pg"
    using mq mp L(9) pg(2) by simp_all
  have par: "parent_ptr (m' a) = (if a = c then p else if parent_ptr (m a) = c \<and> swz a \<in> set (inner_children nr) then q else parent_ptr (m a))"
    if "a \<in> R" for a
    using D(8) [OF that] nqp [OF that] mo [of a] mc inR [of a] by (cases "a = c") auto
  have pcc: "parent_ptr (m c) \<noteq> c" using rs(2) ne(3) by simp
  have unsw: "unswz m' v = unswz m v" if "swizzled v \<Longrightarrow> hide v \<in> R" for v
    by (rule unswz_cong) (use same that in blast)
  have slotR: "swizzled v \<Longrightarrow> hide v \<in> R" if "a \<in> R" "ptype (m a) = BTreeInner" "v \<in> set (inner_children (m a))" for a v
    using inner_child_nth [OF D(10) [OF that(1)] that(2,3)] D(15) [OF that(1,2)] by (metis slot_ok_def)
  have nodes: "node_of m' l = node_of m l" "node_of m' nr = node_of m nr"
    using slotR [OF c(1,2)] L(4) by (auto intro!: node_of_cong unsw)
  have mcq: "page_ok (m' c)" "ptype (m' c) = BTreeInner" "inner_children (m' c) = inner_children l"
    "page_ok (m' q)" "ptype (m' q) = BTreeInner" "inner_children (m' q) = inner_children nr"
    using L(1,2,8,10) by (simp_all add: mc mq upd_pos_simps(10) [unfolded upd_pos_def] inner_children_def)
  have q': "q \<in> R \<union> {q, p}" by simp
  note H = inner_halves [where R' = "R \<union> {q, p}" and m' = m' and q = q, OF r c(1,2) L(4) _ q' mcq]
  have Hp: "x \<in> R \<Longrightarrow> parent_ptr (m x) = c \<Longrightarrow> parent_ptr (m' x) = (if swz x \<in> set (inner_children nr) then q else c)" for x
    using par pcc by auto
  have Hn: "remote_address (m' x) \<notin> vw_addrs W" if "x \<in> R \<union> {q, p}" "x \<notin> R" for x using that rq F(1) F2(1) by auto
  show "residency W' m' b (R \<union> {q, p})"
  proof (rule residency_change [where A = "{c}", OF r])
    show "vtree (vw_nodes W') (vw_addrs W') (vw_root W')" using S(1) by (simp add: view_ok_def)
    show "ps_ok b" "vw_addrs W' \<subseteq> ps_allocated b" using F2(2,3) fresh(2) by (simp_all add: W'_def)
    show "slot_ok m' (R \<union> {q, p}) ?sr (children (m' ?sr) ! 0)" using D(5) p(2) pg(3) mp msr by (simp add: slot_ok_def)
    show "unswz m' (children (m' ?sr) ! 0) = vw_root W'" using D(5) p(2) rq(2) msr by (simp add: unswz_def W'_def)
    show "\<exists>q. m' a = (m a)\<lparr>parent_ptr := q\<rparr>" if "a \<in> R" "a \<notin> {c}" for a
    proof (cases "swz a \<in> set (inner_children nr) \<and> \<not> swizzled a")
      case True
      then show ?thesis using that nqp [OF that(1)] mo [of a] by (intro exI [of _ q]) simp
    next
      case False
      then show ?thesis using that nqp [OF that(1)] mo [of a] by (intro exI [of _ "parent_ptr (m a)"]) auto
    qed
    show "vw_nodes W' (remote_address (m a)) = vw_nodes W (remote_address (m a))" if "a \<in> R" "a \<notin> {c}" for a
      using that D(14) [OF that(1) c(1)] c(4) F(6) [OF that(1)] F2(6) [OF that(1)] by (auto simp: W'_def)
    show "page_ok (m' a) \<and> dirty (m' a) \<and> remote_address (m' a) \<in> vw_addrs W' \<and> node_of m' (m' a) = vw_nodes W' (remote_address (m' a))"
      if a: "a \<in> {c} \<union> {q, p}" for a
    proof -
      have "unswz m' (swz c) = ?h" "unswz m' (swz q) = g" using nsc q(2) rq(1) same [OF c(1)] c(4) by (simp_all add: unswz_def)
      then have "node_of m' pg = LInner (level (m c) + 1) KEY_MIN KEY_MAX [sep] [?h, g]" using pg by (simp add: node_of_def)
      moreover have "vw_nodes W' rg = LInner (level (m c) + 1) KEY_MIN KEY_MAX [sep] [?h, g]"
        using L(8,11) splits_fields(3,6) [OF spl] rr by (simp add: W'_def root_range_def vlevel_node_of)
      moreover have "?h \<noteq> rg" "?h \<noteq> g" using hT F(1) F2(1) by auto
      ultimately have "node_of m' (m' p) = vw_nodes W' rg" "node_of m' (m' c) = vw_nodes W' ?h" "node_of m' (m' q) = vw_nodes W' g"
        using nodes fresh(1) by (auto simp: W'_def mp mc mq upd_pos_simps(11) [unfolded upd_pos_def])
      moreover have "dirty (m' p)" "dirty (m' c)" "dirty (m' q)" using pg(4) by (simp_all add: mp mc mq)
      moreover have "page_ok (m' p)" using pg(1) by (simp add: mp)
      moreover have "remote_address (m' c) = ?h" using same [OF c(1)] c(4) by simp
      moreover have "rg \<in> vw_addrs W'" "?h \<in> vw_addrs W'" "g \<in> vw_addrs W'" using hT by (simp_all add: W'_def)
      moreover have "a = c \<or> a = p \<or> a = q" using a by auto
      ultimately show ?thesis using mcq(1,4) rq(1,2) by (elim disjE) simp_all
    qed
    show "slot_ok m' (R \<union> {q, p}) a v" if a: "a \<in> {c} \<union> {q, p}" and v: "v \<in> set (inner_children (m' a))" for a v
    proof -
      have "slot_ok m' (R \<union> {q, p}) p v" if "a = p"
      proof -
        have "v = swz c \<or> v = swz q" using v that mp pg(6) by auto
        then show ?thesis using nsc q(2) c(1) mc mq by (auto simp: slot_ok_def)
      qed
      moreover have "slot_ok m' (R \<union> {q, p}) c v" if "a = c"
        by (rule H(1)) (use v that mcq(3) Hp same Hn in auto)
      moreover have "slot_ok m' (R \<union> {q, p}) q v" if "a = q"
        by (rule H(2)) (use v that mcq(6) Hp same Hn in auto)
      ultimately show ?thesis using a by auto
    qed
    show "parent_ptr (m' x) = parent_ptr (m x)" if "x \<in> R" "parent_ptr (m x) \<in> R" "parent_ptr (m x) \<notin> {c}" for x
      using par [OF that(1)] that rs(2) D(6) by auto
    show "points_back m' ?sr (R \<union> {q, p}) x"
      if x: "x \<in> R \<union> {q, p}" "\<not> (x \<in> R \<and> parent_ptr (m x) \<in> R \<and> parent_ptr (m x) \<notin> {c})" for x
    proof -
      have okp: "ptype (m' p) = BTreeInner" "page_ok (m' p)" "inner_children (m' p) = [swz c, swz q]" using pg by (simp_all add: mp)
      consider "x = q" | "x = p" | "x \<in> R" "parent_ptr (m x) = c" | "x \<in> R" "parent_ptr (m x) \<notin> R" using x by auto
      then show ?thesis
      proof cases
        case 1
        then show ?thesis using mq okp by (intro points_back_inner [where q = p]) auto
      next
        case 2
        then show ?thesis using D(5) pg(3) mp msr by (intro points_back_super) simp_all
      next
        case 3
        show ?thesis by (rule H(3)) (use 3 Hp same Hn in auto)
      next
        case 4
        then have "children (m ?sr) ! 0 = swz x" using D(13) [OF 4(1)] by (auto simp: points_back_def)
        then have "x = c" using rs(1) nsc D(8) [OF 4(1)] swz_inject by simp
        then show ?thesis using mc okp by (intro points_back_inner [where q = p]) auto
      qed
    qed
    show "g' \<in> vw_addrs W \<and> vw_nodes W' g' = vw_nodes W g' \<and> ps_page b (offset g') = ps_page b0 (offset g') \<or> at_rest (vw_nodes W') b g'"
      if g': "g' \<in> vw_addrs W'" and no: "\<And>a. a \<in> {c} \<union> {q, p} \<Longrightarrow> remote_address (m' a) \<noteq> g'" for g'
    proof -
      have "g' \<noteq> ?h" "g' \<noteq> rg" "g' \<noteq> g" using no [of c] no [of p] no [of q] same [OF c(1)] c(4) rq(1,2) by auto
      then show ?thesis using g' F(4) F2(4) by (simp add: W'_def)
    qed
    show "inj_on (\<lambda>a. remote_address (m' a)) {q, p}" using rq fresh(1) by (auto simp: inj_on_def)
  qed (use c(1) q p same Hn D(4,5) msr in \<open>auto simp: W'_def\<close>)
qed

end
