(* ===== verification/ColdPath.thy ===== *)
theory ColdPath
  imports SplitResidency
begin

text \<open>
  The operations of \<open>CacheManager\<close> that the source marks as not in use for now: the miss path by
  page table (\<open>cache_get\<close>, \<open>cold_to_hot\<close> and its variants), the one-sided access to a
  leaf that admission control keeps out of the pool, and the replacement of an outdated page. A
  miss puts the IO flag into the page table and takes it out again when the page has arrived or
  was refused. References that an operation may set are passed in and returned.
\<close>

subsection \<open>Copying pages\<close>

text \<open>The null check on the synchronous read never fires: a read hands out the scratch page.\<close>

definition remote_to_cache :: "u64 \<Rightarrow> gaddr \<Rightarrow> bool \<Rightarrow> 'a cache_st \<Rightarrow> bool \<times> 'a cache_st" where
  "remote_to_cache cache_page global_node sync_read s =
     (case (if sync_read then opt_remote_read global_node s else raw_remote_read global_node s) of
        (buf, s1) \<Rightarrow> (True, set_node cache_page buf s1))"

definition buffer_to_cache :: "u64 \<Rightarrow> page \<Rightarrow> 'a cache_st \<Rightarrow> 'a cache_st res" where
  "buffer_to_cache cache_page cur_node s = assertR (pos_state cur_node \<noteq> POS_HOT) (Inr (set_node cache_page cur_node s))"

subsection \<open>Cold pages\<close>

text \<open>The code, \<open>*ret_page\<close>, \<open>refresh\<close> and the state.\<close>

definition simple_cold_to_hot ::
    "env \<Rightarrow> gaddr \<Rightarrow> u64 \<Rightarrow> u64 \<Rightarrow> nat \<Rightarrow> bool \<Rightarrow> bool \<Rightarrow> 'a cache_st \<Rightarrow> (int \<times> u64 \<times> bool \<times> 'a cache_st) res" where
  "simple_cold_to_hot E node ret_page parent child_idx refresh sync_read s =
     bindR (try_get_empty_page E s) (\<lambda>(pg, s1).
       if pg = 0 then Inr (-1, ret_page, refresh, s1)
       else assertR (pos_state (mem s1 pg) \<noteq> POS_HOT)
         (case remote_to_cache pg node sync_read s1 of
            (IO_success, s2) \<Rightarrow>
              assertR (level (mem s2 parent) \<noteq> 255)
                (if \<not> IO_success \<or> \<not> fit_limits (mem s2 pg) s2 \<or> \<not> new_check_limit_match (mem s2 parent) (mem s2 pg) child_idx
                 then Inr (-1, ret_page, True, insert_local_set pg s2)
                 else if remote_address (mem s2 pg) \<noteq> node then Inl Spin
                 else assertR (pos_state (mem s2 pg) = POS_REMOTE)
                   (assertR (parent_ptr (mem s2 pg) = 0) (Inr (0, pg, refresh, s2))))))"

text \<open>The IO flag is taken out of the page table, where it must be.\<close>

definition drop_flag :: "env \<Rightarrow> gaddr \<Rightarrow> 'a cache_st \<Rightarrow> 'a cache_st res" where
  "drop_flag E node s =
     (case remove_with_lock (hash_of E) (pt s) node IO_FLAG of (flag, t) \<Rightarrow> assertR flag (Inr (s\<lparr>pt := t\<rparr>)))"

definition cold_to_hot ::
    "env \<Rightarrow> gaddr \<Rightarrow> u64 \<Rightarrow> u64 \<Rightarrow> nat \<Rightarrow> bool \<Rightarrow> 'a cache_st \<Rightarrow> (int \<times> u64 \<times> bool \<times> 'a cache_st) res" where
  "cold_to_hot E node ret_page parent child_idx refresh s =
     (let sync_read = sync_or_not (mem s parent) child_idx s
      in bindR (simple_cold_to_hot E node ret_page parent child_idx refresh sync_read s) (\<lambda>(ret, rp, rf, s1).
           if ret = 0 then
             bindR (update_with_lock (hash_of E) (\<lambda>a. remote_address (mem s1 a)) (pt s1) node rp) (\<lambda>(flag, old_flag, t).
               assertR flag (assertR (old_flag = Some IO_FLAG) (Inr (ret, rp, rf, s1\<lparr>pt := t\<rparr>))))
           else bindR (drop_flag E node s1) (\<lambda>s2. Inr (ret, rp, rf, s2))))"

definition cold_to_hot_with_rpc ::
    "env \<Rightarrow> gaddr \<Rightarrow> u64 \<Rightarrow> u64 \<Rightarrow> nat \<Rightarrow> bool \<Rightarrow> 'a cache_st \<Rightarrow> (int \<times> u64 \<times> bool \<times> 'a cache_st) res" where
  "cold_to_hot_with_rpc E node ret_page parent child_idx refresh s = cold_to_hot E node ret_page parent child_idx refresh s"

subsection \<open>One-sided access\<close>

datatype rpc_type = RPC_LOOKUP | RPC_UPDATE | RPC_INSERT | RPC_DELETE

text \<open>\<open>remote_write\<close> of the scratch page itself, without a copy.\<close>

definition write_scratch :: "gaddr \<Rightarrow> page \<Rightarrow> 'a cache_st \<Rightarrow> 'a cache_st res" where
  "write_scratch g p s =
     bindR (remote_write_node g p True (be s)) (\<lambda>(p', b). Inr (s\<lparr>scratch := p', be := b\<rparr>))"

text \<open>The four branches on the page image that was read into the scratch page: the code,
  \<open>result\<close>, \<open>success\<close> and the state.\<close>

definition one_sided :: "rpc_type \<Rightarrow> gaddr \<Rightarrow> u64 \<Rightarrow> u64 \<Rightarrow> bool \<Rightarrow> 'a cache_st \<Rightarrow> (int \<times> u64 \<times> bool \<times> 'a cache_st) res" where
  "one_sided rpc global_node k result success s =
     (case raw_remote_read global_node s of
        (cur_leaf, s1) \<Rightarrow>
          case rpc of
            RPC_LOOKUP \<Rightarrow>
              if \<not> rangeValid cur_leaf k then Inr (-1, result, success, s1)
              else (case leaf_find cur_leaf k of
                      Some v \<Rightarrow> Inr (1, v, True, s1) | None \<Rightarrow> Inr (1, result, False, s1))
          | RPC_UPDATE \<Rightarrow>
              if \<not> rangeValid cur_leaf k then Inr (-1, result, success, s1)
              else (case leaf_update cur_leaf k result of
                      (ok, p) \<Rightarrow> bindR (if ok then write_scratch global_node p s1 else Inr (s1\<lparr>scratch := p\<rparr>))
                        (\<lambda>s2. Inr (1, result, ok, s2)))
          | RPC_INSERT \<Rightarrow>
              if \<not> rangeValid cur_leaf k \<or> page.count cur_leaf = max_leaf_entries then Inr (-1, result, success, s1)
              else (case leaf_insert cur_leaf k result of
                      (ok, p) \<Rightarrow> bindR (write_scratch global_node p s1) (\<lambda>s2. Inr (1, result, ok, s2)))
          | RPC_DELETE \<Rightarrow>
              if \<not> rangeValid cur_leaf k then Inr (-1, result, success, s1)
              else (case leaf_remove cur_leaf k of
                      (ok, p) \<Rightarrow> bindR (if ok then write_scratch global_node p s1 else Inr (s1\<lparr>scratch := p\<rparr>))
                        (\<lambda>s2. Inr (1, result, ok, s2))))"

definition cold_to_hot_with_admission ::
    "env \<Rightarrow> gaddr \<Rightarrow> u64 \<Rightarrow> u64 \<Rightarrow> nat \<Rightarrow> bool \<Rightarrow> u64 \<Rightarrow> u64 \<Rightarrow> bool \<Rightarrow> rpc_type \<Rightarrow> 'a cache_st \<Rightarrow>
     (int \<times> u64 \<times> bool \<times> u64 \<times> bool \<times> 'a cache_st) res" where
  "cold_to_hot_with_admission E node ret_page parent child_idx refresh k result success rpc s =
     (case draw_below E 10000 s of
        (idx, s1) \<Rightarrow>
          if cstate s1 = 1 \<and> idx \<ge> admission_idx s1 then
            bindR (one_sided rpc node k result success s1) (\<lambda>(ret, r, ok, s2).
              bindR (drop_flag E node s2) (\<lambda>s3. Inr (ret, ret_page, refresh, r, ok, s3)))
          else bindR (cold_to_hot E node ret_page parent child_idx refresh s1) (\<lambda>(ret, rp, rf, s2).
            Inr (ret, rp, rf, result, success, s2)))"

text \<open>For a scan: the entries copied to the buffer and \<open>max_key\<close>, if the call sets them.\<close>

definition cold_to_hot_with_admission_for_scan ::
    "env \<Rightarrow> gaddr \<Rightarrow> u64 \<Rightarrow> u64 \<Rightarrow> nat \<Rightarrow> bool \<Rightarrow> u64 \<Rightarrow> nat \<Rightarrow> 'a cache_st \<Rightarrow>
     (int \<times> u64 \<times> bool \<times> ((u64 \<times> u64) list \<times> u64) option \<times> 'a cache_st) res" where
  "cold_to_hot_with_admission_for_scan E node ret_page parent child_idx refresh k scan_num s =
     (case draw_below E 10000 s of
        (idx, s1) \<Rightarrow>
          if idx \<ge> admission_idx s1 then
            (case raw_remote_read node s1 of
               (cur_leaf, s2) \<Rightarrow>
                 bindR (drop_flag E node s2) (\<lambda>s3.
                   if \<not> rangeValid cur_leaf k then Inr (-1, ret_page, refresh, None, s3)
                   else Inr (1, ret_page, refresh, Some (leaf_rangeScan cur_leaf k scan_num, max_limit cur_leaf), s3)))
          else bindR (cold_to_hot E node ret_page parent child_idx refresh s1) (\<lambda>(ret, rp, rf, s2).
            Inr (ret, rp, rf, None, s2)))"

subsection \<open>Lookup through the page table\<close>

text \<open>The page (or null), \<open>restart\<close>, \<open>refresh\<close> and the state. The IO flag is not the
  address of a page: to follow it is undefined.\<close>

definition cache_get ::
    "env \<Rightarrow> gaddr \<Rightarrow> u64 \<Rightarrow> nat \<Rightarrow> bool \<Rightarrow> bool \<Rightarrow> bool \<Rightarrow> 'a cache_st \<Rightarrow> (u64 \<times> bool \<times> bool \<times> 'a cache_st) res" where
  "cache_get E node parent child_idx restart refresh IO_enable s =
     (let target_page = get_with_bucket (hash_of E) (pt s) node
      in if target_page = 0 then
           (let s1 = s\<lparr>pt := snd (insert_io_flag_with_lock (hash_of E) (pt s) node)\<rparr>
            in if \<not> IO_enable then Inr (0, restart, refresh, s1)
               else bindR (cold_to_hot E node 0 parent child_idx refresh s1) (\<lambda>(_, return_page, rf, s2).
                      Inr (return_page, True, rf, s2)))
         else if target_page = IO_FLAG then Inl OutOfBounds
         else if \<not> new_check_limit_match (mem s parent) (mem s target_page) child_idx then
           (let s1 = set_node target_page ((mem s target_page)\<lparr>obsolete := True\<rparr>) s
            in Inr (0, restart, True, s1\<lparr>pt := snd (remove_with_lock (hash_of E) (pt s1) node target_page)\<rparr>))
         else Inr (target_page, restart, refresh, s))"

text \<open>Taking a page for exclusive use: out of the cool tier, or off its parent.\<close>

definition get_exclusive_node :: "env \<Rightarrow> gaddr \<Rightarrow> u64 \<Rightarrow> 'a cache_st \<Rightarrow> (bool \<times> 'a cache_st) res" where
  "get_exclusive_node E node target_node s =
     (if pos_state (mem s target_node) = POS_COOL then Inr (try_promote_using_value E node target_node s)
      else if pos_state (mem s target_node) = POS_HOT then
        (let target_parent = parent_ptr (mem s target_node)
         in if target_parent \<noteq> 0 then
              assertR (pos_state (mem s target_parent) = POS_HOT)
                (if \<not> check_parent_child_info (mem s target_parent) target_node (mem s target_node) then Inl Spin
                 else (let i = findIdx (mem s target_parent) (swz target_node)
                       in assertR (i \<noteq> -1)
                            (Inr (True, unswizzling (ChildSlot target_parent (nat i)) target_parent (nat i) target_node s))))
            else Inr (True, s))
      else Inr (False, s))"

subsection \<open>Replacing an outdated page\<close>

text \<open>\<open>cur_node\<close> gives way to a slot with the newer image \<open>remote_cur_node\<close>.\<close>

definition updatest_replace :: "env \<Rightarrow> u64 \<Rightarrow> u64 \<Rightarrow> page \<Rightarrow> 'a cache_st \<Rightarrow> 'a cache_st res" where
  "updatest_replace E cur_node parent remote_cur_node s =
     bindR (fill_local_page_set E s) (\<lambda>s1.
       let remote_addr = remote_address (mem s1 cur_node);
           target_node = get_with_bucket (hash_of E) (pt s1) remote_addr
       in if target_node = 0 then
            (case get_local_page_set s1 of
               (new_cur_node, s2) \<Rightarrow>
                 assertR (new_cur_node \<noteq> 0)
                   (bindR (buffer_to_cache new_cur_node remote_cur_node s2) (\<lambda>s3.
                     bindR (replace_child parent cur_node new_cur_node s3) (\<lambda>s4.
                       case insert_with_lock (hash_of E) (pt s4) remote_addr new_cur_node of
                         (insert_success, _, t) \<Rightarrow>
                           assertR insert_success
                             (assertR (check_parent_child_info (mem s4 parent) new_cur_node (mem s4 new_cur_node))
                               (Inr (set_pos new_cur_node POS_HOT (s4\<lparr>pt := t\<rparr>))))))))
          else
            assertR (target_node = cur_node)
              (case get_local_page_set s1 of
                 (new_cur_node, s2) \<Rightarrow>
                   assertR (new_cur_node \<noteq> 0)
                     (bindR (buffer_to_cache new_cur_node remote_cur_node s2) (\<lambda>s3.
                       bindR (replace_child parent cur_node new_cur_node s3) (\<lambda>s4.
                         bindR (update_with_lock (hash_of E) (\<lambda>a. remote_address (mem s4 a)) (pt s4) remote_addr new_cur_node)
                           (\<lambda>(update_success, old_val, t).
                             assertR update_success (assertR (old_val = Some target_node)
                               (let s5 = set_node cur_node ((mem s4 cur_node)\<lparr>obsolete := True\<rparr>) (s4\<lparr>pt := t\<rparr>)
                                in assertR (check_parent_child_info (mem s5 parent) new_cur_node (mem s5 new_cur_node))
                                     (Inr (set_pos new_cur_node POS_HOT s5))))))))))"

subsection \<open>The admission rate\<close>

text \<open>The rate enters as the threshold \<open>10000 * admission_rate\<close>, truncated.\<close>

definition set_admission_ratio :: "u64 \<Rightarrow> 'a cache_st \<Rightarrow> 'a cache_st" where
  "set_admission_ratio threshold s = s\<lparr>admission_idx := threshold\<rparr>"

subsection \<open>A slot in hand\<close>

text \<open>Residency only looks at the pages in use and at the super root.\<close>

lemma residency_frame:
  assumes r: "residency W m b R" and m': "\<And>a. a \<in> R \<Longrightarrow> m' a = m a" "m' (vw_super W) = m (vw_super W)"
  shows "residency W m' b R"
proof -
  note D = residencyD [OF r]
  have slot: "slot_ok m' R a v = slot_ok m R a v" for a v using m'(1) by (auto simp: slot_ok_def)
  have unsw: "unswz m' v = unswz m v" if "slot_ok m R a v" for a v
    using that m'(1) by (intro unswz_cong) (simp add: slot_ok_def)
  have node: "node_of m' (m a) = node_of m (m a)" if a: "a \<in> R" for a
  proof (rule node_of_cong)
    assume i: "ptype (m a) = BTreeInner"
    show "\<forall>v \<in> set (inner_children (m a)). unswz m' v = unswz m v"
    proof
      fix v assume "v \<in> set (inner_children (m a))"
      from inner_child_nth [OF D(10) [OF a] i this] obtain j where "j \<le> page.count (m a)" "v = children (m a) ! j" .
      then show "unswz m' v = unswz m v" using unsw D(15) [OF a i] by blast
    qed
  qed
  have pb: "points_back m' (vw_super W) R a" if a: "a \<in> R" for a
    using D(13) [OF a] m' a unfolding points_back_def by auto
  show ?thesis
    by (rule residencyI) (use D m' slot unsw [OF D(17)] node pb in \<open>auto simp: m'\<close>)
qed

text \<open>A slot that belongs to nobody takes any clean image that is not marked as in use, and stays
  in hand or goes to the free list.\<close>

lemma write_hand:
  assumes inv: "cache_inv E W s" and p: "in_hand p s" and q: "\<not> in_use (pos_state q)" "\<not> dirty q"
  shows "cache_inv E W (set_node p q s)" "in_hand p (set_node p q s)" "hot_set (set_node p q s) = hot_set s"
proof -
  note I = cache_invD [OF inv]
  have P: "p \<in> pool_set s" "p \<notin> hot_set s" "p \<notin> set (cool_slots (ht s))" "p \<notin> set (local_pages s)"
    "\<And>al i. pool s = Some al \<Longrightarrow> i < page_num al \<Longrightarrow> head_idx al \<le> i \<Longrightarrow> slot_addr al i \<noteq> p"
    using p by (auto simp: in_hand_def)
  show hot: "hot_set (set_node p q s) = hot_set s" using q(1) P(1,2) by (auto simp: hot_set_def)
  have "residency W (mem (set_node p q s)) (be s) (hot_set s)"
    using P(1,2) I(5) by (intro residency_frame [OF I(6)]) auto
  moreover have "pool_inv (set_node p q s)"
  proof -
    obtain al where "pool s = Some al" "alloc_ok al" "cstate s = (if head_idx al = page_num al then 1 else 0)"
      "\<forall>i < page_num al. head_idx al \<le> i \<longrightarrow> pos_state (mem s (slot_addr al i)) = POS_REMOTE"
      using I(1) by (auto simp: pool_inv_def)
    then show ?thesis using P(5) unfolding pool_inv_def by (intro exI [of _ al]) simp
  qed
  moreover have "free_inv (set_node p q s)" using I(4) P(3,4) q(2) by (auto simp: free_inv_def)
  moreover have "\<forall>a \<in> hot_set s. mem (set_node p q s) a = mem s a" using P(2) by auto
  ultimately show "cache_inv E W (set_node p q s)" using I by (simp add: cache_inv_def hot)
  show "in_hand p (set_node p q s)" using p by (simp add: in_hand_def hot)
qed

lemma hand_clean: "cache_inv E W s \<Longrightarrow> in_hand p s \<Longrightarrow> \<not> dirty (mem s p)"
  using cache_invD(4) [of E W s] by (auto simp: free_inv_def in_hand_def hot_set_def)

lemma free_hand:
  assumes inv: "cache_inv E W s" and p: "in_hand p s"
  shows "cache_inv E W (insert_local_set p s)"
proof -
  define s1 where "s1 = set_node p ((mem s p)\<lparr>pos_state := POS_LOCAL\<rparr>) s"
  have eq: "insert_local_set p s = s1\<lparr>local_pages := p # local_pages s1\<rparr>" by (simp add: insert_local_set_def set_pos_def s1_def)
  have "\<not> in_use (pos_state ((mem s p)\<lparr>pos_state := POS_LOCAL\<rparr>))" "\<not> dirty ((mem s p)\<lparr>pos_state := POS_LOCAL\<rparr>)"
    using hand_clean [OF inv p] by (simp_all add: in_use_def)
  note w = write_hand [OF inv p this, folded s1_def]
  let ?s = "s1\<lparr>local_pages := p # local_pages s1\<rparr>"
  have sets: "pool_set ?s = pool_set s1" "hot_set ?s = hot_set s1" by (simp_all add: pool_set_def hot_set_def)
  have "p \<in> pool_set s1" "p \<notin> set (cool_slots (ht s1))" "p \<notin> set (local_pages s1)" "pos_state (mem s1 p) = POS_LOCAL"
    using w(2) by (auto simp: in_hand_def s1_def)
  then have "free_inv ?s" using cache_invD(4) [OF w(1)] by (auto simp: free_inv_def sets)
  moreover have "pool_inv ?s" using cache_invD(1) [OF w(1)] by (simp add: pool_inv_def)
  ultimately show ?thesis using w(1) unfolding eq by (simp add: cache_inv_def sets)
qed

text \<open>A change of the page table that spares the pages in use.\<close>

lemma table_inv:
  assumes "cache_inv E W s" "table_ok t"
    and "\<And>a. a \<in> hot_set s \<Longrightarrow> get_with_bucket (hash_of E) t (remote_address (mem s a)) = a"
  shows "cache_inv E W (s\<lparr>pt := t\<rparr>)"
proof -
  have sets: "pool_set (s\<lparr>pt := t\<rparr>) = pool_set s" "hot_set (s\<lparr>pt := t\<rparr>) = hot_set s" by (simp_all add: pool_set_def hot_set_def)
  have "pool_inv (s\<lparr>pt := t\<rparr>) = pool_inv s" by (simp add: pool_inv_def)
  moreover have "free_inv (s\<lparr>pt := t\<rparr>) = free_inv s" by (simp add: free_inv_def sets)
  ultimately show ?thesis using assms by (simp add: cache_inv_def sets)
qed

subsection \<open>A dirty flag from the backend\<close>

text \<open>
  The page that a split writes to the backend is marked as dirty, and a read brings the mark
  along. On the miss path by page table it then stands on a slot that is not in use: the invariant
  holds with the mark of that slot wiped off.
\<close>

definition wiped :: "u64 \<Rightarrow> 'a cache_st \<Rightarrow> 'a cache_st" where
  "wiped p s = set_node p ((mem s p)\<lparr>dirty := False\<rparr>) s"

definition refused_inv :: "env \<Rightarrow> view \<Rightarrow> 'a cache_st \<Rightarrow> bool" where
  "refused_inv E W s \<longleftrightarrow> cache_inv E W s \<or> (\<exists>p \<in> set (local_pages s). cache_inv E W (wiped p s))"

lemma wiped_fields [simp]:
  "pt (wiped p s) = pt s" "pool_set (wiped p s) = pool_set s" "hot_set (wiped p s) = hot_set s" "local_pages (wiped p s) = local_pages s"
  "wiped p (s\<lparr>pt := t\<rparr>) = (wiped p s)\<lparr>pt := t\<rparr>" "in_hand p (wiped p s) = in_hand p s"
  "remote_address (mem (wiped p s) a) = remote_address (mem s a)"
proof -
  show sets: "pool_set (wiped p s) = pool_set s" "hot_set (wiped p s) = hot_set s"
    by (auto simp: wiped_def hot_set_def)
  show "in_hand p (wiped p s) = in_hand p s" unfolding in_hand_def sets by (simp add: wiped_def)
qed (simp_all add: wiped_def set_node_def)

lemma wiped_clean: "\<not> dirty (mem s p) \<Longrightarrow> wiped p s = s"
  by (simp add: wiped_def set_node_def fun_upd_idem)

lemma wiped_local: "wiped p (insert_local_set p s) = insert_local_set p (wiped p s)"
proof -
  have "q\<lparr>pos_state := POS_LOCAL, dirty := False\<rparr> = q\<lparr>dirty := False, pos_state := POS_LOCAL\<rparr>" for q :: page by (cases q) simp
  from arg_cong [OF this, of "fun_upd (mem s) p"] show ?thesis
    by (cases s) (simp add: wiped_def insert_local_set_def set_pos_def set_node_def)
qed

lemma wiped_set: "wiped p (set_node p q s) = set_node p (q\<lparr>dirty := False\<rparr>) s"
  by (simp add: wiped_def set_node_def)

subsection \<open>A cold page comes in\<close>

lemma IO_FLAG_facts: "IO_FLAG \<noteq> 0" "swizzled IO_FLAG"
proof -
  have "bit IO_FLAG 63" by (simp add: IO_FLAG_def bit_push_bit_iff bit_1_iff possible_bit_word)
  then show "swizzled IO_FLAG" by (simp add: swizzled_iff_bit)
  then show "IO_FLAG \<noteq> 0" by (auto simp: swizzled_def)
qed

text \<open>While a page of the tree is flagged in the page table it is not in use, so its image in the
  backend is current.\<close>

lemma flagged_absent:
  assumes inv: "cache_inv E W s" and node: "node \<in> vw_addrs W" "swizzled (get_with_bucket (hash_of E) (pt s) node)"
  shows "\<And>a. a \<in> hot_set s \<Longrightarrow> remote_address (mem s a) \<noteq> node"
    "at_rest (vw_nodes W) (be s) node" "ps_read (be s) node = Some (ps_page (be s) (offset node))"
proof -
  note I = cache_invD [OF inv]
  show no: "remote_address (mem s a) \<noteq> node" if "a \<in> hot_set s" for a
    using I(7) [OF that] residencyD(8) [OF I(6) that] node(2) by auto
  then show "at_rest (vw_nodes W) (be s) node" "ps_read (be s) node = Some (ps_page (be s) (offset node))"
    using slot_at_rest [OF I(6) node(1)] by blast+
qed

lemma evolves_flag:
  "evolves E sr s s' \<Longrightarrow> swizzled (get_with_bucket (hash_of E) (pt s) node) \<Longrightarrow>
    get_with_bucket (hash_of E) (pt s') node = get_with_bucket (hash_of E) (pt s) node"
  by (simp add: evolves_def)

definition arrived :: "view \<Rightarrow> gaddr \<Rightarrow> u64 \<Rightarrow> 'a cache_st \<Rightarrow> bool" where
  "arrived W node pg s \<longleftrightarrow> pg \<noteq> 0 \<and> in_hand pg s \<and> remote_address (mem s pg) = node \<and> page_ok (mem s pg) \<and>
     node_of (mem s) (mem s pg) = vw_nodes W node"

lemma remote_to_cache_eq: "remote_to_cache pg node sync s =
    (True, set_node pg (fst (raw_remote_read node s)) (snd (raw_remote_read node s)))"
  by (simp add: remote_to_cache_def opt_remote_read_def case_prod_beta)

lemma simple_cold_to_hot_exact:
  assumes inv: "cache_inv E W s" and node: "node \<in> vw_addrs W" "swizzled (get_with_bucket (hash_of E) (pt s) node)"
    and parent: "level (mem s parent) \<noteq> 255"
  shows "case try_get_empty_page E s of
      Inl e \<Rightarrow> e = ExitCall \<and> cstate s = 1 \<and> simple_cold_to_hot E node rp parent i rf sync s = Inl ExitCall
    | Inr (p, s1) \<Rightarrow> get_with_bucket (hash_of E) (pt s1) node = get_with_bucket (hash_of E) (pt s) node \<and>
        (if p = 0 then simple_cold_to_hot E node rp parent i rf sync s = Inr (-1, rp, rf, s1) \<and> cache_inv E W s1
         else let img = ps_page (be s1) (offset node); s2 = set_node p img (s1\<lparr>scratch := img\<rparr>)
           in if fit_limits img s1 \<and> new_check_limit_match (mem s2 parent) img i
              then simple_cold_to_hot E node rp parent i rf sync s = Inr (0, p, rf, s2) \<and> arrived W node p s2 \<and> cache_inv E W (wiped p s2)
              else simple_cold_to_hot E node rp parent i rf sync s = Inr (-1, rp, True, insert_local_set p s2) \<and>
                cache_inv E W (wiped p (insert_local_set p s2)))"
proof -
  from try_get_empty_inv [OF inv] consider (exit) "try_get_empty_page E s = Inl ExitCall" "cstate s = 1"
    | (none) s1 where "try_get_empty_page E s = Inr (0, s1)" "cache_inv E W s1" "evolves E (vw_super W) s s1"
    | (some) p s1 where "try_get_empty_page E s = Inr (p, s1)" "p \<noteq> 0" "cache_inv E W s1" "evolves E (vw_super W) s s1" "in_hand p s1"
    by (auto split: if_splits)
  then show ?thesis
  proof cases
    case exit
    then show ?thesis by (simp add: simple_cold_to_hot_def)
  next
    case none
    then show ?thesis using evolves_flag [OF none(3) node(2)] by (simp add: simple_cold_to_hot_def)
  next
    case some
    have flag: "get_with_bucket (hash_of E) (pt s1) node = get_with_bucket (hash_of E) (pt s) node"
      by (rule evolves_flag [OF some(4) node(2)])
    have sw: "swizzled (get_with_bucket (hash_of E) (pt s1) node)" using flag node(2) by simp
    note A = flagged_absent [OF some(3) node(1) sw]
    define buf where "buf = ps_page (be s1) (offset node)"
    have rd: "raw_remote_read node s1 = (buf, s1\<lparr>scratch := buf\<rparr>)" using A(3) by (simp add: raw_remote_read_def buf_def Let_def)
    have rest: "page_ok buf" "remote_address buf = node" "bitmap buf = 0" "pos_state buf = POS_REMOTE" "parent_ptr buf = 0"
      "node_of (\<lambda>_. zero_page) buf = vw_nodes W node" using A(2) by (simp_all add: at_rest_def Let_def buf_def)
    define s2 where "s2 = set_node p buf (s1\<lparr>scratch := buf\<rparr>)"
    have inv1: "cache_inv E W (s1\<lparr>scratch := buf\<rparr>)" "in_hand p (s1\<lparr>scratch := buf\<rparr>)"
    proof -
      have sets: "pool_set (s1\<lparr>scratch := buf\<rparr>) = pool_set s1" "hot_set (s1\<lparr>scratch := buf\<rparr>) = hot_set s1"
        by (simp_all add: pool_set_def hot_set_def)
      have "pool_inv (s1\<lparr>scratch := buf\<rparr>) = pool_inv s1" "free_inv (s1\<lparr>scratch := buf\<rparr>) = free_inv s1"
        by (simp_all add: pool_inv_def free_inv_def sets)
      then show "cache_inv E W (s1\<lparr>scratch := buf\<rparr>)" using some(3) by (simp add: cache_inv_def sets)
      show "in_hand p (s1\<lparr>scratch := buf\<rparr>)" using some(5) by (simp add: in_hand_def sets)
    qed
    have nu: "\<not> in_use (pos_state (buf\<lparr>dirty := False\<rparr>))" "\<not> dirty (buf\<lparr>dirty := False\<rparr>)" using rest(4) by (simp_all add: in_use_def)
    have w: "cache_inv E W (wiped p s2)" "in_hand p (wiped p s2)"
      using write_hand [OF inv1 nu] unfolding s2_def wiped_set by simp_all
    have s2: "mem s2 p = buf" "pt s2 = pt s1" "fit_limits buf s2 = fit_limits buf s1" by (simp_all add: s2_def fit_limits_def set_node_def)
    have hot: "pos_state (mem s1 p) \<noteq> POS_HOT" using some(5) by (auto simp: in_hand_def hot_set_def in_use_def)
    have lv: "level (mem s2 parent) \<noteq> 255"
    proof (cases "parent = p")
      case True
      then show ?thesis using rest(1) s2(1) by (auto simp: page_ok_def split: if_splits)
    next
      case False
      then show ?thesis using parent some(4) by (simp add: s2_def evolves_def)
    qed
    have rtc: "remote_to_cache p node sync s1 = (True, s2)" by (simp add: remote_to_cache_eq rd s2_def)
    have eq: "simple_cold_to_hot E node rp parent i rf sync s =
        (if fit_limits buf s1 \<and> new_check_limit_match (mem s2 parent) buf i then Inr (0, p, rf, s2) else Inr (-1, rp, True, insert_local_set p s2))"
      using some(1,2) hot lv rest(2,4,5) s2(1,3) by (simp add: simple_cold_to_hot_def rtc)
    have "node_of (mem s2) buf = vw_nodes W node"
      using node_of_at_rest [OF rest(1,3), of "mem s2" "\<lambda>_. zero_page"] rest(6) by simp
    then have "arrived W node p s2" using some(2) w(2) rest s2(1) by (simp add: arrived_def)
    moreover have "cache_inv E W (wiped p (insert_local_set p s2))" unfolding wiped_local by (rule free_hand [OF w(1,2)])
    ultimately show ?thesis
      unfolding some(1) sum.case prod.case Let_def buf_def [symmetric] s2_def [symmetric] if_not_P [OF some(2)]
      using eq w(1) flag by simp
  qed
qed

lemma simple_cold_to_hot_inv:
  assumes "cache_inv E W s" "node \<in> vw_addrs W" "swizzled (get_with_bucket (hash_of E) (pt s) node)" "level (mem s parent) \<noteq> 255"
  shows "simple_cold_to_hot E node rp parent i rf sync s = Inl ExitCall \<or>
    (\<exists>r rp' rf' s'. simple_cold_to_hot E node rp parent i rf sync s = Inr (r, rp', rf', s') \<and>
      get_with_bucket (hash_of E) (pt s') node = get_with_bucket (hash_of E) (pt s) node \<and>
      (r = -1 \<and> rp' = rp \<and> refused_inv E W s' \<or> r = 0 \<and> arrived W node rp' s' \<and> cache_inv E W (wiped rp' s') \<and> rf' = rf))"
proof -
  have local: "pt (insert_local_set p t) = pt t" "p \<in> set (local_pages (insert_local_set p t))" for p and t :: "'a cache_st"
    by (simp_all add: insert_local_set_def)
  show ?thesis
    using simple_cold_to_hot_exact [OF assms, of rp i rf sync] local
    by (force simp: refused_inv_def Let_def split: sum.splits prod.splits if_splits)
qed

text \<open>Taking the flag out again.\<close>

lemma drop_flag_inv:
  assumes inv: "cache_inv E W s" and node: "node \<in> vw_addrs W" "get_with_bucket (hash_of E) (pt s) node = IO_FLAG"
  shows "\<exists>t. drop_flag E node s = Inr (s\<lparr>pt := t\<rparr>) \<and> cache_inv E W (s\<lparr>pt := t\<rparr>) \<and> get_with_bucket (hash_of E) t node = 0"
proof -
  note T = cache_invD(3) [OF inv]
  have "table_map (hash_of E) (pt s) node = Some IO_FLAG"
    using get_table_map [OF T, of "hash_of E" node] node(2) IO_FLAG_facts(1) by (auto split: option.splits)
  then obtain t where t: "remove_with_lock (hash_of E) (pt s) node IO_FLAG = (True, t)" "table_ok t"
    "table_map (hash_of E) t = (table_map (hash_of E) (pt s))(node := None)"
    using remove_with_lock_correct [OF T IO_FLAG_facts(1), of "hash_of E" node] by auto
  have get: "get_with_bucket (hash_of E) t k = (if k = node then 0 else get_with_bucket (hash_of E) (pt s) k)" for k
    using get_table_map [OF t(2)] get_table_map [OF T] t(3) by simp
  have "cache_inv E W (s\<lparr>pt := t\<rparr>)"
    using flagged_absent(1) [OF inv node(1)] node(2) IO_FLAG_facts(2) cache_invD(7) [OF inv]
    by (intro table_inv [OF inv t(2)]) (simp add: get)
  then show ?thesis using t(1) get by (intro exI [of _ t]) (simp add: drop_flag_def)
qed

text \<open>A slot that is not in use spoils the invariant just by a dirty mark.\<close>

lemma wiped_inv_iff:
  assumes "cache_inv E W (wiped p s)" "p \<in> pool_set s" "\<not> in_use (pos_state (mem s p))"
  shows "cache_inv E W s \<longleftrightarrow> \<not> dirty (mem s p)"
  using assms wiped_clean [of s p] cache_invD(4) [of E W s] by (auto simp: free_inv_def)

lemma arrived_inv_iff: "cache_inv E W (wiped p s) \<Longrightarrow> arrived W node p s \<Longrightarrow> cache_inv E W s \<longleftrightarrow> \<not> dirty (mem s p)"
  by (rule wiped_inv_iff) (auto simp: arrived_def in_hand_def hot_set_def)

lemma local_inv_iff:
  assumes "cache_inv E W (wiped p s)" "p \<in> set (local_pages s)"
  shows "cache_inv E W s \<longleftrightarrow> \<not> dirty (mem s p)"
proof (rule wiped_inv_iff [OF assms(1)])
  have "p \<in> pool_set s \<and> pos_state (mem (wiped p s) p) = POS_LOCAL"
    using cache_invD(4) [OF assms(1)] assms(2) by (simp add: free_inv_def)
  then show "p \<in> pool_set s" "\<not> in_use (pos_state (mem s p))" by (simp_all add: wiped_def in_use_def)
qed

lemma drop_flag_wiped:
  assumes inv: "cache_inv E W (wiped p s)" and node: "node \<in> vw_addrs W" "get_with_bucket (hash_of E) (pt s) node = IO_FLAG"
  shows "\<exists>t. drop_flag E node s = Inr (s\<lparr>pt := t\<rparr>) \<and> cache_inv E W (wiped p (s\<lparr>pt := t\<rparr>)) \<and> get_with_bucket (hash_of E) t node = 0"
proof -
  from drop_flag_inv [OF inv node(1)] node(2) obtain t where t: "drop_flag E node (wiped p s) = Inr ((wiped p s)\<lparr>pt := t\<rparr>)"
    "cache_inv E W ((wiped p s)\<lparr>pt := t\<rparr>)" "get_with_bucket (hash_of E) t node = 0" by auto
  obtain fl t' where rm: "remove_with_lock (hash_of E) (pt s) node IO_FLAG = (fl, t')" by fastforce
  have "fl \<and> (wiped p s)\<lparr>pt := t'\<rparr> = (wiped p s)\<lparr>pt := t\<rparr>"
    using t(1) by (simp add: drop_flag_def assertR_def rm split: if_splits)
  then have "fl" "pt ((wiped p s)\<lparr>pt := t'\<rparr>) = pt ((wiped p s)\<lparr>pt := t\<rparr>)" by metis+
  then have "fl \<and> t' = t" by simp
  then have "drop_flag E node s = Inr (s\<lparr>pt := t\<rparr>)" by (simp add: drop_flag_def rm)
  then show ?thesis using t(2,3) unfolding wiped_fields(5) [symmetric] by blast
qed

lemma cold_to_hot_exact:
  assumes inv: "cache_inv E W s" and node: "node \<in> vw_addrs W" "get_with_bucket (hash_of E) (pt s) node = IO_FLAG"
    and parent: "level (mem s parent) \<noteq> 255"
  shows "case try_get_empty_page E s of
      Inl e \<Rightarrow> e = ExitCall \<and> cstate s = 1 \<and> cold_to_hot E node rp parent i rf s = Inl ExitCall
    | Inr (p, s1) \<Rightarrow>
        if p = 0 then \<exists>s'. cold_to_hot E node rp parent i rf s = Inr (-1, rp, rf, s') \<and> get_with_bucket (hash_of E) (pt s') node = 0 \<and>
          cache_inv E W s'
        else let img = ps_page (be s1) (offset node)
          in if fit_limits img s1 \<and> new_check_limit_match (((mem s1)(p := img)) parent) img i
             then \<exists>s'. cold_to_hot E node rp parent i rf s = Inr (0, p, rf, s') \<and> get_with_bucket (hash_of E) (pt s') node = p \<and>
               arrived W node p s' \<and> cache_inv E W (wiped p s') \<and> (cache_inv E W s' \<longleftrightarrow> \<not> dirty img)
             else \<exists>s'. cold_to_hot E node rp parent i rf s = Inr (-1, rp, True, s') \<and> get_with_bucket (hash_of E) (pt s') node = 0 \<and>
               p \<in> set (local_pages s') \<and> cache_inv E W (wiped p s') \<and> (cache_inv E W s' \<longleftrightarrow> \<not> dirty img)"
proof -
  have sw: "swizzled (get_with_bucket (hash_of E) (pt s) node)" using node(2) IO_FLAG_facts by simp
  define sync where "sync = sync_or_not (mem s parent) i s"
  note x = simple_cold_to_hot_exact [OF inv node(1) sw parent, of rp i rf sync]
  show ?thesis
  proof (cases "try_get_empty_page E s")
    case (Inl e)
    then show ?thesis using x by (simp add: cold_to_hot_def sync_def [symmetric])
  next
    case (Inr ps)
    obtain p s1 where ps: "ps = (p, s1)" by (cases ps)
    note x = x [unfolded Inr ps sum.case prod.case]
    define img where "img = ps_page (be s1) (offset node)"
    define s2 where "s2 = set_node p img (s1\<lparr>scratch := img\<rparr>)"
    have s2: "mem s2 = (mem s1)(p := img)" "pt s2 = pt s1" by (simp_all add: s2_def)
    have flag: "get_with_bucket (hash_of E) (pt s1) node = IO_FLAG" using x node(2) by simp
    show ?thesis
    proof (cases "p = 0")
      case True
      with x have x: "simple_cold_to_hot E node rp parent i rf sync s = Inr (-1, rp, rf, s1)" "cache_inv E W s1" by simp_all
      from drop_flag_inv [OF x(2) node(1) flag] x(1) True show ?thesis
        by (auto simp: Inr ps cold_to_hot_def sync_def [symmetric])
    next
      case p: False
      note x = x [THEN conjunct2, unfolded if_not_P [OF p] Let_def, folded img_def, folded s2_def]
      show ?thesis
      proof (cases "fit_limits img s1 \<and> new_check_limit_match (mem s2 parent) img i")
        case False
        define s3 where "s3 = insert_local_set p s2"
        have s3: "simple_cold_to_hot E node rp parent i rf sync s = Inr (-1, rp, True, s3)" "cache_inv E W (wiped p s3)"
          using x False by (simp_all add: s3_def)
        have f3: "pt s3 = pt s1" "p \<in> set (local_pages s3)" "dirty (mem s3 p) = dirty img"
          by (simp_all add: s3_def insert_local_set_def set_pos_def s2)
        from drop_flag_wiped [OF s3(2) node(1)] flag f3(1) obtain t where t: "drop_flag E node s3 = Inr (s3\<lparr>pt := t\<rparr>)"
          "cache_inv E W (wiped p (s3\<lparr>pt := t\<rparr>))" "get_with_bucket (hash_of E) t node = 0" by auto
        have "cold_to_hot E node rp parent i rf s = Inr (-1, rp, True, s3\<lparr>pt := t\<rparr>)"
          using s3(1) t(1) by (simp add: cold_to_hot_def sync_def [symmetric])
        moreover have "cache_inv E W (s3\<lparr>pt := t\<rparr>) \<longleftrightarrow> \<not> dirty img" using local_inv_iff [OF t(2)] f3(2,3) by simp
        ultimately show ?thesis
          unfolding Inr ps sum.case prod.case if_not_P [OF p] Let_def img_def [symmetric] s2(1) [symmetric] if_not_P [OF False]
          using t(2,3) f3(2) by (intro exI [of _ "s3\<lparr>pt := t\<rparr>"]) simp
      next
        case True
        with x have x: "simple_cold_to_hot E node rp parent i rf sync s = Inr (0, p, rf, s2)" "arrived W node p s2" "cache_inv E W (wiped p s2)"
          by simp_all
        have T: "table_ok (pt s2)" using cache_invD(3) [OF x(3)] by simp
        have ra: "remote_address (mem s2 p) = node" using x(2) by (simp add: arrived_def)
        have "table_map (hash_of E) (pt s2) node = Some IO_FLAG"
          using get_table_map [OF T, of "hash_of E" node] flag s2(2) IO_FLAG_facts(1) by (auto split: option.splits)
        then obtain t where t: "update_with_lock (hash_of E) (\<lambda>a. remote_address (mem s2 a)) (pt s2) node p = Inr (True, Some IO_FLAG, t)"
          "table_ok t" "table_map (hash_of E) t = (table_map (hash_of E) (pt s2))(node \<mapsto> p)"
          using update_with_lock_correct [OF T p, where k = node and H = "hash_of E" and ra = "\<lambda>a. remote_address (mem s2 a)"] ra by auto
        have get: "get_with_bucket (hash_of E) t k = (if k = node then p else get_with_bucket (hash_of E) (pt s2) k)" for k
          using get_table_map [OF t(2)] get_table_map [OF T] t(3) by simp
        have sw2: "swizzled (get_with_bucket (hash_of E) (pt (wiped p s2)) node)" using flag s2(2) IO_FLAG_facts(2) by simp
        have inv': "cache_inv E W (wiped p (s2\<lparr>pt := t\<rparr>))"
          unfolding wiped_fields using flagged_absent(1) [OF x(3) node(1) sw2] cache_invD(7) [OF x(3)]
          by (intro table_inv [OF x(3) t(2)]) (simp add: get)
        have arr: "arrived W node p (s2\<lparr>pt := t\<rparr>)" using x(2) by (simp add: arrived_def in_hand_def hot_set_def pool_set_def)
        have "cold_to_hot E node rp parent i rf s = Inr (0, p, rf, s2\<lparr>pt := t\<rparr>)"
          using x(1) t(1) by (simp add: cold_to_hot_def sync_def [symmetric])
        moreover have "cache_inv E W (s2\<lparr>pt := t\<rparr>) \<longleftrightarrow> \<not> dirty img" using arrived_inv_iff [OF inv' arr] by (simp add: s2(1))
        ultimately show ?thesis
          unfolding Inr ps sum.case prod.case if_not_P [OF p] Let_def img_def [symmetric] s2(1) [symmetric] if_P [OF True]
          using get inv' arr by (intro exI [of _ "s2\<lparr>pt := t\<rparr>"]) simp
      qed
    qed
  qed
qed

lemma cold_to_hot_inv:
  assumes "cache_inv E W s" "node \<in> vw_addrs W" "get_with_bucket (hash_of E) (pt s) node = IO_FLAG" "level (mem s parent) \<noteq> 255"
  shows "cold_to_hot E node rp parent i rf s = Inl ExitCall \<or>
    (\<exists>r rp' rf' s'. cold_to_hot E node rp parent i rf s = Inr (r, rp', rf', s') \<and>
      (r = -1 \<and> rp' = rp \<and> refused_inv E W s' \<and> get_with_bucket (hash_of E) (pt s') node = 0 \<or>
       r = 0 \<and> rf' = rf \<and> arrived W node rp' s' \<and> cache_inv E W (wiped rp' s') \<and> get_with_bucket (hash_of E) (pt s') node = rp'))"
  using cold_to_hot_exact [OF assms, of rp i rf]
  by (force simp: refused_inv_def Let_def split: sum.splits prod.splits if_splits)

end
