(* ===== verification/OneSided.thy ===== *)
theory OneSided
  imports ColdPath
begin

text \<open>
  One-sided access to a leaf that is not in the pool (the branch of
  \<open>cold_to_hot_with_admission\<close> that admission control takes on a full pool): the four
  operations on the image in the backend act on the map of the tree as the operations of the
  driver do on a page in the pool, and keep the invariant of the cache.
\<close>

subsection \<open>A leaf at rest\<close>

lemma rest_leaf:
  assumes inv: "cache_inv E W s" and rr: "root_range W" and g: "g = vleaf W k" "\<And>a. a \<in> hot_set s \<Longrightarrow> remote_address (mem s a) \<noteq> g"
  defines "q \<equiv> ps_page (be s) (offset g)"
  shows "g \<in> vw_addrs W" "page_ok q" "ptype q = BTreeLeaf" "leaf_ok q" "leaf_in_limits q" "rangeValid q k" "remote_address q = g"
    "\<And>j. vleaf W j = g \<Longrightarrow> abs_map W j = leaf_map q j" "\<And>m. node_of m q = vw_nodes W g"
    "raw_remote_read g s = (q, s\<lparr>scratch := q\<rparr>)"
proof -
  note r = cache_invD(6) [OF inv]
  have ok: "view_ok W" by (rule residency_view_ok [OF r])
  note V = vleaf_range [OF ok rr, of k, folded g(1)]
  show gT: "g \<in> vw_addrs W" by (rule V(1))
  have "\<forall>a \<in> hot_set s. remote_address (mem s a) \<noteq> g" using g(2) by blast
  note A = slot_at_rest [OF r gT this]
  have a: "page_ok q" "remote_address q = g" "bitmap q = 0" "node_of (\<lambda>_. zero_page) q = vw_nodes W g"
    using A(1) by (simp_all add: at_rest_def Let_def q_def)
  show "page_ok q" "remote_address q = g" by (rule a)+
  show node: "node_of m q = vw_nodes W g" for m using node_of_at_rest [OF a(1,3), of m "\<lambda>_. zero_page"] a(4) by simp
  show lf: "ptype q = BTreeLeaf" using a(1) V(2) node [of "\<lambda>_. zero_page", symmetric] by (auto simp: page_ok_def node_of_def split: if_splits)
  show "leaf_ok q" "leaf_in_limits q" using a(1) lf by (simp_all add: page_ok_def)
  show "rangeValid q k" using V(3) node [symmetric] lf by (simp add: rangeValid_in_range vrange_def node_of_def)
  show "abs_map W j = leaf_map q j" if "vleaf W j = g" for j
    using that node [of "\<lambda>_. zero_page", symmetric] lf by (simp add: abs_map_def node_of_def leaf_map_def)
  show "raw_remote_read g s = (q, s\<lparr>scratch := q\<rparr>)" using A(2) by (simp add: raw_remote_read_def q_def Let_def)
qed

lemma write_scratch_eq:
  "remote_address p = g \<Longrightarrow> write_scratch g p s = Inr (s\<lparr>scratch := flushed_image p, be := ps_write (be s) g (flushed_image p)\<rparr>)"
  by (simp add: write_scratch_def remote_write_node_def flushed_image_def Let_def)

lemma scratch_inv: "cache_inv E W (s\<lparr>scratch := q\<rparr>) = cache_inv E W s"
  by (simp add: cache_inv_def pool_inv_def free_inv_def pool_set_def hot_set_def)

lemma scratch_absent: "(\<And>a. a \<in> hot_set s \<Longrightarrow> remote_address (mem s a) \<noteq> g) \<Longrightarrow>
    a \<in> hot_set (s\<lparr>scratch := q\<rparr>) \<Longrightarrow> remote_address (mem (s\<lparr>scratch := q\<rparr>) a) \<noteq> g"
  by (simp add: hot_set_def pool_set_def)

text \<open>Writing a changed image of a leaf that is not in the pool.\<close>

lemma residency_rest_leaf:
  assumes r: "residency W m b R" and g: "g \<in> vw_addrs W" "\<And>a. a \<in> R \<Longrightarrow> remote_address (m a) \<noteq> g"
    and q: "vw_nodes W g = node_of m q" "ptype q = BTreeLeaf"
    and p: "page_ok p" "ptype p = BTreeLeaf" "remote_address p = g" "min_limit p = min_limit q" "max_limit p = max_limit q"
  shows "residency (put_node g (node_of m p) W) m (ps_write b g (flushed_image p)) R"
proof -
  note D = residencyD [OF r]
  have bm: "bitmap p = 0" using p(1,2) by (simp add: page_ok_def)
  have gal: "g \<in> ps_allocated b" using D(3) g(1) by blast
  show ?thesis
  proof (rule residencyI)
    show "vtree (vw_nodes (put_node g (node_of m p) W)) (vw_addrs (put_node g (node_of m p) W)) (vw_root (put_node g (node_of m p) W))"
      unfolding put_node_simps by (rule vtree_put_leaf [OF D(1)]) (use q p(2,4,5) in \<open>auto simp: node_of_def\<close>)
    show "ps_ok (ps_write b g (flushed_image p))" by (rule ps.inv_wr [OF D(2)]) simp
    show "vw_addrs (put_node g (node_of m p) W) \<subseteq> ps_allocated (ps_write b g (flushed_image p))"
      using D(3) by (simp add: ps.allocated_wr)
    show "at_rest (vw_nodes (put_node g (node_of m p) W)) (ps_write b g (flushed_image p)) h"
      if h: "h \<in> vw_addrs (put_node g (node_of m p) W)" and cl: "\<And>a. a \<in> R \<Longrightarrow> remote_address (m a) = h \<Longrightarrow> \<not> dirty (m a)" for h
    proof (cases "h = g")
      case True
      have "vw_nodes (put_node g (node_of m p) W) g = node_of m p" by simp
      then show ?thesis unfolding True by (intro at_rest_write [OF D(2) gal p(1) bm p(3), of m]) (rule sym)
    next
      case False
      have "at_rest (vw_nodes W) b h" using D(16) [of h] h cl by simp
      then have "at_rest (vw_nodes (put_node g (node_of m p) W)) b h" using False by (simp add: at_rest_def)
      then show ?thesis using gal D(3) h False by (intro at_rest_other) auto
    qed
    show "node_of m (m a) = vw_nodes (put_node g (node_of m p) W) (remote_address (m a))" if "a \<in> R" for a
      using D(12) [OF that] g(2) [OF that] by simp
  qed (use D in simp_all)
qed

lemma write_rest_inv:
  assumes inv: "cache_inv E W s" and rr: "root_range W" and g: "g = vleaf W k" "\<And>a. a \<in> hot_set s \<Longrightarrow> remote_address (mem s a) \<noteq> g"
    and p: "leaf_change (ps_page (be s) (offset g)) (p\<lparr>dirty := True\<rparr>)" "leaf_map p = (leaf_map (ps_page (be s) (offset g)))(k := r)"
  shows "remote_address p = g"
    and "\<exists>W'. cache_inv E W' (s\<lparr>scratch := flushed_image p, be := ps_write (be s) g (flushed_image p)\<rparr>) \<and>
      same_shape W W' \<and> abs_map W' = (abs_map W)(k := r)"
proof -
  define q where "q = ps_page (be s) (offset g)"
  note L = rest_leaf [OF inv rr g, folded q_def]
  obtain ds n where p': "p\<lparr>dirty := True\<rparr> = q\<lparr>dirty := True, data := ds, count := n\<rparr>"
    and pl: "leaf_ok (p\<lparr>dirty := True\<rparr>)" "leaf_in_limits (p\<lparr>dirty := True\<rparr>)"
    using p(1) unfolding leaf_change_def q_def [symmetric] by blast
  define p1 where "p1 = p\<lparr>dirty := True\<rparr>"
  have f: "ptype p1 = BTreeLeaf" "remote_address p1 = g" "min_limit p1 = min_limit q" "max_limit p1 = max_limit q"
    "bitmap p1 = bitmap q" "level p1 = level q"
    using L(3,7) unfolding p1_def p' by simp_all
  have fl: "flushed_image p1 = flushed_image p" by (simp add: p1_def flushed_image_def)
  show "remote_address p = g" using f(2) by (simp add: p1_def)
  have pok: "page_ok p1" using L(2,3) pl f unfolding p1_def [symmetric] by (simp add: page_ok_def)
  note I = cache_invD [OF inv]
  define W' where "W' = put_node g (node_of (mem s) p1) W"
  define s' where "s' = s\<lparr>scratch := flushed_image p, be := ps_write (be s) g (flushed_image p)\<rparr>"
  have "residency W' (mem s) (be s') (hot_set s)"
    unfolding W'_def s'_def fl [symmetric]
    using residency_rest_leaf [OF I(6) L(1) g(2) L(9) [of "mem s", symmetric] L(3) pok f(1-4)] by simp
  then have "cache_inv E W' s'"
    using inv by (simp add: cache_inv_def s'_def W'_def pool_inv_def free_inv_def pool_set_def hot_set_def)
  moreover have lm: "leaf_map p1 = leaf_map p" by (simp add: p1_def leaf_change_dirty)
  have flds: "vkeys (vw_nodes W g) = []" "vkids (vw_nodes W g) = []" "vlevel (vw_nodes W g) = 0"
    using L(3) L(9) [of "mem s", symmetric] by (simp_all add: node_of_def)
  have "abs_map W' j = ((abs_map W)(k := r)) j" for j
  proof -
    have "abs_map W' j = (if vleaf W j = g then leaf_map p1 j else abs_map W j)"
      unfolding W'_def using f(1) flds abs_map_put(2) [of "node_of (mem s) p1" W g j] by (simp add: node_of_def leaf_map_def)
    then show ?thesis using L(8) [of j] p(2) g(1) unfolding q_def lm by auto
  qed
  moreover have "same_shape W W'"
    using L(3) L(9) [of "mem s", symmetric] f by (auto simp: same_shape_def W'_def node_of_def)
  ultimately show "\<exists>W'. cache_inv E W' s' \<and> same_shape W W' \<and> abs_map W' = (abs_map W)(k := r)" by blast
qed

subsection \<open>The four operations\<close>

text \<open>On the map: \<open>result\<close>, \<open>success\<close> and the map afterwards.\<close>

fun one_sided_map :: "rpc_type \<Rightarrow> u64 \<Rightarrow> u64 \<Rightarrow> (u64 \<rightharpoonup> u64) \<Rightarrow> u64 \<times> bool \<times> (u64 \<rightharpoonup> u64)" where
  "one_sided_map RPC_LOOKUP k result f = (case f k of Some v \<Rightarrow> (v, True, f) | None \<Rightarrow> (result, False, f))"
| "one_sided_map RPC_UPDATE k result f = (result, f k \<noteq> None, if f k = None then f else f(k \<mapsto> result))"
| "one_sided_map RPC_INSERT k result f = (result, f k = None, f(k \<mapsto> result))"
| "one_sided_map RPC_DELETE k result f = (result, f k \<noteq> None, f(k := None))"

lemma one_sided_inv:
  assumes inv: "cache_inv E W s" and rr: "root_range W" and g: "g = vleaf W k" "\<And>a. a \<in> hot_set s \<Longrightarrow> remote_address (mem s a) \<noteq> g"
    and om: "one_sided_map rpc k result (abs_map W) = (res, ok, f')"
  shows "if rpc = RPC_INSERT \<and> leaf_isFull (ps_page (be s) (offset g))
    then \<exists>q. one_sided rpc g k result success s = Inr (-1, result, success, s\<lparr>scratch := q\<rparr>)
    else \<exists>W' q b. one_sided rpc g k result success s = Inr (1, res, ok, s\<lparr>scratch := q, be := b\<rparr>) \<and>
       cache_inv E W' (s\<lparr>scratch := q, be := b\<rparr>) \<and> same_shape W W' \<and> abs_map W' = f'"
proof -
  define q where "q = ps_page (be s) (offset g)"
  note L = rest_leaf [OF inv rr g, folded q_def]
  define s1 where "s1 = s\<lparr>scratch := q\<rparr>"
  have lm: "abs_map W k = leaf_map q k" using L(8) g(1) by simp
  have rd: "raw_remote_read g s = (q, s1)" unfolding s1_def by (rule L(10))
  have inv1: "cache_inv E W s1" using inv by (simp add: s1_def scratch_inv)
  have abs1: "\<And>a. a \<in> hot_set s1 \<Longrightarrow> remote_address (mem s1 a) \<noteq> g" using g(2) unfolding s1_def by (rule scratch_absent)
  have q1: "ps_page (be s1) (offset g) = q" by (simp add: s1_def q_def)
  have same: "\<exists>W' q' b. s1 = s\<lparr>scratch := q', be := b\<rparr> \<and> cache_inv E W' (s\<lparr>scratch := q', be := b\<rparr>) \<and> same_shape W W' \<and> abs_map W' = abs_map W"
    using inv1 by (intro exI [of _ W] exI [of _ q] exI [of _ "be s"]) (simp add: s1_def)
  have same': "\<exists>W' q' b. s1\<lparr>scratch := p\<rparr> = s\<lparr>scratch := q', be := b\<rparr> \<and> cache_inv E W' (s\<lparr>scratch := q', be := b\<rparr>) \<and> same_shape W W' \<and> abs_map W' = abs_map W" for p
    using inv by (intro exI [of _ W] exI [of _ p] exI [of _ "be s"]) (simp add: s1_def scratch_inv)
  have wr: "write_scratch g p s1 = Inr (s\<lparr>scratch := flushed_image p, be := ps_write (be s) g (flushed_image p)\<rparr>) \<and>
      (\<exists>W'. cache_inv E W' (s\<lparr>scratch := flushed_image p, be := ps_write (be s) g (flushed_image p)\<rparr>) \<and>
      same_shape W W' \<and> abs_map W' = (abs_map W)(k := r))"
    if "leaf_change q (p\<lparr>dirty := True\<rparr>)" "leaf_map p = (leaf_map q)(k := r)" for p r
  proof -
    note w = write_rest_inv [OF inv1 rr g(1) abs1, unfolded q1, OF _ that, simplified]
    show ?thesis using w write_scratch_eq [OF w(1), of s1] by (simp add: s1_def)
  qed
  show ?thesis
  proof (cases rpc)
    case RPC_LOOKUP
    then show ?thesis using om same leaf_find_map [OF L(4), of k] L(6) lm
      by (cases "leaf_map q k") (auto simp: one_sided_def rd)
  next
    case RPC_UPDATE
    note u = leaf_update_correct [OF L(4), of k result]
    show ?thesis
    proof (cases "leaf_map q k")
      case None
      then have "leaf_update q k result = (False, q)" using u by (auto simp: domIff split: if_splits)
      then have "one_sided rpc g k result success s = Inr (1, res, ok, s1\<lparr>scratch := q\<rparr>)" "f' = abs_map W"
        using om RPC_UPDATE None lm L(6) by (auto simp: one_sided_def rd)
      then show ?thesis using same' [of q] RPC_UPDATE by auto
    next
      case (Some w)
      obtain p where p: "leaf_update q k result = (True, p)" "leaf_map p = (leaf_map q)(k := Some result)"
        using u Some by (cases "leaf_update q k result") (auto simp: domIff split: if_splits)
      have "leaf_change q (p\<lparr>dirty := True\<rparr>)" using leaf_update_change [OF L(4,5), of k result] p(1) by simp
      from wr [OF this p(2)] show ?thesis using om RPC_UPDATE Some lm L(6) p(1) by (auto simp: one_sided_def rd)
    qed
  next
    case RPC_INSERT
    note u = leaf_insert_correct [OF L(4), of k result]
    show ?thesis
    proof (cases "leaf_isFull q")
      case True
      then show ?thesis using RPC_INSERT q1 by (auto simp: one_sided_def rd leaf_isFull_def s1_def q_def [symmetric])
    next
      case False
      obtain p where p: "leaf_insert q k result = (leaf_map q k = None, p)" "leaf_map p = (leaf_map q)(k := Some result)"
        using u False by (cases "leaf_insert q k result") auto
      have "leaf_change q (p\<lparr>dirty := True\<rparr>)" using leaf_insert_change [OF L(4,5,6), of result] p(1) by simp
      from wr [OF this p(2)] show ?thesis using om RPC_INSERT False lm L(6) p(1) by (auto simp: one_sided_def rd leaf_isFull_def q_def [symmetric])
    qed
  next
    case RPC_DELETE
    note u = leaf_remove_correct [OF L(4), of k]
    show ?thesis
    proof (cases "leaf_map q k")
      case None
      then have "leaf_remove q k = (False, q)" using u by (cases "leaf_remove q k") (auto simp: domIff)
      moreover have "(abs_map W)(k := None) = abs_map W" using None lm by auto
      ultimately have "one_sided rpc g k result success s = Inr (1, res, ok, s1\<lparr>scratch := q\<rparr>)" "f' = abs_map W"
        using om RPC_DELETE None lm L(6) by (auto simp: one_sided_def rd)
      then show ?thesis using same' [of q] RPC_DELETE by auto
    next
      case (Some w)
      obtain p where p: "leaf_remove q k = (True, p)" "leaf_map p = (leaf_map q)(k := None)"
        using u Some by (cases "leaf_remove q k") (auto simp: domIff)
      have "leaf_change q (p\<lparr>dirty := True\<rparr>)" using leaf_remove_change [OF L(4,5), of k] p(1) by simp
      from wr [OF this p(2)] show ?thesis using om RPC_DELETE Some lm L(6) p(1) by (auto simp: one_sided_def rd)
    qed
  qed
qed

end
