(* ===== verification/TreeInit.thy ===== *)
theory TreeInit
  imports TreeOps
begin

text \<open>
  The start of a tree: a fresh pool, fresh tables and a backend with room for one page, the
  constructors of \<open>CacheManager\<close> and \<open>LeanStoreTree\<close> on them, and the view that holds
  afterwards, a single empty leaf. Then the properties of the driver and of the cache under it,
  instantiated at that start.
\<close>

subsection \<open>A fresh cache\<close>

text \<open>
  The region that \<open>mmap\<close> returns is page-aligned user memory, and the two tables have at least
  one bucket.
\<close>

definition pool_region :: "u64 \<Rightarrow> u64 \<Rightarrow> u64 \<Rightarrow> bool" where
  "pool_region mm cap cool_n \<longleftrightarrow> mm \<noteq> 0 \<and> 1024 dvd unat mm \<and> 0 < cap \<and> unat cap < 2 ^ 32 \<and>
     unat mm + unat cap * 1024 \<le> 2 ^ 47 \<and> 0 < ceil_div cool_n (of_nat NUM_ENTRIES)"

lemma alloc_fresh_ok:
  assumes "pool_region mm cap n"
  shows "mk_CacheAllocator mm PAGE_SIZE (cap * PAGE_SIZE) =
      Some \<lparr>base_address = mm, alloc_unit = PAGE_SIZE, page_num = cap, head_idx = 0\<rparr>"
    and "alloc_ok \<lparr>base_address = mm, alloc_unit = PAGE_SIZE, page_num = cap, head_idx = 0\<rparr>"
proof -
  have r: "mm \<noteq> 0" "1024 dvd unat mm" "0 < cap" "unat cap < 2 ^ 32" "unat mm + unat cap * 1024 \<le> 2 ^ 47"
    using assms by (simp_all add: pool_region_def)
  have "unat (cap * PAGE_SIZE) = unat cap * 1024" using r(4) by (simp add: unat_word_ariths)
  then have "unat (cap * PAGE_SIZE div PAGE_SIZE) = unat cap" by (simp add: unat_div)
  then have "cap * PAGE_SIZE div PAGE_SIZE = cap" by (simp add: word_unat_eq_iff)
  then show "mk_CacheAllocator mm PAGE_SIZE (cap * PAGE_SIZE) =
      Some \<lparr>base_address = mm, alloc_unit = PAGE_SIZE, page_num = cap, head_idx = 0\<rparr>"
    using r(1) by (simp add: mk_CacheAllocator_def)
  show "alloc_ok \<lparr>base_address = mm, alloc_unit = PAGE_SIZE, page_num = cap, head_idx = 0\<rparr>"
    using r by (simp add: alloc_ok_def unat_gt_0)
qed

lemma get_fresh_table:
  assumes "0 < cap" "unat cap < 2 ^ 32"
  shows "table_ok (mk_PageTable cap)" "get_with_bucket H (mk_PageTable cap) k = 0"
  using mk_PageTable_correct [OF assms, of H] get_table_map [of "mk_PageTable cap" H k] by auto

definition fresh_view :: "gaddr \<Rightarrow> u64 \<Rightarrow> view" where
  "fresh_view root sr = \<lparr>vw_nodes = (\<lambda>_. LLeaf KEY_MIN KEY_MAX []), vw_addrs = {root}, vw_root = root, vw_super = sr\<rparr>"

lemma fresh_view_simps [simp]:
  "vw_nodes (fresh_view root sr) = (\<lambda>_. LLeaf KEY_MIN KEY_MAX [])" "vw_addrs (fresh_view root sr) = {root}"
  "vw_root (fresh_view root sr) = root" "vw_super (fresh_view root sr) = sr"
  by (simp_all add: fresh_view_def)

lemma fresh_leaves [simp]: "leaves (fresh_view root sr) = {root}"
  by (auto simp: leaves_def)

lemma fresh_abs_map [simp]: "abs_map (fresh_view root sr) = Map.empty"
  by (simp add: abs_map_def fun_eq_iff)

lemma fresh_leaf:
  "page_ok ((mk_BTreeLeaf a)\<lparr>min_limit := KEY_MIN, max_limit := KEY_MAX\<rparr>)"
  "node_of m ((mk_BTreeLeaf a)\<lparr>min_limit := KEY_MIN, max_limit := KEY_MAX\<rparr>) = LLeaf KEY_MIN KEY_MAX []"
  "bitmap (mk_BTreeLeaf a) = 0" "remote_address (mk_BTreeLeaf a) = a" "pos_state (mk_BTreeLeaf a) = POS_REMOTE" "parent_ptr (mk_BTreeLeaf a) = 0"
  by (simp_all add: page_ok_def node_of_def mk_BTreeLeaf_def leaf_ok_def leaf_in_limits_def leaf_keys_def leaf_entries_def
      zero_page_def)

text \<open>The empty tree: no page in the pool, the root leaf at rest in the backend.\<close>

lemma fresh_tree_inv:
  assumes reg: "pool_region mm cap n"
    and al: "pool s = Some \<lparr>base_address = mm, alloc_unit = PAGE_SIZE, page_num = cap, head_idx = 0\<rparr>" "cstate s = 0"
    and f: "ht s = mk_HashTable n" "pt s = mk_PageTable cap" "local_pages s = []"
    and m: "\<And>a. a \<in> pool_set s \<Longrightarrow> pos_state (mem s a) = POS_REMOTE \<and> \<not> dirty (mem s a)"
    and sr: "sr \<noteq> 0" "sr \<notin> pool_set s" "level (mem s sr) = 255" "children (mem s sr) = (replicate max_inner_entries 0)[0 := root]"
    and b: "ps_ok b" "ps_alloc b = (root, b1)" "root \<noteq> ga_Null"
      "be s = ps_write b1 root ((mk_BTreeLeaf root)\<lparr>min_limit := KEY_MIN, max_limit := KEY_MAX\<rparr>)"
  shows "cache_inv E (fresh_view root sr) s"
proof -
  note r = reg [unfolded pool_region_def]
  note a = alloc_fresh_ok(2) [OF reg]
  note fr = ps_alloc_fresh [OF b(1-3)]
  have hot: "hot_set s = {}" using m by (auto simp: hot_set_def in_use_def)
  have ht: "ht_ok (ht s)" "cool_slots (ht s) = []" using mk_HashTable_ok [of n] r f(1) by simp_all
  have pt: "table_ok (pt s)" using get_fresh_table(1) [of cap] r f(2) by simp
  have pi: "pool_inv s"
    unfolding pool_inv_def using al a r m by (auto simp: pool_set_def pool_slots_iff)
  have nsw: "\<not> swizzled root" using ps_allocated_not_swizzled [of b1 root] fr by blast
  have alc: "ps_allocated (be s) = ps_allocated b1" "ps_ok (be s)"
    using fr by (simp_all add: b(4) ps_write_def ps_allocated_def ps_ok_def)
  have img: "ps_page (be s) (offset root) = (mk_BTreeLeaf root)\<lparr>min_limit := KEY_MIN, max_limit := KEY_MAX\<rparr>"
    using ps_allocated_in_bounds [of b1 root] fr by (simp add: b(4) ps_write_def)
  have c0: "children (mem s sr) ! 0 = root" using sr(4) by simp
  have "residency (fresh_view root sr) (mem s) (be s) {}"
    unfolding residency_def using fr sr alc nsw c0
    by (simp add: vtree_def kids_ok_def keys_ok_def slot_ok_def unswz_def at_rest_def img fresh_leaf)
  then show ?thesis using pi ht pt f(3) sr(2) m by (simp add: cache_inv_def hot free_inv_def)
qed

text \<open>
  A pool on which the search for a free slot cannot fail, with \<open>n\<close> pages wanted in the cool
  tier. If any 999 draws in a row cover the slots up to some, those may be left out, and the slots
  that wait in the cool tier, and 258 more: the two pages to be demoted, the root, and the pages
  on the way to the root, one on each of at most 255 levels.
\<close>

definition big_pool :: "env \<Rightarrow> u64 \<Rightarrow> u64 \<Rightarrow> bool" where
  "big_pool E cap n \<longleftrightarrow> (\<exists>m. fair_draws E (unat cap) m \<and> m + 258 + 6 * unat (ceil_div n (of_nat NUM_ENTRIES)) \<le> unat cap)"

lemma fresh_live:
  assumes "pool s = Some \<lparr>base_address = mm, alloc_unit = PAGE_SIZE, page_num = cap, head_idx = 0\<rparr>" "pool_region mm cap n"
    "ht s = mk_HashTable n" "\<And>a. a \<in> pool_set s \<Longrightarrow> pos_state (mem s a) = POS_REMOTE" "big_pool E cap n"
  shows "live E 0 s"
proof -
  have "card (pool_set s) = unat cap"
    using distinct_card [OF pool_slots_distinct [OF alloc_fresh_ok(2) [OF assms(2)]]] assms(1) by (simp add: pool_set_def pool_slots_def)
  moreover have "hot_set s = {}" using assms(4) by (auto simp: hot_set_def in_use_def)
  moreover have "length (ht_table (ht s)) = unat (ceil_div n (of_nat NUM_ENTRIES))"
    by (simp add: assms(3) mk_HashTable_def Let_def)
  moreover have "unat cap \<le> stock s" by (simp add: stock_def unused_def assms(1))
  ultimately show ?thesis using assms(5) by (auto simp: live_def big_pool_def calm_def)
qed

lemma mk_tree_correct:
  assumes reg: "pool_region mm cap n" and mk: "mk_CacheManager mm None m [] b cap n adm bmin bmax = Some c"
    and sr: "sr \<noteq> 0" "sr \<notin> set (pool_slots \<lparr>base_address = mm, alloc_unit = PAGE_SIZE, page_num = cap, head_idx = 0\<rparr>)"
    and b: "ps_ok b" "ps_alloc b = (root, b1)" "root \<noteq> ga_Null"
  shows "\<exists>t. mk_LeanStoreTree E sr c = Inr t \<and> cache_inv E (fresh_view root sr) t \<and> super_root t = sr \<and>
    (\<exists>p \<in> hot_set t. children (mem t sr) ! 0 = swz p \<and> remote_address (mem t p) = root) \<and>
    unat cap \<le> unused t + 1 \<and> ps_cur (be t) = ps_cur b1 \<and> ps_capacity (be t) = ps_capacity b \<and> (big_pool E cap n \<longrightarrow> live E 0 t) \<and>
    census (fresh_view root sr) t"
proof -
  define al where "al = \<lparr>base_address = mm, alloc_unit = PAGE_SIZE, page_num = cap, head_idx = 0\<rparr>"
  note reg' = reg [unfolded pool_region_def]
  have cI: "c = \<lparr>mem = zero_slots (pool_slots al) m, be = b, scratch = zero_page,
           draws = 0, ht = mk_HashTable n, pt = mk_PageTable cap,
           capacity = cap, cstate = 0, inner_miss = 0, leaf_miss = 0, full_page_miss = 0,
           rdma_write = 0, wrong_parent = 0, buffer_min_limit = bmin, buffer_max_limit = bmax,
           admission_idx = adm, local_pages = [], pool = Some al\<rparr>"
    using mk by (simp add: mk_CacheManager_def alloc_initialize_def alloc_fresh_ok(1) [OF reg] al_def)
  define s3 where "s3 = (let t = cache.extend c \<lparr>super_root = sr, root_addr = ga_Null, height = 1, leaf_num = 1, inner_num = 0\<rparr>;
          t1 = set_node sr ((mk_BTreeInner 255 ga_Null)\<lparr>pos_state := POS_HOT\<rparr>) t
      in case allocate_leaf KEY_MIN KEY_MAX t1 of
           (root, t2) \<Rightarrow>
             set_node sr ((mem t2 sr)\<lparr>children := (children (mem t2 sr))[0 := root], count := 0\<rparr>) (t2\<lparr>root_addr := root\<rparr>))"
  have mk3: "mk_LeanStoreTree E sr c = bindR (load_root E s3) (\<lambda>(_, t). Inr t)"
    and f3: "super_root s3 = sr" "be s3 = ps_write b1 root ((mk_BTreeLeaf root)\<lparr>min_limit := KEY_MIN, max_limit := KEY_MAX\<rparr>)"
      "root_addr s3 = root" "height s3 = 1" "leaf_num s3 = 1" "inner_num s3 = 0" "ht s3 = mk_HashTable n" "pt s3 = mk_PageTable cap" "cstate s3 = 0" "local_pages s3 = []" "pool s3 = Some al"
      "mem s3 = (zero_slots (pool_slots al) m)(sr := ((mk_BTreeInner 255 ga_Null)\<lparr>pos_state := POS_HOT,
         children := (children (mk_BTreeInner 255 ga_Null))[0 := root], count := 0\<rparr>))"
    by (simp_all add: s3_def cI cache.defs mk_LeanStoreTree_def load_root_def Let_def allocate_leaf_def b(2) set_node_def
        split: prod.splits)
  have ps: "pool_set s3 = set (pool_slots al)" by (simp add: pool_set_def f3)
  have rem: "pos_state (mem s3 a) = POS_REMOTE \<and> \<not> dirty (mem s3 a)" if "a \<in> pool_set s3" for a
    using that sr(2) ps by (auto simp: f3(12) zero_slots_def zero_page_def al_def)
  have inv: "cache_inv E (fresh_view root sr) s3"
  proof (rule fresh_tree_inv [OF reg f3(11) [unfolded al_def] f3(9,7,8,10) _ sr(1) _ _ _ b f3(2)])
    show "pos_state (mem s3 a) = POS_REMOTE \<and> \<not> dirty (mem s3 a)" if "a \<in> pool_set s3" for a
      by (rule rem [OF that])
    show "sr \<notin> pool_set s3" using sr(2) ps by (simp add: al_def)
    show "level (mem s3 sr) = 255" "children (mem s3 sr) = (replicate max_inner_entries 0)[0 := root]"
      by (simp_all add: f3(12) mk_BTreeInner_def zero_page_def)
  qed
  have "super_root s3 = vw_super (fresh_view root sr)" by (simp add: f3)
  from load_root_inv [OF inv this] f3(9) obtain p t where t: "load_root E s3 = Inr (p, t)"
    "cache_inv E (fresh_view root sr) t" "super_root t = sr" "p \<in> hot_set t" "remote_address (mem t p) = root" "spends 1 s3 t" by auto
  note r = cache_invD(6) [OF t(2)]
  have "children (mem t sr) ! 0 = swz p"
  proof -
    have "ptype (mem t a) \<noteq> BTreeInner" if "a \<in> hot_set t" for a
      using residencyD(12) [OF r that] by (auto simp: node_of_def)
    then show ?thesis using residencyD(13) [OF r t(4)] by (auto simp: points_back_def)
  qed
  moreover have "unused s3 = unat cap" by (simp add: unused_def f3 al_def)
  moreover have "ps_cur (be s3) = ps_cur b1" "ps_capacity (be s3) = ps_capacity b"
    using ps_alloc_cases [OF b(1)] b(2,3) by (auto simp: f3(2) ps_write_def)
  moreover have "live E 0 t" if "big_pool E cap n"
    using fresh_live [OF f3(11) [unfolded al_def] reg f3(7) _ that] rem spends_live [OF t(6)] by blast
  moreover have "census (fresh_view root sr) t"
    using t(6) census_more [of t s3 "fresh_view root sr"] f3(3-6) by (simp add: spends_def) (simp add: census_def)
  ultimately show ?thesis using t by (auto simp: mk3 spends_def uses_def)
qed

lemma region_slot:
  assumes "pool_region mm cap n" "i < cap"
  shows "unat (mm + i * PAGE_SIZE) = unat mm + unat i * 1024"
proof -
  have "unat i < unat cap" "unat mm + unat cap * 1024 \<le> 2 ^ 47" using assms by (simp_all add: pool_region_def word_less_nat_alt)
  then show ?thesis by (simp add: unat_word_ariths)
qed

lemma outside_region:
  assumes "pool_region mm cap n" "unat sr < unat mm"
  shows "sr \<notin> set (pool_slots \<lparr>base_address = mm, alloc_unit = PAGE_SIZE, page_num = cap, head_idx = 0\<rparr>)"
proof
  assume "sr \<in> set (pool_slots \<lparr>base_address = mm, alloc_unit = PAGE_SIZE, page_num = cap, head_idx = 0\<rparr>)"
  then obtain i where "i < cap" "sr = mm + i * PAGE_SIZE" by (auto simp: pool_slots_iff slot_addr_def)
  then show False using region_slot [OF assms(1)] assms(2) by simp
qed

subsection \<open>A small tree\<close>

definition example_store :: "page pstore" where
  "example_store = \<lparr>ps_capacity = 0x100000, ps_cur = 0x400, ps_page = (\<lambda>_. zero_page)\<rparr>"

text \<open>512 slots of pool at 0x100000, a cool tier of two entries, the super root at 0x9000.\<close>

definition example_cache :: cache where
  "example_cache = (case mk_CacheManager 0x100000 None (\<lambda>_. zero_page) [] example_store 512 2 0 0 0 of
     Some c \<Rightarrow> c | None \<Rightarrow> undefined)"

definition example_tree :: tree where
  "example_tree = (case mk_LeanStoreTree example_env 0x9000 example_cache of Inr t \<Rightarrow> t | Inl e \<Rightarrow> undefined)"

abbreviation example_root :: gaddr where "example_root \<equiv> mk_gaddr 0 0x400"

lemma example_region: "pool_region 0x100000 512 2"
proof -
  have "(1024 :: nat) dvd 0x100000" by (rule dvdI [of _ _ 1024]) simp
  then show ?thesis by (simp add: pool_region_def ceil_div_def NUM_ENTRIES_def)
qed

text \<open>Every stretch of 512 draws visits every slot.\<close>

lemma example_draws:
  assumes "S \<subseteq> {..<512}" "j \<in> S"
  shows "\<exists>i < 999. rnd example_env (t + i) mod 512 \<in> S"
proof -
  define i where "i = (205 * (j + 507 * t + 510)) mod 512"
  have "(5 * (t + i) + 2) mod 512 = (5 * t + 2 + 5 * i) mod 512" by (simp add: algebra_simps)
  also have "\<dots> = (5 * t + 2 + 5 * (205 * (j + 507 * t + 510))) mod 512"
    unfolding i_def by (metis mod_add_right_eq mod_mult_right_eq)
  also have "\<dots> = (j + 512 * (1015 * t + 2 * j + 1021)) mod 512" by (rule arg_cong) (simp add: algebra_simps)
  also have "\<dots> = j mod 512" by (rule mod_mult_self2)
  also have "\<dots> = j" using assms by (intro mod_less) auto
  finally have "rnd example_env (t + i) mod 512 = j" by (simp add: example_env_def)
  moreover have "i < 512" by (simp add: i_def)
  ultimately show ?thesis using assms(2) by (intro exI [of _ i]) simp
qed

lemma example_big_pool: "big_pool example_env 512 2"
proof -
  have "fair_draws example_env 512 1"
    unfolding fair_draws_def by (metis example_draws card_gt_0_iff ex_in_conv less_eq_Suc_le One_nat_def)
  then show ?thesis unfolding big_pool_def by (intro exI [of _ 1]) (simp add: ceil_div_def NUM_ENTRIES_def)
qed

lemma example_cache_made: "mk_CacheManager 0x100000 None (\<lambda>_. zero_page) [] example_store 512 2 0 0 0 = Some example_cache"
proof -
  obtain c where "mk_CacheManager 0x100000 None (\<lambda>_. zero_page) [] example_store 512 2 0 0 0 = Some c"
    by (simp add: mk_CacheManager_def alloc_initialize_def alloc_fresh_ok(1) [OF example_region])
  then show ?thesis by (simp add: example_cache_def)
qed

lemma example_store_alloc: "ps_ok example_store" "ps_alloc example_store = (example_root, example_store\<lparr>ps_cur := 0x800\<rparr>)"
  "example_root \<noteq> ga_Null"
  by (simp_all add: ps_ok_def example_store_def ps_alloc_def PAGE_SIZE_def mk_gaddr_def ga_Null_def)

lemma example_tree_inv:
  "mk_LeanStoreTree example_env 0x9000 example_cache = Inr example_tree"
  "cache_inv example_env (fresh_view example_root 0x9000) example_tree" "super_root example_tree = 0x9000"
  "511 \<le> unused example_tree" "ps_cur (be example_tree) = 0x800" "ps_capacity (be example_tree) = 0x100000"
  "live example_env 0 example_tree" "census (fresh_view example_root 0x9000) example_tree"
proof -
  have "(0x9000 :: u64) \<noteq> 0" by simp
  moreover have "0x9000 \<notin> set (pool_slots \<lparr>base_address = 0x100000, alloc_unit = PAGE_SIZE, page_num = 512, head_idx = 0\<rparr>)"
    by (rule outside_region [OF example_region]) simp
  ultimately obtain t where t: "mk_LeanStoreTree example_env 0x9000 example_cache = Inr t"
    "cache_inv example_env (fresh_view example_root 0x9000) t" "super_root t = 0x9000"
    "unat (512 :: u64) \<le> unused t + 1" "ps_cur (be t) = ps_cur (example_store\<lparr>ps_cur := 0x800\<rparr>)" "ps_capacity (be t) = ps_capacity example_store"
    "live example_env 0 t" "census (fresh_view example_root 0x9000) t"
    using mk_tree_correct [OF example_region example_cache_made _ _ example_store_alloc] example_big_pool by blast
  then have "example_tree = t" by (simp add: example_tree_def)
  with t show "mk_LeanStoreTree example_env 0x9000 example_cache = Inr example_tree"
    "cache_inv example_env (fresh_view example_root 0x9000) example_tree" "super_root example_tree = 0x9000"
    "511 \<le> unused example_tree" "ps_cur (be example_tree) = 0x800" "ps_capacity (be example_tree) = 0x100000"
    "live example_env 0 example_tree" "census (fresh_view example_root 0x9000) example_tree"
    by (simp_all add: example_store_def)
qed

lemma example_tree_hot: "\<exists>p \<in> hot_set example_tree. children (mem example_tree 0x9000) ! 0 = swz p"
proof -
  have "0x9000 \<notin> set (pool_slots \<lparr>base_address = 0x100000, alloc_unit = PAGE_SIZE, page_num = 512, head_idx = 0\<rparr>)"
    by (rule outside_region [OF example_region]) simp
  from mk_tree_correct [OF example_region example_cache_made _ this example_store_alloc, of example_env] example_tree_inv(1)
  show ?thesis by auto
qed

end
