(* ===== verification/ColdApi.thy ===== *)
theory ColdApi
  imports OneSided TreeInit
begin

text \<open>
  The miss path by page table on a whole cache: what \<open>cold_to_hot\<close>, its variant with admission
  control and \<open>cache_get\<close> do to the tree that the cache holds, to the IO flag of the missed page
  and to the page that arrives.
\<close>

subsection \<open>The outcome of a miss\<close>

definition cache_rep :: "env \<Rightarrow> (u64 \<rightharpoonup> u64) \<Rightarrow> 'a cache_st \<Rightarrow> bool" where
  "cache_rep E f s \<longleftrightarrow> (\<exists>W. cache_inv E W s \<and> root_range W \<and> abs_map W = f)"

text \<open>A miss of \<open>node\<close> in view \<open>W\<close> is over: refused (-1), the flag gone, or served (0), the page
  table naming a slot with the page. The slot that took the page may hold a dirty mark from the
  backend.\<close>

definition miss_over :: "env \<Rightarrow> view \<Rightarrow> gaddr \<Rightarrow> int \<Rightarrow> u64 \<Rightarrow> 'a cache_st \<Rightarrow> bool" where
  "miss_over E W node r pg s \<longleftrightarrow>
     (r = -1 \<and> refused_inv E W s \<and> get_with_bucket (hash_of E) (pt s) node = 0 \<or>
      r = 0 \<and> cache_inv E W (wiped pg s) \<and> arrived W node pg s \<and> get_with_bucket (hash_of E) (pt s) node = pg)"

lemma cold_to_hot_over:
  assumes "cache_inv E W s" "node \<in> vw_addrs W" "get_with_bucket (hash_of E) (pt s) node = IO_FLAG" "level (mem s parent) \<noteq> 255"
  shows "cold_to_hot E node rp parent i rf s = Inl ExitCall \<or>
    (\<exists>r pg rf' s'. cold_to_hot E node rp parent i rf s = Inr (r, pg, rf', s') \<and> miss_over E W node r pg s' \<and> (r = -1 \<longrightarrow> pg = rp))"
  using cold_to_hot_inv [OF assms, of rp i rf] unfolding miss_over_def by fastforce

text \<open>Setting the flag on a miss keeps the invariant.\<close>

lemma set_flag_inv:
  assumes inv: "cache_inv E W s" and node: "get_with_bucket (hash_of E) (pt s) node = 0"
  shows "\<exists>t. insert_io_flag_with_lock (hash_of E) (pt s) node = (True, t) \<and> cache_inv E W (s\<lparr>pt := t\<rparr>) \<and>
    get_with_bucket (hash_of E) t node = IO_FLAG"
proof -
  note T = cache_invD(3) [OF inv]
  have "table_map (hash_of E) (pt s) node = None"
    using get_table_map [OF T, of "hash_of E" node] node table_map_nonzero by (cases "table_map (hash_of E) (pt s) node") auto
  then obtain t where t: "insert_with_lock (hash_of E) (pt s) node IO_FLAG = (True, IO_FLAG, t)" "table_ok t"
    "table_map (hash_of E) t = (table_map (hash_of E) (pt s))(node \<mapsto> IO_FLAG)"
    using insert_with_lock_correct [OF T IO_FLAG_facts(1), of "hash_of E" node] by auto
  have get: "get_with_bucket (hash_of E) t k = (if k = node then IO_FLAG else get_with_bucket (hash_of E) (pt s) k)" for k
    using get_table_map [OF t(2)] get_table_map [OF T] t(3) by simp
  have "remote_address (mem s a) \<noteq> node" if "a \<in> hot_set s" for a
    using cache_invD(7) [OF inv that] node residencyD(9) [OF cache_invD(6) [OF inv] that] by auto
  then have "cache_inv E W (s\<lparr>pt := t\<rparr>)" using cache_invD(7) [OF inv] by (intro table_inv [OF inv t(2)]) (simp add: get)
  then show ?thesis using t(1) get by (intro exI [of _ t]) (simp add: insert_io_flag_with_lock_def)
qed

lemma draw_below_eq: "draw_below E n s = (of_nat (rnd E (draws s) mod unat n), s\<lparr>draws := draws s + 1\<rparr>)"
  by (simp add: draw_below_def)

text \<open>The branch that admission control takes on a full pool.\<close>

lemma rejected_inv:
  assumes inv: "cache_inv E W s" and rr: "root_range W" and node: "node = vleaf W k" "get_with_bucket (hash_of E) (pt s) node = IO_FLAG"
    and om: "one_sided_map rpc k result (abs_map W) = (res, ok, f')"
    and rej: "cstate s = 1" "admission_idx s \<le> of_nat (rnd E (draws s) mod 10000)"
  shows "\<exists>s'. get_with_bucket (hash_of E) (pt s') node = 0 \<and>
    (if rpc = RPC_INSERT \<and> leaf_isFull (ps_page (be s) (offset node))
     then cache_rep E (abs_map W) s' \<and>
       cold_to_hot_with_admission E node rp parent i rf k result success rpc s = Inr (-1, rp, rf, result, success, s')
     else cache_rep E f' s' \<and> cold_to_hot_with_admission E node rp parent i rf k result success rpc s = Inr (1, rp, rf, res, ok, s'))"
proof -
  define s1 where "s1 = s\<lparr>draws := draws s + 1\<rparr>"
  have s1: "cache_inv E W s1" "pt s1 = pt s" "hot_set s1 = hot_set s" "mem s1 = mem s" "be s1 = be s" "cstate s1 = 1" "admission_idx s1 = admission_idx s"
    using inv rej(1) by (simp_all add: s1_def)
  have gT: "node \<in> vw_addrs W" unfolding node(1) by (rule vleaf_range(1) [OF residency_view_ok [OF cache_invD(6) [OF inv]] rr])
  have sw: "swizzled (get_with_bucket (hash_of E) (pt s1) node)" using node(2) IO_FLAG_facts(2) s1(2) by simp
  note absent = flagged_absent(1) [OF s1(1) gT sw]
  have eq: "cold_to_hot_with_admission E node rp parent i rf k result success rpc s =
      bindR (one_sided rpc node k result success s1) (\<lambda>(ret, r, ok, s2).
        bindR (drop_flag E node s2) (\<lambda>s3. Inr (ret, rp, rf, r, ok, s3)))"
  proof -
    have "draw_below E 10000 s = (of_nat (rnd E (draws s) mod 10000), s1)" by (simp add: draw_below_eq s1_def)
    then show ?thesis using rej s1(6,7) by (simp add: cold_to_hot_with_admission_def)
  qed
  have flag: "get_with_bucket (hash_of E) (pt (s1\<lparr>scratch := q, be := b\<rparr>)) node = IO_FLAG"
    "get_with_bucket (hash_of E) (pt (s1\<lparr>scratch := q\<rparr>)) node = IO_FLAG" for q b using node(2) s1(2) by simp_all
  have rep: "cache_inv E W' x \<Longrightarrow> same_shape W W' \<Longrightarrow> cache_rep E (abs_map W') x" for W' and x :: "'a cache_st"
    using same_shape_root rr unfolding cache_rep_def by blast
  note one = one_sided_inv [OF s1(1) rr node(1) absent om, of success, unfolded s1(5)]
  show ?thesis
  proof (cases "rpc = RPC_INSERT \<and> leaf_isFull (ps_page (be s) (offset node))")
    case True
    with one obtain q where full: "one_sided rpc node k result success s1 = Inr (-1, result, success, s1\<lparr>scratch := q\<rparr>)" by auto
    have "cache_inv E W (s1\<lparr>scratch := q\<rparr>)" using s1(1) by (simp add: scratch_inv)
    from drop_flag_inv [OF this gT flag(2)] obtain t where t: "drop_flag E node (s1\<lparr>scratch := q\<rparr>) = Inr (s1\<lparr>scratch := q\<rparr>\<lparr>pt := t\<rparr>)"
      "cache_inv E W (s1\<lparr>scratch := q\<rparr>\<lparr>pt := t\<rparr>)" "get_with_bucket (hash_of E) t node = 0" by blast
    show ?thesis
      unfolding if_P [OF True]
      by (rule exI [of _ "s1\<lparr>scratch := q\<rparr>\<lparr>pt := t\<rparr>"]) (use eq full t rep [OF t(2) same_shape_refl] in simp)
  next
    case False
    with one obtain W' q b where hit: "one_sided rpc node k result success s1 = Inr (1, res, ok, s1\<lparr>scratch := q, be := b\<rparr>)"
      "cache_inv E W' (s1\<lparr>scratch := q, be := b\<rparr>)" "same_shape W W'" "abs_map W' = f'" by (auto simp only: if_False)
    have "node \<in> vw_addrs W'" using hit(3) gT by (simp add: same_shape_def)
    from drop_flag_inv [OF hit(2) this flag(1)] obtain t where t: "drop_flag E node (s1\<lparr>scratch := q, be := b\<rparr>) = Inr (s1\<lparr>scratch := q, be := b\<rparr>\<lparr>pt := t\<rparr>)"
      "cache_inv E W' (s1\<lparr>scratch := q, be := b\<rparr>\<lparr>pt := t\<rparr>)" "get_with_bucket (hash_of E) t node = 0" by blast
    show ?thesis
      unfolding if_not_P [OF False]
      by (rule exI [of _ "s1\<lparr>scratch := q, be := b\<rparr>\<lparr>pt := t\<rparr>"]) (use eq hit t rep [OF t(2) hit(3)] in simp)
  qed
qed

subsection \<open>A cache in front of a tree at rest\<close>

text \<open>The cache of the small tree before the root is loaded, with an inner page beside the pool, and the same
  with a flag on the missed root.\<close>

definition example_missed :: cache where
  "example_missed = example_cache
     \<lparr>mem := (mem example_cache)(0x9000 := (mk_BTreeInner 255 ga_Null)\<lparr>pos_state := POS_HOT,
         children := (replicate max_inner_entries 0)[0 := example_root]\<rparr>, 0x8800 := mk_BTreeInner 1 ga_Null),
      buffer_max_limit := KEY_MAX,
      be := ps_write (example_store\<lparr>ps_cur := 0x800\<rparr>) example_root
        ((mk_BTreeLeaf example_root)\<lparr>min_limit := KEY_MIN, max_limit := KEY_MAX\<rparr>)\<rparr>"

definition example_flagged :: cache where
  "example_flagged = example_missed\<lparr>pt := snd (insert_io_flag_with_lock (hash_of example_env) (pt example_missed) example_root)\<rparr>"

lemma example_missed_inv:
  "cache_inv example_env (fresh_view example_root 0x9000) example_missed"
  "get_with_bucket (hash_of example_env) (pt example_missed) example_root = 0" "cstate example_missed = 0"
  "level (mem example_missed 0x100000) = 0" "admission_idx example_missed = 0"
  "pool example_missed = Some \<lparr>base_address = 0x100000, alloc_unit = PAGE_SIZE, page_num = 512, head_idx = 0\<rparr>"
  "hot_set example_missed = {}"
proof -
  define al where "al = \<lparr>base_address = 0x100000, alloc_unit = PAGE_SIZE, page_num = 512, head_idx = 0\<rparr>"
  have ec: "example_cache = \<lparr>mem = zero_slots (pool_slots al) (\<lambda>_. zero_page), be = example_store, scratch = zero_page, draws = 0,
      ht = mk_HashTable 2, pt = mk_PageTable 512, capacity = 512, cstate = 0, inner_miss = 0, leaf_miss = 0, full_page_miss = 0,
      rdma_write = 0, wrong_parent = 0, buffer_min_limit = 0, buffer_max_limit = 0, admission_idx = 0, local_pages = [], pool = Some al\<rparr>"
    using example_cache_made by (simp add: mk_CacheManager_def alloc_initialize_def alloc_fresh_ok(1) [OF example_region] al_def)
  have c: "pool example_cache = Some al" "cstate example_cache = 0" "ht example_cache = mk_HashTable 2" "pt example_cache = mk_PageTable 512"
    "local_pages example_cache = []" "mem example_cache = zero_slots (pool_slots al) (\<lambda>_. zero_page)" "admission_idx example_cache = 0"
    unfolding ec by simp_all
  have out: "(0x9000 :: u64) \<notin> set (pool_slots al)" "(0x8800 :: u64) \<notin> set (pool_slots al)"
    unfolding al_def by (rule outside_region [OF example_region]; simp)+
  have ps: "pool_set example_missed = set (pool_slots al)" by (simp add: pool_set_def example_missed_def c(1))
  have rem: "pos_state (mem example_missed a) = POS_REMOTE \<and> \<not> dirty (mem example_missed a)" if "a \<in> pool_set example_missed" for a
    using that out unfolding ps by (auto simp: example_missed_def c zero_slots_def zero_page_def)
  then show "hot_set example_missed = {}" by (auto simp: hot_set_def in_use_def)
  show "cache_inv example_env (fresh_view example_root 0x9000) example_missed"
  proof (rule fresh_tree_inv [OF example_region, where s = example_missed and sr = "0x9000" and root = example_root and b = example_store])
    show "pool example_missed = Some \<lparr>base_address = 0x100000, alloc_unit = PAGE_SIZE, page_num = 512, head_idx = 0\<rparr>"
      by (simp add: example_missed_def c al_def)
    show "pos_state (mem example_missed a) = POS_REMOTE \<and> \<not> dirty (mem example_missed a)" if "a \<in> pool_set example_missed" for a
      using that by (rule rem)
    show "(0x9000 :: u64) \<notin> pool_set example_missed" using out(1) unfolding ps .
    show "ps_alloc example_store = (example_root, example_store\<lparr>ps_cur := 0x800\<rparr>)" "ps_ok example_store" "example_root \<noteq> ga_Null"
      by (rule example_store_alloc)+
  qed (simp_all add: example_missed_def c mk_BTreeInner_def)
  show "cstate example_missed = 0" "admission_idx example_missed = 0" "level (mem example_missed 0x100000) = 0"
    "pool example_missed = Some \<lparr>base_address = 0x100000, alloc_unit = PAGE_SIZE, page_num = 512, head_idx = 0\<rparr>"
    by (simp_all add: example_missed_def c zero_slots_def zero_page_def al_def)
  have "pt example_missed = mk_PageTable 512" by (simp add: example_missed_def c)
  then show "get_with_bucket (hash_of example_env) (pt example_missed) example_root = 0"
    using get_fresh_table(2) [of 512 "hash_of example_env" example_root] by simp
qed

lemma example_flagged_inv:
  "cache_inv example_env (fresh_view example_root 0x9000) example_flagged"
  "get_with_bucket (hash_of example_env) (pt example_flagged) example_root = IO_FLAG" "level (mem example_flagged 0x100000) \<noteq> 255"
  using set_flag_inv [OF example_missed_inv(1,2)] example_missed_inv(4) by (auto simp: example_flagged_def)

text \<open>The same on a full pool.\<close>

definition example_full :: cache where
  "example_full = example_flagged\<lparr>cstate := 1,
     pool := Some \<lparr>base_address = 0x100000, alloc_unit = PAGE_SIZE, page_num = 512, head_idx = 512\<rparr>\<rparr>"

lemma example_full_inv:
  "cache_inv example_env (fresh_view example_root 0x9000) example_full"
  "get_with_bucket (hash_of example_env) (pt example_full) example_root = IO_FLAG" "level (mem example_full 0x100000) \<noteq> 255"
  "cstate example_full = 1" "admission_idx example_full = 0" "hot_set example_full = {}"
proof -
  let ?al = "\<lparr>base_address = 0x100000, alloc_unit = PAGE_SIZE, page_num = 512, head_idx = 0\<rparr> :: allocator"
  let ?al' = "\<lparr>base_address = 0x100000, alloc_unit = PAGE_SIZE, page_num = 512, head_idx = 512\<rparr> :: allocator"
  note I = cache_invD [OF example_flagged_inv(1)]
  have p: "pool example_flagged = Some ?al" using example_missed_inv(6) by (simp add: example_flagged_def)
  have sl: "pool_slots ?al' = pool_slots ?al" by (simp add: pool_slots_def slot_addr_def)
  have sets: "pool_set example_full = pool_set example_flagged" "hot_set example_full = hot_set example_flagged"
    using sl p by (simp_all add: pool_set_def hot_set_def example_full_def)
  have "alloc_ok ?al'" using alloc_fresh_ok(2) [OF example_region] by (simp add: alloc_ok_def)
  moreover have "\<forall>i < 512. \<not> (512 :: u64) \<le> i" by (simp add: not_le)
  ultimately have "pool_inv example_full" unfolding pool_inv_def by (intro exI [of _ ?al']) (simp add: example_full_def)
  moreover have "free_inv example_full" using I(4) unfolding free_inv_def sets by (simp add: example_full_def)
  ultimately show "cache_inv example_env (fresh_view example_root 0x9000) example_full"
    using example_flagged_inv(1) unfolding cache_inv_def sets by (simp add: example_full_def)
  show "get_with_bucket (hash_of example_env) (pt example_full) example_root = IO_FLAG" "level (mem example_full 0x100000) \<noteq> 255"
    "cstate example_full = 1" "admission_idx example_full = 0"
    using example_flagged_inv example_missed_inv(5) by (simp_all add: example_full_def example_flagged_def)
  show "hot_set example_full = {}" unfolding sets using example_missed_inv(7) by (simp add: example_flagged_def hot_set_def pool_set_def)
qed

subsection \<open>Properties\<close>



text \<open>C37: \<open>cold_to_hot\<close> of a missed page of the tree, flagged in the page table, outcome by outcome. It depends on the search for a free
  slot: where that ends in the sampler's \<open>exit(0)\<close>, which takes a full pool, so does the call; where it finds none,
  the page is refused (-1), and the flag is out. With a slot \<open>p\<close> and the image of the page in the backend, the page
  arrives (0) and the page table names \<open>p\<close> instead of the flag, if the image lies in the limits of the buffer and has those
  of its slot in the parent; otherwise it is refused (-1), the flag is out and \<open>p\<close> is in the thread's free list. The tree is
  the same in each case. The invariant holds in the first two; in the last two \<open>p\<close> takes the dirty mark
  of the image: without it the invariant holds, and with it (as on every page that a split has written) the mark on \<open>p\<close> is the
  only thing that breaks it. No assertion on the flag or on the page read fails, and nothing spins.\<close>

theorem cold_to_hot_spec:
  assumes "cache_inv E W s" "node \<in> vw_addrs W" "get_with_bucket (hash_of E) (pt s) node = IO_FLAG" "level (mem s parent) \<noteq> 255"
  shows "case try_get_empty_page E s of
      Inl e \<Rightarrow> e = ExitCall \<and> cstate s = 1 \<and> cold_to_hot E node rp parent i rf s = Inl ExitCall
    | Inr (p, s1) \<Rightarrow>
        if p = 0 then \<exists>s'. cold_to_hot E node rp parent i rf s = Inr (-1, rp, rf, s') \<and> get_with_bucket (hash_of E) (pt s') node = 0 \<and>
          cache_inv E W s'
        else let img = ps_page (be s1) (offset node)
          in if fit_limits img s1 \<and> new_check_limit_match (((mem s1)(p := img)) parent) img i
             then \<exists>s'. cold_to_hot E node rp parent i rf s = Inr (0, p, rf, s') \<and> get_with_bucket (hash_of E) (pt s') node = p \<and>
               arrived W node p s' \<and> cache_inv E W (wiped p s') \<and> (cache_inv E W s' \<longleftrightarrow> \<not> dirty img)
             else \<exists>s'. cold_to_hot E node rp parent i rf s = Inr (-1, rp, True, s') \<and> get_with_bucket (hash_of E) (pt s') node = 0 \<and>
               p \<in> set (local_pages s') \<and> cache_inv E W (wiped p s') \<and> (cache_inv E W s' \<longleftrightarrow> \<not> dirty img)"
  using assms by (rule cold_to_hot_exact)

text \<open>With the inner page at 0x8800 as the parent, whose first slot has the limits of the root, the root arrives;
  looked for in its second slot, it is refused. It brings a dirty mark either way.\<close>

theorem cold_to_hot_spec_witness:
  "(\<exists>s'. cold_to_hot example_env example_root 0 0x8800 0 False example_flagged = Inr (0, 0x100000, False, s') \<and>
      get_with_bucket (hash_of example_env) (pt s') example_root = 0x100000 \<and>
      \<not> cache_inv example_env (fresh_view example_root 0x9000) s') \<and>
   (\<exists>s'. cold_to_hot example_env example_root 0 0x8800 1 False example_flagged = Inr (-1, 0, True, s') \<and>
      get_with_bucket (hash_of example_env) (pt s') example_root = 0 \<and> 0x100000 \<in> set (local_pages s'))"
proof -
  define s1 where "s1 = example_flagged\<lparr>pool := Some \<lparr>base_address = 0x100000, alloc_unit = PAGE_SIZE, page_num = 512, head_idx = 1\<rparr>\<rparr>"
  have slot: "try_get_empty_page example_env example_flagged = Inr (0x100000, s1)"
    using example_missed_inv(3,6)
    by (simp add: try_get_empty_page_def example_flagged_def allocate_def slot_addr_def s1_def)
  let ?img = "(mk_BTreeLeaf example_root)\<lparr>min_limit := KEY_MIN, max_limit := KEY_MAX\<rparr>"
  have img: "ps_page (be s1) (offset example_root) = ?img"
    by (simp add: s1_def example_flagged_def example_missed_def ps_write_def PAGE_SIZE_def example_store_def)
  have par: "mem s1 0x8800 = mk_BTreeInner 1 ga_Null" by (simp add: s1_def example_flagged_def example_missed_def)
  have fit: "fit_limits ?img s1"
    by (simp add: fit_limits_def s1_def example_flagged_def example_missed_def KEY_MIN_def KEY_MAX_def)
  have "new_check_limit_match (mk_BTreeInner 1 ga_Null) ?img 0" "\<not> new_check_limit_match (mk_BTreeInner 1 ga_Null) ?img 1" "dirty ?img"
    by (simp_all add: new_check_limit_match_def child_min_def child_max_def mk_BTreeInner_def mk_BTreeLeaf_def zero_page_def KEY_MIN_def KEY_MAX_def)
  moreover have "level (mem example_flagged 0x8800) \<noteq> 255"
    by (simp add: example_flagged_def example_missed_def mk_BTreeInner_def)
  ultimately show ?thesis
    using cold_to_hot_spec [OF example_flagged_inv(1) _ example_flagged_inv(2), of "0x8800" 0 0 False]
      cold_to_hot_spec [OF example_flagged_inv(1) _ example_flagged_inv(2), of "0x8800" 0 1 False] fit par
    by (auto simp: slot img [simplified] Let_def)
qed

text \<open>C38: with admission control, on a full pool, a draw at or above the threshold serves the
  operation on the image of the leaf in the backend: the reply and the tree afterwards are those of
  the map, except for an insertion when that image is full, which is refused with -1 and changes nothing; the page table
  forgets the flag.
  Otherwise the page is fetched as \<open>cold_to_hot\<close> does.\<close>

theorem admission_spec:
  assumes "cache_inv E W s" "root_range W" "node = vleaf W k" "get_with_bucket (hash_of E) (pt s) node = IO_FLAG"
    "level (mem s parent) \<noteq> 255" "one_sided_map rpc k result (abs_map W) = (res, ok, f')"
  shows "if cstate s = 1 \<and> admission_idx s \<le> of_nat (rnd E (draws s) mod 10000)
    then \<exists>s'. get_with_bucket (hash_of E) (pt s') node = 0 \<and>
      (if rpc = RPC_INSERT \<and> leaf_isFull (ps_page (be s) (offset node))
       then cache_rep E (abs_map W) s' \<and>
         cold_to_hot_with_admission E node rp parent i rf k result success rpc s = Inr (-1, rp, rf, result, success, s')
       else cache_rep E f' s' \<and> cold_to_hot_with_admission E node rp parent i rf k result success rpc s = Inr (1, rp, rf, res, ok, s'))
    else cold_to_hot_with_admission E node rp parent i rf k result success rpc s = Inl ExitCall \<or>
      (\<exists>r pg rf' s'. cold_to_hot_with_admission E node rp parent i rf k result success rpc s = Inr (r, pg, rf', result, success, s') \<and>
         miss_over E W node r pg s' \<and> (r = -1 \<longrightarrow> pg = rp))"
proof (cases "cstate s = 1 \<and> admission_idx s \<le> of_nat (rnd E (draws s) mod 10000)")
  case True
  then show ?thesis using rejected_inv [OF assms(1-4,6)] by simp
next
  case False
  define s1 where "s1 = s\<lparr>draws := draws s + 1\<rparr>"
  have s1: "cache_inv E W s1" "get_with_bucket (hash_of E) (pt s1) node = IO_FLAG" "level (mem s1 parent) \<noteq> 255"
    "cstate s1 = cstate s" "admission_idx s1 = admission_idx s"
    using assms(1,4,5) by (simp_all add: s1_def)
  have "draw_below E 10000 s = (of_nat (rnd E (draws s) mod 10000), s1)" by (simp add: draw_below_eq s1_def)
  then have eq: "cold_to_hot_with_admission E node rp parent i rf k result success rpc s =
      bindR (cold_to_hot E node rp parent i rf s1) (\<lambda>(ret, rp, rf, s2). Inr (ret, rp, rf, result, success, s2))"
    using False s1(4,5) by (auto simp: cold_to_hot_with_admission_def)
  have gT: "node \<in> vw_addrs W"
    unfolding assms(3) by (rule vleaf_range(1) [OF residency_view_ok [OF cache_invD(6) [OF assms(1)]] assms(2)])
  from cold_to_hot_over [OF s1(1) gT s1(2,3), of rp i rf] show ?thesis using eq False by auto
qed

theorem admission_spec_witness:
  "\<exists>s'. cold_to_hot_with_admission example_env example_root 0 0x100000 0 False 5 50 False RPC_INSERT example_full =
      Inr (1, 0, False, 50, True, s') \<and> cache_rep example_env [5 \<mapsto> 50] s'"
proof -
  have "vleaf (fresh_view example_root 0x9000) 5 = example_root" by (simp add: vleaf_def)
  then have v: "example_root = vleaf (fresh_view example_root 0x9000) 5" by (rule sym)
  have "\<not> leaf_isFull (ps_page (be example_full) (offset example_root))"
    by (simp add: example_full_def example_flagged_def example_missed_def ps_write_def PAGE_SIZE_def example_store_def
        leaf_isFull_def mk_BTreeLeaf_def max_leaf_entries_def)
  with admission_spec [OF example_full_inv(1) _ v example_full_inv(2,3), of RPC_INSERT 50 50 True "[5 \<mapsto> 50]" 0 0 False False]
  show ?thesis using example_full_inv(4,5) by (auto simp: root_range_def)
qed

text \<open>C39: \<open>cache_get\<close> on a miss. With IO enabled the flag it sets is gone when it returns,
  with the page or with null. With IO disabled the flag stays behind, and the next \<open>cache_get\<close>
  of the page follows it as if it were the address of a page.\<close>

theorem cache_get_miss_spec:
  assumes "cache_inv E W s" "node \<in> vw_addrs W" "get_with_bucket (hash_of E) (pt s) node = 0" "level (mem s parent) \<noteq> 255"
  shows "(cache_get E node parent i restart refresh True s = Inl ExitCall \<or>
      (\<exists>r pg rf s'. cache_get E node parent i restart refresh True s = Inr (pg, True, rf, s') \<and> miss_over E W node r pg s' \<and>
         (r = -1 \<longrightarrow> pg = 0))) \<and>
    (\<exists>s'. cache_get E node parent i restart refresh False s = Inr (0, restart, refresh, s') \<and> cache_inv E W s' \<and>
      cache_get E node parent' i' restart' refresh' io s' = Inl OutOfBounds)"
proof -
  from set_flag_inv [OF assms(1,3)] obtain t where t: "insert_io_flag_with_lock (hash_of E) (pt s) node = (True, t)"
    "cache_inv E W (s\<lparr>pt := t\<rparr>)" "get_with_bucket (hash_of E) t node = IO_FLAG" by blast
  have flag: "get_with_bucket (hash_of E) (pt (s\<lparr>pt := t\<rparr>)) node = IO_FLAG" "level (mem (s\<lparr>pt := t\<rparr>) parent) \<noteq> 255"
    using t(3) assms(4) by simp_all
  from cold_to_hot_over [OF t(2) assms(2) flag, of 0 i refresh] show ?thesis
    using assms(3) t IO_FLAG_facts(1) by (auto simp: cache_get_def)
qed

theorem cache_get_miss_spec_witness:
  "\<exists>s'. cache_get example_env example_root 0x100000 0 False False False example_missed = Inr (0, False, False, s') \<and>
     cache_get example_env example_root 0x100000 0 False False True s' = Inl OutOfBounds"
  using cache_get_miss_spec [where parent = "0x100000" and parent' = "0x100000" and i = 0 and i' = 0 and restart = False and restart' = False
      and refresh = False and refresh' = False and io = True, OF example_missed_inv(1) _ example_missed_inv(2)]
    example_missed_inv(4) by auto

end
