(* ===== verification/SplitStep.thy ===== *)
theory SplitStep
  imports SplitResidency
begin

text \<open>
  One split on views, and its price: the step relations for the split of a child and of the root,
  what an operation takes from pool and backend, and the proof that a split does not raise the
  potential of \<open>Growth\<close>.
\<close>

subsection \<open>What a step costs\<close>

definition room :: "'p pstore \<Rightarrow> nat \<Rightarrow> bool" where
  "room b n \<longleftrightarrow> unat (ps_cur b) + 1024 * n \<le> unat (ps_capacity b)"

definition costs :: "nat \<Rightarrow> nat \<Rightarrow> 'a cache_st \<Rightarrow> 'a cache_st \<Rightarrow> bool" where
  "costs n m s s' \<longleftrightarrow> unused s \<le> unused s' + n \<and> unat (ps_cur (be s')) \<le> unat (ps_cur (be s)) + 1024 * m \<and>
     ps_capacity (be s') = ps_capacity (be s)"

lemma costs_spends: "spends n s s' \<Longrightarrow> costs n 0 s s'"
  by (simp add: spends_def uses_def costs_def)

lemma costs_trans: "costs n m s s' \<Longrightarrow> costs n' m' s' s'' \<Longrightarrow> n + n' \<le> n'' \<Longrightarrow> m + m' \<le> m'' \<Longrightarrow> costs n'' m'' s s''"
proof -
  assume a: "costs n m s s'" "costs n' m' s' s''" "n + n' \<le> n''" "m + m' \<le> m''"
  have "1024 * m + 1024 * m' \<le> 1024 * m''" using a(4) by simp
  then show ?thesis using a(1-3) unfolding costs_def by (elim conjE, intro conjI) (linarith, linarith, simp)
qed

lemma costs_room: "costs n m s s' \<Longrightarrow> room (be s) (m + k) \<Longrightarrow> room (be s') k"
  by (simp add: costs_def room_def)

lemma alloc_room:
  assumes "ps_ok b" "room b (Suc n)"
  obtains g b' where "ps_alloc b = (g, b')" "g \<noteq> ga_Null" "unat (ps_cur b') = unat (ps_cur b) + 1024" "ps_capacity b' = ps_capacity b"
    "ps_page b' = ps_page b"
proof -
  have cur: "unat (ps_cur b + PAGE_SIZE) = unat (ps_cur b) + 1024"
    using assms by (intro unat_add_PAGE_SIZE) (simp add: ps_ok_def room_def)
  have le: "\<not> ps_cur b + PAGE_SIZE > ps_capacity b" using assms(2) by (simp add: room_def word_less_nat_alt cur)
  define off where "off = ps_cur b"
  have off: "ps_alloc b = (mk_gaddr 0 off, b\<lparr>ps_cur := off + PAGE_SIZE\<rparr>)" "unat off < 2 ^ 47" "unat (off + PAGE_SIZE) = unat off + 1024"
    using le cur assms by (simp_all add: ps_alloc_def off_def ps_ok_def room_def)
  have "mk_gaddr 0 off \<noteq> ga_Null"
  proof
    assume "mk_gaddr 0 off = ga_Null"
    then have "off = 0" using mk_gaddr_0_fields [OF off(2)] by (simp add: ga_Null_def offset_def)
    then show False using assms(1) by (simp add: ps_ok_def off_def)
  qed
  then show ?thesis using off(3) by (intro that [OF off(1)]) (simp_all add: off_def)
qed

text \<open>What a split leaves of the pool and takes from the backend, exactly.\<close>

definition pays :: "nat \<Rightarrow> 'a cache_st \<Rightarrow> 'a cache_st \<Rightarrow> bool" where
  "pays m s s' \<longleftrightarrow> fills s s' \<and> (calm 0 s \<longrightarrow> calm 0 s') \<and> unat (ps_cur (be s')) = unat (ps_cur (be s)) + 1024 * m"

text \<open>The driver's numbers after the split of a node of level \<open>l\<close> that makes \<open>m\<close> new nodes.\<close>

definition adds :: "nat \<Rightarrow> nat \<Rightarrow> 'a tree_st \<Rightarrow> 'a tree_st \<Rightarrow> bool" where
  "adds l m s s' \<longleftrightarrow> leaf_num s' = leaf_num s + of_bool (l = 0) \<and> inner_num s' + of_bool (l = 0) = inner_num s + m"

text \<open>A full page, on pages and on nodes.\<close>

fun vfull :: "lnode \<Rightarrow> bool" where
  "vfull (LLeaf lo hi es) \<longleftrightarrow> length es = max_leaf_entries"
| "vfull (LInner l lo hi ks cs) \<longleftrightarrow> length ks = max_inner_entries - 1"

lemma full_count:
  assumes "page_ok p" "is_full p"
  shows "page.count p = 59"
  using assms by (auto simp: is_full_def leaf_isFull_def inner_isFull_def page_ok_def split: if_splits)

lemma is_full_node:
  assumes "page_ok p"
  shows "is_full p \<longleftrightarrow> vfull (node_of m p)"
proof (cases "ptype p = BTreeInner")
  case True
  then show ?thesis using page_ok_inner(1) [OF assms True] by (simp add: is_full_def node_of_def inner_isFull_def)
next
  case False
  then show ?thesis using assms by (simp add: is_full_def node_of_def leaf_isFull_def page_ok_def)
qed

text \<open>The halves have room again, and together they hold little beyond two halves.\<close>

definition halved :: "lnode \<Rightarrow> lnode \<Rightarrow> lnode \<Rightarrow> bool" where
  "halved n nl nr \<longleftrightarrow> \<not> vfull nl \<and> \<not> vfull nr \<and> excess nl + excess nr + 29 \<le> excess n"

text \<open>The view after the split of child \<open>i\<close> of \<open>p\<close>, and after the split of the root.\<close>

definition split_step :: "view \<Rightarrow> gaddr \<Rightarrow> nat \<Rightarrow> view \<Rightarrow> bool" where
  "split_step W p i W' \<longleftrightarrow> (\<exists>g sep nl nr. W' = split_child_view p (vkids (vw_nodes W p) ! i) g i sep nl nr W \<and> g \<notin> vw_addrs W \<and>
     splits (vw_nodes W (vkids (vw_nodes W p) ! i)) sep nl nr \<and> halved (vw_nodes W (vkids (vw_nodes W p) ! i)) nl nr)"

definition root_step :: "view \<Rightarrow> view \<Rightarrow> bool" where
  "root_step W W' \<longleftrightarrow> (\<exists>rg g sep nl nr. W' = split_root_view rg (vw_root W) g sep nl nr W \<and> g \<notin> vw_addrs W \<and> rg \<notin> vw_addrs W \<and> rg \<noteq> g \<and>
     splits (vw_nodes W (vw_root W)) sep nl nr \<and> halved (vw_nodes W (vw_root W)) nl nr)"

lemma leaf_halved:
  assumes "page_ok p" "is_full p" "ptype p = BTreeLeaf" "page_ok l" "page_ok r" "ptype l = BTreeLeaf" "ptype r = BTreeLeaf"
    "page.count l = page.count p div 2" "page.count r = page.count p - page.count p div 2"
  shows "halved (node_of m p) (node_of m l) (node_of m r)"
  using assms full_count [OF assms(1,2)]
  by (simp add: halved_def node_of_def page_ok_def leaf_ok_def leaf_entries_def)

lemma inner_halved:
  assumes "page_ok p" "is_full p" "ptype p = BTreeInner" "page_ok l" "page_ok r" "ptype l = BTreeInner" "ptype r = BTreeInner"
    "page.count l = page.count p div 2 - 1" "page.count r = page.count p - page.count p div 2"
  shows "halved (node_of m p) (node_of m l) (node_of m r)"
  using assms full_count [OF assms(1,2)] page_ok_inner(1) [OF assms(1,3)] page_ok_inner(1) [OF assms(4,6)] page_ok_inner(1) [OF assms(5,7)]
  by (simp add: halved_def node_of_def)

subsection \<open>A step does not raise the potential\<close>

lemma excess_ins_kid: "excess (ins_kid i sep new n) \<le> Suc (excess n)"
  by (cases n) auto

text \<open>Two nodes in place of one, and one key more in the parent.\<close>

lemma split_pays:
  assumes f: "fair a b" and sp: "splits n sep nl nr" and h: "halved n nl nr"
  shows "weight a b nl + weight a b nr + b (Suc (vlevel n)) \<le> weight a b n"
    and "weight a b nl + weight a b nr + a (Suc (vlevel n)) \<le> weight a b n"
proof -
  let ?a = "a (vlevel n)" and ?b = "b (vlevel n)"
  have "?b * (excess nl + excess nr + 29) \<le> ?b * excess n" using h by (simp add: halved_def)
  then have "?b * excess nl + ?b * excess nr + 29 * ?b \<le> ?b * excess n" by (simp add: algebra_simps)
  moreover have "?a + b (Suc (vlevel n)) \<le> 29 * ?b" "?a + a (Suc (vlevel n)) \<le> 29 * ?b" using f by (simp_all add: fair_def)
  ultimately show "weight a b nl + weight a b nr + b (Suc (vlevel n)) \<le> weight a b n"
    "weight a b nl + weight a b nr + a (Suc (vlevel n)) \<le> weight a b n"
    using splits_fields(1,2) [OF sp] by (simp_all add: weight_def)
qed

lemma split_step_tally:
  assumes ok: "view_ok W" and p: "p \<in> vw_addrs W" "vlevel (vw_nodes W p) = Suc n" "i \<le> length (vkeys (vw_nodes W p))"
    and st: "split_step W p i W'" and py: "pays 1 s s'"
    and ad: "adds (vlevel (vw_nodes W (vkids (vw_nodes W p) ! i))) 1 s s'" "root_addr s' = root_addr s" "height s' = height s"
  shows "tally 0 W s W' s'"
proof -
  let ?h = "vkids (vw_nodes W p) ! i"
  obtain g sep nl nr where S: "W' = split_child_view p ?h g i sep nl nr W" "g \<notin> vw_addrs W"
    "splits (vw_nodes W ?h) sep nl nr" "halved (vw_nodes W ?h) nl nr" using st unfolding split_step_def by blast
  note k = kid_facts(1,2) [OF ok p]
  have ne: "?h \<noteq> p" "g \<noteq> p" "g \<noteq> ?h" using k p S(2) by auto
  have "potential a b W' \<le> potential a b W" if f: "fair a b" for a b
  proof -
    let ?w = "\<lambda>x. weight a b (vw_nodes W x)" and ?w' = "\<lambda>x. weight a b (vw_nodes W' x)"
    define R where "R = (\<Sum>x \<in> vw_addrs W - {p} - {?h}. ?w x)"
    have R: "(\<Sum>x \<in> vw_addrs W - {p} - {?h}. ?w' x) = R"
      unfolding R_def by (rule sum.cong) (use S(2) in \<open>auto simp: S(1)\<close>)
    have hp: "?h \<in> vw_addrs W - {p}" using k(1) ne(1) by simp
    have 1: "potential a b W = ?w p + (?w ?h + R)"
      unfolding potential_def sum.remove [OF finite p(1), of ?w] sum.remove [OF finite hp, of ?w] R_def ..
    have "potential a b W' = ?w' g + (\<Sum>x \<in> vw_addrs W. ?w' x)"
      using S(2) by (simp add: potential_def S(1))
    also have "\<dots> = ?w' g + (?w' p + (?w' ?h + R))"
      unfolding sum.remove [OF finite p(1), of ?w'] sum.remove [OF finite hp, of ?w'] R ..
    also have "\<dots> = weight a b nr + (weight a b (ins_kid i sep g (vw_nodes W p)) + (weight a b nl + R))"
      using ne by (simp add: S(1))
    finally have 2: "potential a b W' = \<dots>" .
    have "weight a b (ins_kid i sep g (vw_nodes W p)) \<le> ?w p + b (Suc n)"
      using weight_put [of "ins_kid i sep g (vw_nodes W p)" "vw_nodes W p" 1 a b] excess_ins_kid [of i sep g] p(2)
      by (simp add: ins_kid_fields)
    then show ?thesis using split_pays(1) [OF f S(3,4)] k(2) unfolding 1 2 by simp
  qed
  moreover have c: "card (vw_addrs W') = Suc (card (vw_addrs W))" using S(2) by (simp add: S(1))
  moreover have "census W' s'" if "census W s"
  proof -
    have v: "vlevel (vw_nodes W' x) = vlevel (vw_nodes W (if x = g then ?h else x))" for x
      using ne splits_fields(1,2) [OF S(3)] by (simp add: S(1) ins_kid_fields)
    have "leaves W' = (if vlevel (vw_nodes W ?h) = 0 then insert g (leaves W) else leaves W)"
      using S(2) by (auto simp: leaves_def v, auto simp: S(1))
    moreover have "g \<notin> leaves W" using S(2) by (simp add: leaves_def)
    moreover have "vw_root W' = vw_root W" "vw_root W \<noteq> g" using S(2) view_ok_root [OF ok] by (auto simp: S(1))
    ultimately show ?thesis using that ad c v [of "vw_root W"] by (simp add: census_def adds_def)
  qed
  ultimately show ?thesis using py by (simp add: tally_def grows_def pays_def)
qed

lemma root_step_tally:
  assumes ok: "view_ok W" and st: "root_step W W'" and py: "pays 2 s s'"
    and ad: "adds (root_level W) 2 s s'" "root_addr s' = vw_root W'" "height s' = root_level W + 2"
  shows "tally 0 W s W' s'"
proof -
  let ?h = "vw_root W"
  obtain rg g sep nl nr where S: "W' = split_root_view rg ?h g sep nl nr W" "g \<notin> vw_addrs W" "rg \<notin> vw_addrs W" "rg \<noteq> g"
    "splits (vw_nodes W ?h) sep nl nr" "halved (vw_nodes W ?h) nl nr" using st unfolding root_step_def by blast
  have h: "?h \<in> vw_addrs W" by (rule view_ok_root [OF ok])
  have ne: "?h \<noteq> rg" "?h \<noteq> g" using h S(2,3) by auto
  have "potential a b W' \<le> potential a b W" if f: "fair a b" for a b
  proof -
    let ?w = "\<lambda>x. weight a b (vw_nodes W x)" and ?w' = "\<lambda>x. weight a b (vw_nodes W' x)"
    define R where "R = (\<Sum>x \<in> vw_addrs W - {?h}. ?w x)"
    have R: "(\<Sum>x \<in> vw_addrs W - {?h}. ?w' x) = R"
      unfolding R_def by (rule sum.cong) (use S(2,3) in \<open>auto simp: S(1)\<close>)
    have 1: "potential a b W = ?w ?h + R"
      unfolding potential_def sum.remove [OF finite h, of ?w] R_def ..
    have "potential a b W' = ?w' rg + (?w' g + (\<Sum>x \<in> vw_addrs W. ?w' x))"
      using S(2-4) by (simp add: potential_def S(1))
    also have "\<dots> = ?w' rg + (?w' g + (?w' ?h + R))"
      unfolding sum.remove [OF finite h, of ?w'] R ..
    also have "\<dots> = a (Suc (vlevel nl)) + (weight a b nr + (weight a b nl + R))"
      using ne S(4) by (simp add: S(1) weight_def)
    finally have 2: "potential a b W' = \<dots>" .
    show ?thesis using split_pays(2) [OF f S(5,6)] splits_fields(1) [OF S(5)] unfolding 1 2 by simp
  qed
  moreover have c: "card (vw_addrs W') = card (vw_addrs W) + 2" using S(2-4) by (simp add: S(1))
  moreover have "census W' s'" if "census W s"
  proof -
    have v: "vlevel (vw_nodes W' x) = (if x = rg then Suc (root_level W) else vlevel (vw_nodes W (if x = g then ?h else x)))" for x
      using ne S(4) splits_fields(1,2) [OF S(5)] by (simp add: S(1))
    have "leaves W' = (if root_level W = 0 then insert g (leaves W) else leaves W)"
      using S(2-4) by (auto simp: leaves_def v, auto simp: S(1))
    moreover have "g \<notin> leaves W" using S(2) by (simp add: leaves_def)
    ultimately show ?thesis using that ad c v [of rg] by (simp add: census_def adds_def S(1))
  qed
  ultimately show ?thesis using py by (simp add: tally_def grows_def pays_def)
qed

end
