(* ===== verification/SplitChild.thy ===== *)
theory SplitChild
  imports SplitStep
begin

text \<open>
  \<open>split_child\<close> and \<open>make_new_root\<close> of \<open>LeanStoreTree.h\<close> on the evicting cache: each of the
  four cases (a leaf or an inner page, below an inner page or at the root) ends in a state with
  the invariant for the split view. The inner cases are proved while the pool has slots that were
  never used: when the sampler has to run, it sees a page that is cut but whose second half is
  not linked yet.
\<close>

subsection \<open>Memory and tables\<close>

lemma kid_in_pool:
  assumes "residency W m b R" "c \<in> R" "ptype (m c) = BTreeInner" "swz a \<in> set (inner_children (m c))" "\<not> swizzled a"
  shows "a \<in> R \<and> parent_ptr (m a) = c"
proof -
  from inner_child_nth [OF residencyD(10) [OF assms(1,2)] assms(3,4)] obtain j where
    j: "j \<le> page.count (m c)" "swz a = children (m c) ! j" .
  show ?thesis using residencyD(15) [OF assms(1-3) j(1)] assms(5) unfolding j(2) [symmetric] by (simp add: slot_ok_def)
qed

lemma cache_insert_local:
  assumes e: "get_empty_page E s = Inr (q, s1)" "q \<noteq> 0" "table_ok (pt s1)" and g: "remote_address img = g"
  obtains t where "cache_insert E (LocalSlot g) img par True s =
      Inr (q, swz q, (set_node q (img\<lparr>pos_state := POS_PIN, parent_ptr := par\<rparr>) s1)\<lparr>pt := t\<rparr>)"
    "table_ok t" "\<And>k. get_with_bucket (hash_of E) t k = (if k = g then q else get_with_bucket (hash_of E) (pt s1) k)"
proof -
  define s2 where "s2 = set_node q (img\<lparr>pos_state := POS_PIN, parent_ptr := par\<rparr>) s1"
  have "(\<lambda>a. remote_address (mem s2 a)) q = g" by (simp add: s2_def g)
  from upsert_spec [where ra = "\<lambda>a. remote_address (mem s2 a)" and H = "hash_of E" and t = "pt s1", OF e(3,2) this]
  obtain rr w t where up: "upsert_with_lock (hash_of E) (\<lambda>a. remote_address (mem s2 a)) (pt s1) g q = Inr (rr, w, t)"
    "table_ok t" "\<forall>k'. get_with_bucket (hash_of E) t k' = (if k' = g then q else get_with_bucket (hash_of E) (pt s1) k')" by blast
  have pt2: "pt s2 = pt s1" by (simp add: s2_def)
  have "cache_insert E (LocalSlot g) img par True s = Inr (q, swz q, s2\<lparr>pt := t\<rparr>)"
    unfolding cache_insert_def e(1) bindR.simps prod.case Let_def s2_def [symmetric] using up(1) by (simp add: pt2)
  then show ?thesis using up(2,3) unfolding s2_def by (intro that [of t]) simp_all
qed

lemma pool_inv_cong2:
  assumes "pool_inv s" "pool s' = pool s" "cstate s' = cstate s"
    "\<And>a. fresh_slot a s' \<Longrightarrow> pos_state (mem s a) = POS_REMOTE \<Longrightarrow> pos_state (mem s' a) = POS_REMOTE"
  shows "pool_inv s'"
  using assms unfolding pool_inv_def fresh_slot_def by force

text \<open>A change of pages in use, in pages and backend only, that residency survives.\<close>

lemma update_inv:
  assumes inv: "cache_inv E W s" and res: "residency W' (mem s') (be s') (hot_set s)" and sup: "vw_super W' = vw_super W"
    and same: "\<And>a. a \<in> hot_set s \<Longrightarrow> remote_address (mem s' a) = remote_address (mem s a) \<and> pos_state (mem s' a) = pos_state (mem s a)"
    and out: "\<And>a. a \<in> pool_set s \<Longrightarrow> a \<notin> hot_set s \<Longrightarrow> mem s' a = mem s a"
    and f: "ht s' = ht s" "local_pages s' = local_pages s" "pool s' = pool s" "cstate s' = cstate s" "pt s' = pt s"
  shows "cache_inv E W' s'" "hot_set s' = hot_set s"
proof -
  note I = cache_invD [OF inv]
  have ps: "pool_set s' = pool_set s" by (simp add: pool_set_def f)
  have pos: "pos_state (mem s' a) = pos_state (mem s a)" if "a \<in> pool_set s" for a
    using same [of a] out [OF that] by (cases "a \<in> hot_set s") auto
  show hot: "hot_set s' = hot_set s" using pos by (auto simp: hot_set_def ps)
  have pi: "pool_inv s'" by (rule pool_inv_cong [OF I(1) f(3,4)]) (simp add: pos)
  show "cache_inv E W' s'"
  proof (rule rebuild_inv [where N = "{}", OF inv pi ps f(1,2)])
    show "mem s' a = mem s a" if "a \<in> pool_set s" "a \<notin> hot_set s" for a using that by (intro out)
  qed (use hot f I(3) same res sup in simp_all)
qed

subsection \<open>A leaf below an inner page\<close>

lemma split_child_leaf:
  assumes inv: "cache_inv E W s" and sr: "super_root s = vw_super W"
    and P: "P \<in> hot_set s" "ptype (mem s P) = BTreeInner" "i \<le> page.count (mem s P)" "children (mem s P) ! i = swz c" "\<not> inner_isFull (mem s P)"
    and c0: "c \<in> hot_set s" "ptype (mem s c) = BTreeLeaf" "is_full (mem s c)" and rm: "room (be s) 1"
  shows "split_child E P i c s = Inl ExitCall \<and> unused s = 0 \<and> \<not> live E 0 s \<or>
    (\<exists>W' s'. split_child E P i c s = Inr s' \<and> cache_inv E W' s' \<and> super_root s' = vw_super W' \<and> P \<in> hot_set s' \<and>
      remote_address (mem s' P) = remote_address (mem s P) \<and> abs_map W' = abs_map W \<and> root_range W' = root_range W \<and>
      split_step W (remote_address (mem s P)) i W' \<and> costs 1 1 s s' \<and> tally 0 W s W' s')"
proof -
  note I = cache_invD [OF inv]
  note r = I(6)
  note D = residencyD [OF r]
  have c: "c \<in> hot_set s" "ptype (mem s c) = BTreeLeaf" "4 \<le> page.count (mem s c)"
    using c0 full_count [OF D(10) [OF c0(1)] c0(3)] by simp_all
  obtain g b where al: "ps_alloc (be s) = (g, b)" "g \<noteq> ga_Null" and cur: "unat (ps_cur b) = unat (ps_cur (be s)) + 1024"
    "ps_capacity b = ps_capacity (be s)" using alloc_room [OF D(2)] rm by (metis One_nat_def)
  obtain sep l nr where sp: "leaf_split (mem s c) (mk_BTreeLeaf g) = (sep, l, nr)" by (cases "leaf_split (mem s c) (mk_BTreeLeaf g)")
  note pd = parent_distinct [OF r P(1-4) c(1)]
  have nsc: "\<not> swizzled c" by (rule D(8) [OF c(1)])
  note V = child_in_view [OF r P(1-4)]
  let ?p = "remote_address (mem s P)" and ?h = "remote_address (mem s c)"
  have h: "?h = vkids (vw_nodes W ?p) ! i" by (rule V(5) [OF nsc])
  have okc: "page_ok (mem s c)" and nc: "vw_nodes W ?h = node_of (mem s) (mem s c)" using D(10,12) [OF c(1)] by simp_all
  note L = leaf_split_node [OF okc c(2,3) sp]
  have ok: "view_ok W" by (rule residency_view_ok [OF r])
  obtain lv where lv: "vlevel (vw_nodes W ?p) = Suc lv" using V(2) by (cases "vlevel (vw_nodes W ?p)") auto
  have "vlo (vw_nodes W ?h) = kid_lo (vw_nodes W ?p) i" "vhi (vw_nodes W ?h) = kid_hi (vw_nodes W ?p) i"
    unfolding h by (rule kid_facts(3,4) [OF ok V(1) lv V(3)])+
  then have "kid_lo (node_of (mem s) (mem s P)) i < sep" "sep < kid_hi (node_of (mem s) (mem s P)) i"
    using splits_fields(7,8) [OF L(3), of "mem s"] unfolding nc V(6) by simp_all
  from inner_insert_node [OF V(7) P(2,5,3) this, of g] obtain p' where ins: "inner_insert (mem s P) sep g = Inr p'"
    "page.count p' = Suc (page.count (mem s P))" "ptype p' = BTreeInner" by metis
  define s1 where "s1 = set_node c (l\<lparr>dirty := True\<rparr>) (s\<lparr>be := ps_write b g nr, leaf_num := leaf_num s + 1\<rparr>)"
  define s2 where "s2 = set_node P (p'\<lparr>dirty := True\<rparr>) s1"
  have m2: "mem s2 = (mem s)(c := l\<lparr>dirty := True\<rparr>, P := p'\<lparr>dirty := True\<rparr>)" by (simp add: s2_def s1_def)
  have f2: "be s2 = ps_write b g nr" "ht s2 = ht s" "local_pages s2 = local_pages s" "pool s2 = pool s" "cstate s2 = cstate s"
    "pt s2 = pt s" "super_root s2 = super_root s" by (simp_all add: s2_def s1_def set_node_def)
  define W' where "W' = split_child_view ?p ?h g i sep (node_of (mem s) l) (node_of (mem s) nr) W"
  note RS = residency_split_leaf [OF r P c al sp ins(1) m2 f2(1), folded W'_def]
  have inv2: "cache_inv E W' s2" "hot_set s2 = hot_set s"
  proof -
    have out: "mem s2 a = mem s a" if "a \<in> pool_set s" "a \<notin> hot_set s" for a
    proof -
      have "a \<noteq> P" "a \<noteq> c" using that(2) P(1) c(1) by auto
      then show ?thesis by (simp add: m2)
    qed
    have same: "remote_address (mem s2 a) = remote_address (mem s a) \<and> pos_state (mem s2 a) = pos_state (mem s a)" if "a \<in> hot_set s" for a
      using RS(5) [OF that] by simp
    have sup: "vw_super W' = vw_super W" by (simp add: W'_def)
    show "cache_inv E W' s2" "hot_set s2 = hot_set s" by (rule update_inv [OF inv RS(1) sup same out f2(2-6)], assumption+)+
  qed
  have "P \<noteq> super_root s" using D(6) P(1) sr by auto
  then have eq: "split_child E P i c s = bindR (load_child E (ChildSlot P (i + 1)) P (i + 1) s2) (\<lambda>(_, s3). Inr s3)"
    using c(2) ins(1) pd(1) unfolding split_child_def al(1) prod.case sp Let_def s1_def [symmetric]
    by (simp add: s2_def s1_def)
  have P2: "P \<in> hot_set s2" "ptype (mem s2 P) = BTreeInner" "i + 1 \<le> page.count (mem s2 P)" "remote_address (mem s2 P) = ?p"
    using P(1,3) inv2(2) ins(2,3) RS(5) [OF P(1)] by (simp_all add: m2)
  have step: "split_step W ?p i W'"
    unfolding split_step_def h [symmetric]
    using alloc_facts(1) [OF r al] L(3) nc leaf_halved [OF okc c0(3) c(2) L(1,2,7,10,15,16)]
    by (intro exI [of _ g] exI [of _ sep] exI [of _ "node_of (mem s) l"] exI [of _ "node_of (mem s) nr"]) (simp add: W'_def)
  have lvc: "vlevel (vw_nodes W (vkids (vw_nodes W ?p) ! i)) = 0" using c(2) nc by (simp add: h [symmetric] node_of_def)
  have cost2: "costs 0 1 s s2" using cur by (simp add: costs_def unused_def f2 ps_write_def)
  have pays2: "pays 1 s s2"
    using cur inv2(2) RS(5) fills_same [OF f2(4) inv2(2) f2(2,3)] by (simp add: pays_def calm_def f2(1) ps_write_def)
  have "adds 0 1 s s2" "root_addr s2 = root_addr s" "height s2 = height s" by (simp_all add: adds_def s2_def s1_def set_node_def)
  then have tally2: "tally 0 W s W' s2" by (intro split_step_tally [OF ok V(1) lv V(3) step pays2]) (simp_all add: lvc)
  from load_child_inv [OF inv2(1) _ P2(1-3)] consider
    "load_child E (ChildSlot P (i + 1)) P (i + 1) s2 = Inl ExitCall" "cstate s2 = 1" "\<not> live E 0 s2"
    | d s' where "load_child E (ChildSlot P (i + 1)) P (i + 1) s2 = Inr (d, s')" "cache_inv E W' s'" "super_root s' = vw_super W'"
      "P \<in> hot_set s'" "remote_address (mem s' P) = remote_address (mem s2 P)" "spends 1 s2 s'"
    using f2(7) sr by (auto simp: W'_def)
  then show ?thesis
  proof cases
    case 1
    then show ?thesis using eq unused_dynamic [OF I(1)] f2(5) tally_live [OF tally2, of E] by auto
  next
    case 2
    have "costs 1 1 s s'" by (rule costs_trans [OF cost2 costs_spends [OF 2(6)]]) simp_all
    moreover have "tally 0 W s W' s'" by (rule tally_0_trans [OF tally2 tally_same [OF 2(6)]])
    ultimately show ?thesis using eq 2(1-5) P2(4) RS(3,4) step by auto
  qed
qed

subsection \<open>An inner page below an inner page\<close>

lemma split_mem_reparent:
  assumes r: "residency W m b R" and c: "c \<in> R" "ptype (m c) = BTreeInner" "inner_children (m c) = inner_children l @ inner_children nr"
    and q: "q \<notin> R" "\<not> swizzled q" and nr: "page_ok nr" "ptype nr = BTreeInner" and m1: "m1 = m(c := l', q := nr\<lparr>parent_ptr := P, pos_state := st, dirty := True\<rparr>)"
    and pc: "parent_ptr (m c) \<noteq> c"
  shows "update_all_parent_ptr q m1 = split_mem m c l' q (nr\<lparr>parent_ptr := P, pos_state := st, dirty := True\<rparr>)"
proof -
  have cq: "c \<noteq> q" using c(1) q(1) by auto
  have kid: "x \<in> R \<and> parent_ptr (m x) = c" if "swz x \<in> set (inner_children nr)" "\<not> swizzled x" for x
    by (rule kid_in_pool [OF r c(1,2) _ that(2)]) (use that(1) c(3) in simp)
  have kid2: "x \<noteq> c" "x \<noteq> q" if "swz x \<in> set (inner_children nr)" "\<not> swizzled x" for x
    using kid [OF that] pc q(1) by auto
  have ch: "inner_children (m1 q) = inner_children nr" "ptype (m1 q) = BTreeInner" "page.count (m1 q) = page.count nr" "children (m1 q) = children nr"
    using cq nr(2) by (simp_all add: m1 inner_children_def)
  have slots: "(\<exists>i \<le> page.count (m1 q). children (m1 q) ! i = v) \<longleftrightarrow> v \<in> set (inner_children nr)" for v
    unfolding ch(3,4) by (rule inner_slots_ex [OF nr])
  have "\<forall>i \<le> page.count (m1 q). swizzled (children (m1 q) ! i) \<longrightarrow> hide (children (m1 q) ! i) \<noteq> q"
  proof (intro allI impI)
    fix i
    assume i: "i \<le> page.count (m1 q)" "swizzled (children (m1 q) ! i)"
    then have "children (m1 q) ! i \<in> set (inner_children nr)" using slots by blast
    then show "hide (children (m1 q) ! i) \<noteq> q" using kid2(2) [of "hide (children (m1 q) ! i)"] i(2) by auto
  qed
  from update_all_parent_ptr_correct [where m = m1 and a = q, OF ch(2) this]
  have "update_all_parent_ptr q m1 x = (if swz x \<in> set (inner_children nr) \<and> \<not> swizzled x then (m1 x)\<lparr>parent_ptr := q\<rparr> else m1 x)" for x
    using slots [of "swz x"] by auto
  then show ?thesis using kid2 cq by (auto simp: fun_eq_iff split_mem_def m1 inner_children_def)
qed

lemma split_child_inner:
  assumes inv: "cache_inv E W s" and sr: "super_root s = vw_super W"
    and P: "P \<in> hot_set s" "ptype (mem s P) = BTreeInner" "i \<le> page.count (mem s P)" "children (mem s P) ! i = swz c" "\<not> inner_isFull (mem s P)"
    and c0: "c \<in> hot_set s" "ptype (mem s c) = BTreeInner" "is_full (mem s c)" and rm: "room (be s) 1" and un: "unused s \<noteq> 0"
  shows "\<exists>W' s'. split_child E P i c s = Inr s' \<and> cache_inv E W' s' \<and> super_root s' = vw_super W' \<and> P \<in> hot_set s' \<and>
      remote_address (mem s' P) = remote_address (mem s P) \<and> abs_map W' = abs_map W \<and> root_range W' = root_range W \<and>
      split_step W (remote_address (mem s P)) i W' \<and> costs 1 1 s s' \<and> tally 0 W s W' s'"
proof -
  note I = cache_invD [OF inv]
  note r = I(6)
  note D = residencyD [OF r]
  have c: "c \<in> hot_set s" "ptype (mem s c) = BTreeInner" "4 \<le> page.count (mem s c)"
    using c0 full_count [OF D(10) [OF c0(1)] c0(3)] by simp_all
  obtain g b where al: "ps_alloc (be s) = (g, b)" "g \<noteq> ga_Null" and cur: "unat (ps_cur b) = unat (ps_cur (be s)) + 1024"
    "ps_capacity b = ps_capacity (be s)" using alloc_room [OF D(2)] rm by (metis One_nat_def)
  obtain sep l nr where sp: "inner_split (mem s c) (mk_BTreeInner (level (mem s c)) g) = (sep, l, nr)"
    by (cases "inner_split (mem s c) (mk_BTreeInner (level (mem s c)) g)")
  note pd = parent_distinct [OF r P(1-4) c(1)]
  have nsc: "\<not> swizzled c" by (rule D(8) [OF c(1)])
  note V = child_in_view [OF r P(1-4)]
  let ?p = "remote_address (mem s P)" and ?h = "remote_address (mem s c)"
  have h: "?h = vkids (vw_nodes W ?p) ! i" by (rule V(5) [OF nsc])
  have okc: "page_ok (mem s c)" and nc: "vw_nodes W ?h = node_of (mem s) (mem s c)" using D(10,12) [OF c(1)] by simp_all
  have ok: "view_ok W" by (rule residency_view_ok [OF r])
  have kc: "keys_ok (node_of (mem s) (mem s c))" using view_okD(2) [OF ok D(11) [OF c(1)]] nc by simp
  note L = inner_split_node [OF okc c(2) kc c(3) sp]
  obtain lv where lv: "vlevel (vw_nodes W ?p) = Suc lv" using V(2) by (cases "vlevel (vw_nodes W ?p)") auto
  have "vlo (vw_nodes W ?h) = kid_lo (vw_nodes W ?p) i" "vhi (vw_nodes W ?h) = kid_hi (vw_nodes W ?p) i"
    unfolding h by (rule kid_facts(3,4) [OF ok V(1) lv V(3)])+
  then have seps: "kid_lo (node_of (mem s) (mem s P)) i < sep" "sep < kid_hi (node_of (mem s) (mem s P)) i"
    using splits_fields(7,8) [OF L(3)] unfolding nc V(6) by simp_all
  define s1 where "s1 = set_node c (l\<lparr>dirty := True\<rparr>) (s\<lparr>be := b, inner_num := inner_num s + 1\<rparr>)"
  have m1: "mem s1 = (mem s)(c := l\<lparr>dirty := True\<rparr>)" by (simp add: s1_def)
  have f1: "be s1 = b" "ht s1 = ht s" "local_pages s1 = local_pages s" "pool s1 = pool s" "cstate s1 = cstate s" "pt s1 = pt s"
    "super_root s1 = super_root s" "unused s1 = unused s" "pool_set s1 = pool_set s"
    by (simp_all add: s1_def set_node_def unused_def pool_set_def)
  have pi1: "pool_inv s1" by (rule pool_inv_cong [OF I(1) f1(4,5)]) (use L(7) in \<open>auto simp: m1\<close>)
  from un f1(8) have un1: "unused s1 \<noteq> 0" by simp
  obtain q inst cs where q: "get_empty_page E s1 = Inr (q, s1\<lparr>pool := inst, cstate := cs\<rparr>)" "q \<in> pool_set s1" "q \<noteq> 0"
    "pos_state (mem s1 q) = POS_REMOTE" "pool_inv (s1\<lparr>pool := inst, cstate := cs\<rparr>)"
    "\<And>t :: 'a tree_st. pool t = inst \<Longrightarrow> \<not> fresh_slot q t \<and> pool_set t = pool_set s1 \<and> unused s1 = Suc (unused t)"
    by (rule take_slot [OF pi1 un1]) blast
  define s1' where "s1' = s1\<lparr>pool := inst, cstate := cs\<rparr>"
  have qc: "q \<noteq> c" using q(4) L(7) c(1) by (auto simp: m1 hot_set_def in_use_def)
  have qr: "pos_state (mem s q) = POS_REMOTE" using q(4) qc by (simp add: m1)
  have qR: "q \<notin> hot_set s" using qr by (auto simp: hot_set_def in_use_def)
  have qf: "\<not> swizzled q" "q \<noteq> vw_super W" using pool_slot_facts(3) [OF I(1)] I(5) q(2) f1(9) by auto
  have qP: "q \<noteq> P" using qR P(1) by auto
  have t1: "table_ok (pt s1')" using I(3) f1(6) by (simp add: s1'_def)
  obtain t where t: "cache_insert E (LocalSlot g) nr P True s1 = Inr (q, swz q, (set_node q (nr\<lparr>pos_state := POS_PIN, parent_ptr := P\<rparr>) s1')\<lparr>pt := t\<rparr>)"
    "table_ok t" "\<And>k. get_with_bucket (hash_of E) t k = (if k = g then q else get_with_bucket (hash_of E) (pt s1') k)"
    using cache_insert_local [OF q(1) [folded s1'_def] q(3) t1 L(9)] by blast
  define s2 where "s2 = (set_node q (nr\<lparr>pos_state := POS_PIN, parent_ptr := P\<rparr>) s1')\<lparr>pt := t\<rparr>"
  define s3 where "s3 = set_node q ((mem s2 q)\<lparr>pos_state := POS_HOT, dirty := True\<rparr>) s2"
  define s4 where "s4 = s3\<lparr>mem := update_all_parent_ptr q (mem s3)\<rparr>"
  have m3: "mem s3 = (mem s)(c := l\<lparr>dirty := True\<rparr>, q := nr\<lparr>parent_ptr := P, pos_state := POS_HOT, dirty := True\<rparr>)"
    by (simp add: s3_def s2_def s1'_def m1)
  have m4: "mem s4 = split_mem (mem s) c (l\<lparr>dirty := True\<rparr>) q (nr\<lparr>parent_ptr := P, pos_state := POS_HOT, dirty := True\<rparr>)"
    unfolding s4_def using split_mem_reparent [OF r c(1,2) L(4) qR qf(1) L(2,10) m3] pd(1,2) by simp
  have m4P: "mem s4 P = mem s P"
  proof -
    have "\<not> (swz P \<in> set (inner_children nr) \<and> \<not> swizzled P)"
      using kid_in_pool [OF r c(1,2), of P] pd(3) L(4) by auto
    then show ?thesis using pd(1) qP by (auto simp: m4 split_mem_def inner_children_def)
  qed
  from inner_insert_node [OF V(7) P(2,5,3) seps, of "swz q"] obtain p' where ins: "inner_insert (mem s P) sep (swz q) = Inr p'" by metis
  define s5 where "s5 = set_node P (p'\<lparr>dirty := True\<rparr>) s4"
  have m5: "mem s5 = (split_mem (mem s) c (l\<lparr>dirty := True\<rparr>) q (nr\<lparr>parent_ptr := P, pos_state := POS_HOT, dirty := True\<rparr>))(P := p'\<lparr>dirty := True\<rparr>)"
    by (simp add: s5_def m4)
  have f5: "be s5 = b" "ht s5 = ht s" "local_pages s5 = local_pages s" "pool s5 = inst" "cstate s5 = cs" "pt s5 = t" "super_root s5 = super_root s"
    by (simp_all add: s5_def s4_def s3_def s2_def s1'_def f1 set_node_def)
  have "P \<noteq> super_root s" using D(6) P(1) sr by auto
  then have eq: "split_child E P i c s = Inr s5"
    using c(2) unfolding split_child_def al(1) prod.case sp Let_def s1_def [symmetric] t(1) s2_def [symmetric]
    unfolding bindR.simps prod.case s3_def [symmetric] s4_def [symmetric] m4P ins
    by (simp add: s5_def s4_def)
  define W' where "W' = split_child_view ?p ?h g i sep (node_of (mem s) l) (node_of (mem s) nr) W"
  note RS = residency_split_inner [OF r P c al sp qR qf(1) q(3) qf(2) ins m5, folded W'_def]
  have q5: "pool_set s5 = pool_set s" "unused s = Suc (unused s5)" using q(6) [OF f5(4)] f1(8,9) by simp_all
  have hot: "hot_set s5 = hot_set s \<union> {q}"
  proof -
    have "in_use (pos_state (mem s5 a)) \<longleftrightarrow> in_use (pos_state (mem s a)) \<or> a = q" if "a \<in> pool_set s" for a
      using RS(5) [of a] RS(7) [of a] RS(8) by (cases "a = q"; cases "a \<in> hot_set s") (auto simp: in_use_def)
    then show ?thesis using q(2) f1(9) by (auto simp: hot_set_def q5(1))
  qed
  have fr: "mem s5 a = mem s a" if "a \<notin> hot_set s" "a \<noteq> q" for a using RS(7) [OF that(2,1)] .
  have pi5: "pool_inv s5"
  proof (rule pool_inv_cong2 [OF q(5)])
    show "pool s5 = pool (s1\<lparr>pool := inst, cstate := cs\<rparr>)" "cstate s5 = cstate (s1\<lparr>pool := inst, cstate := cs\<rparr>)" using f5(4,5) by simp_all
    show "pos_state (mem s5 a) = POS_REMOTE" if "fresh_slot a s5" "pos_state (mem (s1\<lparr>pool := inst, cstate := cs\<rparr>) a) = POS_REMOTE" for a
    proof -
      have "a \<noteq> q" using that(1) q(6) [OF f5(4)] by auto
      moreover have "pos_state (mem s a) = POS_REMOTE" using that(2) L(7) by (cases "a = c") (simp_all add: m1)
      ultimately show ?thesis using fr [of a] by (auto simp: hot_set_def in_use_def)
    qed
  qed
  have inv5: "cache_inv E W' s5"
  proof (rule rebuild_inv [where N = "{q}", OF inv pi5 q5(1) f5(2,3) hot])
    show "mem s5 a = mem s a" if "a \<in> pool_set s" "a \<notin> hot_set s" "a \<notin> {q}" for a using that by (intro fr) auto
    show "residency W' (mem s5) (be s5) (hot_set s \<union> {q})" using RS(1) f5(1) by simp
  qed (use qr f5(6) t(2,3) RS(5,6) in \<open>auto simp: W'_def s1'_def f1(6)\<close>)
  have "halved (node_of (mem s) (mem s c)) (node_of (mem s) l) (node_of (mem s) nr)"
    by (rule inner_halved [OF okc c0(3) c(2) L(1,2,8,10,13,14)])
  then have step: "split_step W ?p i W'"
    using alloc_facts(1) [OF r al] L(3) nc W'_def unfolding split_step_def h [symmetric] by metis
  have "costs 1 1 s s5" using q5(2) cur by (simp add: costs_def f5)
  moreover have "tally 0 W s W' s5"
  proof (rule split_step_tally [OF ok V(1) lv V(3) step])
    show "adds (vlevel (vw_nodes W (vkids (vw_nodes W ?p) ! i))) 1 s s5" "root_addr s5 = root_addr s" "height s5 = height s"
      using c(2) nc okc by (simp_all add: page_ok_def h [symmetric] node_of_def adds_def s5_def s4_def s3_def s2_def s1'_def s1_def set_node_def)
    have "fills s s5" using q5 hot qR by (simp add: fills_def stock_def f5)
    moreover have "calm 0 s5" if "calm 0 s" using that RS(5,8) by (auto simp: calm_def hot)
    ultimately show "pays 1 s s5" using cur by (simp add: pays_def f5)
  qed
  moreover have "P \<in> hot_set s5" "remote_address (mem s5 P) = ?p" using hot P(1) RS(5) by auto
  moreover have "super_root s5 = vw_super W'" using f5(7) sr by (simp add: W'_def)
  ultimately show ?thesis using eq inv5 RS(3,4) step by blast
qed

subsection \<open>A new root\<close>

definition root_page :: "u64 \<Rightarrow> u64 \<Rightarrow> gaddr \<Rightarrow> nat \<Rightarrow> gaddr \<Rightarrow> page" where
  "root_page sep left right lvl rg =
     (let r1 = (mk_BTreeInner lvl rg)\<lparr>count := 1, keys := (keys (mk_BTreeInner lvl rg))[0 := sep],
            children := (children (mk_BTreeInner lvl rg))[0 := swz left, 1 := right]\<rparr>;
          r2 = set_bitmap 0 r1
      in if swizzled right then set_bitmap 1 r2 else r2)"

lemma root_page_facts:
  assumes "0 < lvl" "lvl < 255"
  shows "page_ok (root_page sep left right lvl rg)" "remote_address (root_page sep left right lvl rg) = rg"
    "ptype (root_page sep left right lvl rg) = BTreeInner" "inner_children (root_page sep left right lvl rg) = [swz left, right]"
    "inner_keys (root_page sep left right lvl rg) = [sep]" "level (root_page sep left right lvl rg) = lvl"
    "min_limit (root_page sep left right lvl rg) = KEY_MIN" "max_limit (root_page sep left right lvl rg) = KEY_MAX"
proof -
  let ?r = "root_page sep left right lvl rg"
  have f: "keys ?r = (replicate 60 0)[0 := sep]" "children ?r = (replicate 60 0)[0 := swz left, 1 := right]" "page.count ?r = 1"
    "ptype ?r = BTreeInner" "level ?r = lvl" "remote_address ?r = rg" "min_limit ?r = KEY_MIN" "max_limit ?r = KEY_MAX"
    by (simp_all add: root_page_def Let_def set_bitmap_def mk_BTreeInner_def zero_page_def)
  have f2: "keys ?r = sep # replicate 59 0" "children ?r = swz left # right # replicate 58 0"
    using f(1,2) by (simp_all add: numeral_eq_Suc)
  have b: "bit (bitmap ?r) j \<longleftrightarrow> j = 0 \<or> j = 1 \<and> swizzled right" if "j < 64" for j
    using that by (auto simp: root_page_def bit_set_bitmap mk_BTreeInner_def Let_def)
  have "bitmap_ok ?r"
    unfolding bitmap_ok_def f2(2) f(3)
  proof (intro allI impI)
    fix j :: nat
    assume "j < 64"
    then show "bit (bitmap ?r) j = (j \<le> 1 \<and> swizzled ((swz left # right # replicate 58 0) ! j))"
      using b [of j] by (cases "j = 0"; cases "j = 1") auto
  qed
  moreover have "inner_keys ?r = [sep]" "inner_children ?r = [swz left, right]" by (simp_all add: inner_keys_def inner_children_def f2 f(3))
  ultimately show "page_ok ?r" "inner_keys ?r = [sep]" "inner_children ?r = [swz left, right]"
    using f(3-5) f2 assms by (simp_all add: page_ok_def inner_ok_def)
qed (simp_all add: root_page_def Let_def set_bitmap_def mk_BTreeInner_def zero_page_def)

text \<open>The state that \<open>make_new_root\<close> leaves when \<open>p\<close> is the slot it gets.\<close>

definition root_mem :: "(u64 \<Rightarrow> page) \<Rightarrow> u64 \<Rightarrow> u64 \<Rightarrow> page \<Rightarrow> u64 \<Rightarrow> gaddr \<Rightarrow> u64 \<Rightarrow> page" where
  "root_mem m sr p pg left right =
     (let m1 = m(p := pg\<lparr>parent_ptr := sr, pos_state := POS_HOT, dirty := True\<rparr>);
          m2 = m1(sr := (m1 sr)\<lparr>children := (children (m1 sr))[0 := swz p], bitmap := 0, count := 0\<rparr>);
          m3 = m2(left := (m2 left)\<lparr>parent_ptr := p\<rparr>)
      in if swizzled right then m3(hide right := (m3 (hide right))\<lparr>parent_ptr := p\<rparr>) else m3)"

lemma make_new_root_step:
  assumes al: "ps_alloc (be s) = (rg, b)" and e: "get_empty_page E (s\<lparr>be := b, inner_num := inner_num s + 1, root_addr := rg\<rparr>) = Inr (p, s1)"
    and p: "p \<noteq> 0" "table_ok (pt s1)" "super_root s1 = super_root s" and lvl: "0 < lvl" "lvl < 255"
  obtains s' where "make_new_root E sep left right lvl s = Inr s'" "mem s' = root_mem (mem s1) (super_root s) p (root_page sep left right lvl rg) left right"
    "be s' = be s1" "ht s' = ht s1" "local_pages s' = local_pages s1" "pool s' = pool s1" "cstate s' = cstate s1" "super_root s' = super_root s"
    "table_ok (pt s')" "\<And>k. get_with_bucket (hash_of E) (pt s') k = (if k = rg then p else get_with_bucket (hash_of E) (pt s1) k)"
    "leaf_num s' = leaf_num s1" "inner_num s' = inner_num s1" "root_addr s' = root_addr s1" "height s' = Suc lvl"
proof -
  let ?pg = "root_page sep left right lvl rg" and ?s = "s\<lparr>be := b, inner_num := inner_num s + 1, root_addr := rg\<rparr>"
  obtain t where t: "cache_insert E (LocalSlot rg) ?pg (super_root s) True ?s =
      Inr (p, swz p, (set_node p (?pg\<lparr>pos_state := POS_PIN, parent_ptr := super_root s\<rparr>) s1)\<lparr>pt := t\<rparr>)"
    "table_ok t" "\<And>k. get_with_bucket (hash_of E) t k = (if k = rg then p else get_with_bucket (hash_of E) (pt s1) k)"
    using cache_insert_local [OF e p(1,2) root_page_facts(2) [OF lvl]] by blast
  define s2 where "s2 = (set_node p (?pg\<lparr>pos_state := POS_PIN, parent_ptr := super_root s\<rparr>) s1)\<lparr>pt := t\<rparr>"
  have sr: "super_root ?s = super_root s" by simp
  have eq: "make_new_root E sep left right lvl s =
     (let s3 = set_node p ((mem s2 p)\<lparr>pos_state := POS_HOT, dirty := True\<rparr>) s2;
                   sr = super_root s3;
                   s4 = set_node sr ((mem s3 sr)\<lparr>children := (children (mem s3 sr))[0 := swz p], bitmap := 0, count := 0\<rparr>) s3;
                   s5 = set_node left ((mem s4 left)\<lparr>parent_ptr := p\<rparr>) s4;
                   s6 = (if swizzled right
                         then set_node (hide right) ((mem s5 (hide right))\<lparr>parent_ptr := p\<rparr>) s5 else s5)
               in Inr (s6\<lparr>height := lvl + 1\<rparr>))"
    unfolding make_new_root_def al prod.case Let_def sr using t(1) [folded s2_def] unfolding root_page_def Let_def by simp
  have f: "super_root s2 = super_root s" "mem s2 = (mem s1)(p := ?pg\<lparr>pos_state := POS_PIN, parent_ptr := super_root s\<rparr>)"
    "be s2 = be s1" "ht s2 = ht s1" "local_pages s2 = local_pages s1" "pool s2 = pool s1" "cstate s2 = cstate s1" "pt s2 = t"
    "leaf_num s2 = leaf_num s1" "inner_num s2 = inner_num s1" "root_addr s2 = root_addr s1"
    using p(3) by (simp_all add: s2_def set_node_def)
  show ?thesis
    by (rule that [OF eq [unfolded Let_def]])
      (use t(2,3) in \<open>simp_all add: f root_mem_def Let_def fun_upd_def [symmetric] set_node_def\<close>)
qed

subsection \<open>A full leaf as the root\<close>

lemma split_root_leaf:
  assumes inv: "cache_inv E W s" and sr: "super_root s = vw_super W" and rr: "root_range W"
    and c0: "c \<in> hot_set s" "ptype (mem s c) = BTreeLeaf" "is_full (mem s c)" "remote_address (mem s c) = vw_root W"
    and rm: "room (be s) 2"
  shows "split_child E (super_root s) 0 c s = Inl ExitCall \<and> unused s = 0 \<and> \<not> live E 0 s \<or>
    (\<exists>W' s'. split_child E (super_root s) 0 c s = Inr s' \<and> cache_inv E W' s' \<and> super_root s' = vw_super W' \<and>
      abs_map W' = abs_map W \<and> root_range W' \<and> root_step W W' \<and> costs 1 2 s s' \<and> tally 0 W s W' s')"
proof -
  note I = cache_invD [OF inv]
  note r = I(6)
  note D = residencyD [OF r]
  have c: "c \<in> hot_set s" "ptype (mem s c) = BTreeLeaf" "4 \<le> page.count (mem s c)" "remote_address (mem s c) = vw_root W"
    using c0 full_count [OF D(10) [OF c0(1)] c0(3)] by simp_all
  have rm1: "room (be s) (Suc 0)" using rm by (simp add: room_def)
  from alloc_room [OF D(2) rm1] obtain g b where al: "ps_alloc (be s) = (g, b)" "g \<noteq> ga_Null"
    "unat (ps_cur b) = unat (ps_cur (be s)) + 1024" "ps_capacity b = ps_capacity (be s)" by metis
  obtain sep l nr where sp: "leaf_split (mem s c) (mk_BTreeLeaf g) = (sep, l, nr)" by (cases "leaf_split (mem s c) (mk_BTreeLeaf g)")
  have okc: "page_ok (mem s c)" and nc: "vw_nodes W (vw_root W) = node_of (mem s) (mem s c)" using D(10,12) [OF c(1)] c(4) by simp_all
  note L = leaf_split_node [OF okc c(2,3) sp]
  note F = alloc_facts [OF r al(1,2)]
  let ?b = "ps_write b g nr"
  have b1: "ps_ok ?b" "room ?b (Suc 0)" using ps.inv_wr [OF F(2)] rm al(3,4) by (simp_all add: room_def ps_write_def)
  from alloc_room [OF b1] obtain rg b2 where al2: "ps_alloc ?b = (rg, b2)" "rg \<noteq> ga_Null"
    "unat (ps_cur b2) = unat (ps_cur ?b) + 1024" "ps_capacity b2 = ps_capacity ?b" by metis
  have all2: "ps_allocated b2 = insert rg (insert g (ps_allocated (be s)))" "rg \<notin> insert g (ps_allocated (be s))"
    using ps_alloc_fresh [OF b1(1) al2(1,2)] ps_alloc_fresh [OF D(2) al(1,2)] by (simp_all add: ps.allocated_wr)
  have rg: "rg \<notin> vw_addrs W" "rg \<noteq> g" using all2(2) D(3) by auto
  define s1 where "s1 = set_node c (l\<lparr>dirty := True\<rparr>) (s\<lparr>be := ?b, leaf_num := leaf_num s + 1\<rparr>)"
  define s1' where "s1' = s1\<lparr>be := b2, inner_num := inner_num s1 + 1, root_addr := rg\<rparr>"
  have m1: "mem s1' = (mem s)(c := l\<lparr>dirty := True\<rparr>)" by (simp add: s1_def s1'_def)
  have f1: "be s1' = b2" "ht s1' = ht s" "local_pages s1' = local_pages s" "pool s1' = pool s" "cstate s1' = cstate s"
    "pt s1' = pt s" "super_root s1' = super_root s" "super_root s1 = super_root s" "be s1 = ?b"
    by (simp_all add: s1_def s1'_def set_node_def)
  define W' where "W' = split_root_view rg (vw_root W) g sep (node_of (mem s) l) (node_of (mem s) nr) W"
  let ?W = "below_root (vw_root W) W'"
  note RS = residency_split_root_leaf [OF r rr c al(1,2) rg sp m1, folded W'_def]
  have res1: "residency ?W (mem s1') (be s1') (hot_set s)" using residency_alloc [OF RS(1) al2(1,2)] by (simp add: f1)
  have sup: "vw_super ?W = vw_super W" by (simp add: W'_def)
  have inv1: "cache_inv E ?W s1'" "hot_set s1' = hot_set s"
  proof -
    have "mem s1' a = mem s a" if "a \<in> pool_set s" "a \<notin> hot_set s" for a using that(2) c(1) by (auto simp: m1)
    then show "cache_inv E ?W s1'" "hot_set s1' = hot_set s"
      using update_inv [OF inv res1 sup _ _ f1(2-6)] RS(5) by simp_all
  qed
  have psr: "super_root s = super_root s" by simp
  have eq: "split_child E (super_root s) 0 c s = make_new_root E sep c g 1 s1"
    using c(2) unfolding split_child_def al(1) prod.case sp Let_def s1_def [symmetric] by simp
  have mk: "make_new_root E sep c g 1 s1 = Inl x" if "get_empty_page E s1' = Inl x" for x
    unfolding make_new_root_def f1(9) al2(1) prod.case Let_def s1'_def [symmetric] cache_insert_def that by simp
  have us: "unused s1' = unused s" by (simp add: unused_def f1)
  have fills1: "fills s s1'" by (rule fills_same [OF f1(4) inv1(2) f1(2,3)])
  have calm1: "calm 0 s1'" if "calm 0 s" using that RS(5) by (simp add: calm_def inv1(2))
  from get_empty_page_inv [OF inv1(1)] consider (exit) "get_empty_page E s1' = Inl ExitCall" "cstate s1' = 1" "\<not> live E 0 s1'"
    | (ok) p s2 where "get_empty_page E s1' = Inr (p, s2)" "p \<noteq> 0" "cache_inv E ?W s2" "evolves E (vw_super ?W) s1' s2" "in_hand p s2"
      "takes s1' s2" by blast
  then show ?thesis
  proof cases
    case exit
    then show ?thesis using mk eq unused_dynamic [OF I(1)] f1(5) live_fills [OF _ fills1 calm1] by (auto simp: live_def)
  next
    case ok
    note I2 = cache_invD [OF ok(3)]
    note r2 = I2(6)
    have ev: "hot_set s2 \<subseteq> hot_set s" "pool_set s2 = pool_set s" "\<And>a. remote_address (mem s2 a) = remote_address (mem s1' a)"
      "mem s2 (vw_super W) = mem s1' (vw_super W)" "cache.more s2 = cache.more s1'" "ps_cur (be s2) = ps_cur b2" "ps_capacity (be s2) = ps_capacity b2"
      using ok(4) inv1(2) f1 unfolding evolves_def sup by (auto simp: pool_set_def)
    have rem2: "remote_address (mem s2 a) = remote_address (mem s a)" for a using ev(3) RS(5) by simp
    have sr2: "super_root s2 = super_root s1" using cache_more_tree [OF ev(5)] f1(7,8) by simp
    have csr: "c \<noteq> vw_super W" using D(6) c(1) by auto
    have nsc: "\<not> swizzled c" by (rule D(8) [OF c(1)])
    have c2: "c \<in> hot_set s2"
    proof -
      have "children (mem s2 (vw_super W)) ! 0 = swz c" using root_slot(1) [OF r c(1,4)] csr by (simp add: ev(4) m1)
      then show ?thesis using residencyD(17) [OF r2] nsc sup by (simp add: slot_ok_def)
    qed
    have t2: "table_ok (pt s2)" by (rule I2(3))
    obtain s3 where s3: "make_new_root E sep c g 1 s1 = Inr s3" "mem s3 = root_mem (mem s2) (super_root s1) p (root_page sep c g 1 rg) c g"
      "be s3 = be s2" "ht s3 = ht s2" "local_pages s3 = local_pages s2" "pool s3 = pool s2" "cstate s3 = cstate s2" "super_root s3 = super_root s1"
      "table_ok (pt s3)" "\<And>k. get_with_bucket (hash_of E) (pt s3) k = (if k = rg then p else get_with_bucket (hash_of E) (pt s2) k)"
      "leaf_num s3 = leaf_num s2" "inner_num s3 = inner_num s2" "root_addr s3 = root_addr s2" "height s3 = Suc 1"
      by (rule make_new_root_step [OF al2(1) [folded f1(9)] ok(1) [unfolded s1'_def] ok(2) t2 sr2, of 1]) auto
    have pp: "p \<in> pool_set s2" "p \<notin> hot_set s2" using ok(5) by (simp_all add: in_hand_def)
    have pd: "p \<noteq> vw_super W" "p \<noteq> c" using I2(5) pp c2 sup by auto
    note pgf = root_page_facts [of 1 sep c g rg, simplified]
    define pg where "pg = (root_page sep c g 1 rg)\<lparr>parent_ptr := vw_super W, pos_state := POS_HOT, dirty := True\<rparr>"
    have m3: "mem s3 = (mem s2)(p := pg, vw_super W := (mem s2 (vw_super W))\<lparr>children := (children (mem s2 (vw_super W)))[0 := swz p],
        bitmap := 0, count := 0\<rparr>, c := (mem s2 c)\<lparr>parent_ptr := p\<rparr>)"
      using F(5) pd csr unfolding s3(2) f1(8) sr by (simp add: root_mem_def Let_def pg_def)
    have res3: "residency W' (mem s3) (be s3) (insert p (hot_set s2))"
      unfolding s3(3)
    proof (rule residency_new_root [OF r2 RS(2)])
      show "vw_root W' \<in> ps_allocated (be s2)" using all2(1) ev(6) by (simp add: W'_def ps_allocated_def)
      show "vw_nodes W' (vw_root W') = LInner 1 KEY_MIN KEY_MAX [sep] [vw_root W, g]"
        using splits_fields(1,3,6) [OF L(3), of "mem s"] rr c(2) by (simp add: W'_def root_range_def nc node_of_def)
      show "remote_address (mem s2 a) \<noteq> g" if "a \<in> hot_set s2" for a using F(6) that ev(1) rem2 by auto
      show "remote_address (mem s2 c) = vw_root W" using rem2 c(4) by simp
      show "mem s3 a = mem s2 a" if "a \<in> hot_set s2" "a \<noteq> c" for a using that pp(2) residencyD(6) [OF r2] sup by (auto simp: m3)
      show "\<not> swizzled p" by (rule pool_slot_facts(3) [OF I2(1) pp(1)])
      show "page_ok pg" "inner_children pg = [swz c, g]" "inner_keys pg = [sep]"
        using pgf(1,4,5) unfolding pg_def by (simp_all add: upd_pos_simps(10) [unfolded upd_pos_def] inner_children_def inner_keys_def)
    qed (use F(5) c2 pp pd csr ok(2) pgf in \<open>simp_all add: m3 W'_def pg_def\<close>)
    have sup3: "vw_super W' = vw_super ?W" by simp
    have srp: "a \<noteq> vw_super W" if "a \<in> pool_set s2" for a using that I2(5) sup by auto
    have rgp: "remote_address (mem s3 p) = rg" using pgf(2) pd by (simp add: m3 pg_def)
    have inv3: "cache_inv E W' s3" "hot_set s3 = insert p (hot_set s2)"
    proof -
      have a1: "in_use (pos_state (mem s3 a)) = in_use (pos_state (mem s2 a))" if "a \<in> pool_set s2" "a \<noteq> p" for a
        using that srp by (simp add: m3)
      have a2: "mem s3 a = mem s2 a" if "a \<in> pool_set s2" "a \<notin> hot_set s2" "a \<noteq> p" for a
        using that srp c2 by (auto simp: m3)
      have a3: "pos_state (mem s3 p) = POS_HOT" using pd by (simp add: m3 pg_def)
      have a4: "remote_address (mem s3 a) = remote_address (mem s2 a)" if "a \<in> hot_set s2" for a
        using that pp(2) srp [OF hot_pool [OF that]] by (auto simp: m3)
      have a5: "get_with_bucket (hash_of E) (pt s3) k = (if k = remote_address (mem s3 p) then p else get_with_bucket (hash_of E) (pt s2) k)" for k
        using s3(10) rgp by simp
      show "cache_inv E W' s3" by (rule attach_inv(1) [OF ok(3,5,2) a1 a2 a3 a4 s3(4-7) s3(9) a5 res3 sup3])
      show "hot_set s3 = insert p (hot_set s2)" by (rule attach_inv(2) [OF ok(3,5,2) a1 a2 a3 a4 s3(4-7) s3(9) a5 res3 sup3])
    qed
    have step: "root_step W W'"
    proof -
      have "halved (node_of (mem s) (mem s c)) (node_of (mem s) l) (node_of (mem s) nr)"
        by (rule leaf_halved [OF okc c0(3) c(2) L(1,2,7,10,15,16)])
      then show ?thesis using F(1) rg L(3) nc W'_def unfolding root_step_def by metis
    qed
    have costs3: "costs 1 2 s s3" and pays3: "pays 2 s s3"
    proof -
      have "ps_cur (be s3) = ps_cur b2" "ps_capacity (be s3) = ps_capacity b2" "unused s3 = unused s2"
        using ev(6,7) by (simp_all add: s3(3,6) unused_def)
      moreover have "unat (ps_cur b2) = unat (ps_cur (be s)) + 2048" "ps_capacity b2 = ps_capacity (be s)"
        using al(3,4) al2(3,4) by (simp_all add: ps_write_def)
      moreover have "unused s1' \<le> unused s2 + 1" using ok(6) by (simp add: takes_def)
      moreover have "fills s s3" by (rule fills_trans [OF fills1 takes_fills [OF ok(6) s3(6) inv3(2) pp(2) s3(4,5)]])
      moreover have "calm 0 s3" if "calm 0 s"
      proof -
        have "pos_state (mem s3 a) = POS_HOT" if a: "a \<in> insert p (hot_set s2)" for a
        proof (cases "a = p")
          case True
          then show ?thesis using pd by (simp add: m3 pg_def)
        next
          case False
          then have h: "a \<in> hot_set s2" using a by simp
          then have "pos_state (mem s3 a) = pos_state (mem s2 a)" using False srp [OF hot_pool [OF h]] by (simp add: m3)
          moreover have "a \<noteq> 0" using residencyD(9) [OF r2 h] .
          ultimately show ?thesis using h calm_evolves [OF calm1 [OF \<open>calm 0 s\<close>] ok(4)] by (auto simp: calm_def)
        qed
        then show ?thesis by (simp add: calm_def inv3(2))
      qed
      ultimately show "costs 1 2 s s3" "pays 2 s s3" using us by (simp_all add: costs_def pays_def)
    qed
    have "tally 0 W s W' s3"
    proof (rule root_step_tally [OF residency_view_ok [OF r] step pays3])
      have "leaf_num s2 = leaf_num s1'" "inner_num s2 = inner_num s1'" "root_addr s2 = root_addr s1'" using cache_more_tree [OF ev(5)] by simp_all
      moreover have "root_level W = 0" using nc c(2) by (simp add: node_of_def)
      ultimately show "adds (root_level W) 2 s s3" "root_addr s3 = vw_root W'" "height s3 = root_level W + 2"
        by (simp_all add: adds_def s3(11-14) W'_def s1'_def s1_def set_node_def)
    qed
    moreover have "super_root s3 = vw_super W'" using s3(8) f1(8) sr by (simp add: W'_def)
    ultimately show ?thesis using eq s3(1) inv3(1) RS(3,4) step costs3 by auto
  qed
qed

subsection \<open>A full inner page as the root\<close>

lemma split_root_inner:
  assumes inv: "cache_inv E W s" and sr: "super_root s = vw_super W" and rr: "root_range W"
    and c0: "c \<in> hot_set s" "ptype (mem s c) = BTreeInner" "is_full (mem s c)" "remote_address (mem s c) = vw_root W"
      "level (mem s c) + 1 < 255" and rm: "room (be s) 2" and un: "2 \<le> unused s"
  shows "\<exists>W' s'. split_child E (super_root s) 0 c s = Inr s' \<and> cache_inv E W' s' \<and> super_root s' = vw_super W' \<and>
      abs_map W' = abs_map W \<and> root_range W' \<and> root_step W W' \<and> costs 2 2 s s' \<and> tally 0 W s W' s'"
proof -
  note I = cache_invD [OF inv]
  note r = I(6)
  note D = residencyD [OF r]
  have c: "c \<in> hot_set s" "ptype (mem s c) = BTreeInner" "4 \<le> page.count (mem s c)" "remote_address (mem s c) = vw_root W" "level (mem s c) + 1 < 255"
    using c0 full_count [OF D(10) [OF c0(1)] c0(3)] by simp_all
  have rm1: "room (be s) (Suc 0)" using rm by (simp add: room_def)
  from alloc_room [OF D(2) rm1] obtain g b where al: "ps_alloc (be s) = (g, b)" "g \<noteq> ga_Null"
    "unat (ps_cur b) = unat (ps_cur (be s)) + 1024" "ps_capacity b = ps_capacity (be s)" by metis
  have "residency W (mem s) b (hot_set s)" by (rule residency_alloc [OF r al(1,2)])
  note okb = residencyD(2) [OF this]
  have rm2: "room b (Suc 0)" using rm al(3,4) by (simp add: room_def)
  from alloc_room [OF okb rm2] obtain rg b2 where al2: "ps_alloc b = (rg, b2)" "rg \<noteq> ga_Null"
    "unat (ps_cur b2) = unat (ps_cur b) + 1024" "ps_capacity b2 = ps_capacity b" by metis
  obtain sep l nr where sp: "inner_split (mem s c) (mk_BTreeInner (level (mem s c)) g) = (sep, l, nr)"
    by (cases "inner_split (mem s c) (mk_BTreeInner (level (mem s c)) g)")
  have okc: "page_ok (mem s c)" and nc: "vw_nodes W (vw_root W) = node_of (mem s) (mem s c)" using D(10,12) [OF c(1)] c(4) by simp_all
  have ok: "view_ok W" by (rule residency_view_ok [OF r])
  have kc: "keys_ok (node_of (mem s) (mem s c))" using view_okD(2) [OF ok view_ok_root [OF ok]] nc by simp
  note L = inner_split_node [OF okc c(2) kc c(3) sp]
  note rs = root_slot [OF r c(1,4)]
  define s1 where "s1 = set_node c (l\<lparr>dirty := True\<rparr>) (s\<lparr>be := b, inner_num := inner_num s + 1\<rparr>)"
  have m1: "mem s1 = (mem s)(c := l\<lparr>dirty := True\<rparr>)" by (simp add: s1_def)
  have f1: "be s1 = b" "ht s1 = ht s" "local_pages s1 = local_pages s" "pool s1 = pool s" "cstate s1 = cstate s" "pt s1 = pt s"
    "super_root s1 = super_root s" "unused s1 = unused s" "pool_set s1 = pool_set s"
    by (simp_all add: s1_def set_node_def unused_def pool_set_def)
  have pi1: "pool_inv s1" by (rule pool_inv_cong [OF I(1) f1(4,5)]) (use L(7) in \<open>auto simp: m1\<close>)
  from un f1(8) have un1: "unused s1 \<noteq> 0" by simp
  obtain q inst cs where q: "get_empty_page E s1 = Inr (q, s1\<lparr>pool := inst, cstate := cs\<rparr>)" "q \<in> pool_set s1" "q \<noteq> 0"
    "pos_state (mem s1 q) = POS_REMOTE" "pool_inv (s1\<lparr>pool := inst, cstate := cs\<rparr>)"
    "\<And>t :: 'a tree_st. pool t = inst \<Longrightarrow> \<not> fresh_slot q t \<and> pool_set t = pool_set s1 \<and> unused s1 = Suc (unused t)"
    by (rule take_slot [OF pi1 un1]) blast
  define s1' where "s1' = s1\<lparr>pool := inst, cstate := cs\<rparr>"
  have nsc: "\<not> swizzled c" by (rule D(8) [OF c(1)])
  have qc: "q \<noteq> c" using q(4) L(7) c(1) by (auto simp: m1 hot_set_def in_use_def)
  have qr: "pos_state (mem s q) = POS_REMOTE" using q(4) qc by (simp add: m1)
  have qR: "q \<notin> hot_set s" using qr by (auto simp: hot_set_def in_use_def)
  have qf: "\<not> swizzled q" "q \<noteq> vw_super W" using pool_slot_facts(3) [OF I(1)] I(5) q(2) f1(9) by auto
  have t1: "table_ok (pt s1')" using I(3) f1(6) by (simp add: s1'_def)
  obtain t where t: "cache_insert E (LocalSlot g) nr (super_root s) True s1 =
      Inr (q, swz q, (set_node q (nr\<lparr>pos_state := POS_PIN, parent_ptr := super_root s\<rparr>) s1')\<lparr>pt := t\<rparr>)"
    "table_ok t" "\<And>k. get_with_bucket (hash_of E) t k = (if k = g then q else get_with_bucket (hash_of E) (pt s1') k)"
    using cache_insert_local [OF q(1) [folded s1'_def] q(3) t1 L(9)] by blast
  define s2 where "s2 = (set_node q (nr\<lparr>pos_state := POS_PIN, parent_ptr := super_root s\<rparr>) s1')\<lparr>pt := t\<rparr>"
  define s3 where "s3 = set_node q ((mem s2 q)\<lparr>pos_state := POS_HOT, dirty := True\<rparr>) s2"
  define s4 where "s4 = s3\<lparr>mem := update_all_parent_ptr q (mem s3)\<rparr>"
  have m3: "mem s3 = (mem s)(c := l\<lparr>dirty := True\<rparr>, q := nr\<lparr>parent_ptr := super_root s, pos_state := POS_HOT, dirty := True\<rparr>)"
    by (simp add: s3_def s2_def s1'_def m1)
  have pcc: "parent_ptr (mem s c) \<noteq> c" using rs(2) D(6) c(1) by auto
  have m4: "mem s4 = split_mem (mem s) c (l\<lparr>dirty := True\<rparr>) q (nr\<lparr>parent_ptr := super_root s, pos_state := POS_HOT, dirty := True\<rparr>)"
    unfolding s4_def using split_mem_reparent [OF r c(1,2) L(4) qR qf(1) L(2,10) m3 pcc] by simp
  have f4: "be s4 = b" "ht s4 = ht s" "local_pages s4 = local_pages s" "pool s4 = inst" "cstate s4 = cs" "pt s4 = t" "super_root s4 = super_root s"
    by (simp_all add: s4_def s3_def s2_def s1'_def f1 set_node_def)
  have lvc: "level (mem s4 c) = level (mem s c)" using L(11) by (simp add: m4 split_mem_def)
  define s4' where "s4' = s4\<lparr>be := b2, inner_num := inner_num s4 + 1, root_addr := rg\<rparr>"
  have kid: "x \<in> hot_set s \<and> x \<noteq> c" if "swz x \<in> set (inner_children nr)" "\<not> swizzled x" for x
    using kid_in_pool [OF r c(1,2) _ that(2)] that(1) L(4) pcc by auto
  have out4: "mem s4 a = mem s a" if "a \<notin> hot_set s" "a \<noteq> q" for a
  proof -
    have "a \<noteq> c" using that c(1) by auto
    then show ?thesis using that kid by (auto simp: m4 split_mem_def inner_children_def)
  qed
  have pos4: "pos_state (mem s4 a) = (if a = q then POS_HOT else pos_state (mem s a))" for a
    using L(7) qc by (simp add: m4 split_mem_def)
  have f4': "mem s4' = mem s4" "pool s4' = inst" "cstate s4' = cs" "be s4' = b2" "ht s4' = ht s" "local_pages s4' = local_pages s" "pt s4' = t"
    by (simp_all add: s4'_def f4)
  have q4: "pool_set s4' = pool_set s" "unused s = Suc (unused s4')" "\<not> fresh_slot q s4'" using q(6) [OF f4'(2)] f1(8,9) by simp_all
  have pi4: "pool_inv s4'"
  proof (rule pool_inv_cong2 [OF q(5)])
    show "pool s4' = pool (s1\<lparr>pool := inst, cstate := cs\<rparr>)" "cstate s4' = cstate (s1\<lparr>pool := inst, cstate := cs\<rparr>)" using f4' by simp_all
    show "pos_state (mem s4' a) = POS_REMOTE" if "fresh_slot a s4'" "pos_state (mem (s1\<lparr>pool := inst, cstate := cs\<rparr>) a) = POS_REMOTE" for a
    proof -
      have "a \<noteq> q" using that(1) q4(3) by auto
      moreover have "pos_state (mem s a) = POS_REMOTE" using that(2) L(7) by (cases "a = c") (simp_all add: m1)
      ultimately show ?thesis by (simp add: f4'(1) pos4)
    qed
  qed
  from un q4(2) have un4: "unused s4' \<noteq> 0" by simp
  obtain p inst2 cs2 where p: "get_empty_page E s4' = Inr (p, s4'\<lparr>pool := inst2, cstate := cs2\<rparr>)" "p \<in> pool_set s4'" "p \<noteq> 0"
    "pos_state (mem s4' p) = POS_REMOTE" "pool_inv (s4'\<lparr>pool := inst2, cstate := cs2\<rparr>)"
    "\<And>t :: 'a tree_st. pool t = inst2 \<Longrightarrow> \<not> fresh_slot p t \<and> pool_set t = pool_set s4' \<and> unused s4' = Suc (unused t)"
    by (rule take_slot [OF pi4 un4]) blast
  define s5 where "s5 = s4'\<lparr>pool := inst2, cstate := cs2\<rparr>"
  have f5: "mem s5 = mem s4" "pool s5 = inst2" "cstate s5 = cs2" "be s5 = b2" "ht s5 = ht s" "local_pages s5 = local_pages s" "pt s5 = t"
    "super_root s5 = super_root s"
    by (simp_all add: s5_def f4' s4'_def f4)
  have pq: "p \<noteq> q" using p(4) pos4 by (auto simp: f4'(1))
  have pr: "pos_state (mem s p) = POS_REMOTE" using p(4) pq by (simp add: f4'(1) pos4)
  have pR: "p \<notin> hot_set s" using pr by (auto simp: hot_set_def in_use_def)
  have pf: "\<not> swizzled p" "p \<noteq> vw_super W" using pool_slot_facts(3) [OF I(1)] I(5) p(2) q4(1) by auto
  have lvl: "0 < level (mem s c) + 1" "level (mem s c) + 1 < 255" using c(5) by simp_all
  have u8l: "u8 (int (level (mem s4 c)) + 1) = level (mem s c) + 1"
    using u8_of_nat [of "level (mem s c) + 1"] c(5) by (simp add: lvc add.commute)
  have t5: "table_ok (pt s5)" "super_root s5 = super_root s4" using t(2) f5 f4 by simp_all
  obtain s6 where s6: "make_new_root E sep c (swz q) (level (mem s c) + 1) s4 = Inr s6"
    "mem s6 = root_mem (mem s5) (super_root s4) p (root_page sep c (swz q) (level (mem s c) + 1) rg) c (swz q)"
    "be s6 = be s5" "ht s6 = ht s5" "local_pages s6 = local_pages s5" "pool s6 = pool s5" "cstate s6 = cstate s5" "super_root s6 = super_root s4"
    "table_ok (pt s6)" "\<And>k. get_with_bucket (hash_of E) (pt s6) k = (if k = rg then p else get_with_bucket (hash_of E) (pt s5) k)"
    "leaf_num s6 = leaf_num s5" "inner_num s6 = inner_num s5" "root_addr s6 = root_addr s5" "height s6 = Suc (level (mem s c) + 1)"
    by (rule make_new_root_step [where sep = sep and left = c and right = "swz q",
          OF al2(1) [folded f4(1)] p(1) [unfolded s4'_def, folded s5_def [unfolded s4'_def]] p(3) t5 lvl]) blast
  have eq: "split_child E (super_root s) 0 c s = Inr s6"
    using c(2) unfolding split_child_def al(1) prod.case sp Let_def s1_def [symmetric] t(1) s2_def [symmetric]
    unfolding bindR.simps prod.case s3_def [symmetric] s4_def [symmetric] u8l s6(1)
    by simp
  note pgf = root_page_facts [OF lvl, of sep c "swz q" rg]
  define pg where "pg = (root_page sep c (swz q) (level (mem s c) + 1) rg)\<lparr>parent_ptr := vw_super W, pos_state := POS_HOT, dirty := True\<rparr>"
  have csr: "c \<noteq> vw_super W" "c \<noteq> p" using D(6) c(1) pR by auto
  have srk: "\<not> (swz (vw_super W) \<in> set (inner_children nr) \<and> \<not> swizzled (vw_super W))" using kid D(6) by auto
  have m6: "mem s6 = (split_mem (mem s) c (l\<lparr>parent_ptr := p, dirty := True\<rparr>) q (nr\<lparr>parent_ptr := p, pos_state := POS_HOT, dirty := True\<rparr>))
        (p := pg, vw_super W := (mem s (vw_super W))\<lparr>children := (children (mem s (vw_super W)))[0 := swz p], bitmap := 0, count := 0\<rparr>)"
    using csr pf(2) qf pq qc srk unfolding s6(2) f5(1) f4(7) sr m4
    by (auto simp: fun_eq_iff root_mem_def Let_def pg_def split_mem_def inner_children_def)
  have pg: "page_ok pg" "remote_address pg = rg" "parent_ptr pg = vw_super W" "dirty pg" "ptype pg = BTreeInner"
      "inner_children pg = [swz c, swz q]" "inner_keys pg = [sep]" "level pg = level (mem s c) + 1" "min_limit pg = KEY_MIN" "max_limit pg = KEY_MAX"
    using pgf unfolding pg_def by (simp_all add: upd_pos_simps(10) [unfolded upd_pos_def] inner_children_def inner_keys_def)
  define W' where "W' = split_root_view rg (vw_root W) g sep (node_of (mem s) l) (node_of (mem s) nr) W"
  note RS = residency_split_root_inner [OF r rr c al(1,2) al2(1,2) sp qR qf(1) q(3) qf(2) pR pf(1) p(3) pf(2) pq pg m6, folded W'_def]
  have f6: "be s6 = b2" "ht s6 = ht s" "local_pages s6 = local_pages s" "pool s6 = inst2" "cstate s6 = cs2" "super_root s6 = super_root s"
    using s6(3-8) f5 f4 by simp_all
  have p6: "pool_set s6 = pool_set s" "unused s4' = Suc (unused s6)" "\<not> fresh_slot p s6" using p(6) [OF f6(4)] q4(1) by simp_all
  have srp: "a \<noteq> vw_super W" if "a \<in> pool_set s" for a using that I(5) by auto
  have hot: "hot_set s6 = hot_set s \<union> {q, p}"
  proof -
    have "in_use (pos_state (mem s6 a)) \<longleftrightarrow> in_use (pos_state (mem s a)) \<or> a = q \<or> a = p" if "a \<in> pool_set s" for a
      using RS(5) [of a] RS(8) [of a] RS(9,10) srp [OF that] by (cases "a = q"; cases "a = p"; cases "a \<in> hot_set s") (auto simp: in_use_def pg_def)
    then show ?thesis using q(2) f1(9) p(2) q4(1) by (auto simp: hot_set_def p6(1))
  qed
  have fr: "mem s6 a = mem s a" if "a \<in> pool_set s" "a \<notin> hot_set s" "a \<noteq> q" "a \<noteq> p" for a
    using RS(8) [OF that(3,4) srp [OF that(1)] that(2)] .
  have pi6: "pool_inv s6"
  proof (rule pool_inv_cong2 [OF p(5)])
    show "pool s6 = pool (s4'\<lparr>pool := inst2, cstate := cs2\<rparr>)" "cstate s6 = cstate (s4'\<lparr>pool := inst2, cstate := cs2\<rparr>)" using f6(4,5) by simp_all
    show "pos_state (mem s6 a) = POS_REMOTE" if "fresh_slot a s6" "pos_state (mem (s4'\<lparr>pool := inst2, cstate := cs2\<rparr>) a) = POS_REMOTE" for a
    proof -
      have "a \<noteq> p" using that(1) p6(3) by auto
      moreover have aq: "pos_state (mem s a) = POS_REMOTE" "a \<noteq> q" using that(2) pos4 [of a] by (auto simp: f4' split: if_splits)
      moreover have "a \<in> pool_set s" using that(1) unfolding p6(1) [symmetric] fresh_slot_def by (auto simp: pool_set_def pool_slots_iff)
      ultimately show ?thesis using fr [of a] by (auto simp: hot_set_def in_use_def)
    qed
  qed
  have inv6: "cache_inv E W' s6"
  proof (rule rebuild_inv [where N = "{q, p}", OF inv pi6 p6(1) f6(2,3) hot])
    show "mem s6 a = mem s a" if "a \<in> pool_set s" "a \<notin> hot_set s" "a \<notin> {q, p}" for a using that by (intro fr) auto
    show "residency W' (mem s6) (be s6) (hot_set s \<union> {q, p})" using RS(1) f6(1) by simp
    have gr: "g \<noteq> rg" using ps_alloc_fresh [OF okb al2(1,2)] ps_alloc_fresh [OF D(2) al(1,2)] by auto
    show "get_with_bucket (hash_of E) (pt s6) (remote_address (mem s6 a)) = a" if "a \<in> {q, p}" for a
      using that gr s6(10) t(3) RS(6,7) by (auto simp: f5)
    show "get_with_bucket (hash_of E) (pt s6) k = get_with_bucket (hash_of E) (pt s) k"
      if "\<And>a. a \<in> {q, p} \<Longrightarrow> remote_address (mem s6 a) \<noteq> k" for k
      using that [of q] that [of p] s6(10) t(3) RS(6,7) by (simp add: f5 s1'_def f1(6))
  qed (use qr pr s6(9) RS(5) in \<open>auto simp: W'_def\<close>)
  have step: "root_step W W'"
  proof -
    have "halved (node_of (mem s) (mem s c)) (node_of (mem s) l) (node_of (mem s) nr)"
      by (rule inner_halved [OF okc c0(3) c(2) L(1,2,8,10,13,14)])
    moreover have "rg \<notin> vw_addrs W" "rg \<noteq> g"
      using ps_alloc_fresh [OF okb al2(1,2)] ps_alloc_fresh [OF D(2) al(1,2)] D(3) by auto
    ultimately show ?thesis using alloc_facts(1) [OF r al(1,2)] L(3) nc W'_def unfolding root_step_def by metis
  qed
  have "costs 2 2 s s6" using q4(2) p6(2) al(3,4) al2(3,4) by (simp add: costs_def f6)
  moreover have "tally 0 W s W' s6"
  proof (rule root_step_tally [OF ok step])
    have "root_level W = level (mem s c)" "0 < level (mem s c)" using nc c(2) okc by (simp_all add: page_ok_def node_of_def)
    then show "adds (root_level W) 2 s s6" "root_addr s6 = vw_root W'" "height s6 = root_level W + 2"
      by (simp_all add: adds_def s6(11-14) W'_def s5_def s4'_def s4_def s3_def s2_def s1'_def s1_def set_node_def)
    have "fills s s6" using q4(2) p6 hot qR pR pq by (simp add: fills_def stock_def f6)
    moreover have "calm 0 s6" if "calm 0 s" using that RS(5,9,10) by (auto simp: calm_def hot pg_def)
    ultimately show "pays 2 s s6" using al(3) al2(3) by (simp add: pays_def f6)
  qed
  moreover have "super_root s6 = vw_super W'" using f6(6) sr by (simp add: W'_def)
  ultimately show ?thesis using eq inv6 RS(3,4) step by blast
qed

end
