(* ===== verification/TreeInsert.thy ===== *)
theory TreeInsert
  imports SplitChild
begin

text \<open>
  Insertion (\<open>LeanStoreTree::insert\<close>): the descent that splits every full page it meets ends at a
  leaf with room, to which the view after the splits routes the key, and the insertion there
  overrides the map at the key.
\<close>

subsection \<open>Nodes on the path of a key\<close>

definition passes :: "view \<Rightarrow> u64 \<Rightarrow> gaddr \<Rightarrow> bool" where
  "passes W k g \<longleftrightarrow> (\<exists>m. m + vlevel (vw_nodes W g) = root_level W \<and> vpath (vw_nodes W) m k (vw_root W) = g)"

definition no_full :: "view \<Rightarrow> bool" where
  "no_full W \<longleftrightarrow> (\<forall>g \<in> vw_addrs W. vlevel (vw_nodes W g) \<noteq> 0 \<longrightarrow> \<not> vfull (vw_nodes W g))"

lemma vpath_step: "vpath V (Suc m) k g = vkids (V (vpath V m k g)) ! vroute (V (vpath V m k g)) k"
  by (induction m arbitrary: g) simp_all

lemma passes_root: "passes W k (vw_root W)"
  by (auto simp: passes_def intro!: exI [of _ 0])

lemma passes_leaf: "passes W k g \<Longrightarrow> vlevel (vw_nodes W g) = 0 \<Longrightarrow> vleaf W k = g"
  by (auto simp: passes_def vleaf_def)

lemma passes_kid:
  assumes "passes W k g" "vlevel (vw_nodes W g) = Suc n" "vlevel (vw_nodes W (vkids (vw_nodes W g) ! vroute (vw_nodes W g) k)) = n"
  shows "passes W k (vkids (vw_nodes W g) ! vroute (vw_nodes W g) k)"
proof -
  obtain m where m: "m + Suc n = root_level W" "vpath (vw_nodes W) m k (vw_root W) = g"
    using assms(1,2) by (auto simp: passes_def)
  have "vpath (vw_nodes W) (Suc m) k (vw_root W) = vkids (vw_nodes W g) ! vroute (vw_nodes W g) k"
    unfolding vpath_step m(2) ..
  then show ?thesis using m(1) assms(3) unfolding passes_def by (intro exI [of _ "Suc m"]) simp
qed

lemma vpath_above:
  assumes ok: "view_ok W" and same: "\<And>g. g \<in> vw_addrs W \<Longrightarrow> l < vlevel (vw_nodes W g) \<Longrightarrow> V' g = vw_nodes W g"
    and g: "g \<in> vw_addrs W" "vlevel (vw_nodes W g) = m + l"
  shows "vpath V' m k g = vpath (vw_nodes W) m k g"
  using g
proof (induction m arbitrary: g)
  case (Suc m)
  let ?n = "vw_nodes W g"
  have s: "sorted_keys (vkeys ?n)" using node_ok_inner(1) [OF view_okD(1) [OF ok Suc.prems(1)]] Suc.prems(2) by simp
  have lv: "vlevel ?n = Suc (m + l)" using Suc.prems(2) by simp
  note f = kid_facts [OF ok Suc.prems(1) lv vroute_bounds(1) [OF s, of k]]
  have "V' g = ?n" using same [OF Suc.prems(1)] Suc.prems(2) by simp
  then show ?case using Suc.IH [OF f(1,2)] by simp
qed simp

subsection \<open>The parent after a split\<close>

lemma split_step_path:
  assumes ok: "view_ok W" and p: "p \<in> vw_addrs W" "vlevel (vw_nodes W p) = Suc n" and i: "i = vroute (vw_nodes W p) k"
    and st: "split_step W p i W'" and ps: "passes W k p"
  shows "passes W' k p" "vlevel (vw_nodes W' p) = Suc n" "p \<in> vw_addrs W'" "root_level W' = root_level W"
    "\<not> vfull (vw_nodes W' (vkids (vw_nodes W' p) ! vroute (vw_nodes W' p) k))"
proof -
  let ?h = "vkids (vw_nodes W p) ! i"
  obtain g sep nl nr where S: "W' = split_child_view p ?h g i sep nl nr W" "g \<notin> vw_addrs W"
    "splits (vw_nodes W ?h) sep nl nr" "\<not> vfull nl" "\<not> vfull nr" using st unfolding split_step_def halved_def by blast
  have nok: "node_ok (vw_nodes W p)" "vlevel (vw_nodes W p) \<noteq> 0" using view_okD(1) [OF ok p(1)] p(2) by simp_all
  note s = node_ok_inner(1) [OF nok]
  have il: "i \<le> length (vkeys (vw_nodes W p))" unfolding i by (rule vroute_bounds(1) [OF s])
  note f = kid_facts [OF ok p il]
  have ne: "?h \<noteq> p" "g \<noteq> p" "g \<noteq> ?h" using f(1,2) p S(2) by auto
  have V': "vw_nodes W' p = ins_kid i sep g (vw_nodes W p)" "vw_nodes W' ?h = nl" "vw_nodes W' g = nr"
    "\<And>x. x \<noteq> p \<Longrightarrow> x \<noteq> ?h \<Longrightarrow> x \<noteq> g \<Longrightarrow> vw_nodes W' x = vw_nodes W x"
    using ne by (simp_all add: S(1))
  show lvp: "vlevel (vw_nodes W' p) = Suc n" using V'(1) p(2) by (simp add: ins_kid_fields)
  show "p \<in> vw_addrs W'" using p(1) by (simp add: S(1))
  have root: "vw_root W' = vw_root W" by (simp add: S(1))
  have above: "vw_nodes W' x = vw_nodes W x" if "x \<in> vw_addrs W" "Suc n < vlevel (vw_nodes W x)" for x
  proof -
    have "x \<noteq> p" "x \<noteq> ?h" using that(2) f(2) p(2) by auto
    moreover have "x \<noteq> g" using that(1) S(2) by auto
    ultimately show ?thesis by (intro V'(4))
  qed
  show rl: "root_level W' = root_level W"
  proof -
    have "vw_root W \<noteq> ?h" using view_okD(5) [OF ok p(1)] f(5) by auto
    moreover have "vw_root W \<noteq> g" using view_ok_root [OF ok] S(2) by auto
    ultimately show ?thesis using V'(4) [of "vw_root W"] lvp p(2) root by (cases "vw_root W = p") auto
  qed
  show "passes W' k p"
  proof -
    obtain m where m: "m + Suc n = root_level W" "vpath (vw_nodes W) m k (vw_root W) = p"
      using ps p(2) by (auto simp: passes_def)
    have "vpath (vw_nodes W') m k (vw_root W) = vpath (vw_nodes W) m k (vw_root W)"
      by (rule vpath_above [OF ok above view_ok_root [OF ok]]) (use m(1) [symmetric] in simp_all)
    then show ?thesis using m lvp rl root unfolding passes_def by (intro exI [of _ m]) simp
  qed
  have pos: "kid_lo (vw_nodes W p) i < sep" "sep < kid_hi (vw_nodes W p) i"
    using splits_fields(7,8) [OF S(3)] f(3,4) by simp_all
  have "vkids (vw_nodes W' p) ! vroute (vw_nodes W' p) k = (if sep < k then g else ?h)"
    using ins_kid_route(2) [OF nok il pos, of g k] i V'(1) by simp
  then show "\<not> vfull (vw_nodes W' (vkids (vw_nodes W' p) ! vroute (vw_nodes W' p) k))" using V'(2,3) S(4,5) by simp
qed

subsection \<open>A resident page in two states with the same view\<close>

lemma resident_inner:
  assumes r: "residency W m b R" and P: "P \<in> R" "remote_address (m P) = g"
  shows "ptype (m P) = BTreeInner \<longleftrightarrow> vlevel (vw_nodes W g) \<noteq> 0" "vlevel (vw_nodes W g) = level (m P)"
    "is_full (m P) \<longleftrightarrow> vfull (vw_nodes W g)" "g \<in> vw_addrs W"
    "ptype (m P) = BTreeInner \<Longrightarrow> length (vkeys (vw_nodes W g)) = page.count (m P)"
    "ptype (m P) = BTreeInner \<Longrightarrow> inner_lowerBound (m P) k = vroute (vw_nodes W g) k \<and> inner_lowerBound (m P) k \<le> page.count (m P)"
proof -
  have ok: "page_ok (m P)" and n: "vw_nodes W g = node_of m (m P)" using residencyD(10,12) [OF r P(1)] P(2) by simp_all
  show lv: "vlevel (vw_nodes W g) = level (m P)" using resident_level(1) [OF r P(1)] P(2) by simp
  show "ptype (m P) = BTreeInner \<longleftrightarrow> vlevel (vw_nodes W g) \<noteq> 0"
    using ok unfolding lv by (auto simp: page_ok_def split: if_splits)
  show "is_full (m P) \<longleftrightarrow> vfull (vw_nodes W g)" unfolding n by (rule is_full_node [OF ok])
  show "g \<in> vw_addrs W" using residencyD(11) [OF r P(1)] P(2) by simp
  show "length (vkeys (vw_nodes W g)) = page.count (m P)" if "ptype (m P) = BTreeInner"
    using vkids_length(2) [OF ok that] by (simp add: n)
  show "inner_lowerBound (m P) k = vroute (vw_nodes W g) k \<and> inner_lowerBound (m P) k \<le> page.count (m P)" if "ptype (m P) = BTreeInner"
    using vroute_node_of [OF ok that] n by simp
qed

lemma resident_slot:
  assumes r: "residency W m b R" and P: "P \<in> R" "ptype (m P) = BTreeInner" "i \<le> page.count (m P)"
    and c: "c \<in> R" "remote_address (m c) = vkids (vw_nodes W (remote_address (m P))) ! i"
  shows "children (m P) ! i = swz c"
proof -
  let ?v = "children (m P) ! i"
  have u: "unswz m ?v = remote_address (m c)"
    using vkids_nth(2) [OF residencyD(10) [OF r P(1)] P(2,3), of m] residencyD(12) [OF r P(1)] c(2) by simp
  note s = residencyD(15) [OF r P]
  have sw: "swizzled ?v"
  proof (rule ccontr)
    assume "\<not> swizzled ?v"
    then show False using s u c(1) by (auto simp: slot_ok_def unswz_def)
  qed
  have "hide ?v = c" using s sw u residencyD(14) [OF r _ c(1), of "hide ?v"] by (simp add: slot_ok_def unswz_def)
  then show ?thesis using swz_hide [OF sw] by simp
qed

lemma resident_type:
  assumes "residency W m b R" "c \<in> R"
  shows "ptype (m c) = BTreeInner \<or> ptype (m c) = BTreeLeaf"
  using residencyD(10) [OF assms] by (auto simp: page_ok_def split: if_splits)

subsection \<open>The descent of an insertion\<close>

lemma insert_descend_inv:
  assumes "cache_inv E W s" "super_root s = vw_super W" "cur \<in> hot_set s" "level (mem s cur) < fuel"
    "\<not> is_full (mem s cur)" "passes W k (remote_address (mem s cur))" "room (be s) (level (mem s cur))"
    "3 * level (mem s cur) \<le> unused s \<or> no_full W"
  shows "insert_descend E fuel k cur s = Inl ExitCall \<and> unused s < 3 * level (mem s cur) \<and> \<not> live E 0 s \<or>
    (\<exists>W' c s'. insert_descend E fuel k cur s = Inr (c, s') \<and> cache_inv E W' s' \<and> super_root s' = vw_super W' \<and>
      c \<in> hot_set s' \<and> ptype (mem s' c) = BTreeLeaf \<and> remote_address (mem s' c) = vleaf W' k \<and> \<not> is_full (mem s' c) \<and>
      abs_map W' = abs_map W \<and> root_range W' = root_range W \<and> root_level W' = root_level W \<and>
      costs (3 * level (mem s cur)) (level (mem s cur)) s s' \<and> tally 0 W s W' s')"
  using assms
proof (induction fuel arbitrary: cur s W)
  case (Suc fuel)
  note inv = Suc.prems(1)
  note r = cache_invD(6) [OF inv]
  define g where "g = remote_address (mem s cur)"
  note C = resident_inner [OF r Suc.prems(3) g_def [symmetric]]
  show ?case
  proof (cases "ptype (mem s cur) = BTreeInner")
    case False
    then have lf: "ptype (mem s cur) = BTreeLeaf" "level (mem s cur) = 0"
      using residencyD(10) [OF r Suc.prems(3)] by (simp_all add: page_ok_def)
    have "g = vleaf W k" using passes_leaf [OF Suc.prems(6) [folded g_def]] C(2) lf(2) by simp
    then show ?thesis using Suc.prems lf by (auto simp: g_def costs_def)
  next
    case True
    obtain n where n: "level (mem s cur) = Suc n" using C(1,2) True by (cases "level (mem s cur)") auto
    have vok: "view_ok W" by (rule residency_view_ok [OF r])
    let ?i = "inner_lowerBound (mem s cur) k"
    have i: "?i = vroute (vw_nodes W g) k" "?i \<le> page.count (mem s cur)" using C(6) [OF True, of k] by simp_all
    have lvg: "vlevel (vw_nodes W g) = Suc n" using C(2) n by simp
    have il: "?i \<le> length (vkeys (vw_nodes W g))" using i(2) C(5) [OF True] by simp
    let ?h = "vkids (vw_nodes W g) ! ?i"
    note H = kid_facts [OF vok C(4) lvg il]
    note ps = Suc.prems(6) [folded g_def]
    from load_child_inv [OF inv Suc.prems(2,3) True i(2), folded g_def] consider
      (exit) "load_child E (ChildSlot cur ?i) cur ?i s = Inl ExitCall" "cstate s = 1" "\<not> live E 0 s"
      | (ok) c s1 where "load_child E (ChildSlot cur ?i) cur ?i s = Inr (c, s1)" "cache_inv E W s1" "super_root s1 = vw_super W"
        "c \<in> hot_set s1" "remote_address (mem s1 c) = ?h" "cur \<in> hot_set s1" "remote_address (mem s1 cur) = g" "spends 1 s s1" by blast
    then show ?thesis
    proof cases
      case exit
      then show ?thesis using True n unused_dynamic [OF cache_invD(1) [OF inv]] by (simp add: Let_def)
    next
      case ok
      note r1 = cache_invD(6) [OF ok(2)]
      note C1 = resident_inner [OF r1 ok(6,7)]
      note K1 = resident_inner [OF r1 ok(4,5)]
      have t1: "ptype (mem s1 cur) = BTreeInner" using C1(1) lvg by simp
      have lv1: "level (mem s1 c) = n" using K1(2) H(2) by simp
      have cost1: "costs 1 0 s s1" and tally1: "tally 0 W s W s1" by (rule costs_spends [OF ok(8)] tally_same [OF ok(8)])+
      show ?thesis
      proof (cases "is_full (mem s1 c)")
        case False
        have "passes W k (remote_address (mem s1 c))"
          unfolding ok(5) i(1) by (rule passes_kid [OF ps lvg]) (use H(2) i(1) in simp)
        moreover have "room (be s1) (level (mem s1 c))"
          using costs_room [OF cost1, of n] Suc.prems(7) n lv1 by (simp add: room_def)
        moreover have "3 * level (mem s1 c) \<le> unused s1 \<or> no_full W"
          using Suc.prems(8) spendsD [OF ok(8)] n lv1 by auto
        moreover have "level (mem s1 c) < fuel" using Suc.prems(4) n lv1 by simp
        ultimately have "insert_descend E fuel k c s1 = Inl ExitCall \<and> unused s1 < 3 * n \<and> \<not> live E 0 s1 \<or>
          (\<exists>W' c' s'. insert_descend E fuel k c s1 = Inr (c', s') \<and> cache_inv E W' s' \<and> super_root s' = vw_super W' \<and>
            c' \<in> hot_set s' \<and> ptype (mem s' c') = BTreeLeaf \<and> remote_address (mem s' c') = vleaf W' k \<and> \<not> is_full (mem s' c') \<and>
            abs_map W' = abs_map W \<and> root_range W' = root_range W \<and> root_level W' = root_level W \<and> costs (3 * n) n s1 s' \<and> tally 0 W s1 W' s')"
          using Suc.IH [OF ok(2,3,4) _ False] lv1 by simp
        moreover have "insert_descend E (Suc fuel) k cur s = insert_descend E fuel k c s1"
          using True ok(1) False by (simp add: Let_def)
        moreover have "unused s1 < 3 * n \<Longrightarrow> unused s < 3 * Suc n" using spendsD [OF ok(8)] by simp
        moreover have "live E 0 s \<Longrightarrow> live E 0 s1" by (rule spends_live [OF ok(8)])
        moreover have "tally 0 W s1 W' s' \<Longrightarrow> tally 0 W s W' s'" for W' s' by (rule tally_0_trans [OF tally1])
        moreover have "costs (3 * n) n s1 s' \<Longrightarrow> costs (3 * Suc n) (Suc n) s s'" for s' by (erule costs_trans [OF cost1]) (simp_all add: algebra_simps)
        ultimately show ?thesis unfolding n by metis
      next
        case True2: True
        note fc = resident_type [OF r1 ok(4)]
        have slot: "children (mem s1 cur) ! ?i = swz c"
          by (rule resident_slot [OF r1 ok(6) t1 _ ok(4)]) (use il C1(5) [OF t1] ok(5,7) in simp_all)
        have i1: "?i \<le> page.count (mem s1 cur)" using il C1(5) [OF t1] by simp
        have nf1: "\<not> inner_isFull (mem s1 cur)"
          using Suc.prems(5) C(3) C1(3) t1 by (simp add: is_full_def)
        have rm1: "room (be s1) 1" using costs_room [OF cost1, of 1] Suc.prems(7) n by (simp add: room_def)
        have "split_child E cur ?i c s1 = Inl ExitCall \<and> unused s1 = 0 \<and> \<not> live E 0 s1 \<or>
          (\<exists>W2 s2. split_child E cur ?i c s1 = Inr s2 \<and> cache_inv E W2 s2 \<and> super_root s2 = vw_super W2 \<and> cur \<in> hot_set s2 \<and>
            remote_address (mem s2 cur) = g \<and> abs_map W2 = abs_map W \<and> root_range W2 = root_range W \<and>
            split_step W g ?i W2 \<and> costs 1 1 s1 s2 \<and> tally 0 W s1 W2 s2)"
        proof (cases "ptype (mem s1 c) = BTreeInner")
          case inn: True
          have "\<not> no_full W" using K1(1,3,4) inn True2 by (auto simp: no_full_def)
          then have "3 * Suc n \<le> unused s" using Suc.prems(8) n by simp
          then have "unused s1 \<noteq> 0" using spendsD [OF ok(8)] by simp
          from split_child_inner [OF ok(2,3,6) t1 i1 slot nf1 ok(4) inn True2 rm1 this] show ?thesis unfolding ok(7) by blast
        next
          case False
          then have "ptype (mem s1 c) = BTreeLeaf" using fc by simp
          from split_child_leaf [OF ok(2,3,6) t1 i1 slot nf1 ok(4) this True2 rm1] show ?thesis unfolding ok(7) by blast
        qed
        then consider (exit2) "split_child E cur ?i c s1 = Inl ExitCall" "unused s1 = 0" "\<not> live E 0 s1"
          | (ok2) W2 s2 where "split_child E cur ?i c s1 = Inr s2" "cache_inv E W2 s2" "super_root s2 = vw_super W2" "cur \<in> hot_set s2"
            "remote_address (mem s2 cur) = g" "abs_map W2 = abs_map W" "root_range W2 = root_range W"
            "split_step W g ?i W2" "costs 1 1 s1 s2" "tally 0 W s1 W2 s2" by metis
        then show ?thesis
        proof cases
          case exit2
          then show ?thesis using True True2 ok(1) spendsD [OF ok(8)] spends_live [OF ok(8), of E] n by (auto simp: Let_def)
        next
          case ok2
          note SP = split_step_path [OF vok C(4) lvg i(1) ok2(8) ps]
          note r2 = cache_invD(6) [OF ok2(2)]
          note C2 = resident_inner [OF r2 ok2(4,5)]
          have vok2: "view_ok W2" by (rule residency_view_ok [OF r2])
          have t2: "ptype (mem s2 cur) = BTreeInner" using C2(1) SP(2) by simp
          let ?j = "inner_lowerBound (mem s2 cur) k"
          have j: "?j = vroute (vw_nodes W2 g) k" "?j \<le> page.count (mem s2 cur)" using C2(6) [OF t2, of k] by simp_all
          have jl: "?j \<le> length (vkeys (vw_nodes W2 g))" using j(2) C2(5) [OF t2] by simp
          note H2 = kid_facts [OF vok2 SP(3,2) jl]
          have eq: "insert_descend E (Suc fuel) k cur s = bindR (load_child E (ChildSlot cur ?j) cur ?j s2) (\<lambda>(c', s3). insert_descend E fuel k c' s3)"
            using True True2 ok(1) ok2(1) by (simp add: Let_def)
          have cost2: "costs 2 1 s s2" by (rule costs_trans [OF cost1 ok2(9)]) simp_all
          from load_child_inv [OF ok2(2,3,4) t2 j(2), unfolded ok2(5)] consider
            (exit3) "load_child E (ChildSlot cur ?j) cur ?j s2 = Inl ExitCall" "cstate s2 = 1" "\<not> live E 0 s2"
            | (ok3) c3 s3 where "load_child E (ChildSlot cur ?j) cur ?j s2 = Inr (c3, s3)" "cache_inv E W2 s3" "super_root s3 = vw_super W2"
              "c3 \<in> hot_set s3" "remote_address (mem s3 c3) = vkids (vw_nodes W2 g) ! ?j" "spends 1 s2 s3" by blast
          then show ?thesis
          proof cases
            case exit3
            have "live E 0 s \<Longrightarrow> live E 0 s2" using spends_live [OF ok(8)] tally_live [OF ok2(10)] by blast
            then show ?thesis using exit3 eq cost2 n unused_dynamic [OF cache_invD(1) [OF ok2(2)]] by (auto simp: costs_def)
          next
            case ok3
            note r3 = cache_invD(6) [OF ok3(2)]
            note K3 = resident_inner [OF r3 ok3(4,5)]
            have lv3: "level (mem s3 c3) = n" using K3(2) H2(2) by simp
            have cost3: "costs 3 1 s s3" by (rule costs_trans [OF cost2 costs_spends [OF ok3(6)]]) simp_all
            have tally3: "tally 0 W s W2 s3"
              by (rule tally_0_trans [OF tally_0_trans [OF tally1 ok2(10)] tally_same [OF ok3(6)]])
            have nf3: "\<not> is_full (mem s3 c3)" using K3(3) SP(5) j(1) by simp
            have "passes W2 k (remote_address (mem s3 c3))"
              unfolding ok3(5) j(1) by (rule passes_kid [OF SP(1,2)]) (use H2(2) j(1) in simp)
            moreover have "room (be s3) (level (mem s3 c3))"
              using costs_room [OF cost3, of n] Suc.prems(7) n lv3 by simp
            moreover have "3 * level (mem s3 c3) \<le> unused s3 \<or> no_full W2"
            proof (cases "no_full W")
              case True
              then have "vlevel (vw_nodes W ?h) = 0" using K1(3,4) True2 by (auto simp: no_full_def)
              then show ?thesis using H(2) lv3 by simp
            next
              case False
              then show ?thesis using Suc.prems(8) cost3 n lv3 by (simp add: costs_def)
            qed
            moreover have "level (mem s3 c3) < fuel" using Suc.prems(4) n lv3 by simp
            ultimately have "insert_descend E fuel k c3 s3 = Inl ExitCall \<and> unused s3 < 3 * n \<and> \<not> live E 0 s3 \<or>
              (\<exists>W' c' s'. insert_descend E fuel k c3 s3 = Inr (c', s') \<and> cache_inv E W' s' \<and> super_root s' = vw_super W' \<and>
                c' \<in> hot_set s' \<and> ptype (mem s' c') = BTreeLeaf \<and> remote_address (mem s' c') = vleaf W' k \<and> \<not> is_full (mem s' c') \<and>
                abs_map W' = abs_map W2 \<and> root_range W' = root_range W2 \<and> root_level W' = root_level W2 \<and> costs (3 * n) n s3 s' \<and> tally 0 W2 s3 W' s')"
              using Suc.IH [OF ok3(2,3,4) _ nf3] lv3 by simp
            moreover have "insert_descend E (Suc fuel) k cur s = insert_descend E fuel k c3 s3" using eq ok3(1) by simp
            moreover have "unused s3 < 3 * n \<Longrightarrow> unused s < 3 * Suc n" using cost3 by (simp add: costs_def)
            moreover have "live E 0 s \<Longrightarrow> live E 0 s3" by (rule tally_live [OF tally3])
            moreover have "tally 0 W2 s3 W' s' \<Longrightarrow> tally 0 W s W' s'" for W' s' by (rule tally_0_trans [OF tally3])
            moreover have "costs (3 * n) n s3 s' \<Longrightarrow> costs (3 * Suc n) (Suc n) s s'" for s' by (erule costs_trans [OF cost3]) (simp_all add: algebra_simps)
            ultimately show ?thesis unfolding n ok2(6,7) SP(4) by metis
          qed
        qed
      qed
    qed
  qed
qed simp

subsection \<open>Insertion\<close>

text \<open>
  What insertion needs: a root that can grow, room in the backend for a page on every level, and
  either a pool that does not have to evict on the way or no full inner page on the path.
\<close>

definition insert_slots :: "view \<Rightarrow> nat" where
  "insert_slots W = 3 * root_level W + 7"

definition can_insert :: "view \<Rightarrow> 'a tree_st \<Rightarrow> bool" where
  "can_insert W s \<longleftrightarrow> root_level W < 254 \<and> room (be s) (root_level W + 3) \<and> (insert_slots W \<le> unused s \<or> no_full W)"

lemma root_step_level:
  assumes ok: "view_ok W" and st: "root_step W W'"
  shows "root_level W' = Suc (root_level W)" "\<not> vfull (vw_nodes W' (vw_root W'))" "no_full W \<Longrightarrow> no_full W'"
proof -
  obtain rg g sep nl nr where S: "W' = split_root_view rg (vw_root W) g sep nl nr W" "g \<notin> vw_addrs W" "rg \<notin> vw_addrs W" "rg \<noteq> g"
    "splits (vw_nodes W (vw_root W)) sep nl nr" "\<not> vfull nl" "\<not> vfull nr" using st unfolding root_step_def halved_def by blast
  note sf = splits_fields(1) [OF S(5)]
  show "root_level W' = Suc (root_level W)" "\<not> vfull (vw_nodes W' (vw_root W'))" using sf by (simp_all add: S(1))
  show "no_full W'" if "no_full W"
    unfolding no_full_def
  proof (intro ballI impI)
    fix x
    assume x: "x \<in> vw_addrs W'" "vlevel (vw_nodes W' x) \<noteq> 0"
    consider "x = rg" | "x = g" "x \<noteq> rg" | "x = vw_root W" "x \<noteq> rg" "x \<noteq> g" | "x \<in> vw_addrs W" "x \<noteq> rg" "x \<noteq> g" "x \<noteq> vw_root W"
      using x(1) by (auto simp: S(1))
    then show "\<not> vfull (vw_nodes W' x)"
    proof cases
      case 4
      then show ?thesis using x(2) that by (simp add: S(1) no_full_def)
    qed (use S(6,7) in \<open>simp_all add: S(1)\<close>)
  qed
qed

lemma tree_insert_leaf:
  fixes v :: u64
  assumes inv: "cache_inv E W s" and sr: "super_root s = vw_super W" and rr: "root_range W"
    and c: "c \<in> hot_set s" "ptype (mem s c) = BTreeLeaf" "remote_address (mem s c) = vleaf W k" "\<not> is_full (mem s c)"
  defines "p \<equiv> snd (leaf_insert (mem s c) k v)"
  shows "fst (leaf_insert (mem s c) k v) = (abs_map W k = None)"
    and "\<exists>W'. cache_inv E W' (set_node c (p\<lparr>dirty := True\<rparr>) s) \<and> super_root (set_node c (p\<lparr>dirty := True\<rparr>) s) = vw_super W' \<and>
      same_shape W W' \<and> abs_map W' = (abs_map W)(k \<mapsto> v) \<and> tally 1 W s W' (set_node c (p\<lparr>dirty := True\<rparr>) s)"
proof -
  note L = resident_leaf [OF inv c(1-3)]
  have nf: "\<not> leaf_isFull (mem s c)" using c(2,4) by (simp add: is_full_def)
  note u = leaf_insert_correct [OF L(1), of k v]
  show "fst (leaf_insert (mem s c) k v) = (abs_map W k = None)" using u nf L(3) by simp
  note r = cache_invD(6) [OF inv]
  have ok: "view_ok W" by (rule residency_view_ok [OF r])
  have "vw_nodes W (vleaf W k) = node_of (mem s) (mem s c)" using residencyD(12) [OF r c(1)] c(3) by simp
  then have "rangeValid (mem s c) k" using vleaf_range(3) [OF ok rr, of k] c(2)
    by (simp add: rangeValid_in_range vrange_def node_of_def)
  note ch = leaf_insert_change [OF L(1,2) this, of v, folded p_def]
  have "leaf_map (p\<lparr>dirty := True\<rparr>) = (leaf_map (mem s c))(k := Some v)" using u nf by (simp add: p_def leaf_change_dirty)
  moreover have "page.count (p\<lparr>dirty := True\<rparr>) \<le> page.count (mem s c) + 1" using leaf_change_count(2) [OF L(1), of k v] by (simp add: p_def)
  ultimately show "\<exists>W'. cache_inv E W' (set_node c (p\<lparr>dirty := True\<rparr>) s) \<and>
      super_root (set_node c (p\<lparr>dirty := True\<rparr>) s) = vw_super W' \<and> same_shape W W' \<and> abs_map W' = (abs_map W)(k \<mapsto> v) \<and>
      tally 1 W s W' (set_node c (p\<lparr>dirty := True\<rparr>) s)"
    using write_leaf_inv [OF inv sr c(1-3) ch] by metis
qed

lemma tree_insert_correct:
  assumes inv: "cache_inv E W s" and sr: "super_root s = vw_super W" and rr: "root_range W" and can: "can_insert W s"
  shows "tree_insert E k v s = Inl ExitCall \<and> unused s < insert_slots W \<and> \<not> live E 0 s \<or>
    (\<exists>W' s'. tree_insert E k v s = Inr (abs_map W k = None, s') \<and> cache_inv E W' s' \<and> super_root s' = vw_super W' \<and> root_range W' \<and>
      abs_map W' = (abs_map W)(k \<mapsto> v) \<and> root_level W' \<le> Suc (root_level W) \<and> costs (insert_slots W) (root_level W + 3) s s' \<and>
      tally 1 W s W' s')"
proof -
  define L where "L = root_level W"
  have L: "L < 254" "room (be s) (L + 3)" "3 * L + 7 \<le> unused s \<or> no_full W"
    using can by (simp_all add: can_insert_def insert_slots_def L_def)
  define fin where "fin = (\<lambda>cur (t :: 'a tree_st). bindR (insert_descend E walk_fuel k cur t) (\<lambda>(leaf, s3).
           case leaf_insert (mem s3 leaf) k v of (inserted, p) \<Rightarrow> Inr (inserted, set_node leaf (p\<lparr>dirty := True\<rparr>) s3)))"
  define start where "start = (\<lambda>(cur, s1). bindR (if is_full (mem s1 cur)
      then bindR (split_child E (super_root s1) 0 cur s1) (load_root E) else Inr (cur, s1)) (\<lambda>(cur', s2). fin cur' s2))"
  have ti: "tree_insert E k v s = bindR (load_root E s) start" by (simp add: tree_insert_def start_def fin_def)
  text \<open>From a root that is not full on.\<close>
  have descend: "fin cur t = Inl ExitCall \<and> unused t < 3 * l \<and> \<not> live E 0 t \<or>
    (\<exists>W' s'. fin cur t = Inr (abs_map V k = None, s') \<and>
      cache_inv E W' s' \<and> super_root s' = vw_super W' \<and> root_range W' \<and>
      abs_map W' = (abs_map V)(k \<mapsto> v) \<and> root_level W' = l \<and> costs (3 * l) l t s' \<and> tally 1 V t W' s')"
    if h: "cache_inv E V t" "super_root t = vw_super V" "root_range V" "cur \<in> hot_set t" "remote_address (mem t cur) = vw_root V"
      "\<not> is_full (mem t cur)" "root_level V = l" "room (be t) l" "3 * l \<le> unused t \<or> no_full V" for V l and t :: "'a tree_st" and cur
  proof -
    note r = cache_invD(6) [OF h(1)]
    have lv: "level (mem t cur) = l" using resident_level(1) [OF r h(4)] h(5,7) by simp
    have fuel: "level (mem t cur) < walk_fuel" using resident_level(2) [OF r h(4)] by (simp add: walk_fuel_def)
    have "passes V k (remote_address (mem t cur))" unfolding h(5) by (rule passes_root)
    note d = insert_descend_inv [OF h(1,2,4) fuel h(6) this, unfolded lv, OF h(8,9)]
    then show ?thesis
    proof
      assume "insert_descend E walk_fuel k cur t = Inl ExitCall \<and> unused t < 3 * l \<and> \<not> live E 0 t"
      then show ?thesis by (simp add: fin_def)
    next
      assume "\<exists>W' c s'. insert_descend E walk_fuel k cur t = Inr (c, s') \<and> cache_inv E W' s' \<and> super_root s' = vw_super W' \<and>
        c \<in> hot_set s' \<and> ptype (mem s' c) = BTreeLeaf \<and> remote_address (mem s' c) = vleaf W' k \<and> \<not> is_full (mem s' c) \<and>
        abs_map W' = abs_map V \<and> root_range W' = root_range V \<and> root_level W' = root_level V \<and> costs (3 * l) l t s' \<and> tally 0 V t W' s'"
      then obtain W1 c s1 where D: "insert_descend E walk_fuel k cur t = Inr (c, s1)" "cache_inv E W1 s1" "super_root s1 = vw_super W1"
        "c \<in> hot_set s1" "ptype (mem s1 c) = BTreeLeaf" "remote_address (mem s1 c) = vleaf W1 k" "\<not> is_full (mem s1 c)"
        "abs_map W1 = abs_map V" "root_range W1 = root_range V" "root_level W1 = root_level V" "costs (3 * l) l t s1"
        "tally 0 V t W1 s1" by blast
      have rr1: "root_range W1" using D(9) h(3) by simp
      let ?p = "(snd (leaf_insert (mem s1 c) k v))\<lparr>dirty := True\<rparr>"
      note T = tree_insert_leaf [OF D(2,3) rr1 D(4-7), of v]
      from T(2) obtain W' where W': "cache_inv E W' (set_node c ?p s1)" "super_root (set_node c ?p s1) = vw_super W'" "same_shape W1 W'"
        "abs_map W' = (abs_map W1)(k \<mapsto> v)" "tally 1 W1 s1 W' (set_node c ?p s1)" by blast
      have "costs (3 * l) l t (set_node c ?p s1)"
        using D(11) by (simp add: costs_def unused_def)
      then show ?thesis using D(1,8,10) T(1) W'(1,2,4) tally_0_trans [OF D(12) W'(5)] same_shape_root [OF W'(3)] rr1 h(7)
        by (intro disjI2 exI [of _ W'] exI [of _ "set_node c ?p s1"]) (simp add: fin_def case_prod_beta)
    qed
  qed
  from load_root_inv [OF inv sr] consider (exit) "load_root E s = Inl ExitCall" "cstate s = 1" "\<not> live E 0 s"
    | (ok) c s1 where "load_root E s = Inr (c, s1)" "cache_inv E W s1" "super_root s1 = vw_super W" "c \<in> hot_set s1"
      "remote_address (mem s1 c) = vw_root W" "spends 1 s s1" by blast
  then show ?thesis
  proof cases
    case exit
    then show ?thesis using unused_dynamic [OF cache_invD(1) [OF inv]] by (simp add: ti insert_slots_def)
  next
    case ok
    note r1 = cache_invD(6) [OF ok(2)]
    have vok: "view_ok W" by (rule residency_view_ok [OF r1])
    have cost1: "costs 1 0 s s1" and tally1: "tally 0 W s W s1" by (rule costs_spends [OF ok(6)] tally_same [OF ok(6)])+
    show ?thesis
    proof (cases "is_full (mem s1 c)")
      case False
      have rm: "room (be s1) L" using costs_room [OF cost1, of L] L(2) by (simp add: room_def)
      have un: "3 * L \<le> unused s1 \<or> no_full W" using L(3) spendsD [OF ok(6)] by auto
      note d = descend [OF ok(2,3) rr ok(4,5) False L_def [symmetric] rm un]
      have "tree_insert E k v s = fin c s1"
        using ok(1) False by (simp add: ti start_def)
      moreover have "unused s1 < 3 * L \<Longrightarrow> unused s < insert_slots W" using spendsD [OF ok(6)] by (simp add: insert_slots_def L_def)
      moreover have "live E 0 s \<Longrightarrow> live E 0 s1" by (rule spends_live [OF ok(6)])
      moreover have "costs (3 * L) L s1 s' \<Longrightarrow> costs (insert_slots W) (root_level W + 3) s s'" for s'
        by (erule costs_trans [OF cost1]) (simp_all add: insert_slots_def L_def)
      moreover have "tally 1 W s1 W' s' \<Longrightarrow> tally 1 W s W' s'" for W' s' by (rule tally_0_trans [OF tally1])
      moreover have "root_level W' = L \<Longrightarrow> root_level W' \<le> Suc (root_level W)" for W' by (simp add: L_def)
      ultimately show ?thesis using d by metis
    next
      case True
      note fc = resident_type [OF r1 ok(4)]
      have rm1: "room (be s1) 2" using costs_room [OF cost1, of 2] L(2) by (simp add: room_def)
      note C1 = resident_inner [OF r1 ok(4,5)]
      have "split_child E (super_root s1) 0 c s1 = Inl ExitCall \<and> unused s1 = 0 \<and> \<not> live E 0 s1 \<or>
        (\<exists>W2 s2. split_child E (super_root s1) 0 c s1 = Inr s2 \<and> cache_inv E W2 s2 \<and> super_root s2 = vw_super W2 \<and>
          abs_map W2 = abs_map W \<and> root_range W2 \<and> root_step W W2 \<and> costs 2 2 s1 s2 \<and> tally 0 W s1 W2 s2)"
      proof (cases "ptype (mem s1 c) = BTreeInner")
        case inn: True
        have "\<not> no_full W" using C1(1,3,4) inn True by (auto simp: no_full_def)
        then have un: "2 \<le> unused s1" using L(3) spendsD [OF ok(6)] by simp
        have "level (mem s1 c) + 1 < 255" using C1(2) L(1) by (simp add: L_def)
        from split_root_inner [OF ok(2,3) rr ok(4) inn True ok(5) this rm1 un] show ?thesis by blast
      next
        case False
        then have lf: "ptype (mem s1 c) = BTreeLeaf" using fc by simp
        have "costs 1 2 s1 s2 \<Longrightarrow> costs 2 2 s1 s2" for s2 by (simp add: costs_def)
        with split_root_leaf [OF ok(2,3) rr ok(4) lf True ok(5) rm1] show ?thesis by metis
      qed
      then consider (exit2) "split_child E (super_root s1) 0 c s1 = Inl ExitCall" "unused s1 = 0" "\<not> live E 0 s1"
        | (ok2) W2 s2 where "split_child E (super_root s1) 0 c s1 = Inr s2" "cache_inv E W2 s2" "super_root s2 = vw_super W2"
          "abs_map W2 = abs_map W" "root_range W2" "root_step W W2" "costs 2 2 s1 s2" "tally 0 W s1 W2 s2" by metis
      then show ?thesis
      proof cases
        case exit2
        then show ?thesis using ok(1) spendsD [OF ok(6)] spends_live [OF ok(6), of E] True by (auto simp: ti start_def insert_slots_def)
      next
        case ok2
        note rs = root_step_level [OF vok ok2(6)]
        have cost2: "costs 3 2 s s2" by (rule costs_trans [OF cost1 ok2(7)]) simp_all
        from load_root_inv [OF ok2(2,3)] consider (exit3) "load_root E s2 = Inl ExitCall" "cstate s2 = 1" "\<not> live E 0 s2"
          | (ok3) c3 s3 where "load_root E s2 = Inr (c3, s3)" "cache_inv E W2 s3" "super_root s3 = vw_super W2" "c3 \<in> hot_set s3"
            "remote_address (mem s3 c3) = vw_root W2" "spends 1 s2 s3" by blast
        then show ?thesis
        proof cases
          case exit3
          have "live E 0 s \<Longrightarrow> live E 0 s2" using spends_live [OF ok(6)] tally_live [OF ok2(8)] by blast
          then show ?thesis using exit3 ok(1) ok2(1) True cost2 unused_dynamic [OF cache_invD(1) [OF ok2(2)]]
            by (auto simp: ti start_def costs_def insert_slots_def)
        next
          case ok3
          note r3 = cache_invD(6) [OF ok3(2)]
          have cost3: "costs 4 2 s s3" by (rule costs_trans [OF cost2 costs_spends [OF ok3(6)]]) simp_all
          have tally3: "tally 0 W s W2 s3"
            by (rule tally_0_trans [OF tally_0_trans [OF tally1 ok2(8)] tally_same [OF ok3(6)]])
          have nf: "\<not> is_full (mem s3 c3)" using resident_inner(3) [OF r3 ok3(4,5)] rs(2) by simp
          have lv: "root_level W2 = Suc L" using rs(1) by (simp add: L_def)
          have rm: "room (be s3) (Suc L)" using costs_room [OF cost3, of "Suc L"] L(2) by (simp add: room_def)
          have un: "3 * Suc L \<le> unused s3 \<or> no_full W2" using L(3) cost3 rs(3) by (auto simp: costs_def)
          note d = descend [OF ok3(2,3) ok2(5) ok3(4,5) nf lv rm un, unfolded ok2(4)]
          have "tree_insert E k v s = fin c3 s3"
            using ok(1) ok2(1) ok3(1) True by (simp add: ti start_def)
          moreover have "unused s3 < 3 * Suc L \<Longrightarrow> unused s < insert_slots W" using cost3 by (simp add: costs_def insert_slots_def L_def)
          moreover have "live E 0 s \<Longrightarrow> live E 0 s3" by (rule tally_live [OF tally3])
          moreover have "costs (3 * Suc L) (Suc L) s3 s' \<Longrightarrow> costs (insert_slots W) (root_level W + 3) s s'" for s'
            by (erule costs_trans [OF cost3]) (simp_all add: insert_slots_def L_def)
          moreover have "tally 1 W2 s3 W' s' \<Longrightarrow> tally 1 W s W' s'" for W' s' by (rule tally_0_trans [OF tally3])
          moreover have "root_level W' = Suc L \<Longrightarrow> root_level W' \<le> Suc (root_level W)" for W' by (simp add: L_def)
          ultimately show ?thesis using d by metis
        qed
      qed
    qed
  qed
qed

end
