(* ===== verification/SplitFaults.thy ===== *)
theory SplitFaults
  imports TreeInsert TreeInit
begin

text \<open>
  Two faults of \<open>split_child\<close> outside the states in which \<open>TreeInsert\<close> shows it correct: a full
  pool, when an inner page is split, and an exhausted backend.

  The first is one of order. \<open>split_child\<close> looks for the sibling's slot
  after the children have been divided and before \<open>update_all_parent_ptr\<close> has re-pointed those
  that move. On a full pool the sampler may run in between, and then takes the branch for a stale
  parent pointer, which the source comments as not used with one thread.
\<close>

subsection \<open>The sampler in the middle of a split\<close>

text \<open>The state in which \<open>split_child\<close> asks for the sibling's slot.\<close>

definition split_pending :: "u64 \<Rightarrow> 'a tree_st \<Rightarrow> page \<times> 'a tree_st" where
  "split_pending c s =
     (case ps_alloc (be s) of
        (g, b) \<Rightarrow>
          (case inner_split (mem s c) (mk_BTreeInner (level (mem s c)) g) of
             (sep, left, sib) \<Rightarrow>
               (sib, set_node c (left\<lparr>dirty := True\<rparr>) (s\<lparr>be := b, inner_num := inner_num s + 1\<rparr>))))"

lemma split_child_pending:
  assumes "ptype (mem s c) \<noteq> BTreeLeaf" "split_pending c s = (sib, s1)" "get_empty_page E s1 = Inl e"
  shows "split_child E P i c s = Inl e"
  using assms by (auto simp: split_pending_def split_child_def cache_insert_def Let_def split: prod.splits)

text \<open>A pool without unused slots and two draws in a row that fall on \<open>X\<close>.\<close>

definition drawn_twice :: "env \<Rightarrow> u64 \<Rightarrow> 'a cache_st \<Rightarrow> bool" where
  "drawn_twice E X s \<longleftrightarrow> (\<exists>al. pool s = Some al \<and> alloc_ok al \<and> head_idx al = page_num al) \<and>
     target E s = X \<and> target E (s\<lparr>draws := Suc (draws s)\<rparr>) = X"

lemma findIdx_gone:
  assumes "v \<notin> set (inner_children p)" "page.count p < length (children p)"
  shows "findIdx p v = -1"
proof -
  have "children p ! i \<noteq> v" if "i \<le> page.count p" for i
  proof
    assume "children p ! i = v"
    moreover have "inner_children p ! i = children p ! i" "i < length (inner_children p)" using that assms(2) by (simp_all add: inner_children_def)
    ultimately show False using assms(1) nth_mem by metis
  qed
  then have "List.find (\<lambda>i. children p ! i = v) [0..<page.count p + 1] = None"
    unfolding find_None_iff by (metis atLeastLessThan_iff less_Suc_eq_le set_upt Suc_eq_plus1)
  then show ?thesis by (simp add: findIdx_def)
qed

text \<open>A turn of the sampler at a hot page without swizzled children.\<close>

lemma sample_turn:
  assumes "pool s = Some al" "alloc_ok al" "head_idx al = page_num al" "target E s = X"
    and X: "pos_state (mem s X) = POS_HOT" "bitmap (mem s X) = 0"
  defines "s' \<equiv> s\<lparr>draws := Suc (draws s)\<rparr>" and "c \<equiv> parent_ptr (mem s X)"
  shows "c \<noteq> 0 \<Longrightarrow> level (mem s c) \<noteq> 255 \<Longrightarrow> findIdx (mem s c) (swz X) = -1 \<Longrightarrow>
      sample_once E s = Inr (False, (set_node X ((mem s X)\<lparr>parent_ptr := 0\<rparr>) s')\<lparr>wrong_parent := wrong_parent s + 1\<rparr>)"
    and "c = 0 \<Longrightarrow> sample_once E s = bindR (demote E X s') (\<lambda>s2. Inr (True, s2))"
proof -
  have sel: "random_select E al s = Inr (X, s')"
    using random_select_full(1) [OF assms(2,3), of E s] assms(1,4) by (simp add: s'_def target_def)
  have walk: "recursive_iterate walk_fuel (mem s) X (-1) = Inr (Some X, -1)"
    using X by (simp add: walk_fuel_def eval_nat_numeral)
  have m: "mem s' = mem s" "wrong_parent s' = wrong_parent s" by (simp_all add: s'_def)
  show "sample_once E s = Inr (False, (set_node X ((mem s X)\<lparr>parent_ptr := 0\<rparr>) s')\<lparr>wrong_parent := wrong_parent s + 1\<rparr>)"
    if "c \<noteq> 0" "level (mem s c) \<noteq> 255" "findIdx (mem s c) (swz X) = -1"
    using that X by (simp add: sample_once_def assms(1) sel m walk c_def Let_def)
  show "sample_once E s = bindR (demote E X s') (\<lambda>s2. Inr (True, s2))" if "c = 0"
    using that X by (simp add: sample_once_def assms(1) sel m walk c_def Let_def)
qed

text \<open>
  The two turns together, in the state of a pending split: the first clears the parent pointer of
  a page that has moved, the second demotes it as if nothing pointed to it.
\<close>

lemma pending_sample:
  assumes c: "inner_ok (mem s c)" "2 \<le> page.count (mem s c)" "distinct (inner_children (mem s c))" "c \<noteq> 0" "level (mem s c) \<noteq> 255"
    and p: "split_pending c s = (sib, s1)"
    and X: "swz X \<in> set (inner_children sib)" "X \<noteq> c" "parent_ptr (mem s X) = c" "pos_state (mem s X) = POS_HOT" "bitmap (mem s X) = 0"
    and t: "ht_ok (ht s)" "table_ok (pt s)" "unat X < 2 ^ 48" "X \<notin> set (cool_slots (ht s))" "local_pages s = []"
      "\<forall>a \<in> set (cool_slots (ht s)). a \<noteq> 0 \<and> a \<noteq> c \<and> \<not> dirty (mem s a)"
    and d: "drawn_twice E X s"
  shows "\<exists>s'. sample_page E s1 = Inr s' \<and> pos_state (mem s' X) = POS_COOL \<and> X \<in> set (cool_slots (ht s')) \<and> mem s' c = mem s1 c"
proof -
  obtain g b where al: "ps_alloc (be s) = (g, b)" by fastforce
  obtain sep l where sp: "inner_split (mem s c) (mk_BTreeInner (level (mem s c)) g) = (sep, l, sib)"
    and s1: "s1 = set_node c (l\<lparr>dirty := True\<rparr>) (s\<lparr>be := b, inner_num := inner_num s + 1\<rparr>)"
    using p al by (auto simp: split_pending_def split: prod.splits)
  have new: "length (keys (mk_BTreeInner (level (mem s c)) g)) = max_inner_entries" "length (children (mk_BTreeInner (level (mem s c)) g)) = max_inner_entries"
    by (simp_all add: mk_BTreeInner_def zero_page_def)
  note L = inner_split_parts [OF c(1) new c(2) sp]
  have kl: "children l = children (mem s c)" "level l = level (mem s c)"
    using arg_cong [OF L(7), of children] arg_cong [OF L(7), of level] by simp_all
  have "swz X \<notin> set (inner_children l)" using c(3) X(1) unfolding L(2) [symmetric] by auto
  moreover have "page.count l < length (children l)" using c(1,2) L(3) kl(1) by (auto simp: inner_ok_def)
  ultimately have fi: "findIdx (l\<lparr>dirty := True\<rparr>) (swz X) = -1"
    by (intro findIdx_gone) (simp_all add: inner_children_def)
  obtain al where pool: "pool s = Some al" "alloc_ok al" "head_idx al = page_num al" and tg: "target E s = X" "target E (s\<lparr>draws := Suc (draws s)\<rparr>) = X"
    using d by (auto simp: drawn_twice_def)
  have m1: "mem s1 X = mem s X" "mem s1 c = l\<lparr>dirty := True\<rparr>" "pool s1 = Some al" "draws s1 = draws s" "ht s1 = ht s" "pt s1 = pt s"
    "local_pages s1 = []" "\<And>a. a \<noteq> c \<Longrightarrow> mem s1 a = mem s a"
    using X(2) pool(1) t(5) by (simp_all add: s1 set_node_def)
  define s2 where "s2 = (set_node X ((mem s1 X)\<lparr>parent_ptr := 0\<rparr>) (s1\<lparr>draws := Suc (draws s1)\<rparr>))\<lparr>wrong_parent := wrong_parent s1 + 1\<rparr>"
  have tg1: "target E s1 = X" using tg(1) by (simp add: target_def m1 pool(1))
  have o1: "sample_once E s1 = Inr (False, s2)"
    unfolding s2_def by (rule sample_turn(1) [OF m1(3) pool(2,3) tg1]) (use X c(4,5) fi kl(2) in \<open>simp_all add: m1\<close>)
  have f2: "mem s2 = (mem s1)(X := (mem s X)\<lparr>parent_ptr := 0\<rparr>)" "pool s2 = Some al" "draws s2 = Suc (draws s)" "ht s2 = ht s" "pt s2 = pt s"
    "local_pages s2 = []" by (simp_all add: s2_def m1 set_node_def)
  define s3 where "s3 = s2\<lparr>draws := Suc (draws s2)\<rparr>"
  have "target E s2 = X" using tg(2) by (simp add: target_def f2 pool(1))
  then have o2: "sample_once E s2 = bindR (demote E X s3) (\<lambda>s'. Inr (True, s'))"
    unfolding s3_def by (intro sample_turn(2) [OF f2(2) pool(2,3)]) (use X in \<open>simp_all add: f2\<close>)
  obtain ev s' where dm: "demote E X s3 = Inr s'" "ev \<noteq> 0 \<longrightarrow> ev \<in> set (cool_slots (ht s3))"
    "mset (cool_slots (ht s') @ local_pages s') = add_mset X (mset (cool_slots (ht s3) @ local_pages s3))"
    "local_pages s' = (if ev \<noteq> 0 then ev # local_pages s3 else local_pages s3)"
    "mem s' = (\<lambda>a. if a = X then (mem s3 X)\<lparr>dirty := False, pos_state := POS_COOL\<rparr>
       else if a = ev \<and> ev \<noteq> 0 then (mem s3 a)\<lparr>pos_state := POS_LOCAL\<rparr> else mem s3 a)"
  proof -
    have "\<forall>a \<in> set (cool_slots (ht s3)). a \<noteq> 0 \<and> \<not> dirty (mem s3 a)" using t(4,6) by (auto simp: s3_def f2 m1)
    then have "\<exists>ev s'. demote E X s3 = Inr s' \<and> (ev \<noteq> 0 \<longrightarrow> ev \<in> set (cool_slots (ht s3))) \<and>
      mset (cool_slots (ht s') @ local_pages s') = add_mset X (mset (cool_slots (ht s3) @ local_pages s3)) \<and>
      local_pages s' = (if ev \<noteq> 0 then ev # local_pages s3 else local_pages s3) \<and>
      mem s' = (\<lambda>a. if a = X then (mem s3 X)\<lparr>dirty := False, pos_state := POS_COOL\<rparr>
       else if a = ev \<and> ev \<noteq> 0 then (mem s3 a)\<lparr>pos_state := POS_LOCAL\<rparr> else mem s3 a)"
      using demote_effect [of s3 X E] t(1-4) by (fastforce simp: s3_def f2)
    then show ?thesis using that by blast
  qed
  have "sample_page E s1 = sample_loop E (Suc (Suc 997)) s1" by (simp add: sample_page_def)
  then have "sample_page E s1 = Inr s'" unfolding sample_loop.simps o1 bindR.simps by (simp add: o2 dm(1))
  moreover have "pos_state (mem s' X) = POS_COOL" unfolding dm(5) by simp
  moreover have "X \<in> set (cool_slots (ht s'))"
  proof -
    have "X \<in># mset (cool_slots (ht s') @ local_pages s')" unfolding dm(3) by simp
    moreover have "X \<notin> set (local_pages s')" using dm(2,4) t(4,5) by (auto simp: s3_def f2)
    ultimately show ?thesis by auto
  qed
  moreover have "mem s' c = mem s1 c" using dm(2,5) X(2) t(6) by (auto simp: s3_def f2)
  ultimately show ?thesis by blast
qed

text \<open>A state with a page that waits in the cool tier and is still somebody's swizzled child is broken.\<close>

lemma dangling_child:
  assumes "q \<in> hot_set t" "ptype (mem t q) = BTreeInner" "swz X \<in> set (inner_children (mem t q))" "\<not> swizzled X"
    "pos_state (mem t X) = POS_COOL"
  shows "\<not> cache_inv E W t"
proof
  assume "cache_inv E W t"
  then have "X \<in> hot_set t" using kid_in_pool [OF cache_invD(6) assms(1-4)] by blast
  then show False using assms(5) by (simp add: hot_set_def in_use_def)
qed

text \<open>What is asked of the page tables and the page holds whenever the invariant does.\<close>

lemma pending_sample_inv:
  assumes inv: "cache_inv E W s" and c: "c \<in> hot_set s" "ptype (mem s c) = BTreeInner" "2 \<le> page.count (mem s c)"
    and p: "split_pending c s = (sib, s1)"
    and X: "swz X \<in> set (inner_children sib)" "\<not> swizzled X" "ptype (mem s X) = BTreeLeaf" "pos_state (mem s X) = POS_HOT"
    and l: "local_pages s = []" and d: "drawn_twice E X s"
  shows "\<exists>s'. sample_page E s1 = Inr s' \<and> pos_state (mem s' X) = POS_COOL \<and> X \<in> set (cool_slots (ht s')) \<and> mem s' c = mem s1 c"
proof -
  note I = cache_invD [OF inv]
  note D = residencyD [OF I(6)]
  obtain g b where al: "ps_alloc (be s) = (g, b)" by fastforce
  obtain sep l' where sp: "inner_split (mem s c) (mk_BTreeInner (level (mem s c)) g) = (sep, l', sib)"
    using p al by (auto simp: split_pending_def split: prod.splits)
  have okc: "page_ok (mem s c)" "inner_ok (mem s c)" using D(10) [OF c(1)] c(2) by (simp_all add: page_ok_def)
  have "inner_children l' @ inner_children sib = inner_children (mem s c)"
    by (rule inner_split_parts(2) [OF okc(2) _ _ c(3) sp]) (simp_all add: mk_BTreeInner_def zero_page_def)
  then have "set (inner_children sib) \<subseteq> set (inner_children (mem s c))" by (metis Un_upper2 set_append)
  then have "swz X \<in> set (inner_children (mem s c))" using X(1) by blast
  from kid_in_pool [OF I(6) c(1,2) this X(2)] have k: "X \<in> hot_set s" "parent_ptr (mem s X) = c" by simp_all
  have "distinct (vkids (vw_nodes W (remote_address (mem s c))))"
    using D(1) D(11) [OF c(1)] by (simp add: vtree_def)
  then have "distinct (inner_children (mem s c))"
    using D(12) [OF c(1), symmetric] c(2) by (simp add: vkids_node_of distinct_map)
  moreover have "bitmap (mem s X) = 0" using D(10) [OF k(1)] X(3) by (simp add: page_ok_def)
  moreover have "X \<noteq> c" using X(3) c(2) by auto
  moreover have "level (mem s c) \<noteq> 255" "c \<noteq> 0" using okc(1) c(2) D(9) [OF c(1)] by (simp_all add: page_ok_def)
  moreover have "unat X < 2 ^ 48" using pool_slot_facts [OF I(1) hot_pool [OF k(1)]] by simp
  moreover have f: "a \<in> pool_set s \<and> a \<notin> hot_set s \<and> \<not> dirty (mem s a)" if "a \<in> set (cool_slots (ht s))" for a
    using I(4) that by (auto simp: free_inv_def hot_set_def in_use_def)
  then have "X \<notin> set (cool_slots (ht s))" "\<forall>a \<in> set (cool_slots (ht s)). a \<noteq> 0 \<and> a \<noteq> c \<and> \<not> dirty (mem s a)"
    using k(1) c(1) pool_slot_facts(1) [OF I(1)] by blast+
  ultimately show ?thesis using pending_sample [OF okc(2) c(3)] p X(1,4) k(2) I(2,3) l d by blast
qed

text \<open>On an empty cool tier the search for a slot to recycle finds none.\<close>

lemma no_recycling:
  assumes "ht_ok (ht s)" "cool_slots (ht s) = []"
  shows "random_evict_to_remote E L s = Inr (None, s\<lparr>draws := Suc (draws s)\<rparr>)"
proof -
  define idx where "idx = rnd E (draws s) mod unat (ht_bucket_num (ht s))"
  define lim where "lim = unat (min (ht_bucket_num (ht s)) (of_nat idx + L))"
  have "\<forall>a \<in> set (cool_slots (ht s)). \<not> dirty (mem s a)" using assms(2) by simp
  note ev = random_evict_correct [OF assms(1) this idx_def refl lim_def]
  have "cool_bucket (ht s) i = []" if "i < length (ht_table (ht s))" for i
    using assms(2) that by (simp add: cool_slots_def cool_bucket_def)
  then have "List.find (\<lambda>i. cool_bucket (ht s) i \<noteq> []) [idx..<lim] = None" using ev by (auto simp: find_None_iff)
  then show ?thesis using ev by simp
qed

subsection \<open>No page left\<close>

lemma exhausted_alloc:
  assumes "ps_ok b" "\<not> room b 1"
  shows "ps_alloc b = (ga_Null, b)" "ps_write b ga_Null p = b\<lparr>ps_page := (ps_page b)(0 := p)\<rparr>"
proof -
  show "ps_alloc b = (ga_Null, b)" using ps_alloc_cases [OF assms(1)] assms(2) by (auto simp: room_def)
  have o: "offset ga_Null = 0" by (simp add: offset_def ga_Null_def)
  have "1024 \<le> unat (ps_capacity b)" using assms(1) by (simp add: ps_ok_def word_le_nat_alt)
  then have "\<not> offset ga_Null + PAGE_SIZE > ps_capacity b" unfolding o by (simp add: PAGE_SIZE_def word_less_nat_alt)
  then show "ps_write b ga_Null p = b\<lparr>ps_page := (ps_page b)(0 := p)\<rparr>" unfolding ps_write_def o by simp
qed

lemma null_child:
  assumes "P \<in> hot_set t" "ptype (mem t P) = BTreeInner" "ga_Null \<in> set (inner_children (mem t P))"
  shows "\<not> cache_inv E W t"
proof
  assume inv: "cache_inv E W t"
  note D = residencyD [OF cache_invD(6) [OF inv]]
  have n: "\<not> swizzled ga_Null" by (rule not_swizzled_28) (simp add: ga_Null_def)
  have "ga_Null \<in> set (vkids (vw_nodes W (remote_address (mem t P))))"
    using D(12) [OF assms(1), symmetric] assms(2,3) n by (force simp: vkids_node_of unswz_def)
  then obtain i where "i < length (vkids (vw_nodes W (remote_address (mem t P))))" "vkids (vw_nodes W (remote_address (mem t P))) ! i = ga_Null"
    by (auto simp: in_set_conv_nth)
  moreover have "kids_ok (vw_nodes W) (vw_addrs W) (vw_nodes W (remote_address (mem t P)))"
    using D(1) D(11) [OF assms(1)] unfolding vtree_def by blast
  ultimately have "ga_Null \<in> vw_addrs W" unfolding kids_ok_def by metis
  then have "ga_Null \<in> ps_allocated (be t)" using D(3) by blast
  then show False by (simp add: ps_allocated_def offset_def ga_Null_def)
qed

subsection \<open>A full pool with an inner page and a leaf\<close>

text \<open>Two slots; the inner page at 0x6C00 has the leaf at 0x7000 as its only swizzled child, which
  goes to the sibling. Every draw falls on the leaf.\<close>

definition example_draw :: env where
  "example_draw = \<lparr>hash_of = id, rnd = (\<lambda>_. 1)\<rparr>"

definition example_pending :: tree where
  "example_pending = \<lparr>mem = (\<lambda>_. zero_page)(0x6C00 := example_inner, 0x7000 := example_leaf\<lparr>pos_state := POS_HOT, parent_ptr := 0x6C00\<rparr>),
     be = example_store, scratch = zero_page, draws = 0, ht = mk_HashTable 2, pt = mk_PageTable 2,
     capacity = 2, cstate = 1, inner_miss = 0, leaf_miss = 0, full_page_miss = 0, rdma_write = 0, wrong_parent = 0,
     buffer_min_limit = 0, buffer_max_limit = 0, admission_idx = 0, local_pages = [],
     pool = Some \<lparr>base_address = 0x6C00, alloc_unit = PAGE_SIZE, page_num = 2, head_idx = 2\<rparr>,
     super_root = 0x9000, root_addr = 0, height = 2, leaf_num = 3, inner_num = 1\<rparr>"

lemma example_pending_facts:
  "mem example_pending 0x6C00 = example_inner" "local_pages example_pending = []"
  "parent_ptr (mem example_pending 0x7000) = 0x6C00" "pos_state (mem example_pending 0x7000) = POS_HOT" "bitmap (mem example_pending 0x7000) = 0"
  "ht_ok (ht example_pending)" "table_ok (pt example_pending)" "cool_slots (ht example_pending) = []"
  using mk_HashTable_ok [of 2] get_fresh_table(1) [of 2]
  by (simp_all add: example_pending_def example_leaf_def mk_BTreeLeaf_def zero_page_def ceil_div_def NUM_ENTRIES_def)

lemma example_drawn_twice: "drawn_twice example_draw 0x7000 (example_pending\<lparr>draws := Suc (draws example_pending)\<rparr>)"
proof -
  have "(1024 :: nat) dvd 0x6C00" by (rule dvdI [of _ _ 27]) simp
  then show ?thesis
    by (simp add: drawn_twice_def target_def example_pending_def example_draw_def slot_addr_def PAGE_SIZE_def alloc_ok_def)
qed

subsection \<open>Properties\<close>

text \<open>C12: the split of an inner page on a full pool. \<open>split_child\<close> asks for the sibling's slot in a turn of
  \<open>try_get_empty_page\<close>, which on an empty cool tier begins with two calls of the sampler. If the first of them draws
  a page that has moved to the sibling twice in a row, it does not find the
  page among the children of its recorded parent, clears the parent pointer, and demotes the page
  to the cool tier, from which it is evicted. The sibling, and the old page, stay as they are, so the
  sibling is installed with a swizzled pointer to a slot that is no longer the child's: in no such
  state can the invariant hold.\<close>

theorem split_stale_parent_spec:
  fixes s :: "'a tree_st"
  assumes "inner_ok (mem s c)" "2 \<le> page.count (mem s c)" "distinct (inner_children (mem s c))" "c \<noteq> 0" "level (mem s c) \<noteq> 255"
    and "split_pending c s = (sib, s1)" "swz X \<in> set (inner_children sib)"
    and "X \<noteq> c" "parent_ptr (mem s X) = c" "pos_state (mem s X) = POS_HOT" "bitmap (mem s X) = 0"
    and "ht_ok (ht s)" "table_ok (pt s)" "unat X < 2 ^ 48" "cool_slots (ht s) = []" "local_pages s = []" "cstate s = 1"
    and "drawn_twice E X (s\<lparr>draws := Suc (draws s)\<rparr>)"
  shows "\<exists>s'. try_get_empty_page E s1 = bindR (sample_page E s') (\<lambda>s2. if local_pages s2 \<noteq> []
        then (case get_local_page_set s2 of (p, s3) \<Rightarrow> assertR (p \<noteq> 0) (Inr (p, s3))) else Inr (0, s2)) \<and>
    pos_state (mem s' X) = POS_COOL \<and> X \<in> set (cool_slots (ht s')) \<and> mem s' c = mem s1 c \<and>
    (\<forall>q W (t :: 'a tree_st). q \<in> hot_set t \<and> mem t q = sib\<lparr>parent_ptr := parent_ptr (mem t q), pos_state := POS_HOT, dirty := True\<rparr> \<and>
       ptype sib = BTreeInner \<and> pos_state (mem t X) = POS_COOL \<longrightarrow> \<not> cache_inv E W t)"
proof -
  have nd: "\<not> cache_inv E W t" if q: "q \<in> hot_set t" "mem t q = sib\<lparr>parent_ptr := parent_ptr (mem t q), pos_state := POS_HOT, dirty := True\<rparr>"
    "ptype sib = BTreeInner" "pos_state (mem t X) = POS_COOL" for q W and t :: "'a tree_st"
  proof (rule dangling_child [OF q(1) _ _ _ q(4)])
    show "ptype (mem t q) = BTreeInner" "swz X \<in> set (inner_children (mem t q))"
      using q(3) assms(7) by (subst q(2), simp add: inner_children_def)+
    show "\<not> swizzled X" using assms(14) by (intro not_swizzled_28) simp
  qed
  have d: "\<forall>q W (t :: 'a tree_st). q \<in> hot_set t \<and> mem t q = sib\<lparr>parent_ptr := parent_ptr (mem t q), pos_state := POS_HOT, dirty := True\<rparr> \<and>
       ptype sib = BTreeInner \<and> pos_state (mem t X) = POS_COOL \<longrightarrow> \<not> cache_inv E W t"
    by (intro allI impI, elim conjE) (erule (3) nd)
  let ?u = "s\<lparr>draws := Suc (draws s)\<rparr>" and ?u1 = "s1\<lparr>draws := Suc (draws s1)\<rparr>"
  have p: "split_pending c ?u = (sib, ?u1)" and f: "cstate s1 = cstate s" "ht s1 = ht s" "local_pages s1 = local_pages s" "mem ?u1 c = mem s1 c"
    using assms(6) by (auto simp: split_pending_def set_node_def split: prod.splits)
  have ev: "random_evict_to_remote E probing_length s1 = Inr (None, ?u1)"
    using no_recycling [of s1 E probing_length] assms(12,15) f(2) by simp
  have "\<exists>s'. sample_page E ?u1 = Inr s' \<and> pos_state (mem s' X) = POS_COOL \<and> X \<in> set (cool_slots (ht s')) \<and> mem s' c = mem ?u1 c"
    by (rule pending_sample [OF _ _ _ assms(4) _ p assms(7,8)]) (use assms in simp_all)
  then obtain s' where s': "sample_page E ?u1 = Inr s'" "pos_state (mem s' X) = POS_COOL" "X \<in> set (cool_slots (ht s'))" "mem s' c = mem s1 c"
    by auto
  have "try_get_empty_page E s1 = bindR (sample_page E s') (\<lambda>s2. if local_pages s2 \<noteq> []
      then (case get_local_page_set s2 of (p, s3) \<Rightarrow> assertR (p \<noteq> 0) (Inr (p, s3))) else Inr (0, s2))"
    using assms(16,17) by (cases "sample_page E s'") (simp_all add: try_get_empty_page_def f ev num_pages_to_sample_def eval_nat_numeral s'(1))
  with s'(2-4) d show ?thesis by (intro exI [of _ s'] conjI)
qed

theorem split_stale_parent_spec_witness:
  "\<exists>sib s1 s'. split_pending 0x6C00 example_pending = (sib, s1) \<and> swz 0x7000 \<in> set (inner_children sib) \<and>
     try_get_empty_page example_draw s1 = bindR (sample_page example_draw s') (\<lambda>s2. if local_pages s2 \<noteq> []
        then (case get_local_page_set s2 of (p, s3) \<Rightarrow> assertR (p \<noteq> 0) (Inr (p, s3))) else Inr (0, s2)) \<and>
     pos_state (mem s' 0x7000) = POS_COOL"
proof -
  obtain g b sep l sib where al: "ps_alloc (be example_pending) = (g, b)"
    and sp: "inner_split example_inner (mk_BTreeInner (level example_inner) g) = (sep, l, sib)"
    by (metis prod_cases3 surj_pair)
  obtain s1 where p: "split_pending 0x6C00 example_pending = (sib, s1)"
    using al sp by (simp add: split_pending_def example_pending_facts(1))
  have "swz 0x7000 \<in> set (inner_children sib)"
  proof -
    have "page.count l = 0" "inner_children l @ inner_children sib = inner_children example_inner"
      using inner_split_parts(2,3) [OF example_inner_ok _ _ _ sp] by (simp_all add: example_inner_fields mk_BTreeInner_def zero_page_def)
    moreover from this(1) have "length (inner_children l) \<le> 1" by (simp add: inner_children_def)
    ultimately show ?thesis by (cases "inner_children l") (auto simp: example_inner_fields)
  qed
  moreover have "swz 0x7000 \<noteq> v" if "\<not> swizzled v" for v using that by auto
  then have "distinct (inner_children example_inner)" using not_swizzled_28 [of "0x8000000"] not_swizzled_28 [of "0xC000000"]
    by (auto simp: example_inner_fields)
  moreover have "level example_inner \<noteq> 255" by (simp add: example_inner_def mk_BTreeInner_def)
  moreover have "cstate example_pending = 1" by (simp add: example_pending_def)
  moreover note example_pending_facts
  ultimately obtain s' where "try_get_empty_page example_draw s1 = bindR (sample_page example_draw s') (\<lambda>s2. if local_pages s2 \<noteq> []
        then (case get_local_page_set s2 of (p, s3) \<Rightarrow> assertR (p \<noteq> 0) (Inr (p, s3))) else Inr (0, s2))"
      "pos_state (mem s' 0x7000) = POS_COOL"
    using split_stale_parent_spec [OF _ _ _ _ _ p _ _ _ _ _ _ _ _ _ _ _ example_drawn_twice] example_inner_ok
    by (auto simp: example_inner_fields)
  with p \<open>swz 0x7000 \<in> set (inner_children sib)\<close> show ?thesis by blast
qed

text \<open>C13: the split of a leaf when the backend has no page left. \<open>alloc\<close> answers Null, nobody asks, and
  the new leaf is written over the reserved first page of the backend, where the next split on
  the exhausted backend overwrites it; the parent gets Null as the address of a child, which no
  state of the invariant has.\<close>

theorem split_exhausted_spec:
  assumes "ps_ok (be s)" "\<not> room (be s) 1"
    and "ptype (mem s c) = BTreeLeaf" "P \<noteq> super_root s" "P \<noteq> c"
    and "ptype (mem s P) = BTreeInner" "inner_ok (mem s P)" "\<not> inner_isFull (mem s P)"
  shows "\<exists>sep l nr s2. leaf_split (mem s c) (mk_BTreeLeaf ga_Null) = (sep, l, nr) \<and>
    split_child E P i c s = bindR (load_child E (ChildSlot P (i + 1)) P (i + 1) s2) (\<lambda>(_, s3). Inr s3) \<and>
    be s2 = (be s)\<lparr>ps_page := (ps_page (be s))(0 := nr)\<rparr> \<and> ga_Null \<in> set (inner_children (mem s2 P)) \<and>
    (P \<in> hot_set s2 \<longrightarrow> \<not> cache_inv E W s2)"
proof -
  obtain sep l nr where sp: "leaf_split (mem s c) (mk_BTreeLeaf ga_Null) = (sep, l, nr)" by (metis prod_cases3)
  have "page.count (mem s P) < max_inner_entries - 1" using assms(7,8) by (auto simp: inner_ok_def inner_isFull_def)
  from inner_insert_parts [OF assms(7) this refl, where k = sep and child = ga_Null] obtain p' where ins: "inner_insert (mem s P) sep ga_Null = Inr p'"
    "ga_Null \<in> set (inner_children p')" "p' = (mem s P)\<lparr>keys := keys p', children := children p', bitmap := bitmap p', count := page.count p', dirty := True\<rparr>"
    by (metis in_set_conv_decomp)
  define s1 where "s1 = set_node c (l\<lparr>dirty := True\<rparr>) (s\<lparr>be := ps_write (be s) ga_Null nr, leaf_num := leaf_num s + 1\<rparr>)"
  define s2 where "s2 = set_node P (p'\<lparr>dirty := True\<rparr>) s1"
  have "split_child E P i c s = bindR (load_child E (ChildSlot P (i + 1)) P (i + 1) s2) (\<lambda>(_, s3). Inr s3)"
    using assms(3-5) ins(1) unfolding split_child_def exhausted_alloc(1) [OF assms(1,2)] prod.case sp Let_def s1_def [symmetric]
    by (simp add: s2_def s1_def)
  moreover have "be s2 = (be s)\<lparr>ps_page := (ps_page (be s))(0 := nr)\<rparr>"
    by (simp add: s2_def s1_def exhausted_alloc(2) [OF assms(1,2)])
  moreover have n: "ga_Null \<in> set (inner_children (mem s2 P))" using ins(2) by (simp add: s2_def inner_children_def)
  moreover have "ptype (mem s2 P) = BTreeInner" using assms(6) arg_cong [OF ins(3), of ptype] by (simp add: s2_def)
  ultimately show ?thesis using sp null_child by blast
qed

theorem split_exhausted_spec_witness:
  "\<exists>sep l nr s2. leaf_split (mem example_pending 0x7000) (mk_BTreeLeaf ga_Null) = (sep, l, nr) \<and>
    split_child example_draw 0x6C00 1 0x7000 (example_pending\<lparr>be := example_store\<lparr>ps_cur := 0x100000\<rparr>\<rparr>) =
      bindR (load_child example_draw (ChildSlot 0x6C00 2) 0x6C00 2 s2) (\<lambda>(_, s3). Inr s3) \<and>
    ps_page (be s2) 0 = nr \<and> ga_Null \<in> set (inner_children (mem s2 0x6C00))"
proof -
  define s where "s = example_pending\<lparr>be := example_store\<lparr>ps_cur := 0x100000\<rparr>\<rparr>"
  have *: "ps_ok (be s)" "\<not> room (be s) 1" "ptype (mem s 0x7000) = BTreeLeaf" "super_root s = 0x9000"
    "mem s 0x6C00 = example_inner" "mem s 0x7000 = mem example_pending 0x7000" "ptype example_inner = BTreeInner" "\<not> inner_isFull example_inner"
    by (simp_all add: s_def example_pending_def example_leaf_def mk_BTreeLeaf_def example_inner_def mk_BTreeInner_def inner_isFull_def
        ps_ok_def room_def example_store_def)
  have "(0x6C00 :: u64) \<noteq> super_root s" "(0x6C00 :: u64) \<noteq> 0x7000" unfolding *(4) by simp_all
  from split_exhausted_spec [OF *(1-3) this, unfolded *(5), OF *(7) example_inner_ok *(8), of example_draw 1] obtain sep l nr s2 where
      "leaf_split (mem s 0x7000) (mk_BTreeLeaf ga_Null) = (sep, l, nr)"
      "split_child example_draw 0x6C00 1 0x7000 s = bindR (load_child example_draw (ChildSlot 0x6C00 (1 + 1)) 0x6C00 (1 + 1) s2) (\<lambda>(_, s3). Inr s3)"
      "be s2 = (be s)\<lparr>ps_page := (ps_page (be s))(0 := nr)\<rparr>" "ga_Null \<in> set (inner_children (mem s2 0x6C00))"
    by blast
  then show ?thesis unfolding s_def [symmetric] *(6) [symmetric] by (intro exI conjI) (simp_all add: numeral_2_eq_2)
qed

end
