(* ===== verification/TreeApi.thy ===== *)
theory TreeApi
  imports TreeInit TreeInsert
begin

text \<open>
  The interface \<open>tree_api\<close> (\<open>include/TreeAPI.h\<close>) as a contract: a representation relation
  between maps and states, and what each operation promises about it. A lookup, an update or a removal
  completes or ends in \<open>exit(0)\<close>, which the sampler calls when a thousand draws found no page to
  evict (\<open>Anyhow\<close>). On a pool that is large enough for the draws (\<open>Live\<close>) they return, for ever.
  With a budget, a number of insertions for which the pool has slots that were never used and the
  backend has pages (\<open>Room\<close>), every command returns, an insertion too, whatever it splits, and only
  insertions use the budget up. What clients can rely on is
  proved once in the locale; the interpretation shows that the modelled tree keeps the contract.
\<close>

subsection \<open>The contract\<close>

text \<open>What a state promises beyond standing for a map; a budget may come with liveness or without.\<close>

datatype promise = Anyhow | Live | Room nat bool

fun spare :: "promise \<Rightarrow> nat" where
  "spare (Room n l) = n"
| "spare _ = 0"

fun after :: "nat \<Rightarrow> promise \<Rightarrow> promise" where
  "after k (Room n l) = Room (n - k) l"
| "after _ p = p"

lemma after_simps: "after 0 p = p" "p \<noteq> Anyhow \<Longrightarrow> after k p \<noteq> Anyhow" "spare (after k p) = spare p - k"
  "after j (after k p) = after (k + j) p"
  by (cases p; simp)+

datatype cmd = Lookup u64 | Update u64 u64 | Remove u64 | is_Insert: Insert u64 u64

definition inserts :: "cmd list \<Rightarrow> nat" where
  "inserts cs = length (filter is_Insert cs)"

datatype reply = RVal "u64 option" | RBool bool

fun spec_cmd :: "cmd \<Rightarrow> (u64 \<rightharpoonup> u64) \<Rightarrow> reply \<times> (u64 \<rightharpoonup> u64)" where
  "spec_cmd (Lookup k) f = (RVal (f k), f)"
| "spec_cmd (Update k v) f = (RBool (f k \<noteq> None), if f k = None then f else f(k \<mapsto> v))"
| "spec_cmd (Remove k) f = (RBool (f k \<noteq> None), f(k := None))"
| "spec_cmd (Insert k v) f = (RBool (f k = None), f(k \<mapsto> v))"

fun spec_run :: "cmd list \<Rightarrow> (u64 \<rightharpoonup> u64) \<Rightarrow> reply list \<times> (u64 \<rightharpoonup> u64)" where
  "spec_run [] f = ([], f)"
| "spec_run (c # cs) f = (case spec_cmd c f of (r, f1) \<Rightarrow> case spec_run cs f1 of (rs, f2) \<Rightarrow> (r # rs, f2))"

type_synonym ('v, 's) op = "'s \<Rightarrow> ('v \<times> 's) res"

fun exec_cmd :: "(u64 \<Rightarrow> (u64 option, 's) op) \<Rightarrow> (u64 \<Rightarrow> u64 \<Rightarrow> (bool, 's) op) \<Rightarrow> (u64 \<Rightarrow> (bool, 's) op) \<Rightarrow>
    (u64 \<Rightarrow> u64 \<Rightarrow> (bool, 's) op) \<Rightarrow> cmd \<Rightarrow> (reply, 's) op" where
  "exec_cmd lk up rm ins (Lookup k) s = bindR (lk k s) (\<lambda>(r, s'). Inr (RVal r, s'))"
| "exec_cmd lk up rm ins (Update k v) s = bindR (up k v s) (\<lambda>(r, s'). Inr (RBool r, s'))"
| "exec_cmd lk up rm ins (Remove k) s = bindR (rm k s) (\<lambda>(r, s'). Inr (RBool r, s'))"
| "exec_cmd lk up rm ins (Insert k v) s = bindR (ins k v s) (\<lambda>(r, s'). Inr (RBool r, s'))"

fun run_cmds :: "(cmd \<Rightarrow> (reply, 's) op) \<Rightarrow> cmd list \<Rightarrow> (reply list, 's) op" where
  "run_cmds ex [] s = Inr ([], s)"
| "run_cmds ex (c # cs) s = bindR (ex c s) (\<lambda>(r, s1). bindR (run_cmds ex cs s1) (\<lambda>(rs, s2). Inr (r # rs, s2)))"

text \<open>An operation returns a given reply in a state of a given class; it completes if it returns
  so or exits.\<close>

definition returns :: "('v \<times> 's) res \<Rightarrow> 'v \<Rightarrow> ('s \<Rightarrow> bool) \<Rightarrow> bool" where
  "returns r v Q \<longleftrightarrow> (\<exists>s'. r = Inr (v, s') \<and> Q s')"

definition completes :: "('v \<times> 's) res \<Rightarrow> 'v \<Rightarrow> ('s \<Rightarrow> bool) \<Rightarrow> bool" where
  "completes r v Q \<longleftrightarrow> r = Inl ExitCall \<or> returns r v Q"

lemma returns_bind:
  assumes "returns r v Q" "\<And>s'. Q s' \<Longrightarrow> returns (g (v, s')) v' Q'"
  shows "returns (bindR r g) v' Q'"
  using assms unfolding returns_def by force

lemma completes_bind:
  assumes "completes r v Q" "\<And>s'. Q s' \<Longrightarrow> completes (g (v, s')) v' Q'"
  shows "completes (bindR r g) v' Q'"
  using assms(1) assms(2) unfolding completes_def returns_def by force

text \<open>In particular for a bind that only wraps the reply.\<close>

lemma returns_reply: "returns r v Q \<Longrightarrow> returns (bindR r (\<lambda>(x, s'). Inr (h x, s'))) (h v) Q"
  and completes_reply: "completes r v Q \<Longrightarrow> completes (bindR r (\<lambda>(x, s'). Inr (h x, s'))) (h v) Q"
  by (auto simp: returns_def completes_def)

lemma completes_Inr [simp]: "completes (Inr (w, s')) v Q \<longleftrightarrow> w = v \<and> Q s'"
  and returns_Inr [simp]: "returns (Inr (w, s')) v Q \<longleftrightarrow> w = v \<and> Q s'"
  by (auto simp: completes_def returns_def)

locale tree_api =
  fixes rep :: "promise \<Rightarrow> (u64 \<rightharpoonup> u64) \<Rightarrow> 's \<Rightarrow> bool"
    and lookup :: "u64 \<Rightarrow> (u64 option, 's) op"
    and update :: "u64 \<Rightarrow> u64 \<Rightarrow> (bool, 's) op"
    and remove :: "u64 \<Rightarrow> (bool, 's) op"
    and insert :: "u64 \<Rightarrow> u64 \<Rightarrow> (bool, 's) op"
  assumes lookup_law: "rep Anyhow f s \<Longrightarrow> completes (lookup k s) (f k) (rep Anyhow f)"
    and update_law: "rep Anyhow f s \<Longrightarrow> completes (update k v s) (f k \<noteq> None) (rep Anyhow (if f k = None then f else f(k \<mapsto> v)))"
    and remove_law: "rep Anyhow f s \<Longrightarrow> completes (remove k s) (f k \<noteq> None) (rep Anyhow (f(k := None)))"
    and lookup_returns: "rep p f s \<Longrightarrow> p \<noteq> Anyhow \<Longrightarrow> returns (lookup k s) (f k) (rep p f)"
    and update_returns: "rep p f s \<Longrightarrow> p \<noteq> Anyhow \<Longrightarrow> returns (update k v s) (f k \<noteq> None) (rep p (if f k = None then f else f(k \<mapsto> v)))"
    and remove_returns: "rep p f s \<Longrightarrow> p \<noteq> Anyhow \<Longrightarrow> returns (remove k s) (f k \<noteq> None) (rep p (f(k := None)))"
    and insert_returns: "rep (Room (Suc n) l) f s \<Longrightarrow> returns (insert k v s) (f k = None) (rep (Room n l) (f(k \<mapsto> v)))"
begin

abbreviation exec :: "cmd \<Rightarrow> (reply, 's) op" where
  "exec \<equiv> exec_cmd lookup update remove insert"

lemma exec_completes:
  "rep Anyhow f s \<Longrightarrow> \<not> is_Insert c \<Longrightarrow> completes (exec c s) (fst (spec_cmd c f)) (rep Anyhow (snd (spec_cmd c f)))"
  by (cases c) (simp_all add: lookup_law [THEN completes_reply] update_law [THEN completes_reply]
      remove_law [THEN completes_reply] del: not_None_eq split del: if_split)

lemma exec_returns:
  "rep p f s \<Longrightarrow> p \<noteq> Anyhow \<Longrightarrow> \<not> is_Insert c \<Longrightarrow> returns (exec c s) (fst (spec_cmd c f)) (rep p (snd (spec_cmd c f)))"
  by (cases c) (simp_all add: lookup_returns [THEN returns_reply] update_returns [THEN returns_reply]
      remove_returns [THEN returns_reply] del: not_None_eq split del: if_split)

lemma exec_insert_returns:
  "rep p f s \<Longrightarrow> 0 < spare p \<Longrightarrow> is_Insert c \<Longrightarrow> returns (exec c s) (fst (spec_cmd c f)) (rep (after 1 p) (snd (spec_cmd c f)))"
  by (cases c; cases p) (simp_all add: gr0_conv_Suc ex_simps, auto intro!: returns_reply insert_returns)

lemma run_completes:
  "rep Anyhow f s \<Longrightarrow> \<forall>c \<in> set cs. \<not> is_Insert c \<Longrightarrow>
    completes (run_cmds exec cs s) (fst (spec_run cs f)) (rep Anyhow (snd (spec_run cs f)))"
proof (induction cs arbitrary: f s)
  case (Cons c cs)
  show ?case
  proof (cases "spec_cmd c f")
    case (Pair r f1)
    have "completes (exec c s) r (rep Anyhow f1)" using exec_completes [OF Cons.prems(1), of c] Cons.prems(2) Pair by simp
    moreover have "completes (bindR (run_cmds exec cs s1) (\<lambda>(rs, s2). Inr (r # rs, s2)))
        (r # fst (spec_run cs f1)) (rep Anyhow (snd (spec_run cs f1)))" if "rep Anyhow f1 s1" for s1
      by (rule completes_bind [OF Cons.IH [OF that]]) (use Cons.prems(2) in simp_all)
    ultimately have "completes (run_cmds exec (c # cs) s) (r # fst (spec_run cs f1)) (rep Anyhow (snd (spec_run cs f1)))"
      unfolding run_cmds.simps by - (rule completes_bind, assumption, simp)
    then show ?thesis using Pair by (simp add: case_prod_beta)
  qed
qed simp

lemma run_returns:
  "rep p f s \<Longrightarrow> p \<noteq> Anyhow \<Longrightarrow> inserts cs \<le> spare p \<Longrightarrow>
    returns (run_cmds exec cs s) (fst (spec_run cs f)) (rep (after (inserts cs) p) (snd (spec_run cs f)))"
proof (induction cs arbitrary: p f s)
  case (Cons c cs)
  define q where "q = after (inserts [c]) p"
  have q: "q \<noteq> Anyhow" "inserts cs \<le> spare q" "after (inserts (c # cs)) p = after (inserts cs) q"
    using Cons.prems(2,3) by (simp_all add: q_def after_simps inserts_def split: if_splits)
  show ?case
  proof (cases "spec_cmd c f")
    case (Pair r f1)
    have "returns (exec c s) r (rep q f1)"
    proof (cases "is_Insert c")
      case True
      then show ?thesis using exec_insert_returns [OF Cons.prems(1), of c] Cons.prems(3) Pair by (simp add: inserts_def q_def)
    next
      case False
      then show ?thesis using exec_returns [OF Cons.prems(1,2), of c] Pair by (simp add: inserts_def q_def after_simps)
    qed
    moreover have "returns (bindR (run_cmds exec cs s1) (\<lambda>(rs, s2). Inr (r # rs, s2)))
        (r # fst (spec_run cs f1)) (rep (after (inserts cs) q) (snd (spec_run cs f1)))" if "rep q f1 s1" for s1
      using Cons.IH [OF that q(1,2)] by (rule returns_bind) simp
    ultimately have "returns (run_cmds exec (c # cs) s) (r # fst (spec_run cs f1)) (rep (after (inserts cs) q) (snd (spec_run cs f1)))"
      unfolding run_cmds.simps by - (rule returns_bind, assumption, simp)
    then show ?thesis using Pair q(3) by (simp add: case_prod_beta)
  qed
qed (simp add: inserts_def after_simps)

end

subsection \<open>The tree keeps the contract\<close>

text \<open>
  Room for \<open>n\<close> more insertions. The potential bounds the number of pages that the tree will have;
  the pool has a slot for each of them, counting the pages that are in it already, and as many more
  as one insertion may take (\<open>insert_slots\<close>), the backend likewise. The third bound keeps the root
  below level 14; it exceeds what 64 bits can address.
\<close>

definition budget :: "nat \<Rightarrow> view \<Rightarrow> 'a tree_st \<Rightarrow> bool" where
  "budget n W s \<longleftrightarrow> (let pages = (page_pot W + n) div 14
     in pages + 47 \<le> unused s + card (hot_set s) \<and>
        unat (ps_cur (be s)) + 1024 * (pages + 16) \<le> unat (ps_capacity (be s)) + 1024 * card (vw_addrs W) \<and>
        level_pot W + n < 28 ^ 14)"

lemma budget_pages:
  assumes "cache_inv E W s" "budget n W s"
  shows "root_level W \<le> 13" "47 \<le> unused s" "room (be s) 16"
proof -
  let ?P = "(page_pot W + n) div 14"
  note r = cache_invD(6) [OF assms(1)]
  note b = assms(2) [unfolded budget_def Let_def]
  show "root_level W \<le> 13"
    using root_level_bound [OF view_ok_root [OF residency_view_ok [OF r]], of 14] b by simp
  have "card (vw_addrs W) \<le> ?P" using page_pot_card [of W] by simp
  then show "47 \<le> unused s" "room (be s) 16" using b hot_card [OF assms(1)] by (simp_all add: room_def)
qed

lemma budget_can_insert:
  assumes "cache_inv E W s" "budget n W s"
  shows "can_insert W s" "insert_slots W \<le> unused s" "root_level W < unused s"
  using budget_pages [OF assms] by (simp_all add: can_insert_def insert_slots_def room_def)

lemma budget_step:
  assumes inv: "cache_inv E W s" and b: "budget (n + d) W s" and t: "tally d W s W' s'"
    and u: "unused s \<le> unused s' + insert_slots W" "ps_capacity (be s') = ps_capacity (be s)"
  shows "budget n W' s'"
proof -
  note p = budget_pages [OF inv b]
  note t = t [unfolded tally_def]
  have "page_pot W' \<le> page_pot W + d" and l: "level_pot W' \<le> level_pot W + d"
    using t growsD fair_weights by blast+
  then have "page_pot W' + n \<le> page_pot W + (n + d)" by simp
  then have P: "(page_pot W' + n) div 14 \<le> (page_pot W + (n + d)) div 14" by (rule div_le_mono)
  have "0 < unused s'" using u(1) p(1,2) by (simp add: insert_slots_def)
  then have h: "unused s + card (hot_set s) \<le> unused s' + card (hot_set s')" using t by (simp add: fills_def)
  show ?thesis using b P h t l u(2) unfolding budget_def Let_def by simp
qed

text \<open>A state of the tree stands for a map: under some view of the store, in which the root takes
  every key, the leaf to which a key is routed holds the value of the key. The driver knows the root
  of that view, and its numbers.\<close>

definition promised :: "env \<Rightarrow> promise \<Rightarrow> view \<Rightarrow> 'a tree_st \<Rightarrow> bool" where
  "promised E p W s = (case p of Anyhow \<Rightarrow> True | Live \<Rightarrow> live E 0 s | Room n l \<Rightarrow> budget n W s \<and> (l \<longrightarrow> live E 0 s))"

lemma promised_simps [simp]:
  "promised E Anyhow W s" "promised E Live W s = live E 0 s"
  "promised E (Room n l) W s \<longleftrightarrow> budget n W s \<and> (l \<longrightarrow> live E 0 s)"
  by (simp_all add: promised_def)

definition tree_rep :: "env \<Rightarrow> promise \<Rightarrow> (u64 \<rightharpoonup> u64) \<Rightarrow> 'a tree_st \<Rightarrow> bool" where
  "tree_rep E p f s \<longleftrightarrow>
     (\<exists>W. cache_inv E W s \<and> super_root s = vw_super W \<and> root_range W \<and> census W s \<and> abs_map W = f \<and> promised E p W s)"

lemma tree_repI:
  "cache_inv E W s \<Longrightarrow> super_root s = vw_super W \<Longrightarrow> root_range W \<Longrightarrow> census W s \<Longrightarrow> promised E p W s \<Longrightarrow> tree_rep E p (abs_map W) s"
  by (auto simp: tree_rep_def)

lemma tree_repE:
  assumes "tree_rep E p f s"
  obtains W where "cache_inv E W s" "super_root s = vw_super W" "root_range W" "abs_map W = f" "promised E p W s" "census W s"
  using assms by (auto simp: tree_rep_def)

lemma tree_rep_Anyhow: "tree_rep E p f s \<Longrightarrow> tree_rep E Anyhow f s"
  and tree_rep_Live: "tree_rep E (Room n True) f s \<Longrightarrow> tree_rep E Live f s"
  by (auto simp: tree_rep_def)

text \<open>An operation that keeps the shape of the view and takes at most one slot per level.\<close>

definition keeps :: "env \<Rightarrow> view \<Rightarrow> 'v \<Rightarrow> (u64 \<rightharpoonup> u64) \<Rightarrow> ('v, 'a tree_st) op \<Rightarrow> 'a tree_st \<Rightarrow> bool" where
  "keeps E W r f' op s \<longleftrightarrow> op s = Inl ExitCall \<and> unused s \<le> root_level W \<and> \<not> live E 0 s \<or>
     (\<exists>W' s'. op s = Inr (r, s') \<and> cache_inv E W' s' \<and> super_root s' = vw_super W' \<and> same_shape W W' \<and>
        spends (Suc (root_level W)) s s' \<and> tally 0 W s W' s' \<and> abs_map W' = f')"

lemma tally_census: "tally d W s W' s' \<Longrightarrow> census W s \<Longrightarrow> census W' s'"
  by (simp add: tally_def)

lemma keeps_completes:
  assumes "keeps E W r f' op s" "root_range W" "census W s"
  shows "completes (op s) r (tree_rep E Anyhow f')"
proof (cases "op s = Inl ExitCall")
  case False
  then obtain W' s' where "op s = Inr (r, s')" "cache_inv E W' s'" "super_root s' = vw_super W'" "same_shape W W'" "abs_map W' = f'"
      "tally 0 W s W' s'"
    using assms(1) by (auto simp: keeps_def)
  moreover from this have "census W' s'" using tally_census assms(3) by blast
  ultimately show ?thesis using tree_repI [of E W' s' Anyhow] same_shape_root assms(2) by auto
qed (simp add: completes_def)

lemma keeps_returns:
  assumes inv: "cache_inv E W s" and k: "keeps E W r f' op s" and rr: "root_range W" "census W s" and p: "promised E p W s" "p \<noteq> Anyhow"
  shows "returns (op s) r (tree_rep E p f')"
proof -
  have "\<not> (unused s \<le> root_level W \<and> \<not> live E 0 s)"
    using p budget_can_insert(3) [OF inv] by (cases p) force+
  then obtain W' s' where k: "op s = Inr (r, s')" "cache_inv E W' s'" "super_root s' = vw_super W'" "same_shape W W'" "abs_map W' = f'"
    "spends (Suc (root_level W)) s s'" "tally 0 W s W' s'"
    using k by (auto simp: keeps_def)
  have "budget n W' s'" if "budget n W s" for n
    by (rule budget_step [OF inv _ k(7)]) (use that k(6) in \<open>simp_all add: spends_def uses_def insert_slots_def\<close>)
  then have "promised E p W' s'" using p tally_live [OF k(7)] by (cases p) simp_all
  then show ?thesis using k(1,5) tree_repI [OF k(2,3)] same_shape_root [OF k(4)] tally_census [OF k(7)] rr by auto
qed

lemma tree_keeps:
  assumes "cache_inv E W s" "super_root s = vw_super W"
  shows "keeps E W (abs_map W k) (abs_map W) (tree_lookup E k) s"
    "keeps E W (abs_map W k \<noteq> None) (if abs_map W k = None then abs_map W else (abs_map W)(k \<mapsto> v)) (tree_update E k v) s"
    "keeps E W (abs_map W k \<noteq> None) ((abs_map W)(k := None)) (tree_remove E k) s"
  unfolding keeps_def
  subgoal using tree_lookup_correct [OF assms, of k] same_shape_refl [of W] tally_same [of _ s _ 0 W] by blast
  subgoal using tree_update_correct [OF assms, of k v] by (elim disjE exE conjE) (intro disjI1 conjI, assumption+, intro disjI2 exI conjI, assumption+)
  subgoal using tree_remove_correct [OF assms, of k] by (elim disjE exE conjE) (intro disjI1 conjI, assumption+, intro disjI2 exI conjI, assumption+)
  done

lemma tree_insert_returns:
  assumes "tree_rep E (Room (Suc n) l) f s"
  shows "returns (tree_insert E k v s) (f k = None) (tree_rep E (Room n l) (f(k \<mapsto> v)))"
proof -
  from assms obtain W where W: "cache_inv E W s" "super_root s = vw_super W" "root_range W" "abs_map W = f" "budget (Suc n) W s" "l \<longrightarrow> live E 0 s" "census W s"
    by (auto elim: tree_repE)
  note c = budget_can_insert [OF W(1,5)]
  from tree_insert_correct [OF W(1-3) c(1), of k v] c(2) obtain W' s' where r: "tree_insert E k v s = Inr (abs_map W k = None, s')"
    "cache_inv E W' s'" "super_root s' = vw_super W'" "root_range W'" "abs_map W' = (abs_map W)(k \<mapsto> v)"
    "costs (insert_slots W) (root_level W + 3) s s'" "tally 1 W s W' s'" by auto
  have "budget n W' s'" by (rule budget_step [OF W(1) _ r(7)]) (use W(5) r(6) in \<open>simp_all add: costs_def\<close>)
  then show ?thesis using r(1,5) tree_repI [OF r(2-4), of "Room n l"] W(4,6,7) tally_live [OF r(7)] tally_census [OF r(7)] by simp
qed

interpretation tree: tree_api "tree_rep E" "tree_lookup E" "tree_update E" "tree_remove E" "tree_insert E" for E
proof
  fix f n l k v p and s :: "'a tree_st"
  {
    assume "tree_rep E Anyhow f s"
    then obtain W where W: "cache_inv E W s" "super_root s = vw_super W" "root_range W" "abs_map W = f" "census W s" by (rule tree_repE)
    note c = tree_keeps [OF W(1,2), THEN keeps_completes, OF W(3,5), unfolded W(4)]
    show "completes (tree_lookup E k s) (f k) (tree_rep E Anyhow f)" by (rule c(1))
    show "completes (tree_update E k v s) (f k \<noteq> None) (tree_rep E Anyhow (if f k = None then f else f(k \<mapsto> v)))" by (rule c(2))
    show "completes (tree_remove E k s) (f k \<noteq> None) (tree_rep E Anyhow (f(k := None)))" by (rule c(3))
  next
    assume r: "tree_rep E p f s" "p \<noteq> Anyhow"
    then obtain W where W: "cache_inv E W s" "super_root s = vw_super W" "root_range W" "abs_map W = f" "promised E p W s" "census W s"
      by (auto elim: tree_repE)
    note c = tree_keeps [OF W(1,2), THEN keeps_returns [OF W(1)], OF W(3,6,5) r(2), unfolded W(4)]
    show "returns (tree_lookup E k s) (f k) (tree_rep E p f)" by (rule c(1))
    show "returns (tree_update E k v s) (f k \<noteq> None) (tree_rep E p (if f k = None then f else f(k \<mapsto> v)))" by (rule c(2))
    show "returns (tree_remove E k s) (f k \<noteq> None) (tree_rep E p (f(k := None)))" by (rule c(3))
  next
    assume "tree_rep E (Room (Suc n) l) f s"
    then show "returns (tree_insert E k v s) (f k = None) (tree_rep E (Room n l) (f(k \<mapsto> v)))" by (rule tree_insert_returns)
  }
qed

subsection \<open>What the numbers tell\<close>

lemma leaves_hold:
  assumes ok: "view_ok W" "root_range W"
  shows "card (dom (abs_map W)) \<le> max_leaf_entries * card (leaves W)"
proof -
  let ?K = "\<lambda>g. fst ` set (ventries (vw_nodes W g))"
  have "dom (abs_map W) \<subseteq> (\<Union>g \<in> leaves W. ?K g)"
  proof
    fix k
    assume "k \<in> dom (abs_map W)"
    then obtain v where "abs_map W k = Some v" by blast
    then have "(k, v) \<in> set (ventries (vw_nodes W (vleaf W k)))" by (cases "vw_nodes W (vleaf W k)") (auto simp: abs_map_def dest: map_of_SomeD)
    then have "k \<in> ?K (vleaf W k)" by force
    moreover have "vleaf W k \<in> leaves W" using vleaf_range(1,2) [OF ok, of k] by (simp add: leaves_def)
    ultimately show "k \<in> (\<Union>g \<in> leaves W. ?K g)" by blast
  qed
  then have "card (dom (abs_map W)) \<le> card (\<Union>g \<in> leaves W. ?K g)" by (intro card_mono) simp_all
  also have "\<dots> \<le> (\<Sum>g \<in> leaves W. card (?K g))" by (rule card_UN_le) simp
  also have "\<dots> \<le> (\<Sum>g \<in> leaves W. max_leaf_entries)"
  proof (rule sum_mono)
    fix g
    assume "g \<in> leaves W"
    then have "node_ok (vw_nodes W g)" "vlevel (vw_nodes W g) = 0" using ok(1) by (simp_all add: view_ok_def leaves_def)
    then have "length (ventries (vw_nodes W g)) \<le> max_leaf_entries" by (cases "vw_nodes W g") auto
    then show "card (?K g) \<le> max_leaf_entries" using card_image_le [of "set (ventries (vw_nodes W g))" fst] card_length [of "ventries (vw_nodes W g)"]
      by simp
  qed
  finally show ?thesis by (simp add: mult.commute)
qed

lemma allocated_card:
  assumes "A \<subseteq> ps_allocated b"
  shows "1024 * card A \<le> unat (ps_cur b)"
proof -
  let ?n = "\<lambda>g. unat (offset g) div 1024"
  have "inj_on ?n A"
  proof (rule inj_onI)
    fix g h
    assume gh: "g \<in> A" "h \<in> A" "?n g = ?n h"
    have "g \<in> ps_allocated b" "h \<in> ps_allocated b" using gh(1,2) assms by blast+
    then have d: "1024 dvd unat (offset g)" "1024 dvd unat (offset h)" "nodeID g = nodeID h" by (simp_all add: ps_allocated_def)
    have "unat (offset g) = ?n g * 1024" by (rule dvd_div_mult_self [OF d(1), symmetric])
    also have "\<dots> = unat (offset h)" unfolding gh(3) by (rule dvd_div_mult_self [OF d(2)])
    finally have "offset g = offset h" by (simp only: word_unat_eq_iff)
    then show "g = h" by (rule nodeID_offset_inject [OF d(3)])
  qed
  moreover have "?n ` A \<subseteq> {..<unat (ps_cur b) div 1024}"
  proof (rule image_subsetI)
    fix g
    assume "g \<in> A"
    then have "g \<in> ps_allocated b" using assms by blast
    then have "unat (offset g) + 1024 \<le> unat (ps_cur b)" by (simp add: ps_allocated_def)
    then have "(unat (offset g) + 1024) div 1024 \<le> unat (ps_cur b) div 1024" by (rule div_le_mono)
    then show "?n g \<in> {..<unat (ps_cur b) div 1024}" by simp
  qed
  ultimately have "card A \<le> unat (ps_cur b) div 1024" using card_inj_on_le [of ?n A] by (metis card_lessThan finite_lessThan)
  then show ?thesis by simp
qed

lemma statistic_bounds:
  assumes "tree_rep E (Room n l) f s"
  shows "height s \<le> 14" "card (dom f) \<le> max_leaf_entries * leaf_num s" "1024 * (leaf_num s + inner_num s) \<le> unat (ps_cur (be s))"
proof -
  obtain W where W: "cache_inv E W s" "root_range W" "abs_map W = f" "budget n W s" "census W s"
    using assms by (auto elim: tree_repE)
  note r = cache_invD(6) [OF W(1)]
  note c = W(5) [unfolded census_def]
  show "height s \<le> 14" using budget_pages(1) [OF W(1,4)] c by simp
  show "card (dom f) \<le> max_leaf_entries * leaf_num s" using leaves_hold [OF residency_view_ok [OF r] W(2)] W(3) c by simp
  show "1024 * (leaf_num s + inner_num s) \<le> unat (ps_cur (be s))" using allocated_card [OF residencyD(3) [OF r]] c by simp
qed

subsection \<open>A tree from the constructors\<close>

lemma fresh_budget:
  assumes "cache_inv E (fresh_view root sr) t" "super_root t = sr" "k div 14 + 48 \<le> unused t" "room (be t) (k div 14 + 16)" "k + 1 < 28 ^ 14"
    "l \<longrightarrow> live E 0 t" "census (fresh_view root sr) t"
  shows "tree_rep E (Room k l) Map.empty t"
proof -
  have "budget k (fresh_view root sr) t"
    using assms(3-5) div_add_self1 [of 14 k] by (simp add: budget_def room_def potential_def weight_def Let_def)
  then show ?thesis using tree_repI [OF assms(1), of "Room k l"] assms(2,6,7) by (simp add: root_range_def)
qed

lemma constructed_tree:
  assumes reg: "pool_region mm cap n" and sr: "sr \<noteq> 0" "\<And>i. i < cap \<Longrightarrow> sr \<noteq> mm + i * PAGE_SIZE"
    and b: "ps_ok b" "room b (k div 14 + 17)" and k: "k div 14 + 49 \<le> unat cap"
  shows "\<exists>c t. mk_CacheManager mm None m [] b cap n adm bmin bmax = Some c \<and> mk_LeanStoreTree E sr c = Inr t \<and>
    tree_rep E (Room k (big_pool E cap n)) Map.empty t"
proof -
  obtain root b1 where al: "ps_alloc b = (root, b1)" "root \<noteq> ga_Null" "unat (ps_cur b1) = unat (ps_cur b) + 1024"
    using alloc_room [OF b(1), of "k div 14 + 16"] b(2) by (metis add_Suc_right eval_nat_numeral(3))
  obtain c where c: "mk_CacheManager mm None m [] b cap n adm bmin bmax = Some c"
    by (simp add: mk_CacheManager_def alloc_initialize_def alloc_fresh_ok(1) [OF reg])
  have "sr \<notin> set (pool_slots \<lparr>base_address = mm, alloc_unit = PAGE_SIZE, page_num = cap, head_idx = 0\<rparr>)"
    using sr(2) by (auto simp: pool_slots_iff slot_addr_def)
  from mk_tree_correct [OF reg c sr(1) this b(1) al(1,2)] obtain t where
    t: "mk_LeanStoreTree E sr c = Inr t" "cache_inv E (fresh_view root sr) t" "super_root t = sr" "unat cap \<le> unused t + 1"
      "ps_cur (be t) = ps_cur b1" "ps_capacity (be t) = ps_capacity b"
      "big_pool E cap n \<longrightarrow> live E 0 t" "census (fresh_view root sr) t" by blast
  have "unat cap < 2 ^ 32" using reg by (simp add: pool_region_def)
  then have "k + 1 < 28 ^ 14" using k by simp
  moreover have "k div 14 + 48 \<le> unused t" using k t(4) by simp
  ultimately have "tree_rep E (Room k (big_pool E cap n)) Map.empty t"
    using b(2) al(3) t(5-8) by (intro fresh_budget [OF t(2,3)]) (simp_all add: room_def)
  with c t(1) show ?thesis by blast
qed

lemma example_tree_rep:
  "tree_rep example_env Anyhow Map.empty example_tree" "tree_rep example_env (Room 200 True) Map.empty example_tree"
  "tree_rep example_env Live Map.empty example_tree"
proof -
  show r: "tree_rep example_env (Room 200 True) Map.empty example_tree"
    by (rule fresh_budget [OF example_tree_inv(2,3)]; use example_tree_inv(4-8) in \<open>simp add: room_def\<close>)
  show "tree_rep example_env Anyhow Map.empty example_tree" by (rule tree_rep_Anyhow [OF r])
  show "tree_rep example_env Live Map.empty example_tree" by (rule tree_rep_Live [OF r])
qed

lemma example_super_root:
  assumes "i < 512"
  shows "(0x9000 :: u64) \<noteq> 0x100000 + i * PAGE_SIZE"
proof
  assume "(0x9000 :: u64) = 0x100000 + i * PAGE_SIZE"
  then have "unat (0x9000 :: u64) = unat (0x100000 + i * PAGE_SIZE)" by (rule arg_cong)
  also have "\<dots> = unat (0x100000 :: u64) + unat i * 1024" by (rule region_slot [OF example_region assms])
  finally show False by simp
qed

subsection \<open>Properties\<close>

text \<open>C4: the constructors. On a fresh pool and a backend with room they end, exit and spin
  excluded, in a tree that stands for the empty map, with a budget of \<open>k\<close> insertions if the pool has
  \<open>k / 14 + 49\<close> slots and the backend \<open>k / 14 + 17\<close> free pages; it is live if the pool is large for
  its cool tier and its draws.\<close>

theorem tree_init_spec:
  assumes "pool_region mm cap n" "sr \<noteq> 0" "\<And>i. i < cap \<Longrightarrow> sr \<noteq> mm + i * PAGE_SIZE"
    "ps_ok b" "room b (k div 14 + 17)" "k div 14 + 49 \<le> unat cap"
  shows "\<exists>c t. mk_CacheManager mm None m [] b cap n adm bmin bmax = Some c \<and> mk_LeanStoreTree E sr c = Inr t \<and>
    tree_rep E (Room k (big_pool E cap n)) Map.empty t"
  using assms by (rule constructed_tree)

theorem tree_init_spec_witness:
  "\<exists>c t. mk_CacheManager 0x100000 None (\<lambda>_. zero_page) [] example_store 512 2 0 0 0 = Some c \<and>
    mk_LeanStoreTree example_env 0x9000 c = Inr t \<and> tree_rep example_env (Room 200 (big_pool example_env 512 2)) Map.empty t"
  by (rule tree_init_spec [OF example_region _ example_super_root])
    (simp_all add: example_store_alloc room_def, simp_all add: example_store_def)

text \<open>C1: within the budget of the pool and the backend, any sequence of \<open>n\<close> insertions and of any
  number of lookups, updates and removals returns: no exit, no failed assertion, no endless loop,
  whatever is split and whatever moves between the pool and the backend. It answers as the map that
  the tree stands for does and leaves a tree that stands for the resulting map, with the rest of
  the budget, and live if it was.\<close>

theorem tree_run_returns_spec:
  assumes "tree_rep E (Room n l) f s" "inserts cs \<le> n"
  shows "returns (run_cmds (exec_cmd (tree_lookup E) (tree_update E) (tree_remove E) (tree_insert E)) cs s)
     (fst (spec_run cs f)) (tree_rep E (Room (n - inserts cs) l) (snd (spec_run cs f)))"
  using tree.run_returns [OF assms(1)] assms(2) by simp

theorem tree_run_returns_spec_witness:
  "returns (run_cmds (exec_cmd (tree_lookup example_env) (tree_update example_env) (tree_remove example_env) (tree_insert example_env))
      [Insert 5 50, Lookup 5, Remove 6] example_tree)
    [RBool True, RVal (Some 50), RBool False] (tree_rep example_env (Room 199 True) [5 \<mapsto> 50])"
  using tree_run_returns_spec [OF example_tree_rep(2), of "[Insert 5 50, Lookup 5, Remove 6]"] by (simp add: fun_upd_idem inserts_def)

text \<open>C2: without any budget, any sequence of lookups, updates and removals answers as the map
  that the tree stands for does, and leaves a tree that stands for the resulting map, however pages
  move between the pool, the cool tier and the backend on the way; the only other outcome is the
  sampler's \<open>exit(0)\<close>. No assertion fails and no loop runs for ever.\<close>

theorem tree_run_spec:
  assumes "tree_rep E Anyhow f s" "\<forall>c \<in> set cs. \<not> is_Insert c"
  shows "completes (run_cmds (exec_cmd (tree_lookup E) (tree_update E) (tree_remove E) (tree_insert E)) cs s)
     (fst (spec_run cs f)) (tree_rep E Anyhow (snd (spec_run cs f)))"
  using assms by (rule tree.run_completes)

theorem tree_run_spec_witness:
  "completes (run_cmds (exec_cmd (tree_lookup example_env) (tree_update example_env) (tree_remove example_env) (tree_insert example_env))
      [Lookup 5, Update 5 50, Remove 5] example_tree)
    [RVal None, RBool False, RBool False] (tree_rep example_env Anyhow Map.empty)"
  using tree_run_spec [OF example_tree_rep(1), of "[Lookup 5, Update 5 50, Remove 5]"] by (simp add: fun_upd_idem)

text \<open>C5: a single insertion, also on a pool with no slot left as long as no inner page is full, so
  that no inner page has to be split: it reports whether the key was absent and stores the value,
  or ends in \<open>exit(0)\<close> in the sampler. On a live tree it returns, and leaves it live.\<close>

definition insertable :: "env \<Rightarrow> promise \<Rightarrow> (u64 \<rightharpoonup> u64) \<Rightarrow> 'a tree_st \<Rightarrow> bool" where
  "insertable E p f s \<longleftrightarrow> (\<exists>W. cache_inv E W s \<and> super_root s = vw_super W \<and> root_range W \<and> census W s \<and> abs_map W = f \<and>
     promised E p W s \<and> can_insert W s)"

theorem tree_insert_spec:
  assumes "insertable E p f s" "p \<in> {Anyhow, Live}"
  shows "(if p = Live then returns else completes) (tree_insert E k v s) (f k = None) (tree_rep E p (f(k \<mapsto> v)))"
proof -
  from assms obtain W where W: "cache_inv E W s" "super_root s = vw_super W" "root_range W" "abs_map W = f" "can_insert W s" "promised E p W s" "census W s"
    unfolding insertable_def by blast
  from tree_insert_correct [OF W(1-3,5), of k v, unfolded W(4)] consider
    "tree_insert E k v s = Inl ExitCall" "\<not> live E 0 s"
    | W' s' where "tree_insert E k v s = Inr (f k = None, s')" "cache_inv E W' s'" "super_root s' = vw_super W'" "root_range W'"
      "abs_map W' = f(k \<mapsto> v)" "tally 1 W s W' s'" by blast
  then show ?thesis
  proof cases
    case 1
    then show ?thesis using W(6) assms(2) by (auto simp: completes_def)
  next
    case 2
    then have "tree_rep E p (f(k \<mapsto> v)) s'" using tree_repI [OF 2(2-4), of p] tally_live [OF 2(6), of E] tally_census [OF 2(6)] W(6,7) assms(2) by auto
    then show ?thesis using 2(1) by auto
  qed
qed

theorem tree_insert_spec_witness:
  "returns (tree_insert example_env 5 50 example_tree) True (tree_rep example_env Live [5 \<mapsto> 50])"
proof -
  have "can_insert (fresh_view example_root 0x9000) example_tree"
    using example_tree_inv(4-6) by (simp add: can_insert_def room_def insert_slots_def)
  then have "insertable example_env Live Map.empty example_tree"
    using example_tree_inv(2,3,7,8) unfolding insertable_def
    by (intro exI [of _ "fresh_view example_root 0x9000"]) (simp add: root_range_def)
  from tree_insert_spec [OF this, of 5 50] show ?thesis by simp
qed

text \<open>C6: the whole program, from the constructors to the last reply: a sequence of commands with
  \<open>k\<close> insertions and any number of other commands, over a pool of \<open>k / 14 + 49\<close> slots and a backend
  with \<open>k / 14 + 17\<close> free pages, returns what a map that starts empty returns. The statistic that it
  ends with shows a height of at most 14, leaves enough for the entries of the map, and no
  more nodes than the backend has handed out pages.\<close>

theorem tree_program_spec:
  assumes "pool_region mm cap n" "sr \<noteq> 0" "\<And>i. i < cap \<Longrightarrow> sr \<noteq> mm + i * PAGE_SIZE"
    "ps_ok b" "room b (inserts cs div 14 + 17)" "inserts cs div 14 + 49 \<le> unat cap"
  shows "\<exists>c t s' h l i d. mk_CacheManager mm None m [] b cap n adm bmin bmax = Some c \<and> mk_LeanStoreTree E sr c = Inr t \<and>
    run_cmds (exec_cmd (tree_lookup E) (tree_update E) (tree_remove E) (tree_insert E)) cs t = Inr (fst (spec_run cs Map.empty), s') \<and>
    get_statistic s' = (h, l, i, d) \<and> h \<le> 14 \<and> card (dom (snd (spec_run cs Map.empty))) \<le> 59 * l \<and> 1024 * (l + i) \<le> unat (ps_cur (be s'))"
proof -
  from constructed_tree [OF assms] obtain c t where c: "mk_CacheManager mm None m [] b cap n adm bmin bmax = Some c"
    "mk_LeanStoreTree E sr c = Inr t" "tree_rep E (Room (inserts cs) (big_pool E cap n)) Map.empty t" by blast
  from tree.run_returns [OF c(3), of cs] obtain s' where
    s': "run_cmds (exec_cmd (tree_lookup E) (tree_update E) (tree_remove E) (tree_insert E)) cs t = Inr (fst (spec_run cs Map.empty), s')"
    "tree_rep E (Room 0 (big_pool E cap n)) (snd (spec_run cs Map.empty)) s'" unfolding returns_def by auto
  show ?thesis
    using c(1,2) s'(1) statistic_bounds [OF s'(2)] by (simp add: get_statistic_def max_leaf_entries_def)
qed

theorem tree_program_spec_witness:
  "\<exists>c t s' h l i d. mk_CacheManager 0x100000 None (\<lambda>_. zero_page) [] example_store 512 2 0 0 0 = Some c \<and>
    mk_LeanStoreTree example_env 0x9000 c = Inr t \<and>
    run_cmds (exec_cmd (tree_lookup example_env) (tree_update example_env) (tree_remove example_env) (tree_insert example_env))
      [Insert 5 50, Insert 5 51, Lookup 5] t = Inr ([RBool True, RBool False, RVal (Some 51)], s') \<and>
    get_statistic s' = (h, l, i, d) \<and> h \<le> 14 \<and> 1 \<le> l"
proof -
  let ?cs = "[Insert 5 50, Insert 5 51, Lookup 5]"
  have "ps_ok example_store" "room example_store (inserts ?cs div 14 + 17)"
    by (simp_all add: example_store_alloc room_def inserts_def, simp_all add: example_store_def)
  from tree_program_spec [OF example_region _ example_super_root this, of "\<lambda>_. zero_page" 0 0 0 example_env]
  show ?thesis by (fastforce simp: inserts_def)
qed

text \<open>What \<open>range_scan\<close> may return on a map: nothing from an absent key; from a present key entries
  of the map, in key order and without gaps, the one of the key first, at most \<open>num\<close> and never
  more than one leaf holds.\<close>

definition scan_result :: "(u64 \<rightharpoonup> u64) \<Rightarrow> u64 \<Rightarrow> nat \<Rightarrow> (u64 \<times> u64) list \<Rightarrow> bool" where
  "scan_result f k num kvs \<longleftrightarrow> (f k = None \<longrightarrow> kvs = []) \<and>
      (\<forall>v. f k = Some v \<longrightarrow> 0 < num \<longrightarrow> kvs \<noteq> [] \<and> hd kvs = (k, v)) \<and>
      length kvs \<le> min num max_leaf_entries \<and> sorted_keys (map fst kvs) \<and>
      (\<forall>e \<in> set kvs. k \<le> fst e \<and> f (fst e) = Some (snd e)) \<and>
      (\<forall>j. kvs \<noteq> [] \<longrightarrow> k \<le> j \<longrightarrow> j \<le> fst (last kvs) \<longrightarrow> f j \<noteq> None \<longrightarrow> j \<in> fst ` set kvs)"

lemma scan_result_view:
  fixes num :: nat
  assumes ok: "view_ok W" "root_range W"
  shows "scan_result (abs_map W) k num (if abs_map W k = None then []
    else take num (filter (\<lambda>e. k \<le> fst e) (ventries (vw_nodes W (vleaf W k)))))"
proof (cases "abs_map W k")
  case (Some v)
  note S = scan_entries [where num = num, OF ok Some]
  let ?kvs = "take num (filter (\<lambda>e. k \<le> fst e) (ventries (vw_nodes W (vleaf W k))))"
  have "\<forall>w. abs_map W k = Some w \<longrightarrow> 0 < num \<longrightarrow> ?kvs \<noteq> [] \<and> hd ?kvs = (k, w)" using S(4) Some by simp
  moreover have "\<forall>e \<in> set ?kvs. k \<le> fst e \<and> abs_map W (fst e) = Some (snd e)" using S(3) by blast
  moreover have "\<forall>j. ?kvs \<noteq> [] \<longrightarrow> k \<le> j \<longrightarrow> j \<le> fst (last ?kvs) \<longrightarrow> abs_map W j \<noteq> None \<longrightarrow> j \<in> fst ` set ?kvs"
    by (intro allI impI) (rule S(5))
  moreover have "abs_map W k \<noteq> None" using Some by simp
  ultimately show ?thesis using S(1,2) unfolding scan_result_def by (intro conjI) (simp_all only: if_False simp_thms)
qed (simp add: scan_result_def)

text \<open>C8: \<open>range_scan\<close> answers on the tree as \<open>scan_result\<close> says of the map, and changes
  nothing of it.\<close>

theorem tree_range_scan_spec:
  assumes "tree_rep E Anyhow f s"
  shows "\<exists>kvs. scan_result f k num kvs \<and> completes (tree_range_scan E k num s) kvs (tree_rep E Anyhow f)"
proof -
  from assms obtain W where W: "cache_inv E W s" "super_root s = vw_super W" "root_range W" "abs_map W = f" "census W s" by (rule tree_repE)
  have ok: "view_ok W" by (rule residency_view_ok [OF cache_invD(6) [OF W(1)]])
  have rep: "tree_rep E Anyhow f s'" if "cache_inv E W s'" "super_root s' = vw_super W" "spends (Suc (root_level W)) s s'" for s' :: "'a tree_st"
    using tree_repI [OF that(1,2) W(3), of Anyhow] census_more [of s' s W] that(3) W(4,5) by (simp add: spends_def)
  note kvs = scan_result_view [where num = num and k = k, OF ok W(3), unfolded W(4)]
  from tree_range_scan_correct [OF W(1,2), of k num, unfolded W(4)] rep
  have "completes (tree_range_scan E k num s) (if f k = None then []
    else take num (filter (\<lambda>e. k \<le> fst e) (ventries (vw_nodes W (vleaf W k))))) (tree_rep E Anyhow f)"
    unfolding completes_def returns_def by blast
  with kvs show ?thesis by blast
qed

theorem tree_range_scan_spec_witness:
  "\<exists>kvs. scan_result Map.empty 5 10 kvs \<and>
    completes (tree_range_scan example_env 5 10 example_tree) kvs (tree_rep example_env Anyhow Map.empty)"
  by (rule tree_range_scan_spec [OF example_tree_rep(1)])

end
