(* ===== verification/TreeShape.thy ===== *)
theory TreeShape
  imports TreeApi
begin

text \<open>
  What a pointer points to. A page that is in use in the pool has the layout that its type tag says, and each of its
  child slots refers to a page of the right kind: by a pool pointer to a page that is in use, or by a
  backend address to a page image, in either case one level below and with the limits that the
  parent assigns. The casts of the driver (\<open>static_cast<BTreeLeaf<K, V> *>\<close>,
  \<open>static_cast<BTreeInner<K> *>\<close>) are right because of this.
\<close>

subsection \<open>Typing\<close>

definition child_fits :: "page \<Rightarrow> nat \<Rightarrow> page \<Rightarrow> bool" where
  "child_fits p i q \<longleftrightarrow> page_ok q \<and> (ptype q = BTreeLeaf \<longleftrightarrow> level p = 1) \<and> level q + 1 = level p \<and>
     min_limit q = child_min p i \<and> max_limit q = child_max p i"

definition typed_child :: "'a tree_st \<Rightarrow> u64 \<Rightarrow> nat \<Rightarrow> bool" where
  "typed_child s a i \<longleftrightarrow>
     (let p = mem s a; v = children p ! i
      in if swizzled v then hide v \<in> hot_set s \<and> parent_ptr (mem s (hide v)) = a \<and> child_fits p i (mem s (hide v))
         else v \<in> ps_allocated (be s) \<and> (\<forall>b \<in> hot_set s. remote_address (mem s b) \<noteq> v) \<and>
              remote_address (ps_page (be s) (offset v)) = v \<and> child_fits p i (ps_page (be s) (offset v)))"

definition typed_page :: "env \<Rightarrow> 'a tree_st \<Rightarrow> u64 \<Rightarrow> bool" where
  "typed_page E s a \<longleftrightarrow>
     (let p = mem s a
      in page_ok p \<and> (ptype p = BTreeLeaf \<longleftrightarrow> level p = 0) \<and> get_with_bucket (hash_of E) (pt s) (remote_address p) = a \<and>
         (ptype p = BTreeInner \<longrightarrow> (\<forall>i \<le> page.count p. typed_child s a i)))"

text \<open>A page of which a logical node is the image has the level and the limits of the node.\<close>

lemma node_of_header:
  assumes "page_ok q" "node_of m q = n"
  shows "vlevel n = level q" "vlo n = min_limit q" "vhi n = max_limit q"
  using assms by (auto simp: node_of_def page_ok_def split: if_splits)

lemma page_ok_leaf_level: "page_ok q \<Longrightarrow> ptype q = BTreeLeaf \<longleftrightarrow> level q = 0"
  by (auto simp: page_ok_def split: if_splits)

lemma fits_node:
  assumes "page_ok q" "node_of m q = n" "vlevel n + 1 = level p" "vlo n = child_min p i" "vhi n = child_max p i"
  shows "child_fits p i q"
  using node_of_header [OF assms(1,2)] page_ok_leaf_level [OF assms(1)] assms by (auto simp: child_fits_def)

lemma child_typed:
  assumes inv: "cache_inv E W s" and a: "a \<in> hot_set s" "ptype (mem s a) = BTreeInner" "i \<le> page.count (mem s a)"
  shows "typed_child s a i"
proof -
  note r = cache_invD(6) [OF inv]
  note D = residencyD [OF r]
  let ?v = "children (mem s a) ! i"
  note kid = resident_kid [OF r a]
  have slot: "slot_ok (mem s) (hot_set s) a ?v" by (rule D(15) [OF a])
  show ?thesis
  proof (cases "swizzled ?v")
    case True
    then have h: "hide ?v \<in> hot_set s" "parent_ptr (mem s (hide ?v)) = a" using slot by (simp_all add: slot_ok_def)
    have u: "unswz (mem s) ?v = remote_address (mem s (hide ?v))" using True by (simp add: unswz_def)
    have "child_fits (mem s a) i (mem s (hide ?v))"
      by (rule fits_node [OF D(10) [OF h(1)] D(12) [OF h(1)]]) (use kid u in simp_all)
    then show ?thesis using True h by (simp add: typed_child_def Let_def)
  next
    case False
    then have n: "\<forall>b \<in> hot_set s. remote_address (mem s b) \<noteq> ?v" and u: "unswz (mem s) ?v = ?v"
      using slot by (simp_all add: slot_ok_def unswz_def)
    have "?v \<in> vw_addrs W" using kid(1) unfolding u .
    then have "at_rest (vw_nodes W) (be s) ?v" "?v \<in> ps_allocated (be s)" using D(16) [of ?v] D(3) n by blast+
    moreover from this(1) have q: "page_ok (ps_page (be s) (offset ?v))" "remote_address (ps_page (be s) (offset ?v)) = ?v"
      "node_of (\<lambda>_. zero_page) (ps_page (be s) (offset ?v)) = vw_nodes W ?v" by (simp_all add: at_rest_def Let_def)
    moreover have "child_fits (mem s a) i (ps_page (be s) (offset ?v))"
      by (rule fits_node [OF q(1,3)]) (use kid u in simp_all)
    ultimately show ?thesis using False n by (simp add: typed_child_def Let_def)
  qed
qed

lemma pool_typed:
  assumes "cache_inv E W s" "a \<in> hot_set s"
  shows "typed_page E s a"
  using residencyD(10) [OF cache_invD(6) [OF assms(1)] assms(2)] cache_invD(7) [OF assms] child_typed [OF assms]
  by (simp add: typed_page_def page_ok_leaf_level Let_def)

subsection \<open>Properties\<close>

text \<open>C3: type safety. Within the budget any sequence of commands on a tree that stands for a map ends in a
  state, and there every page in use in the pool is well formed under its type tag, is found by the page table
  under its address, and, if it is an inner page, has only child slots that refer to a page, in the
  pool or at rest in the backend, one level below and with the limits of that slot.\<close>

theorem tree_typed_spec:
  assumes "tree_rep E (Room n l) f s" "inserts cs \<le> n"
  shows "\<exists>rs s'. run_cmds (exec_cmd (tree_lookup E) (tree_update E) (tree_remove E) (tree_insert E)) cs s = Inr (rs, s') \<and>
    (\<forall>a \<in> hot_set s'. typed_page E s' a)"
proof -
  from tree.run_returns [OF assms(1), of cs] assms(2) obtain rs s' p f' where
    s': "run_cmds (exec_cmd (tree_lookup E) (tree_update E) (tree_remove E) (tree_insert E)) cs s = Inr (rs, s')" "tree_rep E p f' s'"
    by (auto simp: returns_def)
  then obtain W where "cache_inv E W s'" by (blast elim: tree_repE)
  then show ?thesis using s'(1) pool_typed by blast
qed

theorem tree_typed_spec_witness:
  "\<exists>rs s'. run_cmds (exec_cmd (tree_lookup example_env) (tree_update example_env) (tree_remove example_env) (tree_insert example_env))
      [Insert 5 50, Lookup 5, Remove 6] example_tree = Inr (rs, s') \<and> (\<forall>a \<in> hot_set s'. typed_page example_env s' a)"
  using tree_typed_spec [OF example_tree_rep(2), of "[Insert 5 50, Lookup 5, Remove 6]"] by (simp add: inserts_def)

end
