(* ===== verification/Statistics.thy ===== *)
theory Statistics
  imports Complex_Main Cache
begin

text \<open>
  The numbers the program prints about itself: the census of the pool by \<open>statistic_in_buffer\<close>
  (\<open>include/cache/LeanStoreCache.h\<close>) and the counters of \<open>include/Stats.h\<close>.

  \<open>statistic_in_buffer\<close> dates from pools with pages of half the size (\<open>mini\<close> pages). It looks at the
  pool in steps of half a page and skips the second half of a slot whose page it has recognised. At
  the other slots it reads the middle of the slot as if a page began there. The page memory
  of this model does not determine what those bytes are as a header, so they are a parameter:
  \<open>mid a\<close> is the header read at an address \<open>a\<close> that is not the start of a slot.
\<close>

subsection \<open>The pool\<close>

record buffer_statistic =
  remote_state :: "32 word"
  cooling_state :: "32 word"
  hot_state :: "32 word"
  local_work_page :: "32 word"
  hot_leaf :: "32 word"
  hot_inner :: "32 word"
  cooling_leaf :: "32 word"
  cooling_inner :: "32 word"
  hot_mini :: "32 word"
  cooling_mini :: "32 word"
  local_mini :: "32 word"
  hot_mini_records :: u64
  cooling_mini_records :: u64

definition no_statistic :: buffer_statistic where
  "no_statistic = \<lparr>remote_state = 0, cooling_state = 0, hot_state = 0, local_work_page = 0, hot_leaf = 0, hot_inner = 0,
     cooling_leaf = 0, cooling_inner = 0, hot_mini = 0, cooling_mini = 0, local_mini = 0, hot_mini_records = 0,
     cooling_mini_records = 0\<rparr>"

text \<open>The page at a position: the counters, and whether the second half is skipped.\<close>

definition statistic_step :: "page \<Rightarrow> buffer_statistic \<Rightarrow> buffer_statistic \<times> bool" where
  "statistic_step p st =
     (case pos_state p of
        POS_REMOTE \<Rightarrow> (st\<lparr>remote_state := remote_state st + 1\<rparr>, False)
      | POS_COOL \<Rightarrow>
          (let st1 = st\<lparr>cooling_state := cooling_state st + 1\<rparr>
           in if ptype p = BTreeInner then (st1\<lparr>cooling_inner := cooling_inner st1 + 1\<rparr>, True)
              else if ptype p = BTreeLeaf then (st1\<lparr>cooling_leaf := cooling_leaf st1 + 1\<rparr>, True)
              else (st1\<lparr>cooling_mini := cooling_mini st1 + 1,
                        cooling_mini_records := cooling_mini_records st1 + of_nat (page.count p)\<rparr>, False))
      | POS_HOT \<Rightarrow>
          (let st1 = st\<lparr>hot_state := hot_state st + 1\<rparr>
           in if ptype p = BTreeInner then (st1\<lparr>hot_inner := hot_inner st1 + 1\<rparr>, True)
              else if ptype p = BTreeLeaf then (st1\<lparr>hot_leaf := hot_leaf st1 + 1\<rparr>, True)
              else (st1\<lparr>hot_mini := hot_mini st1 + 1,
                        hot_mini_records := hot_mini_records st1 + of_nat (page.count p)\<rparr>, False))
      | POS_LOCAL \<Rightarrow> (st\<lparr>local_work_page := local_work_page st + 1\<rparr>, True)
      | POS_PIN \<Rightarrow> (st, False))"

function statistic_loop :: "(nat \<Rightarrow> page) \<Rightarrow> nat \<Rightarrow> nat \<Rightarrow> buffer_statistic \<Rightarrow> buffer_statistic" where
  "statistic_loop cur_page n i st =
     (if i < n then
        (case statistic_step (cur_page i) st of
           (st', skip) \<Rightarrow> statistic_loop cur_page n ((if skip then i + 1 else i) + 1) st')
      else st)"
  by pat_completeness auto
termination by (relation "measure (\<lambda>(_, n, i, _). n - i)") auto

declare statistic_loop.simps [simp del]

definition half_page :: "(u64 \<Rightarrow> page) \<Rightarrow> (u64 \<Rightarrow> page) \<Rightarrow> u64 \<Rightarrow> nat \<Rightarrow> page" where
  "half_page mid m start i =
     (let a = start + of_nat i * PAGE_SIZE div 2 in if even i then m a else mid a)"

definition statistic_in_buffer :: "(u64 \<Rightarrow> page) \<Rightarrow> 'a cache_st \<Rightarrow> buffer_statistic" where
  "statistic_in_buffer mid s =
     (case pool s of
        None \<Rightarrow> no_statistic
      | Some al \<Rightarrow> statistic_loop (half_page mid (mem s) (base_address al)) (unat (page_num al * 2)) 0 no_statistic)"

subsection \<open>What it counts\<close>

text \<open>One slot, when the middle of a slot that is not skipped reads as a remote page.\<close>

definition slot_statistic :: "page \<Rightarrow> buffer_statistic \<Rightarrow> buffer_statistic" where
  "slot_statistic p st =
     (case statistic_step p st of (st', skip) \<Rightarrow> if skip then st' else st'\<lparr>remote_state := remote_state st' + 1\<rparr>)"

lemma statistic_loop_slots:
  assumes "\<And>k. k < length ps \<Longrightarrow> cur_page (2 * (j + k)) = ps ! k"
    and "\<And>k. k < length ps \<Longrightarrow> \<not> snd (statistic_step (ps ! k) no_statistic) \<Longrightarrow> pos_state (cur_page (2 * (j + k) + 1)) = POS_REMOTE"
  shows "statistic_loop cur_page (2 * (j + length ps)) (2 * j) st = fold slot_statistic ps st"
  using assms
proof (induction ps arbitrary: j st)
  case Nil
  then show ?case by (subst statistic_loop.simps) simp
next
  case (Cons p ps)
  have p: "cur_page (2 * j) = p" using Cons.prems(1) [of 0] by simp
  obtain st' skip where s: "statistic_step p st = (st', skip)" by fastforce
  then have slot: "slot_statistic p st = (if skip then st' else st'\<lparr>remote_state := remote_state st' + 1\<rparr>)"
    by (simp add: slot_statistic_def)
  have k: "snd (statistic_step p x) = snd (statistic_step p y)" for x y
    by (simp add: statistic_step_def Let_def split: pos_state.split)
  have IH: "statistic_loop cur_page (2 * (j + length (p # ps))) (2 * j + 2) u = fold slot_statistic ps u" for u
    using Cons.IH [of "j + 1" u] Cons.prems(1) [of "Suc k" for k] Cons.prems(2) [of "Suc k" for k] by simp
  show ?case
  proof (cases skip)
    case True
    have "statistic_loop cur_page (2 * (j + length (p # ps))) (2 * j) st = statistic_loop cur_page (2 * (j + length (p # ps))) (2 * j + 2) st'"
      by (subst statistic_loop.simps) (simp add: p s True)
    then show ?thesis unfolding IH by (simp add: slot True)
  next
    case False
    then have "pos_state (cur_page (2 * j + 1)) = POS_REMOTE" using Cons.prems(2) [of 0] k [of no_statistic st] s by simp
    then have m: "statistic_step (cur_page (Suc (2 * j))) st' = (st'\<lparr>remote_state := remote_state st' + 1\<rparr>, False)"
      by (simp add: statistic_step_def)
    have "statistic_loop cur_page (2 * (j + length (p # ps))) (2 * j) st =
        statistic_loop cur_page (2 * (j + length (p # ps))) (2 * j + 1) st'"
      by (subst statistic_loop.simps) (simp add: p s False)
    also have "\<dots> = statistic_loop cur_page (2 * (j + length (p # ps))) (2 * j + 2) (st'\<lparr>remote_state := remote_state st' + 1\<rparr>)"
      by (subst statistic_loop.simps) (simp add: m)
    finally show ?thesis unfolding IH by (simp add: slot False)
  qed
qed

text \<open>How many of some pages are in a state, and of these how many have a type.\<close>

definition in_state :: "pos_state \<Rightarrow> page list \<Rightarrow> nat" where
  "in_state q ps = length (filter (\<lambda>p. pos_state p = q) ps)"

definition typed_in_state :: "pos_state \<Rightarrow> page_type \<Rightarrow> page list \<Rightarrow> nat" where
  "typed_in_state q t ps = length (filter (\<lambda>p. pos_state p = q \<and> ptype p = t) ps)"

text \<open>Every counter adds up what the slots contribute.\<close>

lemma fold_counter:
  assumes "\<And>p st. p \<in> set ps \<Longrightarrow> f (slot_statistic p st) = f st + w p"
  shows "f (fold slot_statistic ps st) = f st + sum_list (map w ps)"
  using assms by (induction ps arbitrary: st) (simp_all add: add.assoc)

lemma sum_states:
  "sum_list (map (\<lambda>p. if P p then 1 else 0) ps) = of_nat (length (filter P ps))"
  "sum_list (map (\<lambda>p. if pos_state p = POS_REMOTE then 2 else if pos_state p = POS_PIN then 1 else 0) ps) =
     of_nat (2 * in_state POS_REMOTE ps + in_state POS_PIN ps)"
  by (induction ps) (simp_all add: in_state_def algebra_simps)

lemma slot_counters:
  assumes "pos_state p \<in> {POS_COOL, POS_HOT} \<longrightarrow> ptype p \<noteq> PT_None"
  shows "remote_state (slot_statistic p st) = remote_state st + (if pos_state p = POS_REMOTE then 2 else if pos_state p = POS_PIN then 1 else 0)"
    "cooling_state (slot_statistic p st) = cooling_state st + (if pos_state p = POS_COOL then 1 else 0)"
    "hot_state (slot_statistic p st) = hot_state st + (if pos_state p = POS_HOT then 1 else 0)"
    "local_work_page (slot_statistic p st) = local_work_page st + (if pos_state p = POS_LOCAL then 1 else 0)"
    "hot_leaf (slot_statistic p st) = hot_leaf st + (if pos_state p = POS_HOT \<and> ptype p = BTreeLeaf then 1 else 0)"
    "hot_inner (slot_statistic p st) = hot_inner st + (if pos_state p = POS_HOT \<and> ptype p = BTreeInner then 1 else 0)"
    "cooling_leaf (slot_statistic p st) = cooling_leaf st + (if pos_state p = POS_COOL \<and> ptype p = BTreeLeaf then 1 else 0)"
    "cooling_inner (slot_statistic p st) = cooling_inner st + (if pos_state p = POS_COOL \<and> ptype p = BTreeInner then 1 else 0)"
    "hot_mini (slot_statistic p st) = hot_mini st + 0" "cooling_mini (slot_statistic p st) = cooling_mini st + 0"
    "local_mini (slot_statistic p st) = local_mini st + 0" "hot_mini_records (slot_statistic p st) = hot_mini_records st + 0"
    "cooling_mini_records (slot_statistic p st) = cooling_mini_records st + 0"
  using assms by (cases "pos_state p"; cases "ptype p"; simp add: slot_statistic_def statistic_step_def)+

lemma fold_slot_statistic:
  assumes "\<forall>p \<in> set ps. pos_state p \<in> {POS_COOL, POS_HOT} \<longrightarrow> ptype p \<noteq> PT_None"
  shows "fold slot_statistic ps no_statistic =
    no_statistic\<lparr>remote_state := of_nat (2 * in_state POS_REMOTE ps + in_state POS_PIN ps),
       cooling_state := of_nat (in_state POS_COOL ps), hot_state := of_nat (in_state POS_HOT ps),
       local_work_page := of_nat (in_state POS_LOCAL ps),
       hot_leaf := of_nat (typed_in_state POS_HOT BTreeLeaf ps), hot_inner := of_nat (typed_in_state POS_HOT BTreeInner ps),
       cooling_leaf := of_nat (typed_in_state POS_COOL BTreeLeaf ps), cooling_inner := of_nat (typed_in_state POS_COOL BTreeInner ps)\<rparr>"
proof -
  have ok: "pos_state p \<in> {POS_COOL, POS_HOT} \<longrightarrow> ptype p \<noteq> PT_None" if "p \<in> set ps" for p using assms that by blast
  note c = slot_counters [OF ok]
  note f = fold_counter [where f = remote_state, OF c(1)] fold_counter [where f = cooling_state, OF c(2)]
    fold_counter [where f = hot_state, OF c(3)] fold_counter [where f = local_work_page, OF c(4)]
    fold_counter [where f = hot_leaf, OF c(5)] fold_counter [where f = hot_inner, OF c(6)]
    fold_counter [where f = cooling_leaf, OF c(7)] fold_counter [where f = cooling_inner, OF c(8)]
    fold_counter [where f = hot_mini, OF c(9)] fold_counter [where f = cooling_mini, OF c(10)]
    fold_counter [where f = local_mini, OF c(11)] fold_counter [where f = hot_mini_records, OF c(12)]
    fold_counter [where f = cooling_mini_records, OF c(13)]
  show ?thesis
    by (rule buffer_statistic.equality)
      (simp_all only: f, simp_all only: sum_states, simp_all add: no_statistic_def in_state_def typed_in_state_def)
qed

lemma half_page_slots:
  assumes al: "alloc_ok al" and k: "k < unat (page_num al)"
  shows "half_page mid m (base_address al) (2 * k) = m (slot_addr al (of_nat k))"
    "half_page mid m (base_address al) (2 * k + 1) = mid (slot_addr al (of_nat k) + 512)"
proof -
  have u: "alloc_unit al = 1024" and n: "unat (page_num al) * 1024 \<le> 2 ^ 47" using al by (auto simp: alloc_ok_def PAGE_SIZE_def)
  define b where "b = (of_nat (2 * k) * PAGE_SIZE :: u64)"
  have k': "k * 1024 < 2 ^ 47" using k n by linarith
  have s: "(of_nat j :: u64) * PAGE_SIZE div 2 = of_nat (j * 512)" if "j * 1024 < 2 ^ 64" for j
  proof -
    have "(of_nat j :: u64) * PAGE_SIZE = of_nat (j * 1024)" by (simp add: PAGE_SIZE_def)
    moreover have e: "unat (of_nat (j * 1024) :: u64) = j * 1024" "unat (of_nat (j * 512) :: u64) = j * 512"
      using that by (simp_all add: unat_of_nat take_bit_nat_eq_self del: of_nat_mult)
    then have "unat (of_nat (j * 1024) div 2 :: u64) = unat (of_nat (j * 512) :: u64)" unfolding unat_div e by simp
    ultimately show ?thesis by (metis word_unat_eq_iff)
  qed
  show "half_page mid m (base_address al) (2 * k) = m (slot_addr al (of_nat k))"
    using s [of "2 * k"] k' by (simp add: half_page_def slot_addr_def u mult.commute)
  have "base_address al + of_nat ((2 * k + 1) * 512) = slot_addr al (of_nat k) + 512"
    by (simp add: slot_addr_def u algebra_simps)
  moreover have "(of_nat (2 * k + 1) :: u64) * PAGE_SIZE div 2 = of_nat ((2 * k + 1) * 512)" using k' by (intro s) simp
  ultimately show "half_page mid m (base_address al) (2 * k + 1) = mid (slot_addr al (of_nat k) + 512)"
    unfolding half_page_def Let_def by (simp only: even_plus_one_iff if_False) simp
qed

subsection \<open>Counters of the cache\<close>

text \<open>\<open>struct Stats\<close>. Floating-point numbers are rationals, and \<open>fp\<close> is the rounding of the
  machine.\<close>

record stats =
  hits :: u64
  misses :: u64
  admits :: u64
  evicts :: u64
  writebacks :: u64
  allocs :: u64
  rescues :: u64
  demotions :: u64
  ticks :: u64

definition mk_Stats :: stats where
  "mk_Stats = \<lparr>hits = 0, misses = 0, admits = 0, evicts = 0, writebacks = 0, allocs = 0, rescues = 0, demotions = 0, ticks = 0\<rparr>"

definition stats_reset :: "stats \<Rightarrow> stats" where
  "stats_reset st = mk_Stats"

definition hitRate :: "(rat \<Rightarrow> rat) \<Rightarrow> stats \<Rightarrow> rat" where
  "hitRate fp st =
     (let total = hits st + misses st
      in if total \<noteq> 0 then fp (fp (of_nat (unat (hits st))) / fp (of_nat (unat total))) else 0)"

text \<open>The rate is a rate as long as the sum of the two counters has not wrapped around.\<close>

lemma hitRate_bounds:
  assumes "mono fp" "fp 0 = 0" "fp 1 = 1" and "unat (hits st) + unat (misses st) < 2 ^ 64"
  shows "0 \<le> hitRate fp st \<and> hitRate fp st \<le> 1"
proof (cases "hits st + misses st = 0")
  case False
  have t: "unat (hits st + misses st) = unat (hits st) + unat (misses st)" unfolding unat_word_ariths using assms(4) by simp
  have "1 \<le> unat (hits st + misses st)" using False unat_eq_zero [of "hits st + misses st"] by linarith
  then have "(1 :: rat) \<le> of_nat (unat (hits st + misses st))" by (metis of_nat_1 of_nat_le_iff)
  then have d: "1 \<le> fp (of_nat (unat (hits st + misses st)))" using monoD [OF assms(1)] assms(3) by metis
  have "(0 :: rat) \<le> of_nat h" for h by (rule of_nat_0_le_iff)
  moreover have "(of_nat (unat (hits st)) :: rat) \<le> of_nat (unat (hits st + misses st))" unfolding t of_nat_le_iff by simp
  ultimately have n: "0 \<le> fp (of_nat (unat (hits st)))" "fp (of_nat (unat (hits st))) \<le> fp (of_nat (unat (hits st + misses st)))"
    using monoD [OF assms(1)] assms(2) by metis+
  then have "0 \<le> fp (of_nat (unat (hits st))) / fp (of_nat (unat (hits st + misses st)))"
    "fp (of_nat (unat (hits st))) / fp (of_nat (unat (hits st + misses st))) \<le> 1" using d by (simp_all add: divide_le_eq)
  from monoD [OF assms(1) this(1)] monoD [OF assms(1) this(2)] show ?thesis
    using False assms(2,3) unfolding hitRate_def Let_def by (simp only: if_True simp_thms)
qed (simp add: hitRate_def)

lemma hitRate_reset: "hitRate fp (stats_reset st) = 0"
  by (simp add: hitRate_def stats_reset_def mk_Stats_def)

subsection \<open>Properties\<close>

text \<open>C40: \<open>statistic_in_buffer\<close>. If the pages in the pool that are hot or cooling are leaves
  or inner nodes, and the middle of every free or pinned slot reads as zeroes do, the numbers of hot, cooling
  and local pages are exact, and so are those of the hot and cooling leaves and inner nodes. The number of
  remote pages is not: each free slot counts twice, and a pinned one counts as free.\<close>

theorem statistic_spec:
  assumes "pool s = Some al" "alloc_ok al"
    and "\<forall>a \<in> set (pool_slots al). pos_state (mem s a) \<in> {POS_COOL, POS_HOT} \<longrightarrow> ptype (mem s a) \<noteq> PT_None"
    and "\<forall>a \<in> set (pool_slots al). pos_state (mem s a) \<in> {POS_REMOTE, POS_PIN} \<longrightarrow> pos_state (mid (a + 512)) = POS_REMOTE"
  shows "let ps = map (mem s) (pool_slots al)
    in statistic_in_buffer mid s = no_statistic\<lparr>remote_state := of_nat (2 * in_state POS_REMOTE ps + in_state POS_PIN ps),
       cooling_state := of_nat (in_state POS_COOL ps), hot_state := of_nat (in_state POS_HOT ps),
       local_work_page := of_nat (in_state POS_LOCAL ps),
       hot_leaf := of_nat (typed_in_state POS_HOT BTreeLeaf ps), hot_inner := of_nat (typed_in_state POS_HOT BTreeInner ps),
       cooling_leaf := of_nat (typed_in_state POS_COOL BTreeLeaf ps), cooling_inner := of_nat (typed_in_state POS_COOL BTreeInner ps)\<rparr>"
proof -
  define ps where "ps = map (mem s) (pool_slots al)"
  have ok: "\<forall>p \<in> set ps. pos_state p \<in> {POS_COOL, POS_HOT} \<longrightarrow> ptype p \<noteq> PT_None" using assms(3) by (simp add: ps_def)
  have len: "length ps = unat (page_num al)" by (simp add: ps_def pool_slots_def)
  have nth: "ps ! k = mem s (slot_addr al (of_nat k))" "slot_addr al (of_nat k) \<in> set (pool_slots al)" if "k < length ps" for k
    using that by (simp_all add: ps_def pool_slots_def)
  have "unat (page_num al) * 1024 \<le> 2 ^ 47" using assms(2) by (simp add: alloc_ok_def)
  then have n2: "unat (page_num al * 2) = 2 * length ps" unfolding len by (simp add: unat_word_ariths)
  have "statistic_in_buffer mid s = statistic_loop (half_page mid (mem s) (base_address al)) (2 * (0 + length ps)) (2 * 0) no_statistic"
    by (simp add: statistic_in_buffer_def assms(1) n2)
  also have "\<dots> = fold slot_statistic ps no_statistic"
  proof (rule statistic_loop_slots)
    fix k assume k: "k < length ps"
    note h = half_page_slots [OF assms(2) k [unfolded len]]
    show "half_page mid (mem s) (base_address al) (2 * (0 + k)) = ps ! k" using h(1) nth(1) [OF k] by simp
    assume "\<not> snd (statistic_step (ps ! k) no_statistic)"
    then have "pos_state (ps ! k) \<in> {POS_REMOTE, POS_PIN}"
      using ok nth_mem [OF k] by (cases "pos_state (ps ! k)"; cases "ptype (ps ! k)") (auto simp: statistic_step_def)
    then have "pos_state (mid (slot_addr al (of_nat k) + 512)) = POS_REMOTE" using assms(4) nth [OF k] by metis
    then show "pos_state (half_page mid (mem s) (base_address al) (2 * (0 + k) + 1)) = POS_REMOTE"
      using h(2) by simp
  qed
  finally show ?thesis using fold_slot_statistic [OF ok] unfolding ps_def Let_def by simp
qed

text \<open>A pool of two slots, with a leaf in the first one: the second counts twice.\<close>

definition example_pool :: cache where
  "example_pool = \<lparr>mem = (\<lambda>_. zero_page)(0x6C00 := (mk_BTreeLeaf 0x4000000)\<lparr>pos_state := POS_HOT\<rparr>),
     be = \<lparr>ps_capacity = 0x100000, ps_cur = 0x400, ps_page = (\<lambda>_. zero_page)\<rparr>, scratch = zero_page, draws = 0,
     ht = mk_HashTable 2, pt = mk_PageTable 2, capacity = 2, cstate = 0, inner_miss = 0, leaf_miss = 0, full_page_miss = 0,
     rdma_write = 0, wrong_parent = 0, buffer_min_limit = 0, buffer_max_limit = 0, admission_idx = 0, local_pages = [],
     pool = Some \<lparr>base_address = 0x6C00, alloc_unit = PAGE_SIZE, page_num = 2, head_idx = 1\<rparr>\<rparr>"

theorem statistic_spec_witness:
  "statistic_in_buffer (\<lambda>_. zero_page) example_pool = no_statistic\<lparr>remote_state := 2, hot_state := 1, hot_leaf := 1\<rparr>"
proof -
  define al where "al = \<lparr>base_address = 0x6C00, alloc_unit = PAGE_SIZE, page_num = 2, head_idx = 1\<rparr>"
  have "(1024 :: nat) dvd 0x6C00" by (rule dvdI [of _ _ 27]) simp
  then have al: "pool example_pool = Some al" "alloc_ok al" "pool_slots al = [0x6C00, 0x7000]"
    by (simp add: example_pool_def al_def, simp add: al_def alloc_ok_def PAGE_SIZE_def,
        simp add: al_def pool_slots_def slot_addr_def PAGE_SIZE_def upt_conv_Cons)
  have m: "mem example_pool 0x6C00 = (mk_BTreeLeaf 0x4000000)\<lparr>pos_state := POS_HOT\<rparr>" "mem example_pool 0x7000 = zero_page"
    by (simp_all add: example_pool_def)
  have z: "pos_state zero_page = POS_REMOTE" "ptype (mk_BTreeLeaf g) = BTreeLeaf" for g
    by (simp_all add: zero_page_def mk_BTreeLeaf_def)
  show ?thesis
    using statistic_spec [OF al(1,2), of "\<lambda>_. zero_page"]
    by (simp add: al(3) m z Let_def in_state_def typed_in_state_def no_statistic_def)
qed

end
