(* ===== verification/Flush.thy ===== *)
theory Flush
  imports ColdPath TreeInit
begin

text \<open>
  Flushing and resetting the pool. After \<open>flush_all\<close>, which the destructor of the tree calls, the
  backend holds the whole tree; a reset of the pool, in contrast, leaves the super root pointing
  into the emptied pool.
\<close>

subsection \<open>One page\<close>

text \<open>An unswizzled page is the image at rest of its node.\<close>

lemma unswizzled_page:
  assumes r: "residency W m b R" and a: "a \<in> R"
  shows "\<exists>p. fully_unswizzle m (m a) = Inr p \<and> page_ok p \<and> bitmap p = 0 \<and> remote_address p = remote_address (m a) \<and>
    node_of m p = vw_nodes W (remote_address (m a))"
proof (cases "ptype (m a) = BTreeInner")
  case False
  note ok = residencyD(10) [OF r a]
  have "ptype (m a) = BTreeLeaf" "bitmap (m a) = 0" using ok False by (simp_all add: page_ok_def)
  then show ?thesis using ok residencyD(12) [OF r a] by (simp add: fully_unswizzle_def)
next
  case True
  note ok = residencyD(10) [OF r a]
  note I = page_ok_inner [OF ok True]
  from fully_unswizzle_correct [OF True I(1,2), of m] obtain p where p: "fully_unswizzle m (m a) = Inr p"
    "p = (m a)\<lparr>children := children p, bitmap := 0\<rparr>" "inner_children p = map (unswz m) (inner_children (m a))"
    "length (children p) = length (children (m a))" by blast
  have f: "ptype p = BTreeInner" "page.count p = page.count (m a)" "keys p = keys (m a)" "level p = level (m a)" "bitmap p = 0"
    "remote_address p = remote_address (m a)" "min_limit p = min_limit (m a)" "max_limit p = max_limit (m a)"
    using True by (subst p(2), simp)+
  have plain: "\<not> swizzled v" if v: "v \<in> set (inner_children p)" for v
  proof -
    obtain u where u: "u \<in> set (inner_children (m a))" "v = unswz m u" using v p(3) by auto
    from inner_child_nth [OF ok True u(1)] obtain i where "i \<le> page.count (m a)" "u = children (m a) ! i" .
    then have "v \<in> vw_addrs W" using resident_kid(1) [OF r a True] u(2) by simp
    then show ?thesis using ps_allocated_not_swizzled [OF residencyD(2) [OF r]] residencyD(3) [OF r] by blast
  qed
  have io: "inner_ok p" using I(1) f p(4) by (simp add: inner_ok_def inner_keys_def)
  have "bitmap_ok p"
    unfolding bitmap_ok_children [OF io] f(5)
    using plain length_inner_children [OF io] by (auto simp: set_conv_nth less_Suc_eq_le)
  then have pok: "page_ok p" using ok f io True by (simp add: page_ok_def)
  have "map (unswz m) (inner_children p) = inner_children p"
    using plain by (intro map_idI) (simp add: unswz_def)
  then have "node_of m p = node_of m (m a)" using f True p(3) by (simp add: node_of_def inner_keys_def)
  then show ?thesis using p(1) pok f residencyD(12) [OF r a] by auto
qed

lemma residency_flush:
  assumes r: "residency W m b R" and a: "a \<in> R"
    and p: "page_ok p" "bitmap p = 0" "remote_address p = remote_address (m a)" "node_of m p = vw_nodes W (remote_address (m a))"
  shows "residency W (m(a := (m a)\<lparr>dirty := False\<rparr>)) (ps_write b (remote_address (m a)) (flushed_image p)) R"
proof -
  note D = residencyD [OF r]
  define m' where "m' = m(a := (m a)\<lparr>dirty := False\<rparr>)"
  let ?g = "remote_address (m a)"
  have f: "remote_address (m' x) = remote_address (m x)" "parent_ptr (m' x) = parent_ptr (m x)" "ptype (m' x) = ptype (m x)"
    "children (m' x) = children (m x)" "page.count (m' x) = page.count (m x)" "level (m' x) = level (m x)" for x
    by (simp_all add: m'_def)
  have pd: "page_ok (q\<lparr>dirty := d\<rparr>) = page_ok q" "node_of n (q\<lparr>dirty := d\<rparr>) = node_of n q" for q d n
    by (simp_all add: page_ok_def node_of_def inner_ok_def bitmap_ok_def leaf_in_limits_def rangeValid_def leaf_ok_def leaf_keys_def
        leaf_entries_def inner_keys_def inner_children_def cong: if_cong)
  have slot: "slot_ok m' R x v = slot_ok m R x v" for x v by (simp add: slot_ok_def f)
  have unsw: "unswz m' v = unswz m v" for v by (simp add: unswz_def f)
  have node: "node_of m' (m' x) = node_of m (m x)" for x
    using node_of_cong [of "m x" m' m] unsw by (cases "x = a") (simp_all add: m'_def pd)
  have gal: "?g \<in> ps_allocated b" using D(3,11) a by blast
  show ?thesis
    unfolding m'_def [symmetric]
  proof (rule residencyI)
    show "ps_ok (ps_write b ?g (flushed_image p))" by (rule ps.inv_wr [OF D(2)]) simp
    show "vw_addrs W \<subseteq> ps_allocated (ps_write b ?g (flushed_image p))" using D(3) by (simp add: ps.allocated_wr)
    show "page_ok (m' x)" if "x \<in> R" for x using D(10) [OF that] by (cases "x = a") (simp_all add: m'_def pd)
    show "points_back m' (vw_super W) R x" if "x \<in> R" for x using D(13) [OF that] by (simp add: points_back_def f)
    show "at_rest (vw_nodes W) (ps_write b ?g (flushed_image p)) h"
      if h: "h \<in> vw_addrs W" and cl: "\<And>x. x \<in> R \<Longrightarrow> remote_address (m' x) = h \<Longrightarrow> \<not> dirty (m' x)" for h
    proof (cases "h = ?g")
      case True
      show ?thesis unfolding True by (rule at_rest_write [OF D(2) gal p(1,2,3), of m]) (rule p(4))
    next
      case False
      have "\<not> dirty (m x)" if "x \<in> R" "remote_address (m x) = h" for x
      proof -
        have "m' x = m x" using that(2) False by (auto simp: m'_def)
        then show ?thesis using cl [OF that(1)] that(2) by simp
      qed
      then have "at_rest (vw_nodes W) b h" using D(16) [OF h] by blast
      then show ?thesis using gal D(3) h False by (intro at_rest_other) auto
    qed
  qed (use D f slot unsw node in simp_all)
qed

subsection \<open>The whole pool\<close>

text \<open>What flushing the slots \<open>A\<close> leaves alone.\<close>

definition flushed :: "u64 set \<Rightarrow> 'a cache_st \<Rightarrow> 'a cache_st \<Rightarrow> bool" where
  "flushed A s s' \<longleftrightarrow> pool_set s' = pool_set s \<and> pool s' = pool s \<and> local_pages s' = local_pages s \<and> cache.more s' = cache.more s \<and>
     (\<forall>a. dirty (mem s' a) \<longleftrightarrow> dirty (mem s a) \<and> a \<notin> A) \<and> (\<forall>a. a \<notin> A \<longrightarrow> mem s' a = mem s a) \<and>
     (\<forall>a. children (mem s' a) = children (mem s a))"

lemma flush_slots_inv:
  assumes "cache_inv E W s" "set as \<subseteq> pool_set s" "distinct as"
  shows "\<exists>s'. flush_slots as s = Inr s' \<and> cache_inv E W s' \<and> hot_set s' = hot_set s \<and> flushed (set as) s s'"
  using assms
proof (induction as arbitrary: s)
  case (Cons a as)
  note I = cache_invD [OF Cons.prems(1)]
  show ?case
  proof (cases "dirty (mem s a)")
    case False
    then have "flush_slots (a # as) s = flush_slots as s" by simp
    with Cons.IH [OF Cons.prems(1)] Cons.prems(2,3) False show ?thesis by (auto simp: flushed_def)
  next
    case True
    then have a: "a \<in> hot_set s" using Cons.prems(2) I(4) by (simp add: free_inv_def hot_set_def)
    from unswizzled_page [OF I(6) a] obtain p where p: "fully_unswizzle (mem s) (mem s a) = Inr p" "page_ok p" "bitmap p = 0"
      "remote_address p = remote_address (mem s a)" "node_of (mem s) p = vw_nodes W (remote_address (mem s a))" by blast
    define b where "b = ps_write (be s) (remote_address (mem s a)) (flushed_image p)"
    define s1 where "s1 = set_node a ((mem s a)\<lparr>dirty := False\<rparr>) (s\<lparr>scratch := p\<lparr>dirty := False\<rparr>, be := b\<rparr>)"
    have eq: "flush_slots (a # as) s = flush_slots as s1"
      using True p(1,4) by (simp add: remote_write_node_def Let_def s1_def b_def flushed_image_def)
    have m1: "mem s1 = (mem s)(a := (mem s a)\<lparr>dirty := False\<rparr>)" by (simp add: s1_def)
    have f1: "ht s1 = ht s" "pt s1 = pt s" "pool s1 = pool s" "cstate s1 = cstate s" "local_pages s1 = local_pages s" "be s1 = b"
      by (simp_all add: s1_def set_node_def)
    have pos: "pos_state (mem s1 x) = pos_state (mem s x)" "remote_address (mem s1 x) = remote_address (mem s x)"
      "dirty (mem s1 x) \<longleftrightarrow> dirty (mem s x) \<and> x \<noteq> a" for x by (simp_all add: m1)
    have sets: "pool_set s1 = pool_set s" "hot_set s1 = hot_set s" by (simp_all add: pool_set_def hot_set_def f1 pos)
    have "residency W (mem s1) (be s1) (hot_set s)"
      using residency_flush [OF I(6) a p(2-5)] by (simp add: m1 f1 b_def)
    have fi: "free_inv s1" using I(4) by (auto simp: free_inv_def sets f1 pos)
    have "pool_inv s1" using I(1) by (simp add: pool_inv_def f1 pos)
    with fi \<open>residency W (mem s1) (be s1) (hot_set s)\<close> have inv1: "cache_inv E W s1"
      using I(2,3,5,7) by (simp add: cache_inv_def sets f1 pos)
    have "set as \<subseteq> pool_set s1" using Cons.prems(2) by (simp add: sets)
    from Cons.IH [OF inv1 this] Cons.prems(3) obtain s' where s': "flush_slots as s1 = Inr s'" "cache_inv E W s'"
      "hot_set s' = hot_set s" "flushed (set as) s1 s'"
      by (auto simp: sets)
    have "cache.more s1 = cache.more s" by (simp add: s1_def set_node_def)
    then have "flushed (set (a # as)) s s'"
      using s'(4) by (auto simp: flushed_def sets f1 m1)
    then show ?thesis using s' eq by auto
  qed
qed (simp add: flushed_def)

lemma flush_all_inv:
  assumes inv: "cache_inv E W s"
  shows "\<exists>s'. flush_all s = Inr s' \<and> cache_inv E W s' \<and> hot_set s' = hot_set s \<and> flushed (pool_set s) s s' \<and>
    (\<forall>g \<in> vw_addrs W. at_rest (vw_nodes W) (be s') g)"
proof -
  define s1 where "s1 = s\<lparr>inner_miss := 0, leaf_miss := 0\<rparr>"
  have sets: "pool_set s1 = pool_set s" "hot_set s1 = hot_set s" by (simp_all add: s1_def pool_set_def hot_set_def)
  have "pool_inv s1 = pool_inv s" by (simp add: pool_inv_def s1_def)
  moreover have "free_inv s1 = free_inv s" by (simp add: free_inv_def sets) (simp add: s1_def)
  ultimately have inv1: "cache_inv E W s1" using inv by (simp add: cache_inv_def sets) (simp add: s1_def)
  obtain al where al: "pool s = Some al" "alloc_ok al" using cache_invD(1) [OF inv] by (auto simp: pool_inv_def)
  have sl: "set (pool_slots al) = pool_set s" by (simp add: pool_set_def al)
  have "distinct (pool_slots al)" by (rule pool_slots_distinct [OF al(2)])
  then obtain s' where s': "flush_slots (pool_slots al) s1 = Inr s'" "cache_inv E W s'" "hot_set s' = hot_set s"
    "flushed (pool_set s) s1 s'"
    using flush_slots_inv [OF inv1, of "pool_slots al"] sl sets by auto
  have fl: "flushed (pool_set s) s s'" using s'(4) by (simp add: flushed_def sets) (simp add: s1_def)
  have "at_rest (vw_nodes W) (be s') g" if "g \<in> vw_addrs W" for g
    using residencyD(16) [OF cache_invD(6) [OF s'(2)] that] fl s'(3) hot_pool unfolding flushed_def by metis
  moreover have "flush_all s = Inr s'" using s'(1) by (simp add: flush_all_def s1_def [symmetric] Let_def) (simp add: s1_def al)
  ultimately show ?thesis using s'(2,3) fl by blast
qed

subsection \<open>Resetting the pool\<close>

lemma cache_reset_eq:
  assumes inv: "cache_inv E W s"
  obtains s0 s' al where "if fl then flush_all s = Inr s0 else s0 = s" "cache_inv E W s0" "flushed (if fl then pool_set s else {}) s s0"
    "hot_set s0 = hot_set s" "cache_reset fl s = Inr s'" "pool s' = Some (al\<lparr>head_idx := 0\<rparr>)" "mem s' = zero_slots (pool_slots al) (mem s0)"
    "set (pool_slots al) = pool_set s" "pool_set s' = pool_set s" "be s' = be s0" "local_pages s' = local_pages s" "cache.more s' = cache.more s"
    "cstate s' = 0" "alloc_ok al"
proof -
  obtain s0 where s0: "if fl then flush_all s = Inr s0 else s0 = s" "cache_inv E W s0" "hot_set s0 = hot_set s"
    "flushed (if fl then pool_set s else {}) s s0"
    using flush_all_inv [OF inv] inv by (cases fl) (auto simp: flushed_def)
  obtain al where al: "pool s0 = Some al" "alloc_ok al" using cache_invD(1) [OF s0(2)] by (auto simp: pool_inv_def)
  have pls: "pool_slots (al\<lparr>head_idx := 0\<rparr>) = pool_slots al" by (simp add: pool_slots_def slot_addr_def)
  have "pool s = Some al" using s0(4) al by (simp add: flushed_def)
  then have ps: "set (pool_slots al) = pool_set s" by (simp add: pool_set_def)
  have "(if fl then flush_all s else Inr s) = Inr s0" using s0(1) by (cases fl) simp_all
  then have eq: "cache_reset fl s = Inr (s0\<lparr>cstate := 0, inner_miss := 0, leaf_miss := 0, full_page_miss := 0, rdma_write := 0,
      pool := Some (al\<lparr>head_idx := 0\<rparr>), mem := zero_slots (pool_slots al) (mem s0), ht := ht_reset (ht s0), pt := pt_reset (pt s0)\<rparr>)"
    (is "_ = Inr ?s'") by (simp add: cache_reset_def alloc_reset_def al)
  have "pool_set ?s' = pool_set s" by (simp add: pool_set_def pls) (simp add: ps [unfolded pool_set_def])
  then show ?thesis using s0 eq ps al(2) by (intro that [of s0 ?s' al]) (simp_all add: flushed_def)
qed

end
