(* ===== verification/RemoteBtree.thy ===== *)
theory RemoteBtree
  imports NodeWR
begin

text \<open>
  The one-sided tree functions of \<open>include/cache/Btree.h\<close>: \<open>lookup\<close>, \<open>update\<close>,
  \<open>insert\<close> and \<open>remove\<close> on the part of a tree that lies in one node's memory region,
  without cache. A page of address \<open>g\<close> lies at \<open>dsm_base + g.offset\<close>; the walk stops with
  code 0 when it meets a child on another node. The four functions begin with the same loop, which
  is modelled once. Out-parameters that a call does not set are \<open>None\<close>.
\<close>

subsection \<open>The functions\<close>

text \<open>The walk from an address: the off-node child met, or where the leaf lies. Levels decrease on
  the way and are bytes, which bounds the fuel.\<close>

fun dsm_walk :: "nat \<Rightarrow> (u64 \<Rightarrow> page) \<Rightarrow> u64 \<Rightarrow> u64 \<Rightarrow> u64 \<Rightarrow> gaddr \<Rightarrow> (gaddr + u64) res" where
  "dsm_walk 0 m dsm_base node_id k node = Inl OutOfFuel"
| "dsm_walk (Suc fuel) m dsm_base node_id k node =
     (let inner = m (dsm_base + offset node)
      in if ptype inner = BTreeInner then
           (let next = children inner ! inner_lowerBound inner k
            in if nodeID next \<noteq> node_id then Inr (Inl next) else dsm_walk fuel m dsm_base node_id k next)
         else Inr (Inr (dsm_base + offset node)))"

definition dsm_fuel :: nat where "dsm_fuel = 256"

text \<open>The result code, \<open>v_result\<close> and \<open>g_result\<close>.\<close>

definition dsm_lookup :: "(u64 \<Rightarrow> page) \<Rightarrow> u64 \<Rightarrow> gaddr \<Rightarrow> u64 \<Rightarrow> (int \<times> u64 option \<times> gaddr option) res" where
  "dsm_lookup m dsm_base root k =
     bindR (dsm_walk dsm_fuel m dsm_base (nodeID root) k root) (\<lambda>r.
       case r of
         Inl g \<Rightarrow> Inr (0, None, Some g)
       | Inr a \<Rightarrow>
           let leaf = m a
           in if \<not> rangeValid leaf k then Inr (-1, None, None)
              else let pos = leaf_lowerBound leaf k
                   in if pos < count leaf \<and> fst (data leaf ! pos) = k then Inr (1, Some (snd (data leaf ! pos)), None)
                      else Inr (2, None, None))"

text \<open>The result code, the value of the reference \<open>root\<close> afterwards, and the region.\<close>

definition dsm_update :: "(u64 \<Rightarrow> page) \<Rightarrow> u64 \<Rightarrow> gaddr \<Rightarrow> u64 \<Rightarrow> u64 \<Rightarrow> (int \<times> gaddr \<times> (u64 \<Rightarrow> page)) res" where
  "dsm_update m dsm_base root k v_result =
     bindR (dsm_walk dsm_fuel m dsm_base (nodeID root) k root) (\<lambda>r.
       case r of
         Inl g \<Rightarrow> Inr (0, root, m)
       | Inr a \<Rightarrow>
           let leaf = m a
           in if \<not> rangeValid leaf k then Inr (-1, root, m)
              else let pos = leaf_lowerBound leaf k
                   in if pos < count leaf \<and> fst (data leaf ! pos) = k
                      then Inr (1, remote_address leaf, m(a := leaf\<lparr>data := (data leaf)[pos := (fst (data leaf ! pos), v_result)]\<rparr>))
                      else Inr (2, root, m))"

definition dsm_insert :: "(u64 \<Rightarrow> page) \<Rightarrow> u64 \<Rightarrow> gaddr \<Rightarrow> u64 \<Rightarrow> u64 \<Rightarrow> (int \<times> gaddr \<times> (u64 \<Rightarrow> page)) res" where
  "dsm_insert m dsm_base root k v_result =
     bindR (dsm_walk dsm_fuel m dsm_base (nodeID root) k root) (\<lambda>r.
       case r of
         Inl g \<Rightarrow> Inr (0, root, m)
       | Inr a \<Rightarrow>
           let leaf = m a
           in if \<not> rangeValid leaf k \<or> count leaf = max_leaf_entries then Inr (-1, root, m)
              else case leaf_insert leaf k v_result of
                (insert_success, leaf') \<Rightarrow> Inr (if insert_success then 1 else 2, remote_address leaf, m(a := leaf')))"

definition dsm_remove :: "(u64 \<Rightarrow> page) \<Rightarrow> u64 \<Rightarrow> gaddr \<Rightarrow> u64 \<Rightarrow> (int \<times> gaddr \<times> (u64 \<Rightarrow> page)) res" where
  "dsm_remove m dsm_base root k =
     bindR (dsm_walk dsm_fuel m dsm_base (nodeID root) k root) (\<lambda>r.
       case r of
         Inl g \<Rightarrow> Inr (0, root, m)
       | Inr a \<Rightarrow>
           let leaf = m a
           in if \<not> rangeValid leaf k then Inr (-1, root, m)
              else case leaf_remove leaf k of
                (flag, leaf') \<Rightarrow> Inr (if flag then 1 else 2, remote_address leaf', m(a := leaf')))"

subsection \<open>A region\<close>

text \<open>
  The pages at the addresses \<open>R\<close> form the part of a tree that node \<open>nid\<close> holds: a child on
  this node is in \<open>R\<close>, one level or more below, with the limits that its parent announces; no two
  leaves take the same key. Children on other nodes are not followed.
\<close>

abbreviation page_at :: "(u64 \<Rightarrow> page) \<Rightarrow> u64 \<Rightarrow> gaddr \<Rightarrow> page" where
  "page_at m base g \<equiv> m (base + offset g)"

definition dsm_inner_ok :: "(u64 \<Rightarrow> page) \<Rightarrow> u64 \<Rightarrow> u64 \<Rightarrow> gaddr set \<Rightarrow> page \<Rightarrow> bool" where
  "dsm_inner_ok m base nid R p \<longleftrightarrow> inner_ok p \<and> (\<forall>x \<in> set (inner_keys p). min_limit p \<le> x \<and> x \<le> max_limit p) \<and>
     (\<forall>i \<le> count p. nodeID (children p ! i) = nid \<longrightarrow> children p ! i \<in> R \<and>
        level (page_at m base (children p ! i)) < level p \<and>
        min_limit (page_at m base (children p ! i)) = child_min p i \<and>
        max_limit (page_at m base (children p ! i)) = child_max p i)"

definition dsm_leaf_ok :: "gaddr \<Rightarrow> page \<Rightarrow> bool" where
  "dsm_leaf_ok g p \<longleftrightarrow> ptype p = BTreeLeaf \<and> leaf_ok p \<and> leaf_in_limits p \<and> remote_address p = g"

definition dsm_ok :: "(u64 \<Rightarrow> page) \<Rightarrow> u64 \<Rightarrow> u64 \<Rightarrow> gaddr set \<Rightarrow> bool" where
  "dsm_ok m base nid R \<longleftrightarrow>
     (\<forall>g \<in> R. nodeID g = nid \<and> level (page_at m base g) < 256 \<and>
        (if ptype (page_at m base g) = BTreeInner then dsm_inner_ok m base nid R (page_at m base g)
         else dsm_leaf_ok g (page_at m base g))) \<and>
     (\<forall>g \<in> R. \<forall>h \<in> R. \<forall>k. ptype (page_at m base g) = BTreeLeaf \<longrightarrow> ptype (page_at m base h) = BTreeLeaf \<longrightarrow>
        rangeValid (page_at m base g) k \<longrightarrow> rangeValid (page_at m base h) k \<longrightarrow> g = h)"

text \<open>What the leaves of the region hold.\<close>

definition region_has :: "(u64 \<Rightarrow> page) \<Rightarrow> u64 \<Rightarrow> gaddr set \<Rightarrow> u64 \<Rightarrow> u64 \<Rightarrow> bool" where
  "region_has m base R k v \<longleftrightarrow>
     (\<exists>g \<in> R. ptype (page_at m base g) = BTreeLeaf \<and> leaf_map (page_at m base g) k = Some v)"

definition off_node :: "(u64 \<Rightarrow> page) \<Rightarrow> u64 \<Rightarrow> u64 \<Rightarrow> gaddr set \<Rightarrow> gaddr \<Rightarrow> bool" where
  "off_node m base nid R h \<longleftrightarrow> nodeID h \<noteq> nid \<and> (\<exists>q \<in> R. ptype (page_at m base q) = BTreeInner \<and> h \<in> set (inner_children (page_at m base q)))"

lemma routed_range:
  assumes "inner_ok p" "\<forall>x \<in> set (inner_keys p). min_limit p \<le> x \<and> x \<le> max_limit p"
    and c: "min_limit c = child_min p (inner_lowerBound p k)" "max_limit c = child_max p (inner_lowerBound p k)"
  shows "rangeValid c k \<longleftrightarrow> rangeValid p k"
proof -
  define b where "b = inner_lowerBound p k"
  note rank = inner_lowerBound_rank [OF assms(1), of k, folded b_def]
  have key: "inner_keys p ! i \<in> set (inner_keys p)" if "i < count p" for i
    using that length_inner_keys [OF assms(1)] by (intro nth_mem) simp
  have nth: "keys p ! i = inner_keys p ! i" if "i < count p" for i
    using that by (simp add: inner_keys_def)
  have lo: "min_limit c = (if b = 0 then min_limit p else inner_keys p ! (b - 1))"
    using rank c(1) nth [of "b - 1"] by (auto simp: child_min_def b_def [symmetric])
  have hi: "max_limit c = (if b = count p then max_limit p else inner_keys p ! b)"
    using rank c(2) nth [of b] by (auto simp: child_max_def b_def [symmetric])
  have l: "inner_keys p ! (b - 1) < k" "min_limit p < k" if "0 < b"
  proof -
    show s: "inner_keys p ! (b - 1) < k" using rank that by simp
    have "inner_keys p ! (b - 1) \<in> set (inner_keys p)" using rank that by (intro key) linarith
    then have "min_limit p \<le> inner_keys p ! (b - 1)" using assms(2) by blast
    then show "min_limit p < k" using s by (rule le_less_trans)
  qed
  have h: "k \<le> inner_keys p ! b" "k \<le> max_limit p" if "b \<noteq> count p"
  proof -
    have bc: "b < count p" using rank that by simp
    show s: "k \<le> inner_keys p ! b" using rank bc by blast
    have "inner_keys p ! b \<le> max_limit p" using assms(2) key [OF bc] by blast
    with s show "k \<le> max_limit p" by (rule order_trans)
  qed
  show ?thesis using l h by (cases "b = 0"; cases "b = count p") (auto simp: rangeValid_def lo hi KEY_MIN_def)
qed

lemma dsm_walk_correct:
  assumes "dsm_ok m base nid R" "g \<in> R" "level (page_at m base g) < n"
  shows "(\<exists>h. dsm_walk n m base nid k g = Inr (Inl h) \<and> off_node m base nid R h) \<or>
    (\<exists>l \<in> R. dsm_walk n m base nid k g = Inr (Inr (base + offset l)) \<and> dsm_leaf_ok l (page_at m base l) \<and>
      (rangeValid (page_at m base l) k \<longleftrightarrow> rangeValid (page_at m base g) k))"
  using assms(2,3)
proof (induction n arbitrary: g)
  case (Suc n)
  define p where "p = page_at m base g"
  have ok: "nodeID g = nid" "if ptype p = BTreeInner then dsm_inner_ok m base nid R p else dsm_leaf_ok g p"
    using assms(1) Suc.prems(1) unfolding dsm_ok_def p_def by blast+
  show ?case
  proof (cases "ptype p = BTreeInner")
    case False
    then show ?thesis using ok(2) Suc.prems(1) by (intro disjI2 bexI [of _ g]) (simp_all add: p_def)
  next
    case True
    then have inn: "dsm_inner_ok m base nid R p" using ok(2) by simp
    define i where "i = inner_lowerBound p k"
    define c where "c = children p ! i"
    have io: "inner_ok p" "i \<le> count p" using inn inner_lowerBound_rank [of p k] by (simp_all add: dsm_inner_ok_def i_def)
    have cin: "c \<in> set (inner_children p)"
    proof -
      have "inner_children p ! i = c" using io by (simp add: inner_children_def inner_ok_def c_def)
      then show ?thesis using io by (metis length_inner_children Suc_eq_plus1 le_imp_less_Suc nth_mem)
    qed
    have step: "dsm_walk (Suc n) m base nid k g = (if nodeID c \<noteq> nid then Inr (Inl c) else dsm_walk n m base nid k c)"
      using True by (simp add: p_def c_def i_def Let_def)
    show ?thesis
    proof (cases "nodeID c = nid")
      case False
      then have "off_node m base nid R c" using cin Suc.prems(1) True by (auto simp: off_node_def p_def)
      then show ?thesis using step False by simp
    next
      case same: True
      then have C: "c \<in> R" "level (page_at m base c) < level p" "min_limit (page_at m base c) = child_min p i"
        "max_limit (page_at m base c) = child_max p i"
        using inn io(2) unfolding dsm_inner_ok_def c_def by blast+
      have "rangeValid (page_at m base c) k = rangeValid p k"
        by (rule routed_range) (use inn C(3,4) in \<open>auto simp: dsm_inner_ok_def i_def\<close>)
      moreover have "level (page_at m base c) < n" using C(2) Suc.prems(2) by (simp add: p_def)
      ultimately show ?thesis using Suc.IH [OF C(1)] step same by (simp add: p_def)
    qed
  qed
qed simp

lemma dsm_walk_root:
  assumes "dsm_ok m base (nodeID root) R" "root \<in> R"
  obtains h where "dsm_walk dsm_fuel m base (nodeID root) k root = Inr (Inl h)" "off_node m base (nodeID root) R h"
  | l where "l \<in> R" "dsm_walk dsm_fuel m base (nodeID root) k root = Inr (Inr (base + offset l))"
    "dsm_leaf_ok l (page_at m base l)" "rangeValid (page_at m base l) k \<longleftrightarrow> rangeValid (page_at m base root) k"
proof -
  have "level (page_at m base root) < dsm_fuel" using assms by (simp add: dsm_ok_def dsm_fuel_def)
  from dsm_walk_correct [OF assms this, of k] that show ?thesis by blast
qed

text \<open>The leaf that takes a key decides what the region holds for it.\<close>

lemma region_leaf:
  assumes ok: "dsm_ok m base nid R" and l: "l \<in> R" "dsm_leaf_ok l (page_at m base l)" "rangeValid (page_at m base l) k"
  shows "region_has m base R k v \<longleftrightarrow> leaf_map (page_at m base l) k = Some v"
proof
  assume "region_has m base R k v"
  then obtain g where g: "g \<in> R" "ptype (page_at m base g) = BTreeLeaf" "leaf_map (page_at m base g) k = Some v"
    by (auto simp: region_has_def)
  have "dsm_leaf_ok g (page_at m base g)" using ok g(1,2) unfolding dsm_ok_def by force
  then have "rangeValid (page_at m base g) k"
    using g(3) dom_leaf_map [of "page_at m base g"] unfolding dsm_leaf_ok_def leaf_in_limits_def by blast
  moreover have "ptype (page_at m base l) = BTreeLeaf" using l(2) by (simp add: dsm_leaf_ok_def)
  ultimately have "g = l" using ok g(1,2) l(1,3) unfolding dsm_ok_def by blast
  then show "leaf_map (page_at m base l) k = Some v" using g(3) by simp
qed (use l in \<open>auto simp: region_has_def dsm_leaf_ok_def\<close>)

lemma page_address_inject:
  "nodeID g = nodeID h \<Longrightarrow> base + offset g = base + offset h \<Longrightarrow> g = (h :: gaddr)"
  by (simp add: nodeID_offset_inject)

text \<open>Storing a changed leaf.\<close>

lemma put_leaf:
  assumes ok: "dsm_ok m base nid R" and l: "l \<in> R" "dsm_leaf_ok l (page_at m base l)" "rangeValid (page_at m base l) k"
    and p: "dsm_leaf_ok l p" "level p = level (page_at m base l)" "min_limit p = min_limit (page_at m base l)"
      "max_limit p = max_limit (page_at m base l)" "leaf_map p = (leaf_map (page_at m base l))(k := r)"
  shows "dsm_ok (m(base + offset l := p)) base nid R"
    and "\<And>j v. region_has (m(base + offset l := p)) base R j v \<longleftrightarrow> (if j = k then r = Some v else region_has m base R j v)"
proof -
  define m' where "m' = m(base + offset l := p)"
  have nid: "nodeID g = nid" if "g \<in> R" for g using ok that unfolding dsm_ok_def by blast
  have at: "page_at m' base g = (if g = l then p else page_at m base g)" if "g \<in> R" for g
    using page_address_inject [of g l base] nid [OF that] nid [OF l(1)] by (auto simp: m'_def)
  have pt: "ptype p = BTreeLeaf" "ptype (page_at m base l) = BTreeLeaf" using p(1) l(2) by (simp_all add: dsm_leaf_ok_def)
  have frame: "level (page_at m' base g) = level (page_at m base g) \<and> min_limit (page_at m' base g) = min_limit (page_at m base g) \<and>
      max_limit (page_at m' base g) = max_limit (page_at m base g) \<and> ptype (page_at m' base g) = ptype (page_at m base g)" if "g \<in> R" for g
    using at [OF that] p(2-4) pt by simp
  have rv: "rangeValid (page_at m' base g) = rangeValid (page_at m base g)" if "g \<in> R" for g
    using frame [OF that] by (intro rangeValid_limits) simp_all
  have inn: "dsm_inner_ok m' base nid R q" if q: "dsm_inner_ok m base nid R q" for q
    using q frame unfolding dsm_inner_ok_def by metis
  have ok': "dsm_ok m' base nid R"
    unfolding dsm_ok_def
  proof (rule conjI; intro ballI allI impI)
    fix g assume g: "g \<in> R"
    have "level (page_at m base g) < 256" "if ptype (page_at m base g) = BTreeInner then dsm_inner_ok m base nid R (page_at m base g)
         else dsm_leaf_ok g (page_at m base g)" using ok g unfolding dsm_ok_def by blast+
    then show "nodeID g = nid \<and> level (page_at m' base g) < 256 \<and>
        (if ptype (page_at m' base g) = BTreeInner then dsm_inner_ok m' base nid R (page_at m' base g) else dsm_leaf_ok g (page_at m' base g))"
      using nid [OF g] frame [OF g] at [OF g] inn p(1) pt by (auto split: if_splits)
  next
    fix g h j assume g: "g \<in> R" "h \<in> R" and j: "ptype (page_at m' base g) = BTreeLeaf" "ptype (page_at m' base h) = BTreeLeaf"
      "rangeValid (page_at m' base g) j" "rangeValid (page_at m' base h) j"
    have "ptype (page_at m base g) = BTreeLeaf" "ptype (page_at m base h) = BTreeLeaf" "rangeValid (page_at m base g) j" "rangeValid (page_at m base h) j"
      using j frame [OF g(1)] frame [OF g(2)] rv [OF g(1)] rv [OF g(2)] by simp_all
    then show "g = h" using ok g unfolding dsm_ok_def by blast
  qed
  then show "dsm_ok (m(base + offset l := p)) base nid R" by (simp add: m'_def)
  have lm: "leaf_map (page_at m' base l) = (leaf_map (page_at m base l))(k := r)" using at [OF l(1)] p(5) by simp
  show "region_has (m(base + offset l := p)) base R j v \<longleftrightarrow> (if j = k then r = Some v else region_has m base R j v)" for j v
  proof (cases "j = k")
    case True
    have "region_has m' base R k v \<longleftrightarrow> leaf_map (page_at m' base l) k = Some v"
      by (rule region_leaf [OF ok' l(1)]) (use at [OF l(1)] p(1) rv [OF l(1)] l(3) in simp_all)
    then show ?thesis using True lm by (simp add: m'_def)
  next
    case False
    have "leaf_map (page_at m' base g) j = leaf_map (page_at m base g) j" if "g \<in> R" for g
      using at [OF that] lm False p(5) by simp
    then have "region_has m' base R j v \<longleftrightarrow> region_has m base R j v" using frame by (auto simp: region_has_def)
    then show ?thesis using False by (simp add: m'_def)
  qed
qed

subsection \<open>The operations on a region\<close>

lemma leaf_op_fields:
  "ptype (snd (leaf_insert p k v)) = ptype p" "level (snd (leaf_insert p k v)) = level p"
  "min_limit (snd (leaf_insert p k v)) = min_limit p" "max_limit (snd (leaf_insert p k v)) = max_limit p"
  "remote_address (snd (leaf_insert p k v)) = remote_address p"
  "ptype (snd (leaf_remove p k)) = ptype p" "level (snd (leaf_remove p k)) = level p"
  "min_limit (snd (leaf_remove p k)) = min_limit p" "max_limit (snd (leaf_remove p k)) = max_limit p"
  "remote_address (snd (leaf_remove p k)) = remote_address p"
  by (simp_all add: leaf_insert_def leaf_remove_def Let_def)

text \<open>The update of \<open>Btree.h\<close> does not mark the leaf dirty, unlike \<open>BTreeLeaf::update\<close>.\<close>

lemma stored_value:
  fixes v :: u64
  assumes "leaf_ok p" "leaf_in_limits p" "leaf_map p k \<noteq> None"
  defines "q \<equiv> p\<lparr>data := (data p)[leaf_lowerBound p k := (fst (data p ! leaf_lowerBound p k), v)]\<rparr>"
  shows "leaf_ok q" "leaf_in_limits q" "leaf_map q = (leaf_map p)(k \<mapsto> v)"
proof -
  have hit: "leaf_lowerBound p k < count p \<and> fst (data p ! leaf_lowerBound p k) = k"
    using leaf_hit [OF assms(1), of k] assms(3) by auto
  then have q: "snd (leaf_update p k v) = q\<lparr>dirty := True\<rparr>" by (simp add: leaf_update_def Let_def q_def)
  note u = leaf_update_correct [OF assms(1), of k v, unfolded q]
  have e: "leaf_entries (q\<lparr>dirty := True\<rparr>) = leaf_entries q" "leaf_keys (q\<lparr>dirty := True\<rparr>) = leaf_keys q"
    by (simp_all add: leaf_entries_def leaf_keys_def)
  show "leaf_ok q" using u e by (simp add: leaf_ok_def)
  show "leaf_map q = (leaf_map p)(k \<mapsto> v)" using u e assms(3) by (auto simp: leaf_map_def domIff split: if_splits)
  have "leaf_keys q = leaf_keys p" using u e assms(3) by (auto simp: domIff split: if_splits)
  moreover have "rangeValid q = rangeValid p" by (rule rangeValid_limits) (simp_all add: q_def)
  ultimately show "leaf_in_limits q" using assms(2) by (simp add: leaf_in_limits_def)
qed

text \<open>What an operation leaves behind when it reached the leaf of the key.\<close>

definition region_becomes :: "(u64 \<Rightarrow> page) \<Rightarrow> (u64 \<Rightarrow> page) \<Rightarrow> u64 \<Rightarrow> u64 \<Rightarrow> gaddr set \<Rightarrow> u64 \<Rightarrow> u64 option \<Rightarrow> bool" where
  "region_becomes m m' base nid R k r \<longleftrightarrow> dsm_ok m' base nid R \<and>
     (\<forall>j v. region_has m' base R j v \<longleftrightarrow> (if j = k then r = Some v else region_has m base R j v))"

lemma region_becomesI:
  assumes "dsm_ok m base nid R" "l \<in> R" "dsm_leaf_ok l (page_at m base l)" "rangeValid (page_at m base l) k"
    and "dsm_leaf_ok l p" "level p = level (page_at m base l)" "min_limit p = min_limit (page_at m base l)"
      "max_limit p = max_limit (page_at m base l)" "leaf_map p = (leaf_map (page_at m base l))(k := r)"
  shows "region_becomes m (m(base + offset l := p)) base nid R k r"
  using put_leaf [OF assms] by (simp add: region_becomes_def)

lemma dsm_leaf_ops:
  assumes l: "dsm_leaf_ok l p" "rangeValid p k"
  shows "count p \<noteq> max_leaf_entries \<Longrightarrow> dsm_leaf_ok l (snd (leaf_insert p k v)) \<and> leaf_map (snd (leaf_insert p k v)) = (leaf_map p)(k \<mapsto> v) \<and>
      (fst (leaf_insert p k v) \<longleftrightarrow> leaf_map p k = None)"
    and "dsm_leaf_ok l (snd (leaf_remove p k)) \<and> leaf_map (snd (leaf_remove p k)) = (leaf_map p)(k := None) \<and>
      (fst (leaf_remove p k) \<longleftrightarrow> leaf_map p k \<noteq> None)"
  using l leaf_insert_correct [of p k v] leaf_insert_limits [of p k v] leaf_remove_correct [of p k] leaf_remove_limits [of p k]
  by (auto simp: dsm_leaf_ok_def leaf_op_fields leaf_isFull_def)

subsection \<open>Properties\<close>

text \<open>A region of node 1 at 0x100000: an inner page above two leaves.\<close>

definition example_left :: page where
  "example_left = example_leaf\<lparr>remote_address := 0x8000001, max_limit := 10\<rparr>"

definition example_right :: page where
  "example_right = (mk_BTreeLeaf 0xC000001)\<lparr>min_limit := 10, count := 1, data := (12, 120) # replicate 58 (0, 0)\<rparr>"

definition example_top :: page where
  "example_top = (mk_BTreeInner 1 0x4000001)\<lparr>count := 1, keys := 10 # replicate 59 0,
      children := [0x8000001, 0xC000001] @ replicate 58 0\<rparr>"

definition example_region_mem :: "u64 \<Rightarrow> page" where
  "example_region_mem = (\<lambda>_. zero_page)(0x100400 := example_top, 0x100800 := example_left, 0x100C00 := example_right)"

abbreviation example_addrs :: "gaddr set" where
  "example_addrs \<equiv> {0x4000001, 0x8000001, 0xC000001}"

lemma example_addrs:
  "nodeID 0x4000001 = 1" "offset 0x4000001 = 0x400" "nodeID 0x8000001 = 1" "offset 0x8000001 = 0x800"
  "nodeID 0xC000001 = 1" "offset 0xC000001 = 0xC00"
  by (simp_all add: nodeID_def offset_def drop_bit_eq_div)

lemma example_pages: "example_region_mem 0x100400 = example_top" "example_region_mem 0x100800 = example_left"
  "example_region_mem 0x100C00 = example_right"
  by (simp_all add: example_region_mem_def)

lemma example_top_fields: "ptype example_top = BTreeInner" "level example_top = 1" "count example_top = 1" "min_limit example_top = 0"
  "max_limit example_top = -1" "inner_keys example_top = [10]" "keys example_top ! 0 = 10"
  "children example_top ! 0 = 0x8000001" "children example_top ! Suc 0 = 0xC000001" "inner_ok example_top"
  "inner_children example_top = [0x8000001, 0xC000001]"
  by (simp_all add: example_top_def inner_keys_def inner_children_def mk_BTreeInner_def KEY_MIN_def KEY_MAX_def inner_ok_def)

lemma example_left_fields: "ptype example_left = BTreeLeaf" "level example_left = 0" "min_limit example_left = 0"
  "max_limit example_left = 10" "dsm_leaf_ok 0x8000001 example_left" "leaf_map example_left = [5 \<mapsto> 50, 7 \<mapsto> 70, 9 \<mapsto> 90]"
proof -
  have e: "leaf_entries example_left = [(5, 50), (7, 70), (9, 90)]" by (simp add: example_left_def leaf_entries_def example_leaf_def)
  show f: "ptype example_left = BTreeLeaf" "level example_left = 0" "min_limit example_left = 0" "max_limit example_left = 10"
    by (simp_all add: example_left_def example_leaf_def mk_BTreeLeaf_def KEY_MIN_def)
  show "leaf_map example_left = [5 \<mapsto> 50, 7 \<mapsto> 70, 9 \<mapsto> 90]" by (simp add: leaf_map_def e fun_eq_iff)
  show "dsm_leaf_ok 0x8000001 example_left"
    using f by (simp add: dsm_leaf_ok_def leaf_ok_def leaf_in_limits_def leaf_keys_def e rangeValid_def)
      (simp add: example_left_def example_leaf_def)
qed

lemma example_right_fields: "ptype example_right = BTreeLeaf" "level example_right = 0" "min_limit example_right = 10"
  "max_limit example_right = -1" "dsm_leaf_ok 0xC000001 example_right" "leaf_map example_right = [12 \<mapsto> 120]" "\<not> leaf_isFull example_right"
proof -
  have e: "leaf_entries example_right = [(12, 120)]" by (simp add: example_right_def leaf_entries_def)
  show f: "ptype example_right = BTreeLeaf" "level example_right = 0" "min_limit example_right = 10" "max_limit example_right = -1"
    by (simp_all add: example_right_def mk_BTreeLeaf_def KEY_MAX_def)
  show "leaf_map example_right = [12 \<mapsto> 120]" by (simp add: leaf_map_def e fun_eq_iff)
  show "dsm_leaf_ok 0xC000001 example_right"
    using f by (simp add: dsm_leaf_ok_def leaf_ok_def leaf_in_limits_def leaf_keys_def e rangeValid_def)
      (simp add: example_right_def mk_BTreeLeaf_def)
  show "\<not> leaf_isFull example_right" by (simp add: leaf_isFull_def example_right_def)
qed

lemmas example_region_simps = example_addrs example_pages example_top_fields example_left_fields example_right_fields

lemma example_region_ok: "dsm_ok example_region_mem 0x100000 (nodeID 0x4000001) example_addrs"
proof -
  have "dsm_inner_ok example_region_mem 0x100000 1 example_addrs example_top"
    unfolding dsm_inner_ok_def
  proof (intro conjI allI impI)
    fix i assume "i \<le> count example_top" "nodeID (children example_top ! i) = 1"
    then have i: "i = 0 \<or> i = Suc 0" by (auto simp: example_top_fields)
    then show "children example_top ! i \<in> example_addrs" "level (page_at example_region_mem 0x100000 (children example_top ! i)) < level example_top"
      "min_limit (page_at example_region_mem 0x100000 (children example_top ! i)) = child_min example_top i"
      "max_limit (page_at example_region_mem 0x100000 (children example_top ! i)) = child_max example_top i"
      by (auto simp: example_region_simps child_min_def child_max_def)
  qed (simp_all add: example_top_fields)
  moreover have "\<not> (rangeValid example_left k \<and> rangeValid example_right k)" for k
    by (auto simp: rangeValid_def example_region_simps KEY_MIN_def)
  ultimately show ?thesis unfolding dsm_ok_def by (auto simp: example_region_simps)
qed

lemma example_region_has: "region_has example_region_mem 0x100000 example_addrs 7 v \<longleftrightarrow> v = 70"
  unfolding region_has_def by (auto simp: example_region_simps)

lemma example_region_root: "0x4000001 \<in> example_addrs" "rangeValid (page_at example_region_mem 0x100000 0x4000001) k"
  "\<not> off_node example_region_mem 0x100000 (nodeID 0x4000001) example_addrs h"
  by (auto simp: rangeValid_def off_node_def example_region_simps KEY_MIN_def word_gt_0)

text \<open>C35: \<open>lookup\<close> on the region of a node ends, and answers 0 with a child of the region that
  lies on another node, or -1 exactly when the root of the region does not take the key, or 1 with
  the value that the region holds for the key, or 2 when it holds none.\<close>

theorem dsm_lookup_spec:
  assumes "dsm_ok m base (nodeID root) R" "root \<in> R"
  shows "(\<exists>h. dsm_lookup m base root k = Inr (0, None, Some h) \<and> off_node m base (nodeID root) R h) \<or>
    (\<not> rangeValid (page_at m base root) k \<and> dsm_lookup m base root k = Inr (-1, None, None)) \<or>
    (rangeValid (page_at m base root) k \<and>
      ((\<exists>v. region_has m base R k v \<and> dsm_lookup m base root k = Inr (1, Some v, None)) \<or>
       ((\<nexists>v. region_has m base R k v) \<and> dsm_lookup m base root k = Inr (2, None, None))))"
proof (rule dsm_walk_root [OF assms, of k])
  fix l assume l: "l \<in> R" "dsm_walk dsm_fuel m base (nodeID root) k root = Inr (Inr (base + offset l))"
    "dsm_leaf_ok l (page_at m base l)" "rangeValid (page_at m base l) k \<longleftrightarrow> rangeValid (page_at m base root) k"
  have ok: "leaf_ok (page_at m base l)" using l(3) by (simp add: dsm_leaf_ok_def)
  have eq: "dsm_lookup m base root k = (if \<not> rangeValid (page_at m base root) k then Inr (-1, None, None)
      else case leaf_map (page_at m base l) k of Some v \<Rightarrow> Inr (1, Some v, None) | None \<Rightarrow> Inr (2, None, None))"
    using leaf_find_map [OF ok, of k] l(2,4) by (auto simp: dsm_lookup_def leaf_find_def Let_def split: option.splits if_splits)
  show ?thesis using region_leaf [OF assms(1) l(1,3)] l(4) eq by (cases "leaf_map (page_at m base l) k") auto
qed (auto simp: dsm_lookup_def)

theorem dsm_lookup_spec_witness:
  "dsm_lookup example_region_mem 0x100000 0x4000001 7 = Inr (1, Some 70, None)"
  using dsm_lookup_spec [OF example_region_ok example_region_root(1), of 7] example_region_root(2,3) example_region_has by auto

text \<open>\<open>update\<close> and \<open>remove\<close> on the region of a node either stop at a child on another
  node (0) or refuse a key that the root of the region does not take (-1), in both cases without any
  change, or reach the leaf of the key: the region then stays well formed and holds what a map holds
  after the operation, the code is 1 or 2 as the key was present or absent, and, where something
  changed, \<open>root\<close> becomes the address of the leaf.\<close>

lemma dsm_modify:
  assumes "dsm_ok m base (nodeID root) R" "root \<in> R"
  shows "(\<exists>h. off_node m base (nodeID root) R h \<and> dsm_update m base root k v = Inr (0, root, m) \<and> dsm_remove m base root k = Inr (0, root, m)) \<or>
    (\<not> rangeValid (page_at m base root) k \<and> dsm_update m base root k v = Inr (-1, root, m) \<and> dsm_remove m base root k = Inr (-1, root, m)) \<or>
    (\<exists>l \<in> R. \<exists>m1 m2. if \<exists>w. region_has m base R k w
      then dsm_update m base root k v = Inr (1, l, m1) \<and> region_becomes m m1 base (nodeID root) R k (Some v) \<and>
        dsm_remove m base root k = Inr (1, l, m2) \<and> region_becomes m m2 base (nodeID root) R k None
      else dsm_update m base root k v = Inr (2, root, m) \<and> dsm_remove m base root k = Inr (2, l, m2) \<and>
        region_becomes m m2 base (nodeID root) R k None)"
proof (rule dsm_walk_root [OF assms, of k])
  fix l assume l: "l \<in> R" "dsm_walk dsm_fuel m base (nodeID root) k root = Inr (Inr (base + offset l))"
    "dsm_leaf_ok l (page_at m base l)" "rangeValid (page_at m base l) k \<longleftrightarrow> rangeValid (page_at m base root) k"
  define p where "p = page_at m base l"
  have lf: "leaf_ok p" "leaf_in_limits p" "remote_address p = l" "ptype p = BTreeLeaf" using l(3) by (simp_all add: dsm_leaf_ok_def p_def)
  show ?thesis
  proof (cases "rangeValid p k")
    case False
    then show ?thesis using l(2,4) by (simp add: dsm_update_def dsm_remove_def p_def Let_def)
  next
    case True
    note bec = region_becomesI [OF assms(1) l(1,3), of k, folded p_def, OF True]
    note rem = dsm_leaf_ops(2) [OF l(3) [folded p_def] True]
    define m2 where "m2 = m(base + offset l := snd (leaf_remove p k))"
    have rb: "region_becomes m m2 base (nodeID root) R k None"
      unfolding m2_def by (rule bec) (use rem in \<open>simp_all add: leaf_op_fields\<close>)
    have r: "dsm_remove m base root k = Inr (if leaf_map p k \<noteq> None then 1 else 2, l, m2)"
      using l(2) True rem lf(3) by (simp add: dsm_remove_def Let_def m2_def p_def [symmetric] leaf_op_fields case_prod_beta)
    have has: "(\<exists>w. region_has m base R k w) \<longleftrightarrow> leaf_map p k \<noteq> None"
      using region_leaf [OF assms(1) l(1,3), of k] True by (auto simp: p_def)
    define q where "q = p\<lparr>data := (data p)[leaf_lowerBound p k := (fst (data p ! leaf_lowerBound p k), v)]\<rparr>"
    have u: "dsm_update m base root k v = (if leaf_map p k \<noteq> None then Inr (1, l, m(base + offset l := q)) else Inr (2, root, m))"
      using l(2) True leaf_hit [OF lf(1), of k] lf(3) by (auto simp: dsm_update_def Let_def p_def [symmetric] q_def)
    have ub: "region_becomes m (m(base + offset l := q)) base (nodeID root) R k (Some v)" if h: "leaf_map p k \<noteq> None"
    proof (rule bec)
      note s = stored_value [OF lf(1,2) h, of v, folded q_def]
      show "dsm_leaf_ok l q" using s lf by (simp add: dsm_leaf_ok_def) (simp add: q_def)
      show "leaf_map q = (leaf_map p)(k \<mapsto> v)" by (rule s(3))
    qed (simp_all add: q_def)
    show ?thesis using l(1) rb r u ub has by (intro disjI2 bexI [of _ l]) auto
  qed
qed (auto simp: dsm_update_def dsm_remove_def)

text \<open>\<open>insert\<close> on the region of a node stops at a child on another node (0), refuses, without
  any change, a key that the root of the region does not take or whose leaf is full (-1), even when
  that leaf already holds the key, or stores the value in the leaf of the key: 1 for a new key, 2
  for an overwritten one.\<close>

lemma dsm_insert_leaf:
  assumes "dsm_ok m base (nodeID root) R" "root \<in> R"
  shows "(\<exists>h. off_node m base (nodeID root) R h \<and> dsm_insert m base root k v = Inr (0, root, m)) \<or>
    (\<not> rangeValid (page_at m base root) k \<and> dsm_insert m base root k v = Inr (-1, root, m)) \<or>
    (\<exists>l \<in> R. rangeValid (page_at m base l) k \<and>
      (if leaf_isFull (page_at m base l) then dsm_insert m base root k v = Inr (-1, root, m)
       else \<exists>m'. dsm_insert m base root k v = Inr (if \<exists>w. region_has m base R k w then 2 else 1, l, m') \<and>
         region_becomes m m' base (nodeID root) R k (Some v)))"
proof (rule dsm_walk_root [OF assms, of k])
  fix l assume l: "l \<in> R" "dsm_walk dsm_fuel m base (nodeID root) k root = Inr (Inr (base + offset l))"
    "dsm_leaf_ok l (page_at m base l)" "rangeValid (page_at m base l) k \<longleftrightarrow> rangeValid (page_at m base root) k"
  define p where "p = page_at m base l"
  have ra: "remote_address p = l" using l(3) by (simp add: dsm_leaf_ok_def p_def)
  consider "\<not> rangeValid p k" | "rangeValid p k" "leaf_isFull p" | "rangeValid p k" "\<not> leaf_isFull p" by blast
  then show ?thesis
  proof cases
    case 1
    then show ?thesis using l(2,4) by (simp add: dsm_insert_def p_def Let_def)
  next
    case 2
    then show ?thesis using l(1,2) by (intro disjI2 bexI [of _ l]) (simp_all add: dsm_insert_def p_def [symmetric] leaf_isFull_def Let_def)
  next
    case 3
    define m' where "m' = m(base + offset l := snd (leaf_insert p k v))"
    have nf: "count p \<noteq> max_leaf_entries" using 3(2) by (simp add: leaf_isFull_def)
    note ins = dsm_leaf_ops(1) [OF l(3) [folded p_def] 3(1) nf, of v]
    have b: "region_becomes m m' base (nodeID root) R k (Some v)"
      unfolding m'_def using ins by (intro region_becomesI [OF assms(1) l(1,3)]) (use 3(1) in \<open>simp_all add: leaf_op_fields p_def\<close>)
    have "dsm_insert m base root k v = Inr (if leaf_map p k = None then 1 else 2, l, m')"
      using l(2) 3(1) nf ins ra by (auto simp: dsm_insert_def Let_def p_def [symmetric] m'_def split: prod.splits)
    moreover have "(\<exists>w. region_has m base R k w) \<longleftrightarrow> leaf_map p k \<noteq> None"
      using region_leaf [OF assms(1) l(1,3), of k] 3(1) by (auto simp: p_def)
    ultimately show ?thesis using l(1) 3 b by (intro disjI2 bexI [of _ l]) (auto simp: p_def)
  qed
qed (auto simp: dsm_insert_def)

text \<open>C36: \<open>update\<close>, \<open>remove\<close> and \<open>insert\<close> on the region of a node either stop at a child on another
  node (0) or refuse a key that the root of the region does not take (-1), in both cases without any
  change, or reach the leaf of the key: the region then stays well formed and holds what a map holds
  after the operation, the code of \<open>update\<close> and \<open>remove\<close> is 1 or 2 as the key was present or absent, that of \<open>insert\<close> 2 or 1, and, where something
  changed, \<open>root\<close> becomes the address of the leaf. \<open>insert\<close> refuses a full leaf with -1, even when that leaf already holds the key.\<close>

theorem dsm_modify_spec:
  assumes "dsm_ok m base (nodeID root) R" "root \<in> R"
  shows "((\<exists>h. off_node m base (nodeID root) R h \<and> dsm_update m base root k v = Inr (0, root, m) \<and> dsm_remove m base root k = Inr (0, root, m)) \<or>
    (\<not> rangeValid (page_at m base root) k \<and> dsm_update m base root k v = Inr (-1, root, m) \<and> dsm_remove m base root k = Inr (-1, root, m)) \<or>
    (\<exists>l \<in> R. \<exists>m1 m2. if \<exists>w. region_has m base R k w
      then dsm_update m base root k v = Inr (1, l, m1) \<and> region_becomes m m1 base (nodeID root) R k (Some v) \<and>
        dsm_remove m base root k = Inr (1, l, m2) \<and> region_becomes m m2 base (nodeID root) R k None
      else dsm_update m base root k v = Inr (2, root, m) \<and> dsm_remove m base root k = Inr (2, l, m2) \<and>
        region_becomes m m2 base (nodeID root) R k None)) \<and>
   ((\<exists>h. off_node m base (nodeID root) R h \<and> dsm_insert m base root k v = Inr (0, root, m)) \<or>
    (\<not> rangeValid (page_at m base root) k \<and> dsm_insert m base root k v = Inr (-1, root, m)) \<or>
    (\<exists>l \<in> R. rangeValid (page_at m base l) k \<and>
      (if leaf_isFull (page_at m base l) then dsm_insert m base root k v = Inr (-1, root, m)
       else \<exists>m'. dsm_insert m base root k v = Inr (if \<exists>w. region_has m base R k w then 2 else 1, l, m') \<and>
         region_becomes m m' base (nodeID root) R k (Some v))))"
  using dsm_modify [OF assms] dsm_insert_leaf [OF assms] by (rule conjI)

theorem dsm_modify_spec_witness:
  "(\<exists>l m1 m2. dsm_update example_region_mem 0x100000 0x4000001 7 71 = Inr (1, l, m1) \<and>
     region_has m1 0x100000 example_addrs 7 71 \<and>
     dsm_remove example_region_mem 0x100000 0x4000001 7 = Inr (1, l, m2) \<and> \<not> region_has m2 0x100000 example_addrs 7 70) \<and>
   (\<exists>l m'. dsm_insert example_region_mem 0x100000 0x4000001 13 130 = Inr (1, l, m') \<and> region_has m' 0x100000 example_addrs 13 130)"
proof
  have "\<exists>w. region_has example_region_mem 0x100000 example_addrs 7 w" by (simp add: example_region_has)
  then show "\<exists>l m1 m2. dsm_update example_region_mem 0x100000 0x4000001 7 71 = Inr (1, l, m1) \<and>
     region_has m1 0x100000 example_addrs 7 71 \<and>
     dsm_remove example_region_mem 0x100000 0x4000001 7 = Inr (1, l, m2) \<and> \<not> region_has m2 0x100000 example_addrs 7 70"
    using dsm_modify_spec [OF example_region_ok example_region_root(1), of 7 71, THEN conjunct1] example_region_root(2,3)
    by (auto simp: region_becomes_def)
  have "\<nexists>w. region_has example_region_mem 0x100000 example_addrs 13 w"
    unfolding region_has_def by (auto simp: example_region_simps)
  moreover have "\<not> leaf_isFull (page_at example_region_mem 0x100000 l)" if "l \<in> example_addrs" "rangeValid (page_at example_region_mem 0x100000 l) 13"
    for l using that by (auto simp: example_region_simps example_right_fields(7) rangeValid_def KEY_MIN_def) (simp add: leaf_isFull_def example_left_def example_top_def example_leaf_def)+
  ultimately show "\<exists>l m'. dsm_insert example_region_mem 0x100000 0x4000001 13 130 = Inr (1, l, m') \<and> region_has m' 0x100000 example_addrs 13 130"
    using dsm_modify_spec [OF example_region_ok example_region_root(1), of 13 130, THEN conjunct2] example_region_root(2,3)
    by (auto simp: region_becomes_def)
qed

end
