(* ===== verification/Durability.thy ===== *)
theory Durability
  imports Flush TreeApi RemoteBtree
begin

text \<open>
  What survives the pool. \<open>destroy_tree\<close> flushes: afterwards the pages in the backend alone are
  the tree, and the one-sided functions of \<open>Btree.h\<close>, which walk that memory without any cache,
  find in it what the driver finds through the pool. \<open>reset_buffer_pool\<close>, in contrast, cuts the
  driver off from the tree.
\<close>

subsection \<open>Walking the pages at rest\<close>

text \<open>The memory of the backend as the one-sided functions see it, mapped at \<open>base\<close>.\<close>

definition region_of :: "page pstore \<Rightarrow> u64 \<Rightarrow> u64 \<Rightarrow> page" where
  "region_of b base a = ps_page b (a - base)"

lemma region_of_page [simp]: "region_of b base (base + offset g) = ps_page b (offset g)"
  by (simp add: region_of_def)

definition all_at_rest :: "view \<Rightarrow> page pstore \<Rightarrow> bool" where
  "all_at_rest W b \<longleftrightarrow> view_ok W \<and> vw_addrs W \<subseteq> ps_allocated b \<and> (\<forall>g \<in> vw_addrs W. at_rest (vw_nodes W) b g)"

lemma rest_page:
  assumes "all_at_rest W b" "g \<in> vw_addrs W"
  defines "q \<equiv> ps_page b (offset g)"
  shows "page_ok q" "bitmap q = 0" "\<And>m. node_of m q = vw_nodes W g" "nodeID g = 0"
    "ptype q \<noteq> BTreeInner \<Longrightarrow> ptype q = BTreeLeaf \<and> leaf_ok q \<and> vlevel (vw_nodes W g) = 0"
    "ptype q = BTreeInner \<Longrightarrow> vlevel (vw_nodes W g) = level q \<and> 0 < level q \<and> level q < 255"
proof -
  have "at_rest (vw_nodes W) b g" "g \<in> ps_allocated b" using assms(1,2) by (auto simp: all_at_rest_def)
  then have q: "page_ok q" "bitmap q = 0" "node_of (\<lambda>_. zero_page) q = vw_nodes W g" "nodeID g = 0"
    by (simp_all add: at_rest_def q_def Let_def ps_allocated_def)
  then show "page_ok q" "bitmap q = 0" "nodeID g = 0" by blast+
  show n: "node_of m q = vw_nodes W g" for m using node_of_at_rest [OF q(1,2), of m "\<lambda>_. zero_page"] q(3) by simp
  show "ptype q = BTreeLeaf \<and> leaf_ok q \<and> vlevel (vw_nodes W g) = 0" if "ptype q \<noteq> BTreeInner"
    using that q(1) by (simp add: page_ok_def q(3) [symmetric] node_of_def)
  show "vlevel (vw_nodes W g) = level q \<and> 0 < level q \<and> level q < 255" if "ptype q = BTreeInner"
    using that q(1) by (simp add: page_ok_def q(3) [symmetric] node_of_def)
qed

lemma rest_walk:
  assumes rest: "all_at_rest W b" and g: "g \<in> vw_addrs W" "vlevel (vw_nodes W g) < fuel"
  shows "dsm_walk fuel (region_of b base) base 0 k g = Inr (Inr (base + offset (vpath (vw_nodes W) (vlevel (vw_nodes W g)) k g)))"
  using g
proof (induction fuel arbitrary: g)
  case (Suc fuel)
  define q where "q = ps_page b (offset g)"
  note Q = rest_page [OF rest Suc.prems(1), folded q_def]
  show ?case
  proof (cases "ptype q = BTreeInner")
    case False
    then show ?thesis using Q(5) by (simp add: q_def [symmetric])
  next
    case True
    define i where "i = inner_lowerBound q k"
    define h where "h = children q ! i"
    have i: "i \<le> page.count q" "vroute (vw_nodes W g) k = i"
      using vroute_node_of(1) [OF Q(1) True, where k = k and m = "\<lambda>_. zero_page"]
        vroute_node_of(2) [OF Q(1) True, of k] Q(3) by (simp_all add: i_def)
    note l = vkids_length [OF Q(1) True, where m = "\<lambda>_. zero_page", unfolded Q(3)]
    have "\<not> swizzled h" using no_swizzled_kid [OF Q(1) True Q(2) i(1)] by (simp add: h_def)
    then have kid: "vkids (vw_nodes W g) ! i = h"
      using i(1) True page_ok_inner(1) [OF Q(1) True] Q(3) [of "\<lambda>_. zero_page", symmetric]
      by (simp add: vkids_node_of h_def inner_children_def unswz_def inner_ok_def)
    have "kids_ok (vw_nodes W) (vw_addrs W) (vw_nodes W g)"
      using rest Suc.prems(1) by (simp add: all_at_rest_def view_ok_def vtree_def)
    moreover have "i < length (vkids (vw_nodes W g))" using i(1) l by simp
    ultimately have h: "h \<in> vw_addrs W" "vlevel (vw_nodes W h) + 1 = vlevel (vw_nodes W g)"
      unfolding kids_ok_def kid [symmetric] by blast+
    have "nodeID h = 0" by (rule rest_page(4) [OF rest h(1)])
    moreover have "vpath (vw_nodes W) (vlevel (vw_nodes W g)) k g = vpath (vw_nodes W) (vlevel (vw_nodes W h)) k h"
      unfolding h(2) [symmetric] using i(2) kid by simp
    ultimately show ?thesis
      using Suc.IH [OF h(1)] h(2) Suc.prems(2) True by (simp add: q_def [symmetric] i_def [symmetric] h_def [symmetric] Let_def)
  qed
qed simp

lemma rest_lookup:
  assumes rest: "all_at_rest W b" and rr: "root_range W"
  shows "dsm_lookup (region_of b base) base (vw_root W) k =
    Inr (case abs_map W k of Some v \<Rightarrow> (1, Some v, None) | None \<Rightarrow> (2, None, None))"
proof -
  have ok: "view_ok W" and rt: "vw_root W \<in> vw_addrs W" using rest by (simp_all add: all_at_rest_def view_ok_def vtree_def)
  define l where "l = vleaf W k"
  define q where "q = ps_page b (offset l)"
  note V = vleaf_range [OF ok rr, of k, folded l_def]
  note Q = rest_page [OF rest V(1), folded q_def]
  note R = rest_page [OF rest rt]
  have lf: "ptype q = BTreeLeaf" "leaf_ok q" using Q(5,6) V(2) by (cases "ptype q = BTreeInner"; simp)+
  have "vlevel (vw_nodes W (vw_root W)) < dsm_fuel" using R(5,6) by (cases "ptype (ps_page b (offset (vw_root W))) = BTreeInner") (simp_all add: dsm_fuel_def)
  from rest_walk [OF rest rt this, of base k] have w: "dsm_walk dsm_fuel (region_of b base) base (nodeID (vw_root W)) k (vw_root W) =
      Inr (Inr (base + offset l))" using R(4) by (simp add: l_def vleaf_def)
  have n: "vw_nodes W l = LLeaf (min_limit q) (max_limit q) (leaf_entries q)"
    using Q(3) [of "\<lambda>_. zero_page"] lf(1) by (simp add: node_of_def)
  have "rangeValid q k" using V(3) by (simp add: rangeValid_in_range vrange_def n)
  moreover have "abs_map W k = leaf_map q k" by (simp add: abs_map_def l_def [symmetric] n leaf_map_def)
  ultimately show ?thesis
    using leaf_find_map [OF lf(2), of k]
    by (cases "leaf_map q k") (auto simp: dsm_lookup_def w q_def [symmetric] leaf_find_def Let_def split: if_splits)
qed

lemma flush_at_rest:
  assumes inv: "cache_inv E W s" and sr: "super_root s = vw_super W"
  obtains s' where "flush_all s = Inr s'" "cache_inv E W s'" "super_root s' = vw_super W" "all_at_rest W (be s')"
    "cache.more s' = cache.more s" "flushed (pool_set s) s s'"
proof -
  from flush_all_inv [OF inv] obtain s' where s': "flush_all s = Inr s'" "cache_inv E W s'" "flushed (pool_set s) s s'"
    "\<forall>g \<in> vw_addrs W. at_rest (vw_nodes W) (be s') g" by blast
  note r = cache_invD(6) [OF s'(2)]
  have "super_root s' = vw_super W" using s'(3) sr by (cases s; cases s') (simp add: flushed_def)
  moreover have "all_at_rest W (be s')" using residency_view_ok [OF r] residencyD(3) [OF r] s'(4) by (simp add: all_at_rest_def)
  ultimately show ?thesis using s' by (intro that [of s']) (simp_all add: flushed_def)
qed

subsection \<open>Slots handed out\<close>

text \<open>The slots that \<open>n\<close> successive searches hand out.\<close>

fun take_slots :: "env \<Rightarrow> nat \<Rightarrow> 'a cache_st \<Rightarrow> (u64 list \<times> 'a cache_st) res" where
  "take_slots E 0 s = Inr ([], s)"
| "take_slots E (Suc n) s =
     bindR (get_empty_page E s) (\<lambda>(p, s1). bindR (take_slots E n s1) (\<lambda>(ps, s2). Inr (p # ps, s2)))"

lemma take_slots_snoc:
  "take_slots E n s = Inr (ps, s1) \<Longrightarrow> get_empty_page E s1 = Inr (p, s2) \<Longrightarrow> take_slots E (Suc n) s = Inr (ps @ [p], s2)"
proof (induction n arbitrary: s ps)
  case (Suc n)
  from Suc.prems(1) obtain q s' qs where q: "get_empty_page E s = Inr (q, s')" "take_slots E n s' = Inr (qs, s1)" "ps = q # qs"
    by (auto simp: bindR_Inr_iff)
  from Suc.IH [OF q(2) Suc.prems(2)] show ?case by (subst take_slots.simps(2)) (simp add: q(1,3) del: take_slots.simps)
qed simp

lemma get_empty_next:
  assumes "alloc_ok al" "pool s = Some al" "cstate s = 0" "head_idx al < page_num al"
  shows "get_empty_page E s = Inr (slot_addr al (head_idx al), s\<lparr>pool := Some (al\<lparr>head_idx := head_idx al + 1\<rparr>),
    cstate := (if head_idx al + 1 = page_num al then 1 else 0)\<rparr>)"
proof -
  have al: "allocate (pool s) = (slot_addr al (head_idx al), head_idx al + 1 = page_num al, Some (al\<lparr>head_idx := head_idx al + 1\<rparr>))"
    using allocate_correct [OF assms(1)] assms(2,4) by simp
  have "slot_addr al (head_idx al) \<noteq> 0" using slot_addr_bounds(1) [OF assms(1,4)] by auto
  then have "try_get_empty_page E s = Inr (slot_addr al (head_idx al), s\<lparr>pool := Some (al\<lparr>head_idx := head_idx al + 1\<rparr>),
    cstate := (if head_idx al + 1 = page_num al then 1 else 0)\<rparr>)"
    by (simp add: try_get_empty_page_def assms(3) al Let_def)
  then show ?thesis
    using \<open>slot_addr al (head_idx al) \<noteq> 0\<close> by (simp add: get_empty_page_def get_empty_fuel_def assms(2))
qed

lemma take_slots_warm:
  assumes "alloc_ok al" "pool s = Some al" "cstate s = 0" "unat (page_num al) = unat (head_idx al) + Suc n"
  shows "\<exists>s'. take_slots E (Suc n) s = Inr (map (\<lambda>i. slot_addr al (of_nat i)) [unat (head_idx al)..<unat (page_num al)], s') \<and>
    cstate s' = 1 \<and> local_pages s' = local_pages s"
  using assms
proof (induction n arbitrary: al s)
  case (0 al s)
  then have lt: "head_idx al < page_num al" by (simp add: word_less_nat_alt)
  have "unat (head_idx al + 1) = unat (page_num al)" using allocate_correct [OF 0(1)] lt 0(4) by simp
  then have "head_idx al + 1 = page_num al" by (simp add: word_unat_eq_iff)
  then show ?case using get_empty_next [OF 0(1-3) lt, of E] 0(4) by simp
next
  case (Suc n al s)
  define al' where "al' = al\<lparr>head_idx := head_idx al + 1\<rparr>"
  have lt: "head_idx al < page_num al" using Suc.prems(4) by (simp add: word_less_nat_alt)
  have u: "unat (head_idx al + 1) = unat (head_idx al) + 1" "alloc_ok al'" using allocate_correct [OF Suc.prems(1)] lt by (simp_all add: al'_def)
  then have "head_idx al + 1 \<noteq> page_num al" using Suc.prems(4) by auto
  then obtain s1 where s1: "get_empty_page E s = Inr (slot_addr al (head_idx al), s1)" "pool s1 = Some al'" "cstate s1 = 0"
    "local_pages s1 = local_pages s"
    using get_empty_next [OF Suc.prems(1-3) lt, of E] by (simp add: al'_def)
  have "unat (page_num al') = unat (head_idx al') + Suc n" using Suc.prems(4) u(1) by (simp add: al'_def)
  from Suc.IH [OF u(2) s1(2,3) this] obtain s2 where
    s2: "take_slots E (Suc n) s1 = Inr (map (\<lambda>i. slot_addr al' (of_nat i)) [unat (head_idx al')..<unat (page_num al')], s2)"
    "cstate s2 = 1" "local_pages s2 = local_pages s1" by blast
  have "slot_addr al (head_idx al) # map (\<lambda>i. slot_addr al' (of_nat i)) [unat (head_idx al')..<unat (page_num al')] =
    map (\<lambda>i. slot_addr al (of_nat i)) [unat (head_idx al)..<unat (page_num al)]"
    using Suc.prems(4) u(1) by (simp add: al'_def slot_addr_def upt_conv_Cons del: upt_Suc)
  then show ?case using s1 s2 by (subst take_slots.simps(2)) (simp del: take_slots.simps)
qed

subsection \<open>Properties\<close>

text \<open>C9: from the constructors through the destructor: after a program with \<open>k\<close> insertions and any
  number of other commands, over a pool of \<open>k / 14 + 49\<close> slots and a backend with \<open>k / 14 + 17\<close>
  free pages, \<open>destroy_tree\<close> leaves a backend in whose memory the one-sided \<open>lookup\<close> of
  \<open>Btree.h\<close>, started at the root that the driver keeps, finds under every key what the map holds that the program
  builds. Nothing that was inserted is lost with the pool.\<close>

theorem destroy_roundtrip_spec:
  assumes "pool_region mm cap n" "sr \<noteq> 0" "\<And>i. i < cap \<Longrightarrow> sr \<noteq> mm + i * PAGE_SIZE"
    "ps_ok b" "room b (inserts cs div 14 + 17)" "inserts cs div 14 + 49 \<le> unat cap"
  shows "\<exists>c t s s'. mk_CacheManager mm None m [] b cap n adm bmin bmax = Some c \<and> mk_LeanStoreTree E sr c = Inr t \<and>
    run_cmds (exec_cmd (tree_lookup E) (tree_update E) (tree_remove E) (tree_insert E)) cs t = Inr (fst (spec_run cs Map.empty), s) \<and>
    destroy_tree s = Inr s' \<and>
    (\<forall>base key. dsm_lookup (region_of (be s') base) base (root_addr s') key =
      Inr (case snd (spec_run cs Map.empty) key of Some v \<Rightarrow> (1, Some v, None) | None \<Rightarrow> (2, None, None)))"
proof -
  from constructed_tree [OF assms] obtain c t where c: "mk_CacheManager mm None m [] b cap n adm bmin bmax = Some c"
    "mk_LeanStoreTree E sr c = Inr t" "tree_rep E (Room (inserts cs) (big_pool E cap n)) Map.empty t" by blast
  from tree.run_returns [OF c(3), of cs] obtain s where
    s: "run_cmds (exec_cmd (tree_lookup E) (tree_update E) (tree_remove E) (tree_insert E)) cs t = Inr (fst (spec_run cs Map.empty), s)"
    "tree_rep E (Room (inserts cs - inserts cs) (big_pool E cap n)) (snd (spec_run cs Map.empty)) s" unfolding returns_def by auto
  from s(2) obtain W where W: "cache_inv E W s" "super_root s = vw_super W" "root_range W" "abs_map W = snd (spec_run cs Map.empty)" "census W s"
    unfolding tree_rep_def by blast
  from flush_at_rest [OF W(1,2)] obtain s' where "destroy_tree s = Inr s'" "all_at_rest W (be s')" "root_addr s' = vw_root W"
    unfolding destroy_tree_def using census_more W(5) by (metis census_def)
  with rest_lookup [OF _ W(3), unfolded W(4)] c(1,2) s(1) show ?thesis by metis
qed

theorem destroy_roundtrip_spec_witness:
  "\<exists>c t s s'. mk_CacheManager 0x100000 None (\<lambda>_. zero_page) [] example_store 512 2 0 0 0 = Some c \<and>
    mk_LeanStoreTree example_env 0x9000 c = Inr t \<and>
    run_cmds (exec_cmd (tree_lookup example_env) (tree_update example_env) (tree_remove example_env) (tree_insert example_env))
      [Insert 5 50, Insert 7 70, Remove 5] t = Inr ([RBool True, RBool True, RBool True], s) \<and>
    destroy_tree s = Inr s' \<and>
    dsm_lookup (region_of (be s') 0x200000) 0x200000 (root_addr s') 7 = Inr (1, Some 70, None) \<and>
    dsm_lookup (region_of (be s') 0x200000) 0x200000 (root_addr s') 5 = Inr (2, None, None)"
proof -
  have "ps_ok example_store" "room example_store 17"
    by (simp_all add: example_store_alloc room_def, simp_all add: example_store_def)
  then have "\<exists>c t s s'. mk_CacheManager 0x100000 None (\<lambda>_. zero_page) [] example_store 512 2 0 0 0 = Some c \<and>
    mk_LeanStoreTree example_env 0x9000 c = Inr t \<and>
    run_cmds (exec_cmd (tree_lookup example_env) (tree_update example_env) (tree_remove example_env) (tree_insert example_env))
      [Insert 5 50, Insert 7 70, Remove 5] t = Inr (fst (spec_run [Insert 5 50, Insert 7 70, Remove 5] Map.empty), s) \<and>
    destroy_tree s = Inr s' \<and>
    (\<forall>base key. dsm_lookup (region_of (be s') base) base (root_addr s') key =
      Inr (case snd (spec_run [Insert 5 50, Insert 7 70, Remove 5] Map.empty) key of
        Some v \<Rightarrow> (1, Some v, None) | None \<Rightarrow> (2, None, None)))"
    by (intro destroy_roundtrip_spec [OF example_region _ example_super_root]) (simp_all add: inserts_def)
  then obtain c t s s' where C: "mk_CacheManager 0x100000 None (\<lambda>_. zero_page) [] example_store 512 2 0 0 0 = Some c"
      "mk_LeanStoreTree example_env 0x9000 c = Inr t"
    and R: "run_cmds (exec_cmd (tree_lookup example_env) (tree_update example_env) (tree_remove example_env) (tree_insert example_env))
      [Insert 5 50, Insert 7 70, Remove 5] t = Inr (fst (spec_run [Insert 5 50, Insert 7 70, Remove 5] Map.empty), s)"
    and D: "destroy_tree s = Inr s'"
    and L: "\<And>base key. dsm_lookup (region_of (be s') base) base (root_addr s') key =
      Inr (case snd (spec_run [Insert 5 50, Insert 7 70, Remove 5] Map.empty) key of
        Some v \<Rightarrow> (1, Some v, None) | None \<Rightarrow> (2, None, None))" by blast
  have e: "fst (spec_run [Insert 5 50, Insert 7 70, Remove 5] Map.empty) = [RBool True, RBool True, RBool True]"
    "snd (spec_run [Insert 5 50, Insert 7 70, Remove 5] Map.empty) = [7 \<mapsto> 70]" by (simp_all add: fun_eq_iff)
  have "dsm_lookup (region_of (be s') 0x200000) 0x200000 (root_addr s') 7 = Inr (1, Some 70, None)"
    "dsm_lookup (region_of (be s') 0x200000) 0x200000 (root_addr s') 5 = Inr (2, None, None)" by (simp_all only: L e) simp_all
  with C D R [unfolded e] show ?thesis by blast
qed

text \<open>C10: where the driver's \<open>lookup\<close> through the pool returns, the one-sided \<open>lookup\<close> on the
  memory of the backend after a flush gives the same answer.\<close>

theorem lookup_equiv_spec:
  assumes "tree_rep E n f s" "tree_lookup E k s = Inr (r, s1)" "flush_all s = Inr s2"
  shows "dsm_lookup (region_of (be s2) base) base (root_addr s2) k = Inr (if r = None then 2 else 1, r, None)"
proof -
  from assms(1) obtain W where W: "cache_inv E W s" "super_root s = vw_super W" "root_range W" "abs_map W = f" "census W s"
    unfolding tree_rep_def by blast
  from tree.lookup_law [OF tree_rep_Anyhow [OF assms(1)], of k] assms(2) have "r = f k" by (auto simp: completes_def returns_def)
  moreover obtain s2' where s2: "flush_all s = Inr s2'" "all_at_rest W (be s2')" "root_addr s2' = vw_root W"
    using flush_at_rest [OF W(1,2)] census_more W(5) by (metis census_def)
  moreover have "s2' = s2" using s2(1) assms(3) by simp
  ultimately show ?thesis using rest_lookup [OF s2(2) W(3), of base k] W(4) by (cases "f k") auto
qed

theorem lookup_equiv_spec_witness:
  "\<exists>r s1 s2. tree_lookup example_env 5 example_tree = Inr (r, s1) \<and> flush_all example_tree = Inr s2 \<and>
     dsm_lookup (region_of (be s2) 0x200000) 0x200000 (root_addr s2) 5 = Inr (if r = None then 2 else 1, r, None)"
proof -
  obtain s1 where s1: "tree_lookup example_env 5 example_tree = Inr (None, s1)"
    using tree.run_returns [OF example_tree_rep(2), of "[Lookup 5]"] by (cases "tree_lookup example_env 5 example_tree") (auto simp: returns_def inserts_def)
  obtain s2 where "flush_all example_tree = Inr s2" using flush_at_rest [OF example_tree_inv(2)] example_tree_inv(3) by fastforce
  with s1 lookup_equiv_spec [OF example_tree_rep(1) s1 this, of "0x200000"] show ?thesis by blast
qed

text \<open>C11: \<open>reset_buffer_pool\<close>, with or without flushing, leaves the super root pointing to the
  slot that held the root, now a zeroed page, which the driver takes for an empty leaf: from then on
  every lookup fails, whatever the tree held. The free slots that the thread holds stay in its list while the pool
  starts over. So when the list has a first slot \<open>a\<close>, the searches for a free slot that follow hand out every slot of the pool,
  \<open>a\<close> among them, and then \<open>a\<close> again, although it has been in use since.\<close>

theorem reset_dangling_spec:
  assumes "cache_inv E W s" "super_root s = vw_super W" "children (mem s (super_root s)) ! 0 = swz p" "p \<in> hot_set s"
  shows "\<exists>s'. reset_buffer_pool fl s = Inr s' \<and> (\<forall>k. tree_lookup E k s' = Inr (None, s')) \<and>
    (fl \<longrightarrow> (\<forall>g \<in> vw_addrs W. at_rest (vw_nodes W) (be s') g)) \<and>
    (\<forall>a as. local_pages s = a # as \<longrightarrow> (\<exists>ps s''. take_slots E (Suc (length ps)) s' = Inr (ps @ [a], s'') \<and>
      distinct ps \<and> set ps = pool_set s \<and> a \<in> set ps))"
proof -
  obtain s0 s' al where R: "if fl then flush_all s = Inr s0 else s0 = s" "cache_inv E W s0" "flushed (if fl then pool_set s else {}) s s0"
    "cache_reset fl s = Inr s'" "mem s' = zero_slots (pool_slots al) (mem s0)" "set (pool_slots al) = pool_set s"
    "pool_set s' = pool_set s" "be s' = be s0" "local_pages s' = local_pages s" "cache.more s' = cache.more s"
    "pool s' = Some (al\<lparr>head_idx := 0\<rparr>)" "cstate s' = 0" "alloc_ok al"
    using cache_reset_eq [OF assms(1)] by metis
  have sr: "super_root s' = super_root s" using R(10) by (cases s; cases s') simp
  have p: "p \<in> pool_set s" by (rule hot_pool [OF assms(4)])
  have z: "mem s' a = zero_page" if "a \<in> pool_set s" for a using that R(5,6) by (simp add: zero_slots_def)
  have "mem s' (super_root s) = mem s (super_root s)"
  proof -
    have "super_root s \<notin> pool_set s" using cache_invD(5) [OF assms(1)] assms(2) by simp
    then show ?thesis using R(3,5,6) by (auto simp: zero_slots_def flushed_def)
  qed
  then have "children (mem s' (super_root s')) ! 0 = swz p" using assms(3) sr by simp
  moreover have "\<not> swizzled p" by (rule residencyD(8) [OF cache_invD(6) [OF assms(1)] assms(4)])
  ultimately have root: "load_root E s' = Inr (p, s')" by (simp add: load_root_def load_child_def)
  have "find_leaf E k s' = Inr (p, s')" for k
    using z [OF p] by (simp add: find_leaf_def root walk_fuel_def eval_nat_numeral zero_page_def)
  then have "tree_lookup E k s' = Inr (None, s')" for k
    using z [OF p] by (simp add: tree_lookup_def leaf_find_def zero_page_def Let_def)
  moreover have "\<exists>ps s''. take_slots E (Suc (length ps)) s' = Inr (ps @ [a], s'') \<and> distinct ps \<and> set ps = pool_set s \<and> a \<in> set ps"
    if l: "local_pages s = a # as" for a as
  proof -
    have al0: "alloc_ok (al\<lparr>head_idx := 0\<rparr>)" using R(13) by (simp add: alloc_ok_def)
    obtain n where n: "unat (page_num al) = Suc n" using R(13) by (cases "unat (page_num al)") (auto simp: alloc_ok_def unat_eq_0)
    have sl: "map (\<lambda>i. slot_addr (al\<lparr>head_idx := 0\<rparr>) (of_nat i)) [0..<unat (page_num al)] = pool_slots al"
      by (simp add: pool_slots_def slot_addr_def)
    obtain s1 where s1: "take_slots E (Suc n) s' = Inr (pool_slots al, s1)" "cstate s1 = 1" "local_pages s1 = a # as"
      using take_slots_warm [OF al0 R(11,12), of n E] n sl R(9) l by auto
    have a: "a \<in> pool_set s" using cache_invD(4) [OF assms(1)] l by (simp add: free_inv_def)
    have "a \<noteq> 0" using pool_slot_facts(1) [OF cache_invD(1) [OF assms(1)] a] .
    then have "get_empty_page E s1 = Inr (a, s1\<lparr>local_pages := as\<rparr>)"
      using s1(2,3) by (cases "get_empty_fuel s1") (auto simp: get_empty_page_def try_get_empty_page_def get_local_page_set_def get_empty_fuel_def split: option.splits)
    from take_slots_snoc [OF s1(1) this] have "take_slots E (Suc (length (pool_slots al))) s' = Inr (pool_slots al @ [a], s1\<lparr>local_pages := as\<rparr>)"
      using n by (simp add: pool_slots_def del: take_slots.simps)
    then show ?thesis using pool_slots_distinct [OF R(13)] R(6) a by blast
  qed
  moreover have "at_rest (vw_nodes W) (be s') g" if "fl" "g \<in> vw_addrs W" for g
    using flush_all_inv [OF assms(1)] R(1,8) that by auto
  ultimately show ?thesis using R(4) unfolding reset_buffer_pool_def by blast
qed

text \<open>The fresh tree, with one free slot taken into the thread's list.\<close>

theorem reset_dangling_spec_witness:
  "\<exists>s a as s' ps s''. fill_local_page_set example_env example_tree = Inr s \<and> local_pages s = a # as \<and> reset_buffer_pool True s = Inr s' \<and>
    tree_lookup example_env 5 s' = Inr (None, s') \<and> take_slots example_env (Suc (length ps)) s' = Inr (ps @ [a], s'') \<and> a \<in> set ps"
proof -
  obtain p where p: "children (mem example_tree 0x9000) ! 0 = swz p" "p \<in> hot_set example_tree"
    using example_tree_hot by blast
  obtain s a as where s: "fill_local_page_set example_env example_tree = Inr s" "local_pages s = a # as"
    "cache_inv example_env (fresh_view example_root 0x9000) s" "super_root s = 0x9000" "children (mem s 0x9000) ! 0 = swz p" "p \<in> hot_set s"
  proof (cases "local_pages example_tree")
    case (Cons a as)
    then show ?thesis using p example_tree_inv(2,3) by (intro that [of example_tree a as]) (simp_all add: fill_local_page_set_def)
  next
    case Nil
    have "cstate example_tree \<noteq> 1" using unused_dynamic [OF cache_invD(1) [OF example_tree_inv(2)]] example_tree_inv(4) by auto
    from get_empty_warm [OF example_tree_inv(2) this] obtain a s1 where a: "get_empty_page example_env example_tree = Inr (a, s1)"
      "cache_inv example_env (fresh_view example_root 0x9000) s1" "evolves example_env 0x9000 example_tree s1" "in_hand a s1"
      "hot_set s1 = hot_set example_tree" by auto
    have e: "cache.more s1 = cache.more example_tree" "mem s1 0x9000 = mem example_tree 0x9000" using a(3) by (simp_all add: evolves_def)
    have "super_root x = super_root y" if "cache.more x = cache.more y" for x y :: tree using that by (cases x; cases y) simp
    then have "super_root s1 = super_root example_tree" using e(1) by blast
    then have "super_root (insert_local_set a s1) = 0x9000" using example_tree_inv(3) by (simp add: insert_local_set_def)
    moreover have ne: "a \<noteq> 0x9000" "a \<noteq> p" using cache_invD(5) [OF a(2)] a(4,5) p(2) by (auto simp: in_hand_def)
    then have "children (mem (insert_local_set a s1) 0x9000) ! 0 = swz p" using p(1) e(2) by (simp add: insert_local_set_def set_pos_def)
    moreover have "p \<in> hot_set (insert_local_set a s1)"
      using p(2) ne(2) unfolding a(5) [symmetric] by (simp add: hot_set_def pool_set_def insert_local_set_def set_pos_def)
    ultimately show ?thesis using free_hand [OF a(2,4)] Nil
      by (intro that [of "insert_local_set a s1" a "local_pages s1"]) (simp_all add: fill_local_page_set_def a(1), simp add: insert_local_set_def)
  qed
  from reset_dangling_spec [OF s(3) _ _ s(6), of True] s(2,4,5) obtain s' ps s'' where
    "reset_buffer_pool True s = Inr s'" "tree_lookup example_env 5 s' = Inr (None, s')"
    "take_slots example_env (Suc (length ps)) s' = Inr (ps @ [a], s'')" "a \<in> set ps" by auto
  with s(1,2) show ?thesis by blast
qed

end
