(* ===== verification/Zipf.thy ===== *)
theory Zipf
  imports Prelude Complex_Main
begin

text \<open>
  The generator of skewed keys (\<open>test/zipf.h\<close>). It computes with doubles and takes them apart bit by
  bit, so a double is its 64-bit pattern here, and the operations are those of IEEE 754 with
  rounding to nearest, ties to even: exact on rationals, then rounded. A NaN that an operation produces is the one of x86. To convert a
  double to an integer type that cannot hold it is undefined; the model then fails with \<open>OutOfBounds\<close>.
  The program calls \<open>mehcached_zipf_init\<close> once and \<open>mehcached_zipf_next\<close> in each turn of the benchmark;
  \<open>mehcached_test_zipf\<close> only prints.
\<close>

subsection \<open>Doubles\<close>

type_synonym double = u64

definition dbl_exp :: "double \<Rightarrow> nat" where "dbl_exp x = unat (drop_bit 52 x AND 0x7FF)"
definition dbl_frac :: "double \<Rightarrow> int" where "dbl_frac x = uint (x AND 0xFFFFFFFFFFFFF)"
definition dbl_neg :: "double \<Rightarrow> bool" where "dbl_neg x = bit x 63"
definition is_nan :: "double \<Rightarrow> bool" where "is_nan x \<longleftrightarrow> dbl_exp x = 2047 \<and> dbl_frac x \<noteq> 0"
definition is_inf :: "double \<Rightarrow> bool" where "is_inf x \<longleftrightarrow> dbl_exp x = 2047 \<and> dbl_frac x = 0"

text \<open>The value of a finite double.\<close>

definition dbl_mag :: "double \<Rightarrow> rat" where
  "dbl_mag x =
     (if dbl_exp x = 0 then of_int (dbl_frac x) / 2 ^ 1074
      else of_int (2 ^ 52 + dbl_frac x) * 2 ^ dbl_exp x / 2 ^ 1075)"

definition dbl_val :: "double \<Rightarrow> rat" where "dbl_val x = (if dbl_neg x then - dbl_mag x else dbl_mag x)"

definition DNAN :: double where "DNAN = 0xFFF8000000000000"
definition DINF :: double where "DINF = 0x7FF0000000000000"

definition set_sign :: "bool \<Rightarrow> double \<Rightarrow> double" where
  "set_sign neg x = (if neg then x OR 0x8000000000000000 else x)"

subsection \<open>Rounding\<close>

function bit_len :: "int \<Rightarrow> int" where
  "bit_len n = (if n \<le> 0 then 0 else bit_len (n div 2) + 1)"
  by auto
termination by (relation "measure nat") auto

declare bit_len.simps [simp del]

definition pow2 :: "int \<Rightarrow> rat" where "pow2 i = (if 0 \<le> i then 2 ^ nat i else 1 / 2 ^ nat (- i))"

text \<open>The binade of a positive number: \<open>pow2 k \<le> q < pow2 (k + 1)\<close>.\<close>

definition binade :: "rat \<Rightarrow> int" where
  "binade q = (case quotient_of q of (a, b) \<Rightarrow>
     let k = bit_len a - bit_len b in if pow2 k \<le> q then k else k - 1)"

definition round_even :: "rat \<Rightarrow> int" where
  "round_even q = (let f = \<lfloor>q\<rfloor>; d = q - of_int f in if d < 1 / 2 \<or> d = 1 / 2 \<and> even f then f else f + 1)"

text \<open>A significand that rounds up to the next power of two carries into the exponent by itself, and
  what is too large becomes infinite.\<close>

definition encode :: "bool \<Rightarrow> rat \<Rightarrow> double" where
  "encode neg q =
     (let e = max (binade q) (- 1022);
          n = (if q = 0 then 0 else round_even (q * pow2 (52 - e)) + (e + 1022) * 2 ^ 52)
      in set_sign neg (of_int (min n (2047 * 2 ^ 52))))"

subsection \<open>Arithmetic\<close>

definition dneg :: "double \<Rightarrow> double" where "dneg x = x XOR 0x8000000000000000"

definition dadd :: "double \<Rightarrow> double \<Rightarrow> double" where
  "dadd x y =
     (if is_nan x \<or> is_nan y \<or> is_inf x \<and> is_inf y \<and> dbl_neg x \<noteq> dbl_neg y then DNAN
      else if is_inf x then x else if is_inf y then y
      else let v = dbl_val x + dbl_val y
           in if v = 0 then set_sign (dbl_neg x \<and> dbl_neg y) 0 else encode (v < 0) \<bar>v\<bar>)"

definition dsub :: "double \<Rightarrow> double \<Rightarrow> double" where "dsub x y = dadd x (dneg y)"

definition dmul :: "double \<Rightarrow> double \<Rightarrow> double" where
  "dmul x y =
     (let s = dbl_neg x \<noteq> dbl_neg y
      in if is_nan x \<or> is_nan y then DNAN
         else if is_inf x \<or> is_inf y
         then (if \<not> is_inf x \<and> dbl_mag x = 0 \<or> \<not> is_inf y \<and> dbl_mag y = 0 then DNAN else set_sign s DINF)
         else encode s (dbl_mag x * dbl_mag y))"

definition ddiv :: "double \<Rightarrow> double \<Rightarrow> double" where
  "ddiv x y =
     (let s = dbl_neg x \<noteq> dbl_neg y
      in if is_nan x \<or> is_nan y \<or> is_inf x \<and> is_inf y then DNAN
         else if is_inf x then set_sign s DINF
         else if is_inf y then set_sign s 0
         else if dbl_mag y = 0 then (if dbl_mag x = 0 then DNAN else set_sign s DINF)
         else encode s (dbl_mag x / dbl_mag y))"

definition dlt :: "double \<Rightarrow> double \<Rightarrow> bool" where
  "dlt x y \<longleftrightarrow> \<not> is_nan x \<and> \<not> is_nan y \<and>
     (if is_inf x then dbl_neg x \<and> \<not> (is_inf y \<and> dbl_neg y)
      else if is_inf y then \<not> dbl_neg y else dbl_val x < dbl_val y)"

definition deq :: "double \<Rightarrow> double \<Rightarrow> bool" where
  "deq x y \<longleftrightarrow> \<not> is_nan x \<and> \<not> is_nan y \<and> (if is_inf x \<or> is_inf y then x = y else dbl_val x = dbl_val y)"

definition dle :: "double \<Rightarrow> double \<Rightarrow> bool" where "dle x y \<longleftrightarrow> dlt x y \<or> deq x y"

text \<open>Conversions from integers, and to integers by truncation.\<close>

definition dbl_of_int :: "int \<Rightarrow> double" where "dbl_of_int i = encode (i < 0) (of_int \<bar>i\<bar>)"
definition dbl_of_u64 :: "u64 \<Rightarrow> double" where "dbl_of_u64 n = encode False (of_int (uint n))"

definition dbl_trunc :: "double \<Rightarrow> int" where
  "dbl_trunc x = (if dbl_neg x then - \<lfloor>dbl_mag x\<rfloor> else \<lfloor>dbl_mag x\<rfloor>)"

definition to_int32 :: "double \<Rightarrow> int res" where
  "to_int32 x = (if is_nan x \<or> is_inf x \<or> dbl_trunc x < - (2 ^ 31) \<or> 2 ^ 31 \<le> dbl_trunc x then Inl OutOfBounds else Inr (dbl_trunc x))"

definition to_u64 :: "double \<Rightarrow> u64 res" where
  "to_u64 x = (if is_nan x \<or> is_inf x \<or> dbl_trunc x < 0 \<or> 2 ^ 64 \<le> dbl_trunc x then Inl OutOfBounds else Inr (of_int (dbl_trunc x)))"

subsection \<open>The generator\<close>

record zipf_gen_state =
  z_n :: u64
  z_theta :: double
  z_alpha :: double
  z_thres :: double
  z_last_n :: u64
  z_dbl_n :: double
  z_zetan :: double
  z_eta :: double
  z_rand_state :: u64

definition mehcached_rand_d :: "u64 \<Rightarrow> double \<times> u64" where
  "mehcached_rand_d state =
     (let state' = (state * 0x5deece66d + 0xb) AND (push_bit 48 1 - 1)
      in (ddiv (dbl_of_u64 state') (dbl_of_u64 (push_bit 48 1 - 1)), state'))"

text \<open>The loop over the bits of the exponent.\<close>

fun pow_loop :: "nat \<Rightarrow> double \<Rightarrow> double \<Rightarrow> double" where
  "pow_loop e r a = (if e = 0 then r else pow_loop (e div 2) (if odd e then dmul r a else r) (dmul a a))"

declare pow_loop.simps [simp del]

text \<open>\<open>x[1]\<close> of the union is the upper half of the double. The subtraction is one of \<open>int\<close>, and a negative
  exponent, shifted to the right, stays at -1 for ever.\<close>

definition mehcached_pow_approx :: "double \<Rightarrow> double \<Rightarrow> double res" where
  "mehcached_pow_approx a b =
     bindR (to_int32 b) (\<lambda>e.
       let x1 = sint (ucast (drop_bit 32 a) :: 32 word) - 1072632447
       in if x1 < - (2 ^ 31) then Inl OutOfBounds
          else bindR (to_int32 (dadd (dmul (dsub b (dbl_of_int e)) (dbl_of_int x1)) (dbl_of_int 1072632447))) (\<lambda>x1'.
            let u = push_bit 32 (ucast (of_int x1' :: 32 word))
            in if e < 0 then Inl Spin else Inr (dmul (pow_loop (nat e) (dbl_of_int 1) a) u)))"

definition zipf_skewed :: "double \<Rightarrow> bool" where
  "zipf_skewed theta \<longleftrightarrow> dlt (dbl_of_int 0) theta \<and> dlt theta (dbl_of_int 1)"

definition mehcached_zipf_init :: "u64 \<Rightarrow> double \<Rightarrow> u64 \<Rightarrow> zipf_gen_state res" where
  "mehcached_zipf_init n theta rand_seed =
     assertR (0 < n)
       (assertR (\<not> (dle (dbl_of_int 1) theta \<and> dlt theta (dbl_of_int 40)))
         (assertR (deq theta (dbl_of_int (- 1)) \<or> dle (dbl_of_int 0) theta \<and> dlt theta (dbl_of_int 1) \<or> dle (dbl_of_int 40) theta)
           (assertR (rand_seed < push_bit 48 1)
             (let state = \<lparr>z_n = n, z_theta = theta, z_alpha = 0, z_thres = 0, z_last_n = 0, z_dbl_n = 0, z_zetan = 0, z_eta = 0,
                    z_rand_state = rand_seed\<rparr>
              in if deq theta (dbl_of_int (- 1)) then Inr (state\<lparr>z_rand_state := rand_seed mod n\<rparr>)
                 else if zipf_skewed theta then
                   bindR (mehcached_pow_approx (encode False (1 / 2)) theta) (\<lambda>p.
                     Inr (state\<lparr>z_alpha := ddiv (dbl_of_int 1) (dsub (dbl_of_int 1) theta), z_thres := dadd (dbl_of_int 1) p\<rparr>))
                 else Inr state))))"

definition mehcached_zipf_init_copy :: "zipf_gen_state \<Rightarrow> u64 \<Rightarrow> zipf_gen_state res" where
  "mehcached_zipf_init_copy src_state rand_seed =
     assertR (rand_seed < push_bit 48 1) (Inr (src_state\<lparr>z_rand_state := rand_seed\<rparr>))"

definition mehcached_zipf_change_n :: "zipf_gen_state \<Rightarrow> u64 \<Rightarrow> zipf_gen_state" where
  "mehcached_zipf_change_n state n = state\<lparr>z_n := n\<rparr>"

fun zeta_loop :: "nat \<Rightarrow> u64 \<Rightarrow> double \<Rightarrow> double \<Rightarrow> double res" where
  "zeta_loop 0 last_n last_sum theta = Inr last_sum"
| "zeta_loop (Suc turns) last_n last_sum theta =
     bindR (mehcached_pow_approx (dadd (dbl_of_u64 last_n) (dbl_of_int 1)) theta) (\<lambda>p.
       zeta_loop turns (last_n + 1) (dadd last_sum (ddiv (dbl_of_int 1) p)) theta)"

definition mehcached_zeta :: "u64 \<Rightarrow> double \<Rightarrow> u64 \<Rightarrow> double \<Rightarrow> double res" where
  "mehcached_zeta last_n last_sum n theta =
     (if last_n > n then zeta_loop (unat n) 0 0 theta else zeta_loop (unat n - unat last_n) last_n last_sum theta)"

definition zipf_refresh :: "zipf_gen_state \<Rightarrow> zipf_gen_state res" where
  "zipf_refresh state =
     (if z_last_n state \<noteq> z_n state then
        bindR (if zipf_skewed (z_theta state) then
                 bindR (mehcached_zeta (z_last_n state) (z_zetan state) (z_n state) (z_theta state)) (\<lambda>zetan.
                   bindR (mehcached_pow_approx (ddiv (dbl_of_int 2) (dbl_of_u64 (z_n state))) (dsub (dbl_of_int 1) (z_theta state))) (\<lambda>p.
                     bindR (mehcached_zeta 0 0 2 (z_theta state)) (\<lambda>zeta2.
                       Inr (state\<lparr>z_zetan := zetan,
                         z_eta := ddiv (dsub (dbl_of_int 1) p) (dsub (dbl_of_int 1) (ddiv zeta2 zetan))\<rparr>))))
               else Inr state)
          (\<lambda>state. Inr (state\<lparr>z_last_n := z_n state, z_dbl_n := dbl_of_u64 (z_n state)\<rparr>))
      else Inr state)"

definition mehcached_zipf_next :: "zipf_gen_state \<Rightarrow> (u64 \<times> zipf_gen_state) res" where
  "mehcached_zipf_next state0 =
     bindR (zipf_refresh state0) (\<lambda>state.
       if deq (z_theta state) (dbl_of_int (- 1)) then
         (let v = z_rand_state state
          in Inr (v, state\<lparr>z_rand_state := (if v + 1 \<ge> z_n state then 0 else v + 1)\<rparr>))
       else if deq (z_theta state) (dbl_of_int 0) then
         (case mehcached_rand_d (z_rand_state state) of (u, r) \<Rightarrow>
            bindR (to_u64 (dmul (z_dbl_n state) u)) (\<lambda>v. Inr (v, state\<lparr>z_rand_state := r\<rparr>)))
       else if dle (dbl_of_int 40) (z_theta state) then Inr (0, state)
       else
         (case mehcached_rand_d (z_rand_state state) of (u, r) \<Rightarrow>
            let state' = state\<lparr>z_rand_state := r\<rparr>; uz = dmul u (z_zetan state)
            in if dlt uz (dbl_of_int 1) then Inr (0, state')
               else if dlt uz (z_thres state) then Inr (1, state')
               else bindR (mehcached_pow_approx (dadd (dmul (z_eta state) (dsub u (dbl_of_int 1))) (dbl_of_int 1)) (z_alpha state)) (\<lambda>p.
                 bindR (to_u64 (dmul (z_dbl_n state) p)) (\<lambda>v. Inr (v, state')))))"

text \<open>The draws of \<open>n\<close> successive calls.\<close>

fun zipf_draws :: "nat \<Rightarrow> zipf_gen_state \<Rightarrow> u64 list res" where
  "zipf_draws 0 state = Inr []"
| "zipf_draws (Suc n) state =
     bindR (mehcached_zipf_next state) (\<lambda>(v, state'). bindR (zipf_draws n state') (\<lambda>vs. Inr (v # vs)))"

subsection \<open>Rounding below a bound\<close>

lemma pow2_pos [simp]: "0 < pow2 i"
  by (simp add: pow2_def)

lemma pow2_powi: "pow2 k = 2 powi k"
  by (simp add: pow2_def power_int_def inverse_eq_divide power_one_over)

lemma pow2_add: "pow2 (i + j) = pow2 i * pow2 j"
  by (simp add: pow2_powi power_int_add)

lemma pow2_diff: "pow2 (i - j) = pow2 i / pow2 j"
  by (simp add: pow2_powi power_int_diff)

lemma pow2_mono: "i \<le> j \<Longrightarrow> pow2 i \<le> pow2 j"
  by (simp add: pow2_powi power_int_increasing)

lemma pow2_less: "pow2 i < pow2 j \<Longrightarrow> i < j"
  using pow2_mono [of j i] by linarith

lemma pow2_of_int: "0 \<le> i \<Longrightarrow> pow2 i = of_int (2 ^ nat i)"
  by (simp add: pow2_def)

lemma bit_len_bounds:
  assumes "0 < n"
  shows "1 \<le> bit_len n \<and> 2 ^ nat (bit_len n - 1) \<le> n \<and> n < 2 ^ nat (bit_len n)"
  using assms
proof (induction n rule: bit_len.induct)
  case (1 n)
  show ?case
  proof (cases "n = 1")
    case True
    have "bit_len 0 = 0" by (simp add: bit_len.simps)
    then have "bit_len 1 = 1" by (subst bit_len.simps) simp
    then show ?thesis using True by simp
  next
    case False
    then have n: "1 < n" using 1(2) by simp
    define l where "l = bit_len (n div 2)"
    have l: "1 \<le> l" "2 ^ nat (l - 1) \<le> n div 2" "n div 2 < 2 ^ nat l" using 1(1) n by (auto simp: l_def)
    have eq: "bit_len n = l + 1" using n by (subst bit_len.simps) (simp add: l_def)
    have "nat l = Suc (nat (l - 1))" "nat (l + 1) = Suc (nat l)" using l(1) by simp_all
    then have p: "(2 :: int) ^ nat l = 2 * 2 ^ nat (l - 1)" "(2 :: int) ^ nat (l + 1) = 2 * 2 ^ nat l" by simp_all
    have "2 ^ nat l \<le> n" using p(1) l(2) by linarith
    moreover have "n < 2 ^ nat (l + 1)" using p(2) l(3) by linarith
    ultimately show ?thesis using l(1) by (simp add: eq)
  qed
qed

lemma binade_bounds:
  assumes "0 < q"
  shows "pow2 (binade q) \<le> q" "q < pow2 (binade q + 1)"
proof -
  obtain a b where ab: "quotient_of q = (a, b)" by fastforce
  have b: "0 < b" and q: "q = of_int a / of_int b" using quotient_of_denom_pos [OF ab] quotient_of_div [OF ab] by auto
  have a: "0 < a" using assms b by (simp add: q zero_less_divide_iff)
  define k where "k = bit_len a - bit_len b"
  note A = bit_len_bounds [OF a] and B = bit_len_bounds [OF b]
  have of: "(of_int (2 ^ nat (bit_len n)) :: rat) = pow2 (bit_len n)" "(of_int (2 ^ nat (bit_len n - 1)) :: rat) = pow2 (bit_len n - 1)"
    if "1 \<le> bit_len n" for n using that by (simp_all add: pow2_of_int)
  have ra: "pow2 (bit_len a - 1) \<le> of_int a" "of_int a < pow2 (bit_len a)"
    using A of [of a] of_int_le_iff [where 'a = rat, of "2 ^ nat (bit_len a - 1)" a] of_int_less_iff [where 'a = rat, of a "2 ^ nat (bit_len a)"] by auto
  have rb: "pow2 (bit_len b - 1) \<le> of_int b" "of_int b < pow2 (bit_len b)"
    using B of [of b] of_int_le_iff [where 'a = rat, of "2 ^ nat (bit_len b - 1)" b] of_int_less_iff [where 'a = rat, of b "2 ^ nat (bit_len b)"] by auto
  have "q < pow2 (bit_len a) / pow2 (bit_len b - 1)"
    unfolding q by (rule frac_less) (use ra rb a in \<open>auto intro: less_le_trans [OF pow2_pos]\<close>)
  also have "\<dots> = pow2 (k + 1)" unfolding pow2_diff [symmetric] by (simp add: k_def algebra_simps)
  finally have up: "q < pow2 (k + 1)" .
  have "pow2 (bit_len a - 1) / pow2 (bit_len b) < q"
    unfolding q by (rule frac_less2) (use ra rb b in auto)
  then have lo: "pow2 (k - 1) < q" unfolding pow2_diff [symmetric] by (simp add: k_def algebra_simps)
  have bi: "binade q = (if pow2 k \<le> q then k else k - 1)" by (simp add: binade_def ab k_def Let_def)
  show "pow2 (binade q) \<le> q" using lo unfolding bi by auto
  show "q < pow2 (binade q + 1)" using up unfolding bi by auto
qed

lemma round_even_le:
  assumes "q \<le> of_int n"
  shows "round_even q \<le> n"
proof (cases "\<lfloor>q\<rfloor> = n")
  case True
  then have "q = of_int n" using assms of_int_floor_le [of q] by linarith
  then show ?thesis by (simp add: round_even_def Let_def)
next
  case False
  have "\<lfloor>q\<rfloor> \<le> n" using floor_mono [OF assms] by simp
  then show ?thesis using False by (simp add: round_even_def Let_def)
qed

lemma round_even_ge: "of_int n \<le> q \<Longrightarrow> n \<le> round_even q"
proof -
  assume "of_int n \<le> q"
  then have "n \<le> \<lfloor>q\<rfloor>" by (simp add: le_floor_iff)
  then show ?thesis by (simp add: round_even_def Let_def)
qed

text \<open>What the fields of a pattern are.\<close>

lemma dbl_fields:
  assumes "0 \<le> b" "b < 2047 * 2 ^ 52"
  shows "dbl_exp (of_int b) = nat (b div 2 ^ 52)" "dbl_frac (of_int b) = b mod 2 ^ 52" "\<not> dbl_neg (of_int b)"
proof -
  define x :: u64 where "x = of_int b"
  have u: "uint x = b" using assms by (simp add: x_def uint_word_of_int)
  have m: "(0x7FF :: u64) = mask 11" "(0xFFFFFFFFFFFFF :: u64) = mask 52" by (simp_all add: mask_eq_exp_minus_1)
  have bm: "b mod 18446744073709551616 = b" using assms by (intro mod_pos_pos_trivial) simp_all
  have d: "b div 2 ^ 52 < 2047" using assms(2) by (simp add: div_less_iff_less_mult)
  have "uint (drop_bit 52 x AND 0x7FF) = (b div 2 ^ 52) mod 2 ^ 11"
    unfolding m take_bit_eq_mask [symmetric] unsigned_take_bit_eq unsigned_drop_bit_eq u by (simp add: take_bit_eq_mod drop_bit_eq_div bm)
  also have "\<dots> = b div 2 ^ 52" using d assms(1) by (intro mod_pos_pos_trivial) simp_all
  finally show "dbl_exp (of_int b) = nat (b div 2 ^ 52)"
    unfolding dbl_exp_def x_def [symmetric] unat_eq_nat_uint by simp
  show "dbl_frac (of_int b) = b mod 2 ^ 52"
    unfolding dbl_frac_def x_def [symmetric] m take_bit_eq_mask [symmetric] unsigned_take_bit_eq u by (simp add: take_bit_eq_mod bm)
  have "bit x 63 \<longleftrightarrow> bit b 63" by (simp add: x_def bit_word_of_int_iff)
  moreover have "\<not> bit b 63" using assms by (simp add: bit_iff_odd div_pos_pos_trivial)
  ultimately show "\<not> dbl_neg (of_int b)" by (simp add: dbl_neg_def x_def)
qed

text \<open>Rounding does not pass an integer, since the doubles around it are at most one apart.\<close>

lemma dbl_mag_normal: "dbl_exp x \<noteq> 0 \<Longrightarrow> dbl_mag x = of_int (2 ^ 52 + dbl_frac x) * pow2 (int (dbl_exp x) - 1075)"
  by (simp add: dbl_mag_def pow2_diff) (simp add: pow2_def)

lemma encode_finite:
  assumes "0 < q" "q < pow2 53"
  defines "e \<equiv> max (binade q) (- 1022)"
  shows "\<not> is_nan (encode False q)" "\<not> is_inf (encode False q)" "\<not> dbl_neg (encode False q)"
    "dbl_mag (encode False q) = of_int (round_even (q * pow2 (52 - e))) * pow2 (e - 52)" "e \<le> 52" "0 \<le> round_even (q * pow2 (52 - e))"
proof -
  note B = binade_bounds [OF assms(1)]
  have "pow2 (binade q) < pow2 53" using B(1) assms(2) by simp
  then show e: "e \<le> 52" using pow2_less [of "binade q" 53] by (simp add: e_def)
  define m where "m = round_even (q * pow2 (52 - e))"
  have "q < pow2 (e + 1)" using B(2) pow2_mono [of "binade q + 1" "e + 1"] by (simp add: e_def)
  then have "q * pow2 (52 - e) < pow2 (e + 1) * pow2 (52 - e)" by simp
  also have "\<dots> = of_int (2 ^ 53)" unfolding pow2_add [symmetric] by (simp add: pow2_of_int)
  finally have m2: "m \<le> 2 ^ 53" unfolding m_def by (intro round_even_le) simp
  have m0: "0 \<le> m" unfolding m_def using assms(1) by (intro round_even_ge) (simp add: less_imp_le)
  then show "0 \<le> round_even (q * pow2 (52 - e))" by (simp add: m_def)
  have m1: "2 ^ 52 \<le> m" if "- 1022 < e"
  proof -
    have "pow2 e \<le> q" using B(1) that by (auto simp: e_def max_def split: if_splits)
    then have "pow2 e * pow2 (52 - e) \<le> q * pow2 (52 - e)" by simp
    then show ?thesis unfolding pow2_add [symmetric] m_def by (intro round_even_ge) (simp add: pow2_of_int)
  qed
  define b where "b = m + (e + 1022) * 2 ^ 52"
  have e0: "0 \<le> e + 1022" by (simp add: e_def)
  have b: "0 \<le> b" "b < 2047 * 2 ^ 52" using m0 m2 e e0 by (simp_all add: b_def)
  have "encode False q = set_sign False (of_int (min b (2047 * 2 ^ 52)))"
    unfolding encode_def Let_def e_def [symmetric] m_def [symmetric] b_def using assms(1) by simp
  also have "min b (2047 * 2 ^ 52) = b" using b(2) by (intro min_absorb1) simp
  finally have enc: "encode False q = of_int b" by (simp add: set_sign_def)
  note F = dbl_fields [OF b]
  have d: "b div 2 ^ 52 = m div 2 ^ 52 + (e + 1022)" and f: "b mod 2 ^ 52 = m mod 2 ^ 52"
    unfolding b_def by (simp, rule mod_mult_self1)
  have t: "m div 2 ^ 52 \<in> {0, 1, 2}" using m0 m2 by auto
  have ex: "dbl_exp (encode False q) = nat (m div 2 ^ 52 + (e + 1022))" unfolding enc F d ..
  have fr: "dbl_frac (encode False q) = m mod 2 ^ 52" unfolding enc F f ..
  have "dbl_exp (encode False q) \<noteq> 2047" using t e unfolding ex by auto
  then show "\<not> is_nan (encode False q)" "\<not> is_inf (encode False q)" by (simp_all add: is_nan_def is_inf_def)
  show "\<not> dbl_neg (encode False q)" unfolding enc by (rule F(3))
  have dm: "m = 2 ^ 52 * (m div 2 ^ 52) + m mod 2 ^ 52" by simp
  show "dbl_mag (encode False q) = of_int (round_even (q * pow2 (52 - e))) * pow2 (e - 52)"
    unfolding m_def [symmetric]
  proof (cases "m div 2 ^ 52 = 0")
    case True
    then have "m < 2 ^ 52" using m0 m2 by (auto simp: zdiv_eq_0_iff)
    then have "e = - 1022" using m1 e0 by fastforce
    then show "dbl_mag (encode False q) = of_int m * pow2 (e - 52)"
      using True ex fr dm by (simp add: dbl_mag_def) (simp add: pow2_def)
  next
    case False
    then have nz: "dbl_exp (encode False q) \<noteq> 0" "int (dbl_exp (encode False q)) = m div 2 ^ 52 + (e + 1022)" using t e0 unfolding ex by auto
    have "(of_int (2 ^ 52 + m mod 2 ^ 52) :: rat) * pow2 (m div 2 ^ 52 + (e + 1022) - 1075) = of_int m * pow2 (e - 52)"
    proof (cases "m div 2 ^ 52 = 1")
      case True
      then have "2 ^ 52 + m mod 2 ^ 52 = m" using dm by simp
      then show ?thesis using True by simp
    next
      case c: False
      then have t2: "m div 2 ^ 52 = 2" using t False by auto
      then have m: "m = 2 ^ 53" "m mod 2 ^ 52 = 0" using dm m2 by (simp_all add: pos_mod_sign)
      have p: "pow2 (2 + (e + 1022) - 1075) = 2 * pow2 (e - 52)" using pow2_add [of 1 "e - 52"] by (simp add: pow2_def [of 1] algebra_simps)
      show ?thesis unfolding t2 p using m by simp
    qed
    then show "dbl_mag (encode False q) = of_int m * pow2 (e - 52)"
      unfolding dbl_mag_normal [OF nz(1)] fr nz(2) .
  qed
qed

lemma encode_bounded:
  assumes "0 \<le> q" "q \<le> of_int n" "n < 2 ^ 53"
  shows "\<not> is_nan (encode False q)" "\<not> is_inf (encode False q)" "\<not> dbl_neg (encode False q)" "0 \<le> dbl_mag (encode False q)"
    "dbl_mag (encode False q) \<le> of_int n"
proof -
  have "(of_int n :: rat) < of_int (2 ^ 53)" using assms(3) by (simp only: of_int_less_iff)
  then have q: "q < pow2 53" using assms(2) by (simp add: pow2_of_int)
  have all: "\<not> is_nan (encode False q) \<and> \<not> is_inf (encode False q) \<and> \<not> dbl_neg (encode False q) \<and> 0 \<le> dbl_mag (encode False q) \<and>
    dbl_mag (encode False q) \<le> of_int n"
  proof (cases "q = 0")
    case True
    have "encode False q = of_int 0" using True by (simp add: encode_def set_sign_def)
    then show ?thesis using dbl_fields [of 0] assms(2) True by (simp add: is_nan_def is_inf_def dbl_mag_def)
  next
    case False
    then have "0 < q" using assms(1) by simp
    note F = encode_finite [OF this q]
    define e where "e = max (binade q) (- 1022)"
    define m where "m = round_even (q * pow2 (52 - e))"
    note F = F [folded e_def, folded m_def]
    have "q * pow2 (52 - e) \<le> of_int n * pow2 (52 - e)" using assms(2) by simp
    also have "\<dots> = of_int (n * 2 ^ nat (52 - e))" using F(5) by (simp add: pow2_of_int)
    finally have "m \<le> n * 2 ^ nat (52 - e)" unfolding m_def by (rule round_even_le)
    then have "(of_int m :: rat) \<le> of_int (n * 2 ^ nat (52 - e))" by (simp only: of_int_le_iff)
    then have "of_int m * pow2 (e - 52) \<le> of_int (n * 2 ^ nat (52 - e)) * pow2 (e - 52)" by simp
    also have "of_int (n * 2 ^ nat (52 - e)) * pow2 (e - 52) = of_int n * (pow2 (52 - e) * pow2 (e - 52))"
      using F(5) by (simp add: pow2_of_int)
    also have "pow2 (52 - e) * pow2 (e - 52) = 1" unfolding pow2_add [symmetric] by (simp add: pow2_def)
    finally have "dbl_mag (encode False q) \<le> of_int n" unfolding F(4) by simp
    moreover have "0 \<le> dbl_mag (encode False q)" unfolding F(4) using F(6) by (simp add: less_imp_le)
    ultimately show ?thesis using F(1-3) by blast
  qed
  then show "\<not> is_nan (encode False q)" "\<not> is_inf (encode False q)" "\<not> dbl_neg (encode False q)" "0 \<le> dbl_mag (encode False q)"
    "dbl_mag (encode False q) \<le> of_int n" by blast+
qed

subsection \<open>The draws that do not depend on the approximation\<close>

text \<open>The constants.\<close>

lemma dbl_consts:
  "dbl_of_int 0 = 0" "dbl_of_int 1 = 0x3FF0000000000000" "dbl_of_int (- 1) = 0xBFF0000000000000" "dbl_of_int 40 = 0x4044000000000000"
  "dbl_of_u64 0xFFFFFFFFFFFF = 0x42EFFFFFFFFFFFE0"
  by code_simp+

lemma dbl_vals:
  "dbl_val (dbl_of_int 0) = 0" "dbl_val (dbl_of_int 1) = 1" "dbl_val (dbl_of_int (- 1)) = - 1" "dbl_val (dbl_of_int 40) = 40"
  "dbl_mag (dbl_of_u64 0xFFFFFFFFFFFF) = 0xFFFFFFFFFFFF"
  unfolding dbl_consts by (simp_all add: dbl_val_def dbl_mag_def dbl_exp_def dbl_frac_def dbl_neg_def)

lemma dbl_finite:
  "is_nan (dbl_of_int 0) = False" "is_nan (dbl_of_int 1) = False" "is_nan (dbl_of_int (- 1)) = False" "is_nan (dbl_of_int 40) = False"
  "is_inf (dbl_of_int 0) = False" "is_inf (dbl_of_int 1) = False" "is_inf (dbl_of_int (- 1)) = False" "is_inf (dbl_of_int 40) = False"
  unfolding dbl_consts by code_simp+

lemma deq_val: "deq x y \<Longrightarrow> \<not> is_inf y \<Longrightarrow> \<not> is_nan x \<and> \<not> is_inf x \<and> dbl_val x = dbl_val y"
  by (auto simp: deq_def split: if_splits)

definition zipf_plain :: "double \<Rightarrow> bool" where
  "zipf_plain theta \<longleftrightarrow> deq theta (dbl_of_int (- 1)) \<or> deq theta (dbl_of_int 0) \<or> dle (dbl_of_int 40) theta"

text \<open>For such a parameter neither the initialisation nor a draw calls the approximation of powers.\<close>

lemma plain_cases:
  assumes "zipf_plain theta"
  obtains (sweep) "deq theta (dbl_of_int (- 1))" "\<not> zipf_skewed theta" "\<not> dle (dbl_of_int 1) theta"
  | (uniform) "deq theta (dbl_of_int 0)" "\<not> zipf_skewed theta" "\<not> deq theta (dbl_of_int (- 1))" "\<not> dle (dbl_of_int 1) theta"
      "dle (dbl_of_int 0) theta" "dlt theta (dbl_of_int 1)"
  | (always) "dle (dbl_of_int 40) theta" "\<not> zipf_skewed theta" "\<not> deq theta (dbl_of_int (- 1))" "\<not> deq theta (dbl_of_int 0)"
      "\<not> dlt theta (dbl_of_int 40)"
proof -
  from assms consider (a) "deq theta (dbl_of_int (- 1))" | (b) "deq theta (dbl_of_int 0)" | (c) "dle (dbl_of_int 40) theta"
    unfolding zipf_plain_def by blast
  then show ?thesis
  proof cases
    case a
    from deq_val [OF this] have v: "\<not> is_nan theta" "\<not> is_inf theta" "dbl_val theta = - 1" by (simp_all add: dbl_finite dbl_vals)
    show ?thesis by (rule sweep [OF a]) (simp_all add: zipf_skewed_def dlt_def dle_def deq_def v dbl_finite dbl_vals)
  next
    case b
    from deq_val [OF this] have v: "\<not> is_nan theta" "\<not> is_inf theta" "dbl_val theta = 0" by (simp_all add: dbl_finite dbl_vals)
    show ?thesis by (rule uniform [OF b]) (simp_all add: zipf_skewed_def dlt_def dle_def deq_def v dbl_finite dbl_vals)
  next
    case c
    then have v: "\<not> is_nan theta" "is_inf theta \<longrightarrow> \<not> dbl_neg theta \<or> theta = dbl_of_int 40" "\<not> is_inf theta \<longrightarrow> 40 \<le> dbl_val theta"
      by (auto simp: dle_def dlt_def deq_def dbl_finite dbl_vals split: if_splits)
    have ne: "theta \<noteq> dbl_of_int 40" if "is_inf theta" using that dbl_finite(8) by auto
    show ?thesis
      by (rule always [OF c]) (use v ne in \<open>auto simp: zipf_skewed_def dlt_def dle_def deq_def dbl_finite dbl_vals\<close>)
  qed
qed

subsection \<open>Uniform draws\<close>

lemma dbl_of_u64_bounded:
  assumes "uint n < 2 ^ 53"
  shows "\<not> is_nan (dbl_of_u64 n)" "\<not> is_inf (dbl_of_u64 n)" "\<not> dbl_neg (dbl_of_u64 n)" "0 \<le> dbl_mag (dbl_of_u64 n)"
    "dbl_mag (dbl_of_u64 n) \<le> of_int (uint n)"
proof -
  have "(0 :: rat) \<le> of_int i" if "0 \<le> i" for i using that by simp
  note bounded = encode_bounded [OF this order_refl, of "uint n", folded dbl_of_u64_def]
  show "\<not> is_nan (dbl_of_u64 n)" "\<not> is_inf (dbl_of_u64 n)" "\<not> dbl_neg (dbl_of_u64 n)" "0 \<le> dbl_mag (dbl_of_u64 n)"
    "dbl_mag (dbl_of_u64 n) \<le> of_int (uint n)" by (rule bounded; use assms in simp)+
qed

lemma rand_d_bounded:
  assumes "mehcached_rand_d r = (u, r')"
  shows "\<not> is_nan u" "\<not> is_inf u" "\<not> dbl_neg u" "0 \<le> dbl_mag u" "dbl_mag u \<le> 1"
proof -
  define a where "a = (r * 0x5deece66d + 0xb) AND (push_bit 48 1 - 1)"
  have m: "(push_bit 48 1 - 1 :: u64) = mask 48" "(push_bit 48 1 - 1 :: u64) = 0xFFFFFFFFFFFF" by (simp_all add: mask_eq_exp_minus_1)
  have "uint a = uint (r * 0x5deece66d + 0xb) mod 2 ^ 48"
    unfolding a_def m(1) take_bit_eq_mask [symmetric] unsigned_take_bit_eq by (simp add: take_bit_eq_mod)
  then have a: "uint a < 2 ^ 48" by simp
  have "uint (0xFFFFFFFFFFFF :: u64) < 2 ^ 53" by simp
  note B = dbl_of_u64_bounded [OF this]
  have "uint a < 2 ^ 53" using a by simp
  note A = dbl_of_u64_bounded [OF this]
  define q where "q = dbl_mag (dbl_of_u64 a) / dbl_mag (dbl_of_u64 0xFFFFFFFFFFFF)"
  have "mehcached_rand_d r = (ddiv (dbl_of_u64 a) (dbl_of_u64 0xFFFFFFFFFFFF), a)"
    unfolding mehcached_rand_d_def Let_def a_def [symmetric] unfolding m(2) ..
  then have "u = ddiv (dbl_of_u64 a) (dbl_of_u64 0xFFFFFFFFFFFF)" using assms by simp
  then have u: "u = encode False q"
    using A(1-3) B(1-3) by (simp add: ddiv_def Let_def q_def dbl_vals(5))
  have "uint a \<le> 0xFFFFFFFFFFFF" using a by simp
  then have "of_int (uint a) \<le> (of_int 0xFFFFFFFFFFFF :: rat)" by (simp only: of_int_le_iff)
  then have "dbl_mag (dbl_of_u64 a) \<le> of_int 0xFFFFFFFFFFFF" using A(5) by (rule order_trans [rotated])
  then have "0 \<le> q" "q \<le> of_int 1" using A(4) by (simp_all add: q_def dbl_vals(5))
  from encode_bounded [OF this] show "\<not> is_nan u" "\<not> is_inf u" "\<not> dbl_neg u" "0 \<le> dbl_mag u" "dbl_mag u \<le> 1"
    unfolding u by simp_all
qed

lemma scaled_draw:
  assumes "mehcached_rand_d r = (u, r')" "uint n < 2 ^ 53"
  shows "\<exists>v. to_u64 (dmul (dbl_of_u64 n) u) = Inr v \<and> v \<le> n"
proof -
  note U = rand_d_bounded [OF assms(1)] and N = dbl_of_u64_bounded [OF assms(2)]
  define q where "q = dbl_mag (dbl_of_u64 n) * dbl_mag u"
  define x where "x = encode False q"
  have d: "dmul (dbl_of_u64 n) u = x" using U(1-3) N(1-3) by (simp add: dmul_def Let_def q_def x_def)
  have "0 \<le> q" "q \<le> of_int (uint n)"
    using U(4,5) N(4,5) mult_mono [OF N(5) U(5)] by (simp_all add: q_def)
  note x = encode_bounded [OF this assms(2), folded x_def]
  define k where "k = \<lfloor>dbl_mag x\<rfloor>"
  have k: "0 \<le> k" "k \<le> uint n" using x(4) floor_mono [OF x(5)] unfolding floor_of_int by (simp_all add: k_def)
  moreover have "uint n < 2 ^ 64" using assms(2) by simp
  moreover have "dbl_trunc x = k" using x(3) by (simp add: dbl_trunc_def k_def)
  ultimately have "to_u64 x = Inr (of_int k)" using x(1,2) by (simp add: to_u64_def)
  moreover have "uint (of_int k :: u64) = k" using k assms(2) by (simp add: uint_word_of_int)
  then have "(of_int k :: u64) \<le> n" using k(2) by (simp add: word_le_def)
  ultimately show ?thesis unfolding d by blast
qed

subsection \<open>The run of the generator\<close>

text \<open>A parameter that is not skewed: between two draws.\<close>

definition zipf_ready :: "u64 \<Rightarrow> double \<Rightarrow> zipf_gen_state \<Rightarrow> bool" where
  "zipf_ready n theta st \<longleftrightarrow> z_n st = n \<and> z_theta st = theta \<and> (z_last_n st = n \<longrightarrow> z_dbl_n st = dbl_of_u64 n) \<and>
     (deq theta (dbl_of_int (- 1)) \<longrightarrow> z_rand_state st < n)"

lemma plain_init:
  assumes "zipf_plain theta" "0 < n" "seed < push_bit 48 1"
  shows "\<exists>st. mehcached_zipf_init n theta seed = Inr st \<and> zipf_ready n theta st"
proof -
  have m: "seed mod n < n" using assms(2) by (simp add: word_less_nat_alt unat_mod)
  from assms(1) show ?thesis
    by (cases rule: plain_cases) (use assms(2,3) m in \<open>auto simp: mehcached_zipf_init_def zipf_ready_def Let_def\<close>)
qed

lemma plain_next:
  assumes "zipf_plain theta" "zipf_ready n theta st" "0 < n" "uint n < 2 ^ 53"
  shows "\<exists>v st'. mehcached_zipf_next st = Inr (v, st') \<and> zipf_ready n theta st' \<and> v \<le> n \<and> (\<not> deq theta (dbl_of_int 0) \<longrightarrow> v < n)"
proof -
  define s where "s = (if z_last_n st \<noteq> n then st\<lparr>z_last_n := n, z_dbl_n := dbl_of_u64 n\<rparr> else st)"
  have f: "z_n st = n" "z_theta st = theta" using assms(2) by (simp_all add: zipf_ready_def)
  have sk: "\<not> zipf_skewed theta" using assms(1) by (cases rule: plain_cases) simp_all
  have rf: "zipf_refresh st = Inr s" using sk by (simp add: zipf_refresh_def s_def f)
  have s: "zipf_ready n theta s" "z_n s = n" "z_theta s = theta" "z_dbl_n s = dbl_of_u64 n"
    using assms(2) by (auto simp: zipf_ready_def s_def)
  from assms(1) show ?thesis
  proof (cases rule: plain_cases)
    case sweep
    have "z_rand_state s < n" using s(1) sweep(1) by (simp add: zipf_ready_def)
    then show ?thesis using sweep(1) s assms(3) by (auto simp: mehcached_zipf_next_def rf Let_def zipf_ready_def not_le)
  next
    case uniform
    obtain u r where u: "mehcached_rand_d (z_rand_state s) = (u, r)" by fastforce
    from scaled_draw [OF u assms(4)] obtain v where "to_u64 (dmul (dbl_of_u64 n) u) = Inr v" "v \<le> n" by blast
    then show ?thesis using uniform(1,3) s u by (simp add: mehcached_zipf_next_def rf zipf_ready_def)
  next
    case always
    then show ?thesis using s assms(3) by (simp add: mehcached_zipf_next_def rf)
  qed
qed

lemma plain_draws:
  assumes "zipf_plain theta" "zipf_ready n theta st" "0 < n" "uint n < 2 ^ 53"
  shows "\<exists>vs. zipf_draws k st = Inr vs \<and> (\<forall>v \<in> set vs. v \<le> n \<and> (\<not> deq theta (dbl_of_int 0) \<longrightarrow> v < n))"
  using assms(2)
proof (induction k arbitrary: st)
  case (Suc k)
  from plain_next [OF assms(1) Suc.prems assms(3,4)] obtain v st' where
    v: "mehcached_zipf_next st = Inr (v, st')" "zipf_ready n theta st'" "v \<le> n \<and> (\<not> deq theta (dbl_of_int 0) \<longrightarrow> v < n)" by blast
  from Suc.IH [OF v(2)] v(1,3) show ?case by auto
qed simp

text \<open>A uniform draw can be \<open>n\<close> itself: the quotient is 1 for the largest state.\<close>

lemma rand_d_one: "mehcached_rand_d 142368275371844 = (dbl_of_int 1, 0xFFFFFFFFFFFF)"
proof -
  note B = dbl_of_u64_bounded [of "0xFFFFFFFFFFFF", simplified]
  have "ddiv (dbl_of_u64 0xFFFFFFFFFFFF) (dbl_of_u64 0xFFFFFFFFFFFF) = encode False 1"
    using B by (simp add: ddiv_def dbl_vals(5))
  then show ?thesis by (simp add: mehcached_rand_d_def dbl_of_int_def)
qed

lemma uniform_draw_n:
  "\<exists>st. mehcached_zipf_next \<lparr>z_n = 100, z_theta = 0, z_alpha = 0, z_thres = 0, z_last_n = 100, z_dbl_n = dbl_of_u64 100, z_zetan = 0, z_eta = 0,
     z_rand_state = 142368275371844\<rparr> = Inr (100, st)"
proof -
  have c: "dbl_of_u64 100 = 0x4059000000000000" by code_simp
  have z: "dbl_val 0 = 0" "is_nan 0 = False" "is_inf 0 = False" using dbl_vals(1) dbl_finite(1,5) by (simp_all add: dbl_consts)
  have "dmul 0x4059000000000000 0x3FF0000000000000 = encode False 100"
    by (simp add: dmul_def is_nan_def is_inf_def dbl_mag_def dbl_exp_def dbl_frac_def dbl_neg_def)
  then have "dmul (dbl_of_u64 100) (dbl_of_int 1) = dbl_of_u64 100" unfolding dbl_consts(2) c by (simp add: dbl_of_u64_def flip: c)
  moreover have "to_u64 0x4059000000000000 = Inr 100"
    by (simp add: to_u64_def is_nan_def is_inf_def dbl_trunc_def dbl_mag_def dbl_exp_def dbl_frac_def dbl_neg_def)
  ultimately show ?thesis
    by (simp add: mehcached_zipf_next_def zipf_refresh_def rand_d_one deq_def dbl_vals dbl_finite z c)
qed

end
