(* ===== verification/Benchmark.thy ===== *)
theory Benchmark
  imports Durability Zipf
begin

text \<open>
  The benchmark (\<open>test/newbench.cpp\<close>) as a client of the tree: the choice of operations, the load of
  the keys, and the loop over mixed operations with its counters, driven by the generators of \<open>test/zipf.h\<close>
  (the keys; theory \<open>Zipf\<close>) and \<open>test/uniform.h\<close> (the operations). The clocks and the printing are left out.
\<close>

subsection \<open>Arguments and operations\<close>

record bench_args =
  key_space :: u64
  op_num :: u64
  read_ratio :: "32 word"
  insert_ratio :: "32 word"
  update_ratio :: "32 word"
  delete_ratio :: "32 word"
  range_ratio :: "32 word"
  zipfian :: double
  cache_mb :: u64
  scan_len :: "32 word"





definition backend_pages :: "bench_args \<Rightarrow> u64" where
  "backend_pages k = max (64 * 1024) (key_space k div 8 + 1024)"


subsection \<open>The load\<close>


subsection \<open>Mixed operations\<close>





subsection \<open>The program\<close>


text \<open>The backend that \<open>main\<close> constructs, in the page view, and \<open>main\<close> after the arguments have been
  read. It returns 1 (here \<open>None\<close>) for ratios that do not add up; the destructor of the tree runs
  on the way out, and an exception of the constructor ends the program. The addresses of the pool and of the super root
  and the size of the cool tier, which is computed with doubles, are parameters as in the constructors.\<close>

definition bench_backend :: "bench_args \<Rightarrow> page pstore" where
  "bench_backend k = \<lparr>ps_capacity = backend_pages k * PAGE_SIZE, ps_cur = PAGE_SIZE, ps_page = (\<lambda>_. zero_page)\<rparr>"

lemma bench_backend_view:
  "ps_capacity (bench_backend k) = ps_capacity (page_view (InMemoryBackend (backend_pages k)))"
  "ps_cur (bench_backend k) = ps_cur (page_view (InMemoryBackend (backend_pages k)))"
  by (simp_all add: bench_backend_def page_view_def InMemoryBackend_def)


subsection \<open>The same run on a plain map\<close>





subsection \<open>The choice of operations\<close>


subsection \<open>The load\<close>





subsection \<open>Scanning within the budget\<close>



subsection \<open>Mixed operations\<close>












subsection \<open>The whole run\<close>








subsection \<open>Properties\<close>




end
