(* ===== verification/Spec2Isabelle.thy ===== *)
theory Spec2Isabelle
  imports ColdApi SplitFaults TreeShape Statistics Benchmark
begin

text \<open>
  caching_dex: a B+-tree whose pages live in a disaggregated page store, behind a LeanStore-style
  buffer pool with pointer swizzling. A child slot of an inner page holds either the backend
  address of the child or, with bit 63 set, the pool slot the child sits in; sampling demotes
  random pages to a cool tier and evicts them from there. All locks of the original are commented
  out in the sources under \<open>src/\<close>, so the program is sequential: each public function is
  modelled as a function from arguments and state to a result and a state.

  Model. Every pointer and address is a 64-bit word with its wrap-around and its tag bits; counts
  and levels, which the code checks against small capacities, are naturals. The memory of the
  process is a function from addresses to pages, so that aliasing (a child slot, the page table, the
  cool tier and a parent pointer all naming one pool slot) is explicit. State is a chain of records,
  each extending the last as the code reaches further: \<open>world\<close> (memory, backend), \<open>tables\<close>
  (page table and cool tier), \<open>cache\<close> (\<open>CacheManager\<close>, its thread-local free list and the pool), \<open>tree\<close>
  (\<open>LeanStoreTree\<close>). An operation that can fail returns \<open>failure + result\<close>; the failures are a
  failed assertion, \<open>exit(0)\<close>, a loop whose condition can no longer change, an undefined step (an access
  outside an array or to an address that is no page, a conversion of a double that does not fit), a division by zero, and used-up fuel. Parameters stand for what is not under \<open>src/\<close>: the
  record \<open>env\<close> holds the C++ library's hash and the stream of random draws, \<open>mmap\<close> and
  \<open>new\<close> enter as the addresses they return.

  Theories and sources, bottom up.

    \<^item> \<open>Prelude\<close>: failures and their sequencing, block moves on arrays, sorted key arrays, bits.
    \<^item> \<open>GlobalAddr\<close> (\<open>include/GlobalAddress.h\<close>, \<open>include/Types.h\<close>): the packed
      address, the swizzle tag, the constants.
    \<^item> \<open>Backend\<close> (\<open>include/memory/\<close>): the locale \<open>page_backend\<close> for the abstract class, the
      bytes of \<open>InMemoryBackend\<close>, and the refinement to the page view that the cache uses.
    \<^item> \<open>NodeBase\<close>, \<open>LeafNode\<close>, \<open>InnerNode\<close> (\<open>include/cache/BtreeNode.h\<close>): the page
      record; search, insertion, removal, scan and split of leaves and inner pages with the limits,
      and the bitmap of swizzled children with its probe. A leaf is shown to be a finite map, an
      inner page to route each key to one child.
    \<^item> \<open>NodeWR\<close> (\<open>include/cache/NodeWR.h\<close>): page reads and writes, unswizzling, the sampler's
      walks, the consistency checks.
    \<^item> \<open>PageTable\<close>, \<open>HashTable\<close> (\<open>include/tree/PageTable.h\<close>, \<open>HashTable.h\<close>): the page
      table as a map from backend addresses to slots, the cool tier as buckets that are bounded
      queues, and the eviction that keeps both in step.
    \<^item> \<open>Allocator\<close> (\<open>util/CacheAllocator.h\<close>): the slots of the pool.
    \<^item> \<open>Cache\<close> (\<open>include/cache/LeanStoreCache.h\<close>): \<open>CacheManager\<close> as the driver uses it:
      allocation, admission, sampling, demotion, the search for a free slot, flushing, resetting.
      \<open>ColdPath\<close>: the rest of it, the miss path by page table (\<open>cache_get\<close>, \<open>cold_to_hot\<close> and
      variants), one-sided access to leaves that admission control rejects, and the replacement of
      an outdated page.
    \<^item> \<open>Residency\<close>: the abstraction. A view gives each backend address a logical node, in which
      children are backend addresses; \<open>residency\<close> says that each page, in its slot if it is in the
      pool and otherwise as its image in the backend, is that node, and that swizzled children,
      parent pointers and bitmaps agree. \<open>CacheInv\<close>: the invariant \<open>cache_inv\<close> of the whole
      cache (residency, page table, cool tier, free list and the states of slots), the stock of slots,
      and the cool tier's and demotion's preservation of both. \<open>Eviction\<close>: the same for sampling
      and \<open>get_empty_page\<close>, the termination of that search, and the draws for which it succeeds.
    \<^item> \<open>Tree\<close> (\<open>include/tree/LeanStoreTree.h\<close>): the driver. \<open>Growth\<close>: the potential that bounds the
      pages of a tree by its insertions, and the census, which says that the driver's root address,
      height and numbers of leaves and inner nodes are those of the view. \<open>TreeOps\<close>: loading a child keeps
      the view, the descent ends at the leaf the view routes to, lookup, update, removal and scan
      act on the map of the view. \<open>TreeView\<close>: well-formed views. \<open>SplitView\<close>, \<open>SplitResidency\<close>,
      \<open>SplitStep\<close>, \<open>SplitChild\<close>: cutting a node on views and in the pool, its price, and the
      four cases of \<open>split_child\<close> and \<open>make_new_root\<close>. \<open>TreeInsert\<close>: the descent of an insertion that splits full pages on
      its way. \<open>TreeInit\<close>: the constructors.
    \<^item> \<open>TreeApi\<close> (\<open>include/TreeAPI.h\<close>): the interface as the locale \<open>tree_api\<close>, with the tree as
      its interpretation; sequences of operations against a plain map. \<open>TreeShape\<close>: the typing of
      pool pointers and child slots. \<open>SplitFaults\<close>: what \<open>split_child\<close> does outside the states in
      which \<open>TreeInsert\<close> shows it correct.
    \<^item> \<open>OneSided\<close>, \<open>ColdApi\<close>: what the miss path does to the tree and to the page table.
      \<open>Flush\<close>: what \<open>flush_all\<close> and \<open>reset\<close> leave. \<open>RemoteBtree\<close> (\<open>include/cache/Btree.h\<close>):
      the one-sided walks over the memory of one node. \<open>Durability\<close>: the two together; the tree
      that the destructor leaves in the backend, read by the one-sided walks.
    \<^item> \<open>Statistics\<close> (\<open>statistic_in_buffer\<close> of \<open>LeanStoreCache.h\<close>, \<open>include/Stats.h\<close>): the census of the
      pool and the counters with the hit rate.
    \<^item> \<open>Zipf\<close> (\<open>test/zipf.h\<close>): the generator of keys, with doubles as bit patterns and IEEE-754 arithmetic on
      them, and where its draws lie for the parameters that need no power.
    \<^item> \<open>Benchmark\<close> (\<open>test/newbench.cpp\<close>, \<open>test/uniform.h\<close>): the load and the mixed operations, as a
      client of the tree from its constructors through its destructor, against the same run on a plain map.

  What the properties show. The driver: any sequence of insertions, lookups, updates and removals
  answers as a map does, whatever is split, loaded, demoted and evicted on the way; without a
  budget, the only other outcome is the \<open>exit(0)\<close> in the sampler, and only insertions that split
  an inner page need pool slots that were never used; with a budget of such slots and of backend
  pages every command returns. When that exit happens is settled for each sequence of draws (C19, and liveness, below). From the constructors through the destructor, the backend ends up
  holding the map that the program built, and the one-sided lookup reads it there; the benchmark is such
  a program. In every state on the way each page of the pool has the layout of its type tag, and each child slot
  refers to a page one level below with the limits of the slot, so that the casts of the driver
  are right. The locales are
  \<open>page_backend\<close>, \<open>node_search\<close>, the map of the page table, the queue of a bucket and \<open>tree_api\<close>; each is
  interpreted on the modelled code in the theory that provides it. The remaining properties are the
  functional behaviour of the parts on every branch, their bounds and their failures.

  Bounds and fuel. Levels are bytes and decrease on the way down, so \<open>walk_fuel\<close> and \<open>dsm_fuel\<close>,
  256, are enough for the sampler's walk, the descents of the driver and the one-sided walks (C22,
  C1, C35 and C36 show that they end). The load of the benchmark gets one unit of fuel per key and one more. \<open>sample_page\<close> has the code's own counter: its 1000th turn
  is \<open>exit(0)\<close>. The search for a free slot ends within \<open>get_empty_fuel\<close>, one turn per slot of the
  pool and one more, because a turn that finds no slot demotes two hot pages. The invariant keeps
  the levels of pages below 255, the level of the super root.

  Budget. Full pages are split and pages are never merged, so the pages of a tree are bounded by
  what was ever inserted, not by what it holds. \<open>Growth\<close> weighs each node by 14 plus the
  entries it holds beyond half; a split does not raise the sum, an insertion raises it by one. So
  \<open>n\<close> insertions into a fresh tree need at most \<open>n / 14 + 1\<close> pages, and \<open>n / 14 + 49\<close> pool slots
  and \<open>n / 14 + 17\<close> free backend pages are enough for them and any number of other commands
  (a last insertion may transiently need a slot or a page per level and a few more; a second potential
  with weights \<open>28 ^ level\<close> keeps the root at level 13 or below). The benchmark's backend,
  \<open>key_space / 8 + 1024\<close> pages, therefore has room for its load (C7); its default pool, 16384 slots for
  a million keys, has not.

  Liveness. \<open>sample_page\<close> gives up, and ends the program, after 999 turns that demoted nothing. C19 says
  for any draws exactly when: when none of the 999 drawn slots \<open>yields\<close> a page, where a slot with a page in use
  yields the one at which the walk from it ends, unless that is pinned or the root. With at most one page pinned, all but
  256 of the slots in use do, one page per level at most being the pinned one, the root or above it; no page stays pinned
  between two operations (\<open>calm\<close>), and slots are never lost (\<open>stock\<close>). The code gives no guarantee beyond
  that, and none is assumed: what the driver's properties say of runs without a budget has the exit as an outcome.
  The clauses on \<open>live\<close> and \<open>big_pool\<close> in C1, C4 and C5 are for a stream of draws of which any 999 in a row
  meet every set of \<open>m\<close> slots (\<open>fair_draws\<close>), with \<open>m\<close> 258 below the slots outside the cool tier. Since 999
  draws meet at most 999 slots, such an \<open>m\<close> leaves out at most 998 slots: those clauses speak of pools whose cool tier has at most 740 frames, and not
  of the default pool of 16384 slots with a tenth of them cooling; and \<open>fair_draws\<close> is an assumption, not a property of the generator.

  Not modelled. \<open>get_node_statistic\<close>, \<open>Stats::print\<close> and the stream output of addresses only print (of
  \<open>get_statistic\<close> and \<open>statistic_in_buffer\<close> the printed numbers are modelled). Of \<open>test/\<close>, the parsing of arguments,
  the clocks and the printing, \<open>mehcached_test_zipf\<close> included. The powers that \<open>Zipf\<close> approximates for a skewed
  parameter are computed as the code does, and no property says where those draws lie. The bytes that \<open>statistic_in_buffer\<close> reads as a header in the middle of a slot are
  a parameter too, since a page is a record here. The destructors of \<open>CacheAllocator\<close> and of the tables release memory and nothing
  else. Exhaustion of the heap by \<open>new\<close> is not considered. Exhaustion of the backend, for which the code does not
  check, is excluded by the budget, and C13 shows what it leads to.

  What modelling showed. The successor link of a leaf is lost at a split (C17), \<open>range_scan\<close> never
  leaves the leaf of its start key (C8), \<open>random_select\<close> can pick the slot that has not been handed
  out yet (C33), the one-argument \<open>PageTable::remove\<close> matches free frames and then damages the bucket, or loses the entry of another address (C34), a reset of the pool cuts the
  driver off from the tree and hands out free slots of the thread's list twice (C11), \<open>cache_get\<close> without IO leaves a flag behind that the next call takes
  for a page (C39), a page that a refused miss has read marks its free slot as dirty (C37), and the
  one-sided insert refuses a full leaf even when it holds the key (C36). A split of an inner page on a
  full pool can let the sampler demote a child that has moved to the sibling but not yet been re-pointed
  (C12), a split on an exhausted backend links the null address into the tree (C13),
  \<open>statistic_in_buffer\<close> counts a free slot twice (C40), the value of an insertion of the benchmark
  depends on the compiler, and a Zipf draw can be \<open>key_space\<close>, one past its range (C7).
\<close>

end
